(* ===== verification/Laminar_Prelude.thy ===== *)
theory Laminar_Prelude
  imports Main "HOL-Library.AList" "HOL-Library.Signed_Division" "HOL-Library.Word"
    "HOL-Library.Multiset"
begin

text \<open>
  Shared vocabulary of the development.

  \<^item> Rust's \<^verbatim>\<open>i64\<close> is \<^typ>\<open>int\<close>. The bounds are named, \<^verbatim>\<open>saturating_add\<close>,
    \<^verbatim>\<open>saturating_sub\<close> and \<^verbatim>\<open>saturating_mul\<close> clamp, and plain \<^verbatim>\<open>+\<close>, \<^verbatim>\<open>-\<close> and \<^verbatim>\<open>*\<close> of the
    release profile (which sets no overflow checks) are followed by \<^verbatim>\<open>wrap64\<close> wherever a
    result can leave the range. Rust's division truncates towards zero (\<^verbatim>\<open>sdiv\<close>).
  \<^item> A \<^verbatim>\<open>HashMap\<close> is an association list with distinct keys. Its order is the order in which
    an iteration visits the entries. Rust leaves that order unspecified, and no statement
    fixes it: statements quantify over the list.
  \<^item> \<^verbatim>\<open>combine_active\<close> is the combination rule that the watermark trackers share: the least
    watermark of the active inputs, or the greatest watermark if every input is idle.
\<close>

section \<open>Collections of facts\<close>

named_theorems i64_simps \<open>unfoldings of the 64-bit integer operations\<close>
named_theorems wm_defs \<open>unfoldings of watermark operations\<close>

section \<open>64-bit signed integers\<close>

type_synonym i64 = int

definition i64_min :: i64 where
  "i64_min = - (2 ^ 63)"

definition i64_max :: i64 where
  "i64_max = 2 ^ 63 - 1"

definition in_i64 :: "int \<Rightarrow> bool" where
  "in_i64 x \<longleftrightarrow> i64_min \<le> x \<and> x \<le> i64_max"

definition clamp64 :: "int \<Rightarrow> i64" where
  "clamp64 x = max i64_min (min i64_max x)"

definition saturating_add :: "i64 \<Rightarrow> i64 \<Rightarrow> i64" where
  "saturating_add a b = clamp64 (a + b)"

definition saturating_sub :: "i64 \<Rightarrow> i64 \<Rightarrow> i64" where
  "saturating_sub a b = clamp64 (a - b)"

definition saturating_mul :: "i64 \<Rightarrow> i64 \<Rightarrow> i64" where
  "saturating_mul a b = clamp64 (a * b)"

definition wrap64 :: "int \<Rightarrow> i64" where
  "wrap64 x = (x + 2 ^ 63) mod 2 ^ 64 - 2 ^ 63"

lemmas i64_bounds [i64_simps] = i64_min_def i64_max_def in_i64_def
lemmas saturating_defs [i64_simps] =
  clamp64_def saturating_add_def saturating_sub_def saturating_mul_def

lemma i64_min_lt_max [simp]: "i64_min < i64_max"
  by (simp add: i64_simps)

lemma i64_min_le_max [simp]: "i64_min \<le> i64_max"
  by (simp add: i64_simps)

lemma i64_min_neq_max [simp]: "i64_min \<noteq> i64_max" "i64_max \<noteq> i64_min"
  by (simp_all add: i64_simps)

lemma in_i64_min [simp]: "in_i64 i64_min"
  by (simp add: i64_simps)

lemma in_i64_max [simp]: "in_i64 i64_max"
  by (simp add: i64_simps)

lemma in_i64_le_max [dest]: "in_i64 x \<Longrightarrow> x \<le> i64_max"
  by (simp add: in_i64_def)

lemma in_i64_ge_min [dest]: "in_i64 x \<Longrightarrow> i64_min \<le> x"
  by (simp add: in_i64_def)

lemma in_i64_clamp64 [simp]: "in_i64 (clamp64 x)"
  by (simp add: i64_simps)

lemma clamp64_id [simp]: "in_i64 x \<Longrightarrow> clamp64 x = x"
  by (simp add: in_i64_def clamp64_def)

lemma clamp64_mono: "x \<le> y \<Longrightarrow> clamp64 x \<le> clamp64 y"
  by (simp add: clamp64_def max_def min_def)

lemma in_i64_saturating [simp]:
  "in_i64 (saturating_add a b)" "in_i64 (saturating_sub a b)" "in_i64 (saturating_mul a b)"
  by (simp_all add: saturating_add_def saturating_sub_def saturating_mul_def)

lemma saturating_sub_mono: "a \<le> b \<Longrightarrow> saturating_sub a d \<le> saturating_sub b d"
  by (simp add: saturating_sub_def clamp64_mono)

lemma saturating_sub_le: "in_i64 a \<Longrightarrow> 0 \<le> d \<Longrightarrow> saturating_sub a d \<le> a"
  by (simp add: i64_simps)

lemma saturating_sub_exact: "in_i64 (a - b) \<Longrightarrow> saturating_sub a b = a - b"
  by (simp add: saturating_sub_def)

lemma saturating_add_exact: "in_i64 (a + b) \<Longrightarrow> saturating_add a b = a + b"
  by (simp add: saturating_add_def)

lemma wrap64_id [simp]: "in_i64 x \<Longrightarrow> wrap64 x = x"
  by (simp add: wrap64_def i64_simps)

lemma in_i64_wrap64 [simp]: "in_i64 (wrap64 x)"
proof -
  have "0 \<le> (x + 2 ^ 63) mod 2 ^ 64" "(x + 2 ^ 63) mod 2 ^ 64 < 2 ^ 64"
    by simp_all
  then show ?thesis
    by (simp add: wrap64_def i64_simps)
qed

section \<open>Bytes and orderings\<close>

type_synonym bytes = "8 word list"

datatype ordering = Less | Equal | Greater

definition cmp_ord :: "'a::linorder \<Rightarrow> 'a \<Rightarrow> ordering" where
  "cmp_ord a b = (if a < b then Less else if a = b then Equal else Greater)"

lemma cmp_ord_simps [simp]:
  "cmp_ord a b = Less \<longleftrightarrow> a < b" "cmp_ord a b = Equal \<longleftrightarrow> a = b" "cmp_ord a b = Greater \<longleftrightarrow> b < a"
  by (auto simp: cmp_ord_def)

section \<open>Truncating division\<close>

lemma sdiv_nonneg: "0 \<le> a \<Longrightarrow> 0 < b \<Longrightarrow> (a::int) sdiv b = a div b"
  by (cases "a = 0") (simp_all add: signed_divide_int_def)

lemma sdiv_neg: "a < 0 \<Longrightarrow> 0 < b \<Longrightarrow> (a::int) sdiv b = - ((- a) div b)"
  by (simp add: signed_divide_int_def)

text \<open>
  The idiom \<^verbatim>\<open>(a - s + 1) / s\<close> for a negative \<^verbatim>\<open>a\<close> computes the floor quotient with a division
  that truncates.
\<close>

lemma sdiv_floor_idiom:
  fixes a s :: int
  assumes "a < 0" "0 < s"
  shows "(a - s + 1) sdiv s = a div s"
proof -
  have "s - 1 - a = s * (- (a div s)) + (s - 1 - a mod s)"
    by (simp add: minus_mod_eq_mult_div [symmetric])
  moreover have "0 \<le> s - 1 - a mod s" "s - 1 - a mod s < s"
    using pos_mod_sign [of s a] pos_mod_bound [of s a] assms(2) by linarith+
  ultimately have "(s - 1 - a) div s = - (a div s)"
    by (rule int_div_pos_eq)
  then show ?thesis
    using assms by (simp add: sdiv_neg algebra_simps)
qed

section \<open>Wrapping subtraction of \<^verbatim>\<open>usize\<close>\<close>

definition usize_sub :: "nat \<Rightarrow> nat \<Rightarrow> nat" where
  "usize_sub a b = (if b \<le> a then a - b else a + 2 ^ 64 - b)"

lemma usize_sub_le [simp]: "b \<le> a \<Longrightarrow> usize_sub a b = a - b"
  by (simp add: usize_sub_def)

section \<open>Vectors\<close>

text \<open>\<^verbatim>\<open>Iterator::min_by_key\<close> returns the first of the least elements.\<close>

fun min_by_key :: "('a \<Rightarrow> 'b::linorder) \<Rightarrow> 'a list \<Rightarrow> 'a option" where
  "min_by_key f [] = None"
| "min_by_key f (x # xs) =
     (case min_by_key f xs of None \<Rightarrow> Some x | Some y \<Rightarrow> Some (if f y < f x then y else x))"

lemma min_by_key_None [simp]: "min_by_key f xs = None \<longleftrightarrow> xs = []"
  by (cases xs) (auto split: option.splits)

lemma min_by_key_Some: "min_by_key f xs = Some x \<Longrightarrow> x \<in> set xs \<and> (\<forall>y \<in> set xs. f x \<le> f y)"
proof (induction xs arbitrary: x)
  case (Cons a xs)
  then show ?case
  proof (cases "min_by_key f xs")
    case (Some y)
    then show ?thesis using Cons.IH [OF Some] Cons.prems by (auto split: if_splits)
  qed simp
qed simp

text \<open>\<^verbatim>\<open>Iterator::position\<close> and \<^verbatim>\<open>Vec::swap_remove\<close> (at an index in range).\<close>

definition position :: "('a \<Rightarrow> bool) \<Rightarrow> 'a list \<Rightarrow> nat option" where
  "position P xs =
     (let i = length (takeWhile (\<lambda>x. \<not> P x) xs) in if i < length xs then Some i else None)"

definition swap_remove :: "nat \<Rightarrow> 'a list \<Rightarrow> 'a list" where
  "swap_remove i xs = (butlast xs)[i := last xs]"

lemma position_Some:
  assumes "position P xs = Some i"
  shows "i < length xs" "P (xs ! i)"
  using assms nth_length_takeWhile [of "\<lambda>x. \<not> P x" xs]
  by (auto simp: position_def Let_def split: if_splits)

lemma position_None: "position P xs = None \<longleftrightarrow> (\<forall>x \<in> set xs. \<not> P x)"
proof -
  have "length (takeWhile (\<lambda>x. \<not> P x) xs) = length xs \<longleftrightarrow> takeWhile (\<lambda>x. \<not> P x) xs = xs"
    by (metis append_Nil2 append_eq_append_conv takeWhile_dropWhile_id)
  then show ?thesis
    using length_takeWhile_le [of "\<lambda>x. \<not> P x" xs]
    by (auto simp: position_def Let_def takeWhile_eq_all_conv)
qed

lemma length_swap_remove [simp]: "length (swap_remove i xs) = length xs - 1"
  by (simp add: swap_remove_def)

lemma mset_swap_remove:
  assumes "i < length xs"
  shows "mset xs = add_mset (xs ! i) (mset (swap_remove i xs))"
proof (cases "i = length xs - 1")
  case True
  have "xs \<noteq> []" using assms by auto
  then have "butlast xs @ [xs ! i] = xs" using True by (metis append_butlast_last_id last_conv_nth)
  then have "mset xs = mset (butlast xs @ [xs ! i])" by simp
  moreover have "swap_remove i xs = butlast xs"
    using True by (simp add: swap_remove_def list_update_beyond)
  ultimately show ?thesis by simp
next
  case False
  then have i: "i < length (butlast xs)" using assms by simp
  have "xs \<noteq> []" using assms by auto
  then have "mset xs = add_mset (last xs) (mset (butlast xs))"
    by (metis add_mset_add_single append_butlast_last_id mset_append mset.simps)
  moreover have "mset (swap_remove i xs) = add_mset (last xs) (mset (butlast xs) - {#butlast xs ! i#})"
    using i by (simp add: swap_remove_def mset_update)
  moreover have "butlast xs ! i = xs ! i" using i by (simp add: nth_butlast)
  moreover have "butlast xs ! i \<in># mset (butlast xs)" using i by (simp add: nth_mem)
  ultimately show ?thesis by simp
qed

lemma zip_swap_remove:
  assumes "length xs = length ys" "i < length xs"
  shows "zip (swap_remove i xs) (swap_remove i ys) = swap_remove i (zip xs ys)"
proof -
  have "zip (butlast xs) (butlast ys) = butlast (zip xs ys)"
    using assms(1) by (simp add: butlast_conv_take take_zip)
  moreover have "last (zip xs ys) = (last xs, last ys)"
    using assms by (intro last_zip) auto
  ultimately show ?thesis
    using update_zip [of "butlast xs" "butlast ys" i "(last xs, last ys)"]
    by (simp add: swap_remove_def)
qed

section \<open>Hash maps as association lists\<close>

type_synonym ('k, 'v) hashmap = "('k \<times> 'v) list"

definition wf_map :: "('k, 'v) hashmap \<Rightarrow> bool" where
  "wf_map m \<longleftrightarrow> distinct (map fst m)"

definition contains_key :: "('k, 'v) hashmap \<Rightarrow> 'k \<Rightarrow> bool" where
  "contains_key m k \<longleftrightarrow> map_of m k \<noteq> None"

text \<open>A pass over \<^verbatim>\<open>values_mut\<close>.\<close>

definition map_vals :: "('v \<Rightarrow> 'v) \<Rightarrow> ('k, 'v) hashmap \<Rightarrow> ('k, 'v) hashmap" where
  "map_vals f m = map (\<lambda>(k, v). (k, f v)) m"

lemma wf_map_Nil [simp]: "wf_map []"
  by (simp add: wf_map_def)

lemma wf_map_update [simp]: "wf_map (AList.update k v m) = wf_map m"
proof -
  have "distinct (map fst (AList.update k v m)) = distinct (map fst m)"
    by (auto simp: AList.update_keys)
  then show ?thesis by (simp add: wf_map_def)
qed

lemma wf_map_delete [simp]: "wf_map m \<Longrightarrow> wf_map (AList.delete k m)"
  by (simp add: wf_map_def distinct_delete)

lemma wf_map_map_entry [simp]: "wf_map (AList.map_entry k f m) = wf_map m"
  by (induction m) (auto simp: wf_map_def AList.dom_map_entry)

lemma map_fst_map_vals [simp]: "map fst (map_vals f m) = map fst m"
  by (induction m) (auto simp: map_vals_def)

lemma wf_map_map_vals [simp]: "wf_map (map_vals f m) = wf_map m"
  by (simp add: wf_map_def)

lemma map_of_map_vals: "map_of (map_vals f m) k = map_option f (map_of m k)"
  by (induction m) (auto simp: map_vals_def)

lemma map_of_delete_other: "k' \<noteq> k \<Longrightarrow> map_of (AList.delete k m) k' = map_of m k'"
  by (simp add: AList.delete_conv')

lemma map_of_delete_same [simp]: "map_of (AList.delete k m) k = None"
  by (simp add: AList.delete_conv')

lemma map_of_update [simp]:
  "map_of (AList.update k v m) k' = (if k' = k then Some v else map_of m k')"
  by (simp add: AList.update_conv')

lemma map_of_map_entry [simp]:
  "map_of (AList.map_entry k f m) k' =
     (if k' = k then map_option f (map_of m k) else map_of m k')"
  by (induction m) auto

lemma length_update_existing:
  "map_of m k = Some v \<Longrightarrow> length (AList.update k v' m) = length m"
  by (induction m) auto

lemma count_update_existing:
  "\<lbrakk>wf_map m; map_of m k = Some v\<rbrakk> \<Longrightarrow>
     length (filter (\<lambda>(_, x). P x) (AList.update k v' m)) + (if P v then 1 else 0) =
     length (filter (\<lambda>(_, x). P x) m) + (if P v' then 1 else 0)"
proof (induction m)
  case (Cons a m)
  then show ?case by (cases a) (auto simp: wf_map_def split: if_splits)
qed simp

lemma update_new: "map_of m k = None \<Longrightarrow> AList.update k v m = m @ [(k, v)]"
  by (induction m) (auto split: if_splits)

lemma fold_update_fresh:
  assumes "distinct (map k xs)" "\<And>x. x \<in> set xs \<Longrightarrow> map_of m (k x) = None"
  shows "fold (\<lambda>x. AList.update (k x) (v x)) xs m = m @ map (\<lambda>x. (k x, v x)) xs"
  using assms
proof (induction xs arbitrary: m)
  case (Cons x xs)
  have "map_of (m @ [(k x, v x)]) (k y) = None" if y: "y \<in> set xs" for y
  proof -
    have "k y \<noteq> k x" using Cons.prems(1) y by (metis distinct.simps(2) image_eqI list.set_map list.simps(9))
    moreover have "map_of m (k y) = None" using Cons.prems(2) y by simp
    ultimately show ?thesis by (simp add: map_add_def)
  qed
  then show ?case using Cons.prems Cons.IH [of "m @ [(k x, v x)]"] by (simp add: update_new)
qed simp

lemma length_update_new:
  "map_of m k = None \<Longrightarrow> length (AList.update k v m) = Suc (length m)"
  by (simp add: update_new)

lemma length_delete_existing:
  "\<lbrakk>wf_map m; map_of m k = Some v\<rbrakk> \<Longrightarrow> Suc (length (AList.delete k m)) = length m"
proof (induction m)
  case (Cons a m)
  show ?case
  proof (cases "fst a = k")
    case True
    then have "k \<notin> fst ` set m" using Cons.prems(1) by (auto simp: wf_map_def)
    then have "AList.delete k m = m" by (simp add: AList.delete_id)
    then show ?thesis using True by (cases a) simp
  next
    case False
    then show ?thesis using Cons by (cases a) (auto simp: wf_map_def)
  qed
qed simp

lemma count_pos_existing:
  "map_of m k = Some v \<Longrightarrow> P v \<Longrightarrow> 0 < length (filter (\<lambda>(_, x). P x) m)"
  by (induction m) (auto split: if_splits)

lemma length_map_entry [simp]: "length (AList.map_entry k f m) = length m"
  by (induction m) auto

lemma count_map_entry:
  assumes "\<And>v. P (f v) = P v"
  shows "length (filter (\<lambda>(_, x). P x) (AList.map_entry k f m)) = length (filter (\<lambda>(_, x). P x) m)"
proof (induction m)
  case (Cons a m)
  then show ?case using assms [of "snd a"] by (cases a) simp
qed simp

lemma map_entry_eq_update:
  "\<lbrakk>wf_map m; map_of m k = Some v\<rbrakk> \<Longrightarrow> AList.map_entry k f m = AList.update k (f v) m"
proof (induction m)
  case (Cons a m)
  then show ?case by (cases a) (auto simp: wf_map_def)
qed simp

lemma map_entry_None: "map_of m k = None \<Longrightarrow> AList.map_entry k f m = m"
  by (induction m) (auto split: if_splits)

lemma map_vals_idem: "(\<And>k v. (k, v) \<in> set m \<Longrightarrow> f v = v) \<Longrightarrow> map_vals f m = m"
proof -
  assume "\<And>k v. (k, v) \<in> set m \<Longrightarrow> f v = v"
  then have "map (\<lambda>(k, v). (k, f v)) m = map id m" by (intro map_cong) auto
  then show ?thesis by (simp add: map_vals_def)
qed

lemma wf_map_in_set: "wf_map m \<Longrightarrow> (k, v) \<in> set m \<longleftrightarrow> map_of m k = Some v"
  by (simp add: wf_map_def)

section \<open>Combining the watermarks of several inputs\<close>

text \<open>
  The trackers keep one watermark and one idle flag per input. They scan the inputs once,
  starting from \<^verbatim>\<open>i64::MAX\<close>, and fall back to the greatest watermark when nothing is active.
\<close>

fun scan_active :: "(bool \<times> i64) list \<Rightarrow> i64 \<times> bool \<Rightarrow> i64 \<times> bool" where
  "scan_active [] acc = acc"
| "scan_active ((idle, w) # xs) (m, has) =
     scan_active xs (if idle then (m, has) else (min m w, True))"

fun list_max :: "i64 list \<Rightarrow> i64 option" where
  "list_max [] = None"
| "list_max (x # xs) = Some (fold max xs x)"

fun list_min :: "i64 list \<Rightarrow> i64 option" where
  "list_min [] = None"
| "list_min (x # xs) = Some (fold min xs x)"

definition unwrap_or :: "'a option \<Rightarrow> 'a \<Rightarrow> 'a" where
  "unwrap_or x d = (case x of None \<Rightarrow> d | Some y \<Rightarrow> y)"

definition combine_active :: "(bool \<times> i64) list \<Rightarrow> i64" where
  "combine_active xs =
     (let (m, has) = scan_active xs (i64_max, False)
      in if has then m else unwrap_or (list_max (map snd xs)) i64_min)"

definition active_wms :: "(bool \<times> i64) list \<Rightarrow> i64 set" where
  "active_wms xs = {w. (False, w) \<in> set xs}"

lemma unwrap_or_simps [simp]: "unwrap_or None d = d" "unwrap_or (Some y) d = y"
  by (simp_all add: unwrap_or_def)

lemma list_max_Max: "list_max xs = (if xs = [] then None else Some (Max (set xs)))"
  by (cases xs) (simp_all only: list_max.simps Max.set_eq_fold, simp_all)

lemma list_min_Min: "list_min xs = (if xs = [] then None else Some (Min (set xs)))"
  by (cases xs) (simp_all only: list_min.simps Min.set_eq_fold, simp_all)

lemma finite_active_wms [simp]: "finite (active_wms xs)"
proof -
  have "active_wms xs = snd ` (set xs \<inter> {False} \<times> UNIV)"
    by (force simp: active_wms_def)
  then show ?thesis by simp
qed

lemma active_wms_Nil [simp]: "active_wms [] = {}"
  by (simp add: active_wms_def)

lemma active_wms_Cons [simp]:
  "active_wms ((idle, w) # xs) = (if idle then active_wms xs else insert w (active_wms xs))"
  by (auto simp: active_wms_def)

lemma scan_active_eq:
  "scan_active xs (m, has) = (Min (insert m (active_wms xs)), has \<or> active_wms xs \<noteq> {})"
proof (induction xs arbitrary: m has)
  case Nil
  then show ?case by simp
next
  case (Cons x xs)
  obtain idle w where x: "x = (idle, w)" by (cases x)
  show ?case
  proof (cases idle)
    case True
    then show ?thesis by (simp add: x Cons.IH)
  next
    case False
    then show ?thesis
      by (cases "active_wms xs = {}") (simp_all add: x Cons.IH min.assoc)
  qed
qed

lemma combine_active_eq:
  "combine_active xs =
     (if active_wms xs = {} then if xs = [] then i64_min else Max (snd ` set xs)
      else Min (insert i64_max (active_wms xs)))"
  by (simp add: combine_active_def scan_active_eq list_max_Max)

lemma combine_active_le: "(False, w) \<in> set xs \<Longrightarrow> combine_active xs \<le> w"
proof -
  assume "(False, w) \<in> set xs"
  then have "w \<in> active_wms xs" by (simp add: active_wms_def)
  then show ?thesis
    using Min_le [of "insert i64_max (active_wms xs)" w]
    by (auto simp: combine_active_eq simp del: Min_insert)
qed

lemma combine_active_Min:
  assumes "active_wms xs \<noteq> {}" "\<forall>w \<in> active_wms xs. w \<le> i64_max"
  shows "combine_active xs = Min (active_wms xs)"
proof -
  have "Min (active_wms xs) \<le> i64_max"
    using assms Min_in [OF finite_active_wms] by blast
  then show ?thesis
    using assms(1) by (simp add: combine_active_eq)
qed

lemma combine_active_idle:
  "active_wms xs = {} \<Longrightarrow> xs \<noteq> [] \<Longrightarrow> combine_active xs = Max (snd ` set xs)"
  by (simp add: combine_active_eq)

lemma combine_active_Nil [simp]: "combine_active [] = i64_min"
  by (simp add: combine_active_eq)

lemma combine_active_order:
  "set xs = set ys \<Longrightarrow> combine_active xs = combine_active ys"
proof -
  assume s: "set xs = set ys"
  then have "active_wms xs = active_wms ys" by (simp add: active_wms_def)
  moreover from s have "xs = [] \<longleftrightarrow> ys = []" by (metis set_empty)
  ultimately show ?thesis using s by (simp add: combine_active_eq)
qed

section \<open>Decimal numbers\<close>

text \<open>
  \<^verbatim>\<open>to_string\<close> of an unsigned integer, and \<^verbatim>\<open>str::parse\<close>: an optional plus sign and at least
  one digit, refused when the value leaves the type.
\<close>

fun dec_nat :: "nat \<Rightarrow> string" where
  "dec_nat n = (if n < 10 then [char_of (48 + n)] else dec_nat (n div 10) @ [char_of (48 + n mod 10)])"

declare dec_nat.simps [simp del]

definition digit_value :: "char \<Rightarrow> nat option" where
  "digit_value c = (let k = of_char c in if 48 \<le> k \<and> k \<le> 57 then Some (k - 48) else (None :: nat option))"

fun parse_digits :: "nat \<Rightarrow> nat \<Rightarrow> string \<Rightarrow> nat option" where
  "parse_digits limit acc [] = Some acc"
| "parse_digits limit acc (c # cs) =
     (case digit_value c of
        None \<Rightarrow> None
      | Some d \<Rightarrow> if acc * 10 + d > limit then None else parse_digits limit (acc * 10 + d) cs)"

definition parse_unsigned :: "nat \<Rightarrow> string \<Rightarrow> nat option" where
  "parse_unsigned limit s =
     (case s of
        [] \<Rightarrow> None
      | c # cs \<Rightarrow> if c = CHR ''+'' then if cs = [] then None else parse_digits limit 0 cs
                  else parse_digits limit 0 s)"

abbreviation parse_u32 :: "string \<Rightarrow> nat option" where
  "parse_u32 \<equiv> parse_unsigned (2 ^ 32 - 1)"

lemma digit_value_char [simp]: "d < 10 \<Longrightarrow> digit_value (char_of (48 + d)) = Some d"
  by (simp add: digit_value_def Let_def)

lemma parse_digits_append:
  "parse_digits limit acc (xs @ ys) = Option.bind (parse_digits limit acc xs) (\<lambda>a. parse_digits limit a ys)"
  by (induction xs arbitrary: acc) (auto split: option.splits)

lemma parse_dec_digits: "n \<le> limit \<Longrightarrow> parse_digits limit 0 (dec_nat n) = Some n"
proof (induction n rule: dec_nat.induct)
  case (1 n)
  show ?case
  proof (cases "n < 10")
    case True
    then show ?thesis using 1(2) by (simp add: dec_nat.simps [of n])
  next
    case False
    have "n div 10 \<le> limit" using 1(2) by linarith
    then have "parse_digits limit 0 (dec_nat (n div 10)) = Some (n div 10)" using 1(1) False by simp
    moreover have "n div 10 * 10 + n mod 10 = n" by simp
    ultimately show ?thesis
      using 1(2) False by (simp add: dec_nat.simps [of n] parse_digits_append del: div_mult_mod_eq)
  qed
qed

lemma dec_nat_first: "\<exists>d cs. d < 10 \<and> dec_nat n = char_of (48 + d :: nat) # cs"
  by (induction n rule: dec_nat.induct) (subst dec_nat.simps, fastforce)

lemma parse_dec: "n \<le> limit \<Longrightarrow> parse_unsigned limit (dec_nat n) = Some n"
proof -
  assume n: "n \<le> limit"
  obtain d cs where d: "d < 10" "dec_nat n = char_of (48 + d :: nat) # cs" using dec_nat_first by blast
  have "char_of (48 + d) \<noteq> CHR ''+''"
  proof
    assume "char_of (48 + d) = CHR ''+''"
    then have "digit_value (CHR ''+'') = Some d" using digit_value_char [OF d(1)] by simp
    then show False by (simp add: digit_value_def)
  qed
  then show ?thesis using parse_dec_digits [OF n] by (simp add: parse_unsigned_def d(2))
qed

end
