(* ===== verification/Watermark_Generators.thy ===== *)
theory Watermark_Generators
  imports Laminar_Prelude
begin

text \<open>
  Watermarks (\<^verbatim>\<open>crates/laminar-core/src/time/mod.rs\<close>) and the watermark generators of
  \<^verbatim>\<open>crates/laminar-core/src/time/watermark.rs\<close>. Every generator is a record, every method of
  the trait \<^verbatim>\<open>WatermarkGenerator\<close> a function from the old state to the new state and the
  emitted watermark. The locale \<^verbatim>\<open>watermark_generator\<close> is the trait's documented contract:
  a method returns a watermark exactly when the current watermark advances to it.
\<close>

section \<open>Watermarks\<close>

type_synonym watermark = i64

definition watermark_default :: watermark where
  "watermark_default = i64_min"

definition wm_is_late :: "watermark \<Rightarrow> i64 \<Rightarrow> bool" where
  "wm_is_late w event_time \<longleftrightarrow> event_time < w"

definition wm_min :: "watermark \<Rightarrow> watermark \<Rightarrow> watermark" where
  "wm_min a b = min a b"

definition wm_max :: "watermark \<Rightarrow> watermark \<Rightarrow> watermark" where
  "wm_max a b = max a b"

text \<open>The two clocks the code reads: \<^verbatim>\<open>Instant::now()\<close> and \<^verbatim>\<open>SystemTime::now()\<close> in milliseconds.\<close>

record clock =
  instant :: nat
  wall_millis :: i64

section \<open>Bounded out-of-orderness\<close>

record bounded_gen =
  bg_max_out_of_orderness :: i64
  bg_current_max_timestamp :: i64
  bg_current_watermark :: i64

definition bounded_new :: "i64 \<Rightarrow> bounded_gen" where
  "bounded_new max_out_of_orderness =
     \<lparr>bg_max_out_of_orderness = max_out_of_orderness,
      bg_current_max_timestamp = i64_min,
      bg_current_watermark = i64_min\<rparr>"

definition bounded_on_event :: "bounded_gen \<Rightarrow> i64 \<Rightarrow> bounded_gen \<times> watermark option" where
  "bounded_on_event g timestamp =
     (if timestamp > bg_current_max_timestamp g then
        let g1 = g\<lparr>bg_current_max_timestamp := timestamp\<rparr>;
            new_watermark = saturating_sub timestamp (bg_max_out_of_orderness g)
        in if new_watermark > bg_current_watermark g1
           then (g1\<lparr>bg_current_watermark := new_watermark\<rparr>, Some new_watermark)
           else (g1, None)
      else (g, None))"

definition bounded_on_periodic :: "bounded_gen \<Rightarrow> bounded_gen \<times> watermark option" where
  "bounded_on_periodic g = (g, None)"

definition bounded_advance_watermark ::
  "bounded_gen \<Rightarrow> i64 \<Rightarrow> bounded_gen \<times> watermark option" where
  "bounded_advance_watermark g timestamp =
     (if timestamp > bg_current_watermark g then
        let g1 = g\<lparr>bg_current_watermark := timestamp\<rparr>;
            min_max = saturating_add timestamp (bg_max_out_of_orderness g);
            g2 = (if min_max > bg_current_max_timestamp g1
                  then g1\<lparr>bg_current_max_timestamp := min_max\<rparr> else g1)
        in (g2, Some timestamp)
      else (g, None))"

section \<open>Ascending timestamps\<close>

record ascending_gen =
  ag_current_watermark :: i64

definition ascending_new :: ascending_gen where
  "ascending_new = \<lparr>ag_current_watermark = i64_min\<rparr>"

definition ascending_on_event :: "ascending_gen \<Rightarrow> i64 \<Rightarrow> ascending_gen \<times> watermark option" where
  "ascending_on_event g timestamp =
     (if timestamp > ag_current_watermark g
      then (g\<lparr>ag_current_watermark := timestamp\<rparr>, Some timestamp) else (g, None))"

definition ascending_on_periodic :: "ascending_gen \<Rightarrow> ascending_gen \<times> watermark option" where
  "ascending_on_periodic g = (g, None)"

definition ascending_advance_watermark ::
  "ascending_gen \<Rightarrow> i64 \<Rightarrow> ascending_gen \<times> watermark option" where
  "ascending_advance_watermark g timestamp =
     (if timestamp > ag_current_watermark g
      then (g\<lparr>ag_current_watermark := timestamp\<rparr>, Some timestamp) else (g, None))"

section \<open>Periodic emission around another generator\<close>

text \<open>The inner generator's methods are arguments: \<^verbatim>\<open>PeriodicGenerator<G>\<close> is generic in \<^verbatim>\<open>G\<close>.\<close>

record 'g periodic_gen =
  pg_inner :: 'g
  pg_period :: nat
  pg_last_emit_time :: nat
  pg_last_emitted_watermark :: i64

definition periodic_new :: "clock \<Rightarrow> 'g \<Rightarrow> nat \<Rightarrow> 'g periodic_gen" where
  "periodic_new c inner period =
     \<lparr>pg_inner = inner, pg_period = period, pg_last_emit_time = instant c,
      pg_last_emitted_watermark = i64_min\<rparr>"

text \<open>The bookkeeping after an emission of the inner generator.\<close>

definition periodic_record ::
  "clock \<Rightarrow> 'g periodic_gen \<Rightarrow> 'g \<times> watermark option \<Rightarrow> 'g periodic_gen \<times> watermark option" where
  "periodic_record c g res =
     (case res of
        (inner', Some w) \<Rightarrow>
          (g\<lparr>pg_inner := inner', pg_last_emitted_watermark := w,
             pg_last_emit_time := instant c\<rparr>, Some w)
      | (inner', None) \<Rightarrow> (g\<lparr>pg_inner := inner'\<rparr>, None))"

definition periodic_on_event ::
  "(clock \<Rightarrow> 'g \<Rightarrow> i64 \<Rightarrow> 'g \<times> watermark option) \<Rightarrow>
   clock \<Rightarrow> 'g periodic_gen \<Rightarrow> i64 \<Rightarrow> 'g periodic_gen \<times> watermark option" where
  "periodic_on_event inner_on_event c g timestamp =
     periodic_record c g (inner_on_event c (pg_inner g) timestamp)"

definition periodic_on_periodic ::
  "('g \<Rightarrow> i64) \<Rightarrow> clock \<Rightarrow> 'g periodic_gen \<Rightarrow> 'g periodic_gen \<times> watermark option" where
  "periodic_on_periodic inner_current c g =
     (if instant c - pg_last_emit_time g \<ge> pg_period g then
        let current = inner_current (pg_inner g)
        in if current > pg_last_emitted_watermark g
           then (g\<lparr>pg_last_emitted_watermark := current, pg_last_emit_time := instant c\<rparr>,
                 Some current)
           else (g\<lparr>pg_last_emit_time := instant c\<rparr>, None)
      else (g, None))"

definition periodic_current_watermark :: "('g \<Rightarrow> i64) \<Rightarrow> 'g periodic_gen \<Rightarrow> i64" where
  "periodic_current_watermark inner_current g = inner_current (pg_inner g)"

definition periodic_advance_watermark ::
  "(clock \<Rightarrow> 'g \<Rightarrow> i64 \<Rightarrow> 'g \<times> watermark option) \<Rightarrow>
   clock \<Rightarrow> 'g periodic_gen \<Rightarrow> i64 \<Rightarrow> 'g periodic_gen \<times> watermark option" where
  "periodic_advance_watermark inner_advance c g timestamp =
     periodic_record c g (inner_advance c (pg_inner g) timestamp)"

section \<open>Punctuated watermarks\<close>

record punctuated_gen =
  pu_predicate :: "i64 \<Rightarrow> watermark option"
  pu_current_watermark :: i64

definition punctuated_new :: "(i64 \<Rightarrow> watermark option) \<Rightarrow> punctuated_gen" where
  "punctuated_new predicate = \<lparr>pu_predicate = predicate, pu_current_watermark = i64_min\<rparr>"

definition punctuated_on_event ::
  "punctuated_gen \<Rightarrow> i64 \<Rightarrow> punctuated_gen \<times> watermark option" where
  "punctuated_on_event g timestamp =
     (case pu_predicate g timestamp of
        Some wm \<Rightarrow>
          if wm > pu_current_watermark g
          then (g\<lparr>pu_current_watermark := wm\<rparr>, Some wm) else (g, None)
      | None \<Rightarrow> (g, None))"

definition punctuated_on_periodic :: "punctuated_gen \<Rightarrow> punctuated_gen \<times> watermark option" where
  "punctuated_on_periodic g = (g, None)"

definition punctuated_advance_watermark ::
  "punctuated_gen \<Rightarrow> i64 \<Rightarrow> punctuated_gen \<times> watermark option" where
  "punctuated_advance_watermark g timestamp =
     (if timestamp > pu_current_watermark g
      then (g\<lparr>pu_current_watermark := timestamp\<rparr>, Some timestamp) else (g, None))"

section \<open>Watermarks provided by the source\<close>

record source_provided_gen =
  sp_source_watermark :: i64
  sp_fallback :: bounded_gen
  sp_prefer_source :: bool

definition source_provided_new :: "i64 \<Rightarrow> bool \<Rightarrow> source_provided_gen" where
  "source_provided_new fallback_lateness prefer_source =
     \<lparr>sp_source_watermark = i64_min, sp_fallback = bounded_new fallback_lateness,
      sp_prefer_source = prefer_source\<rparr>"

definition source_provided_on_source_watermark ::
  "source_provided_gen \<Rightarrow> i64 \<Rightarrow> source_provided_gen \<times> watermark option" where
  "source_provided_on_source_watermark g w =
     (if w > sp_source_watermark g then
        let g1 = g\<lparr>sp_source_watermark := w\<rparr>
        in if sp_prefer_source g1 \<or> w > bg_current_watermark (sp_fallback g1)
           then (g1, Some w) else (g1, None)
      else (g, None))"

definition source_provided_on_event ::
  "source_provided_gen \<Rightarrow> i64 \<Rightarrow> source_provided_gen \<times> watermark option" where
  "source_provided_on_event g timestamp =
     (let (fb, fallback_wm) = bounded_on_event (sp_fallback g) timestamp;
          g1 = g\<lparr>sp_fallback := fb\<rparr>
      in if sp_prefer_source g1 \<and> sp_source_watermark g1 > i64_min
         then (g1, None) else (g1, fallback_wm))"

definition source_provided_on_periodic ::
  "source_provided_gen \<Rightarrow> source_provided_gen \<times> watermark option" where
  "source_provided_on_periodic g = (g, None)"

definition source_provided_current_watermark :: "source_provided_gen \<Rightarrow> i64" where
  "source_provided_current_watermark g =
     (if sp_prefer_source g \<and> sp_source_watermark g > i64_min then sp_source_watermark g
      else max (bg_current_watermark (sp_fallback g)) (sp_source_watermark g))"

definition source_provided_advance_watermark ::
  "source_provided_gen \<Rightarrow> i64 \<Rightarrow> source_provided_gen \<times> watermark option" where
  "source_provided_advance_watermark g timestamp =
     source_provided_on_source_watermark g timestamp"

section \<open>Processing time\<close>

record processing_time_gen =
  pt_current_watermark :: i64

definition processing_time_new :: processing_time_gen where
  "processing_time_new = \<lparr>pt_current_watermark = i64_min\<rparr>"

definition processing_time_on_event ::
  "processing_time_gen \<Rightarrow> i64 \<Rightarrow> processing_time_gen \<times> watermark option" where
  "processing_time_on_event g timestamp = (g, None)"

definition processing_time_on_periodic ::
  "clock \<Rightarrow> processing_time_gen \<Rightarrow> processing_time_gen \<times> watermark option" where
  "processing_time_on_periodic c g =
     (let now = wall_millis c
      in if now > pt_current_watermark g
         then (g\<lparr>pt_current_watermark := now\<rparr>, Some now) else (g, None))"

definition processing_time_advance_watermark ::
  "processing_time_gen \<Rightarrow> i64 \<Rightarrow> processing_time_gen \<times> watermark option" where
  "processing_time_advance_watermark g timestamp =
     (if timestamp > pt_current_watermark g
      then (g\<lparr>pt_current_watermark := timestamp\<rparr>, Some timestamp) else (g, None))"

section \<open>Metrics around another generator\<close>

record watermark_metrics =
  wmet_current_watermark :: i64
  wmet_max_event_timestamp :: i64
  wmet_watermarks_emitted :: nat
  wmet_late_events :: nat

definition watermark_metrics_new :: watermark_metrics where
  "watermark_metrics_new =
     \<lparr>wmet_current_watermark = 0, wmet_max_event_timestamp = 0,
      wmet_watermarks_emitted = 0, wmet_late_events = 0\<rparr>"

definition watermark_metrics_lag :: "watermark_metrics \<Rightarrow> i64" where
  "watermark_metrics_lag m =
     saturating_sub (wmet_max_event_timestamp m) (wmet_current_watermark m)"

record 'g metered_gen =
  mg_inner :: 'g
  mg_metrics :: watermark_metrics

definition metered_new :: "'g \<Rightarrow> 'g metered_gen" where
  "metered_new inner = \<lparr>mg_inner = inner, mg_metrics = watermark_metrics_new\<rparr>"

definition metered_record_late_event :: "'g metered_gen \<Rightarrow> 'g metered_gen" where
  "metered_record_late_event g =
     g\<lparr>mg_metrics := (mg_metrics g)\<lparr>wmet_late_events := wmet_late_events (mg_metrics g) + 1\<rparr>\<rparr>"

definition metered_record ::
  "'g metered_gen \<Rightarrow> 'g \<times> watermark option \<Rightarrow> 'g metered_gen \<times> watermark option" where
  "metered_record g res =
     (case res of
        (inner', Some w) \<Rightarrow>
          (g\<lparr>mg_inner := inner',
             mg_metrics := (mg_metrics g)
               \<lparr>wmet_current_watermark := w,
                wmet_watermarks_emitted := wmet_watermarks_emitted (mg_metrics g) + 1\<rparr>\<rparr>, Some w)
      | (inner', None) \<Rightarrow> (g\<lparr>mg_inner := inner'\<rparr>, None))"

definition metered_on_event ::
  "(clock \<Rightarrow> 'g \<Rightarrow> i64 \<Rightarrow> 'g \<times> watermark option) \<Rightarrow>
   clock \<Rightarrow> 'g metered_gen \<Rightarrow> i64 \<Rightarrow> 'g metered_gen \<times> watermark option" where
  "metered_on_event inner_on_event c g timestamp =
     (let g1 = (if timestamp > wmet_max_event_timestamp (mg_metrics g)
                then g\<lparr>mg_metrics := (mg_metrics g)\<lparr>wmet_max_event_timestamp := timestamp\<rparr>\<rparr>
                else g)
      in metered_record g1 (inner_on_event c (mg_inner g1) timestamp))"

definition metered_on_periodic ::
  "(clock \<Rightarrow> 'g \<Rightarrow> 'g \<times> watermark option) \<Rightarrow>
   clock \<Rightarrow> 'g metered_gen \<Rightarrow> 'g metered_gen \<times> watermark option" where
  "metered_on_periodic inner_on_periodic c g =
     metered_record g (inner_on_periodic c (mg_inner g))"

definition metered_current_watermark :: "('g \<Rightarrow> i64) \<Rightarrow> 'g metered_gen \<Rightarrow> i64" where
  "metered_current_watermark inner_current g = inner_current (mg_inner g)"

definition metered_advance_watermark ::
  "(clock \<Rightarrow> 'g \<Rightarrow> i64 \<Rightarrow> 'g \<times> watermark option) \<Rightarrow>
   clock \<Rightarrow> 'g metered_gen \<Rightarrow> i64 \<Rightarrow> 'g metered_gen \<times> watermark option" where
  "metered_advance_watermark inner_advance c g timestamp =
     metered_record g (inner_advance c (mg_inner g) timestamp)"

section \<open>Runs\<close>

text \<open>A run feeds a generator with events, periodic calls and externally provided watermarks.\<close>

datatype gen_action = Event i64 | Periodic | Advance i64

fun gen_step ::
  "(clock \<Rightarrow> 'g \<Rightarrow> i64 \<Rightarrow> 'g \<times> watermark option) \<Rightarrow>
   (clock \<Rightarrow> 'g \<Rightarrow> 'g \<times> watermark option) \<Rightarrow>
   (clock \<Rightarrow> 'g \<Rightarrow> i64 \<Rightarrow> 'g \<times> watermark option) \<Rightarrow>
   'g \<Rightarrow> clock \<Rightarrow> gen_action \<Rightarrow> 'g \<times> watermark option" where
  "gen_step ev per adv g c (Event t) = ev c g t"
| "gen_step ev per adv g c Periodic = per c g"
| "gen_step ev per adv g c (Advance t) = adv c g t"

fun gen_run ::
  "(clock \<Rightarrow> 'g \<Rightarrow> i64 \<Rightarrow> 'g \<times> watermark option) \<Rightarrow>
   (clock \<Rightarrow> 'g \<Rightarrow> 'g \<times> watermark option) \<Rightarrow>
   (clock \<Rightarrow> 'g \<Rightarrow> i64 \<Rightarrow> 'g \<times> watermark option) \<Rightarrow>
   'g \<Rightarrow> (clock \<times> gen_action) list \<Rightarrow> 'g \<times> watermark list" where
  "gen_run ev per adv g [] = (g, [])"
| "gen_run ev per adv g ((c, a) # as) =
     (let (g1, r) = gen_step ev per adv g c a;
          (g2, es) = gen_run ev per adv g1 as
      in (g2, (case r of None \<Rightarrow> es | Some w \<Rightarrow> w # es)))"

section \<open>The contract of the trait\<close>

text \<open>
  The laws of \<^verbatim>\<open>WatermarkGenerator\<close>: a call returns \<^verbatim>\<open>Some(w)\<close> exactly when the current
  watermark advances to \<^verbatim>\<open>w\<close>. \<^verbatim>\<open>invar\<close> is the generator's own invariant.
\<close>

locale watermark_generator =
  fixes on_event :: "clock \<Rightarrow> 'g \<Rightarrow> i64 \<Rightarrow> 'g \<times> watermark option"
    and on_periodic :: "clock \<Rightarrow> 'g \<Rightarrow> 'g \<times> watermark option"
    and advance_watermark :: "clock \<Rightarrow> 'g \<Rightarrow> i64 \<Rightarrow> 'g \<times> watermark option"
    and current_watermark :: "'g \<Rightarrow> i64"
    and invar :: "'g \<Rightarrow> bool"
  assumes event_Some:
      "\<lbrakk>invar g; on_event c g t = (g', Some w)\<rbrakk>
        \<Longrightarrow> invar g' \<and> current_watermark g < w \<and> current_watermark g' = w"
    and event_None:
      "\<lbrakk>invar g; on_event c g t = (g', None)\<rbrakk>
        \<Longrightarrow> invar g' \<and> current_watermark g' = current_watermark g"
    and periodic_Some:
      "\<lbrakk>invar g; on_periodic c g = (g', Some w)\<rbrakk>
        \<Longrightarrow> invar g' \<and> current_watermark g < w \<and> current_watermark g' = w"
    and periodic_None:
      "\<lbrakk>invar g; on_periodic c g = (g', None)\<rbrakk>
        \<Longrightarrow> invar g' \<and> current_watermark g' = current_watermark g"
    and advance_Some:
      "\<lbrakk>invar g; advance_watermark c g t = (g', Some w)\<rbrakk>
        \<Longrightarrow> invar g' \<and> current_watermark g < t \<and> w = t \<and> current_watermark g' = t"
    and advance_None:
      "\<lbrakk>invar g; advance_watermark c g t = (g', None)\<rbrakk>
        \<Longrightarrow> invar g' \<and> t \<le> current_watermark g \<and> current_watermark g' = current_watermark g"
begin

lemma step_Some:
  assumes "invar g" "gen_step on_event on_periodic advance_watermark g c a = (g', Some w)"
  shows "invar g' \<and> current_watermark g < w \<and> current_watermark g' = w"
proof (cases a)
  case (Event t)
  then show ?thesis using assms by (intro event_Some) simp_all
next
  case Periodic
  then show ?thesis using assms by (intro periodic_Some) simp_all
next
  case (Advance t)
  then show ?thesis using assms advance_Some [of g c t g' w] by simp
qed

lemma step_None:
  assumes "invar g" "gen_step on_event on_periodic advance_watermark g c a = (g', None)"
  shows "invar g' \<and> current_watermark g' = current_watermark g"
proof (cases a)
  case (Event t)
  then show ?thesis using assms by (intro event_None) simp_all
next
  case Periodic
  then show ?thesis using assms by (intro periodic_None) simp_all
next
  case (Advance t)
  then show ?thesis using assms advance_None [of g c t g'] by simp
qed

text \<open>Emissions strictly increase, start above the initial watermark and end at the final one.\<close>

lemma run_emissions:
  assumes "gen_run on_event on_periodic advance_watermark g as = (g', es)" "invar g"
  shows "invar g' \<and> sorted_wrt (<) (current_watermark g # es) \<and>
         current_watermark g' = last (current_watermark g # es)"
  using assms
proof (induction as arbitrary: g es)
  case Nil
  then show ?case by simp
next
  case (Cons ca as)
  obtain c a where ca: "ca = (c, a)" by (cases ca)
  obtain g1 r where st: "gen_step on_event on_periodic advance_watermark g c a = (g1, r)"
    by fastforce
  obtain es1 where rest: "gen_run on_event on_periodic advance_watermark g1 as = (g', es1)"
    and es: "es = (case r of None \<Rightarrow> es1 | Some w \<Rightarrow> w # es1)"
    using Cons.prems(1) by (auto simp: ca st split: prod.splits)
  show ?case
  proof (cases r)
    case None
    have "invar g1" "current_watermark g1 = current_watermark g"
      using step_None [OF Cons.prems(2) st [unfolded None]] by simp_all
    then show ?thesis
      using Cons.IH [OF rest] es None by simp
  next
    case (Some w)
    then have "invar g1" "current_watermark g < w" "current_watermark g1 = w"
      using step_Some [OF Cons.prems(2) st [unfolded Some]] by simp_all
    then show ?thesis
      using Cons.IH [OF rest] es Some by (auto intro: less_trans)
  qed
qed

lemma run_monotone:
  assumes "gen_run on_event on_periodic advance_watermark g as = (g', es)" "invar g"
  shows "current_watermark g \<le> current_watermark g'"
  using run_emissions [OF assms] by (cases es rule: rev_cases) auto

end

interpretation bounded: watermark_generator
  "\<lambda>_. bounded_on_event" "\<lambda>_. bounded_on_periodic" "\<lambda>_. bounded_advance_watermark"
  bg_current_watermark "\<lambda>_. True"
  by unfold_locales
    (auto simp: bounded_on_event_def bounded_on_periodic_def bounded_advance_watermark_def Let_def
          split: if_splits)

interpretation ascending: watermark_generator
  "\<lambda>_. ascending_on_event" "\<lambda>_. ascending_on_periodic" "\<lambda>_. ascending_advance_watermark"
  ag_current_watermark "\<lambda>_. True"
  by unfold_locales
    (auto simp: ascending_on_event_def ascending_on_periodic_def ascending_advance_watermark_def
          split: if_splits)

interpretation punctuated: watermark_generator
  "\<lambda>_. punctuated_on_event" "\<lambda>_. punctuated_on_periodic" "\<lambda>_. punctuated_advance_watermark"
  pu_current_watermark "\<lambda>_. True"
  by unfold_locales
    (auto simp: punctuated_on_event_def punctuated_on_periodic_def punctuated_advance_watermark_def
          split: if_splits option.splits)

interpretation processing_time: watermark_generator
  "\<lambda>_. processing_time_on_event" processing_time_on_periodic
  "\<lambda>_. processing_time_advance_watermark" pt_current_watermark "\<lambda>_. True"
  by unfold_locales
    (auto simp: processing_time_on_event_def processing_time_on_periodic_def
          processing_time_advance_watermark_def Let_def split: if_splits)

text \<open>
  The generic wrappers keep the contract. A periodic wrapper's last emitted watermark is its
  inner generator's current one as long as the inner generator is only driven through it.
\<close>

definition periodic_inv :: "('g \<Rightarrow> i64) \<Rightarrow> ('g \<Rightarrow> bool) \<Rightarrow> 'g periodic_gen \<Rightarrow> bool" where
  "periodic_inv current invar g \<longleftrightarrow>
     invar (pg_inner g) \<and> pg_last_emitted_watermark g = current (pg_inner g)"

lemma periodic_record_Some:
  "periodic_record c g res = (g', Some w) \<longleftrightarrow>
     (\<exists>i. res = (i, Some w) \<and> g' = g\<lparr>pg_inner := i, pg_last_emitted_watermark := w,
        pg_last_emit_time := instant c\<rparr>)"
  by (auto simp: periodic_record_def split: prod.splits option.splits)

lemma periodic_record_None:
  "periodic_record c g res = (g', None) \<longleftrightarrow> (\<exists>i. res = (i, None) \<and> g' = g\<lparr>pg_inner := i\<rparr>)"
  by (auto simp: periodic_record_def split: prod.splits option.splits)

lemma metered_record_Some:
  "metered_record g res = (g', Some w) \<longleftrightarrow>
     (\<exists>i. res = (i, Some w) \<and> g' = g\<lparr>mg_inner := i, mg_metrics := (mg_metrics g)
        \<lparr>wmet_current_watermark := w,
         wmet_watermarks_emitted := wmet_watermarks_emitted (mg_metrics g) + 1\<rparr>\<rparr>)"
  by (auto simp: metered_record_def split: prod.splits option.splits)

lemma metered_record_None:
  "metered_record g res = (g', None) \<longleftrightarrow> (\<exists>i. res = (i, None) \<and> g' = g\<lparr>mg_inner := i\<rparr>)"
  by (auto simp: metered_record_def split: prod.splits option.splits)

lemmas wrapper_simps =
  periodic_on_event_def periodic_on_periodic_def periodic_advance_watermark_def
  periodic_current_watermark_def periodic_inv_def periodic_record_Some periodic_record_None
  metered_on_event_def metered_on_periodic_def metered_advance_watermark_def
  metered_current_watermark_def metered_record_Some metered_record_None Let_def

locale wrapped_generator = watermark_generator
begin

lemma periodic_on_periodic_silent:
  assumes "periodic_inv current_watermark invar g"
  shows "snd (periodic_on_periodic current_watermark c g) = None"
    and "periodic_inv current_watermark invar (fst (periodic_on_periodic current_watermark c g))"
    and "pg_inner (fst (periodic_on_periodic current_watermark c g)) = pg_inner g"
  using assms by (simp_all add: wrapper_simps)

end

lemma periodic_wrap_Some:
  assumes "periodic_record c g (i, r) = (g', Some w)"
  shows "r = Some w" "pg_inner g' = i" "pg_last_emitted_watermark g' = w"
  using assms by (simp_all add: periodic_record_Some)

lemma periodic_wrap_None:
  assumes "periodic_record c g (i, r) = (g', None)"
  shows "r = None" "pg_inner g' = i" "pg_last_emitted_watermark g' = pg_last_emitted_watermark g"
  using assms by (simp_all add: periodic_record_None)

sublocale wrapped_generator \<subseteq> in_periodic: watermark_generator
  "periodic_on_event on_event" "periodic_on_periodic current_watermark"
  "periodic_advance_watermark advance_watermark" "periodic_current_watermark current_watermark"
  "periodic_inv current_watermark invar"
proof (unfold_locales, goal_cases)
  case (1 g c t g' w)
  obtain i r where e: "on_event c (pg_inner g) t = (i, r)" by fastforce
  with 1 have "periodic_record c g (i, r) = (g', Some w)" by (simp add: periodic_on_event_def)
  note p = periodic_wrap_Some [OF this]
  have "invar (pg_inner g)" using 1 by (simp add: periodic_inv_def)
  from event_Some [OF this e [unfolded p(1)]] p show ?case by (simp add: wrapper_simps)
next
  case (2 g c t g')
  obtain i r where e: "on_event c (pg_inner g) t = (i, r)" by fastforce
  with 2 have "periodic_record c g (i, r) = (g', None)" by (simp add: periodic_on_event_def)
  note p = periodic_wrap_None [OF this]
  have "invar (pg_inner g)" using 2 by (simp add: periodic_inv_def)
  from event_None [OF this e [unfolded p(1)]] p 2 show ?case by (simp add: wrapper_simps)
next
  case (3 g c g' w)
  then show ?case using periodic_on_periodic_silent(1) [of g c] by simp
next
  case (4 g c g')
  then show ?case using periodic_on_periodic_silent(2,3) [of g c]
    by (simp add: periodic_current_watermark_def)
next
  case (5 g c t g' w)
  obtain i r where e: "advance_watermark c (pg_inner g) t = (i, r)" by fastforce
  with 5 have "periodic_record c g (i, r) = (g', Some w)"
    by (simp add: periodic_advance_watermark_def)
  note p = periodic_wrap_Some [OF this]
  have "invar (pg_inner g)" using 5 by (simp add: periodic_inv_def)
  from advance_Some [OF this e [unfolded p(1)]] p show ?case by (simp add: wrapper_simps)
next
  case (6 g c t g')
  obtain i r where e: "advance_watermark c (pg_inner g) t = (i, r)" by fastforce
  with 6 have "periodic_record c g (i, r) = (g', None)"
    by (simp add: periodic_advance_watermark_def)
  note p = periodic_wrap_None [OF this]
  have "invar (pg_inner g)" using 6 by (simp add: periodic_inv_def)
  from advance_None [OF this e [unfolded p(1)]] p 6 show ?case by (simp add: wrapper_simps)
qed

lemma metered_on_event_inner:
  assumes "metered_on_event on_event c g t = (g', r)"
  shows "on_event c (mg_inner g) t = (mg_inner g', r)"
  using assms
  by (auto simp: metered_on_event_def metered_record_def Let_def
      split: prod.splits option.splits if_splits)

lemma metered_on_periodic_inner:
  assumes "metered_on_periodic on_periodic c g = (g', r)"
  shows "on_periodic c (mg_inner g) = (mg_inner g', r)"
  using assms
  by (auto simp: metered_on_periodic_def metered_record_def Let_def
      split: prod.splits option.splits if_splits)

lemma metered_advance_inner:
  assumes "metered_advance_watermark adv c g t = (g', r)"
  shows "adv c (mg_inner g) t = (mg_inner g', r)"
  using assms
  by (auto simp: metered_advance_watermark_def metered_record_def Let_def
      split: prod.splits option.splits if_splits)

sublocale wrapped_generator \<subseteq> in_metered: watermark_generator
  "metered_on_event on_event" "metered_on_periodic on_periodic"
  "metered_advance_watermark advance_watermark" "metered_current_watermark current_watermark"
  "\<lambda>g. invar (mg_inner g)"
proof (unfold_locales, unfold metered_current_watermark_def, goal_cases)
  case (1 g c t g' w)
  then show ?case by (rule event_Some [OF _ metered_on_event_inner])
next
  case (2 g c t g')
  then show ?case by (rule event_None [OF _ metered_on_event_inner])
next
  case (3 g c g' w)
  then show ?case by (rule periodic_Some [OF _ metered_on_periodic_inner])
next
  case (4 g c g')
  then show ?case by (rule periodic_None [OF _ metered_on_periodic_inner])
next
  case (5 g c t g' w)
  then show ?case by (rule advance_Some [OF _ metered_advance_inner])
next
  case (6 g c t g')
  then show ?case by (rule advance_None [OF _ metered_advance_inner])
qed

interpretation wrapped_bounded: wrapped_generator
  "\<lambda>_. bounded_on_event" "\<lambda>_. bounded_on_periodic" "\<lambda>_. bounded_advance_watermark"
  bg_current_watermark "\<lambda>_. True"
  by unfold_locales

interpretation wrapped_ascending: wrapped_generator
  "\<lambda>_. ascending_on_event" "\<lambda>_. ascending_on_periodic" "\<lambda>_. ascending_advance_watermark"
  ag_current_watermark "\<lambda>_. True"
  by unfold_locales

interpretation wrapped_punctuated: wrapped_generator
  "\<lambda>_. punctuated_on_event" "\<lambda>_. punctuated_on_periodic" "\<lambda>_. punctuated_advance_watermark"
  pu_current_watermark "\<lambda>_. True"
  by unfold_locales

interpretation wrapped_processing_time: wrapped_generator
  "\<lambda>_. processing_time_on_event" processing_time_on_periodic
  "\<lambda>_. processing_time_advance_watermark" pt_current_watermark "\<lambda>_. True"
  by unfold_locales

section \<open>The bounded generator computes the bound it documents\<close>

text \<open>What one action guarantees: an event bounds the watermark by its timestamp minus the lateness.\<close>

fun bounded_bound :: "i64 \<Rightarrow> gen_action \<Rightarrow> i64" where
  "bounded_bound L (Event t) = saturating_sub t L"
| "bounded_bound L Periodic = i64_min"
| "bounded_bound L (Advance t) = t"

fun action_in_i64 :: "gen_action \<Rightarrow> bool" where
  "action_in_i64 (Event t) = in_i64 t"
| "action_in_i64 Periodic = True"
| "action_in_i64 (Advance t) = in_i64 t"

abbreviation bounded_step :: "bounded_gen \<Rightarrow> clock \<Rightarrow> gen_action \<Rightarrow> bounded_gen \<times> watermark option" where
  "bounded_step \<equiv> gen_step (\<lambda>_. bounded_on_event) (\<lambda>_. bounded_on_periodic)
                           (\<lambda>_. bounded_advance_watermark)"

abbreviation bounded_run ::
  "bounded_gen \<Rightarrow> (clock \<times> gen_action) list \<Rightarrow> bounded_gen \<times> watermark list" where
  "bounded_run \<equiv> gen_run (\<lambda>_. bounded_on_event) (\<lambda>_. bounded_on_periodic)
                         (\<lambda>_. bounded_advance_watermark)"

text \<open>No timestamp up to the maximum seen could still raise the watermark.\<close>

definition bounded_inv :: "i64 \<Rightarrow> bounded_gen \<Rightarrow> bool" where
  "bounded_inv L g \<longleftrightarrow>
     bg_max_out_of_orderness g = L \<and> i64_min \<le> bg_current_watermark g \<and>
     saturating_sub (bg_current_max_timestamp g) L \<le> bg_current_watermark g"

lemma saturating_sub_add_le:
  assumes "0 \<le> L" "in_i64 w"
  shows "saturating_sub (saturating_add w L) L \<le> w"
  using assms by (auto simp: i64_simps)

lemma bounded_inv_new: "0 \<le> L \<Longrightarrow> bounded_inv L (bounded_new L)"
  by (auto simp: bounded_inv_def bounded_new_def i64_simps)

lemma bounded_step_spec:
  assumes "bounded_inv L g" "0 \<le> L" "action_in_i64 a" "bounded_step g c a = (g', r)"
  shows "bounded_inv L g' \<and>
         bg_current_watermark g' = max (bg_current_watermark g) (bounded_bound L a)"
proof (cases a)
  case (Event t)
  have "t \<le> bg_current_max_timestamp g \<Longrightarrow> saturating_sub t L \<le> bg_current_watermark g"
    using assms(1) saturating_sub_mono [of t "bg_current_max_timestamp g" L]
    by (simp add: bounded_inv_def)
  then show ?thesis
    using assms Event
    by (auto simp: bounded_on_event_def bounded_inv_def Let_def split: if_splits)
next
  case Periodic
  then show ?thesis using assms by (auto simp: bounded_on_periodic_def bounded_inv_def)
next
  case (Advance t)
  then show ?thesis
    using assms saturating_sub_add_le [of L t]
    by (auto simp: bounded_advance_watermark_def bounded_inv_def Let_def split: if_splits)
qed

lemma bounded_run_spec:
  assumes "bounded_inv L g" "0 \<le> L" "\<forall>(c, a) \<in> set as. action_in_i64 a"
    "bounded_run g as = (g', es)"
  shows "bounded_inv L g' \<and>
    bg_current_watermark g' = fold (\<lambda>(c, a). max (bounded_bound L a)) as (bg_current_watermark g)"
  using assms
proof (induction as arbitrary: g es)
  case (Cons ca as)
  obtain c a where ca: "ca = (c, a)" by (cases ca)
  obtain g1 r where st: "bounded_step g c a = (g1, r)" by fastforce
  obtain es1 where rest: "bounded_run g1 as = (g', es1)"
    using Cons.prems(4) by (auto simp: ca st split: prod.splits)
  have "bounded_inv L g1"
    and "bg_current_watermark g1 = max (bounded_bound L a) (bg_current_watermark g)"
    using bounded_step_spec [OF Cons.prems(1,2) _ st] Cons.prems(3)
    by (auto simp: ca max.commute)
  then show ?case using Cons.IH [OF _ Cons.prems(2) _ rest] Cons.prems(3) by (simp add: ca)
qed simp

lemma fold_max_Max:
  "fold (\<lambda>x. max (f x)) xs m = Max (insert m (f ` set xs))" for m :: "'a::linorder"
proof (induction xs arbitrary: m)
  case (Cons x xs)
  then show ?case by (cases "xs = []") (simp_all add: max.assoc max.left_commute max.commute insert_commute)
qed simp

text \<open>
  For timestamps of 64 bits and a lateness that is not negative, the bounded generator's watermark after any interleaving
  of events, periodic calls and external watermarks is the largest of the externally provided watermarks and of
  \<^verbatim>\<open>timestamp - max_out_of_orderness\<close>, saturating at the smallest 64-bit value, over the events (C11).
\<close>

theorem bounded_watermark_spec:
  assumes "0 \<le> L" "\<forall>(c, a) \<in> set as. action_in_i64 a" "bounded_run (bounded_new L) as = (g, es)"
  shows "bg_current_watermark g = Max (insert i64_min (bounded_bound L ` snd ` set as))"
proof -
  have "bg_current_watermark g = fold (\<lambda>x. max (bounded_bound L (snd x))) as i64_min"
    using bounded_run_spec [OF bounded_inv_new [OF assms(1)] assms]
    by (simp add: bounded_new_def case_prod_unfold)
  then show ?thesis by (simp add: fold_max_Max image_image)
qed

theorem bounded_watermark_spec_witness:
  "bg_current_watermark
     (fst (bounded_run (bounded_new 100)
        [(\<lparr>instant = 0, wall_millis = 0\<rparr>, Event 1000), (\<lparr>instant = 1, wall_millis = 0\<rparr>, Event 800),
         (\<lparr>instant = 2, wall_millis = 0\<rparr>, Advance 950)])) = 950"
proof -
  let ?as = "[(\<lparr>instant = 0, wall_millis = 0\<rparr>, Event 1000),
    (\<lparr>instant = 1, wall_millis = 0\<rparr>, Event 800), (\<lparr>instant = 2, wall_millis = 0\<rparr>, Advance 950)]"
  have "bg_current_watermark (fst (bounded_run (bounded_new 100) ?as)) =
      Max (insert i64_min (bounded_bound 100 ` snd ` set ?as))"
    by (rule bounded_watermark_spec [OF _ _ prod.collapse [symmetric]]) (simp_all add: i64_simps)
  then show ?thesis by (simp add: i64_simps)
qed

section \<open>Properties of the generators\<close>

context wrapped_generator
begin

lemma periodic_silent_run:
  assumes "invar inner" "current_watermark inner = i64_min"
    and "gen_run (periodic_on_event on_event) (periodic_on_periodic current_watermark)
           (periodic_advance_watermark advance_watermark) (periodic_new c0 inner period) as = (g, es)"
  shows "snd (periodic_on_periodic current_watermark c g) = None"
proof -
  have "periodic_inv current_watermark invar (periodic_new c0 inner period)"
    using assms(1,2) by (simp add: periodic_inv_def periodic_new_def)
  then show ?thesis
    using in_periodic.run_emissions [OF assms(3)] by (intro periodic_on_periodic_silent(1)) simp
qed

end

text \<open>
  The watermarks emitted by the bounded, ascending, punctuated and processing-time generators, and by a metered
  generator around any of these four, strictly increase over any run, and the current watermark of the bounded
  generator is the last one emitted. The source-provided generator, and so a metered one around it, is not covered:
  its emissions can go back (C18).
\<close>

theorem generator_emissions_increase:
  "(\<forall>as. sorted_wrt (<) (snd (bounded_run bg as))) \<and>
   (\<forall>as. sorted_wrt (<) (snd (gen_run (\<lambda>_. ascending_on_event) (\<lambda>_. ascending_on_periodic)
     (\<lambda>_. ascending_advance_watermark) ag as))) \<and>
   (\<forall>as. sorted_wrt (<) (snd (gen_run (\<lambda>_. punctuated_on_event) (\<lambda>_. punctuated_on_periodic)
     (\<lambda>_. punctuated_advance_watermark) pu as))) \<and>
   (\<forall>as. sorted_wrt (<) (snd (gen_run (\<lambda>_. processing_time_on_event) processing_time_on_periodic
     (\<lambda>_. processing_time_advance_watermark) pt as))) \<and>
   (\<forall>as. sorted_wrt (<) (snd (gen_run (metered_on_event (\<lambda>_. bounded_on_event))
     (metered_on_periodic (\<lambda>_. bounded_on_periodic))
     (metered_advance_watermark (\<lambda>_. bounded_advance_watermark)) mb as))) \<and>
   (\<forall>as. sorted_wrt (<) (snd (gen_run (metered_on_event (\<lambda>_. ascending_on_event))
     (metered_on_periodic (\<lambda>_. ascending_on_periodic))
     (metered_advance_watermark (\<lambda>_. ascending_advance_watermark)) ma as))) \<and>
   (\<forall>as. sorted_wrt (<) (snd (gen_run (metered_on_event (\<lambda>_. punctuated_on_event))
     (metered_on_periodic (\<lambda>_. punctuated_on_periodic))
     (metered_advance_watermark (\<lambda>_. punctuated_advance_watermark)) mpu as))) \<and>
   (\<forall>as. sorted_wrt (<) (snd (gen_run (metered_on_event (\<lambda>_. processing_time_on_event))
     (metered_on_periodic processing_time_on_periodic)
     (metered_advance_watermark (\<lambda>_. processing_time_advance_watermark)) mpt as))) \<and>
   (\<forall>as. last (bg_current_watermark bg # snd (bounded_run bg as)) =
     bg_current_watermark (fst (bounded_run bg as)))"
  using bounded.run_emissions [OF prod.collapse [symmetric], of bg]
    ascending.run_emissions [OF prod.collapse [symmetric], of ag]
    punctuated.run_emissions [OF prod.collapse [symmetric], of pu]
    processing_time.run_emissions [OF prod.collapse [symmetric], of pt]
    wrapped_bounded.in_metered.run_emissions [OF prod.collapse [symmetric], of mb]
    wrapped_ascending.in_metered.run_emissions [OF prod.collapse [symmetric], of ma]
    wrapped_punctuated.in_metered.run_emissions [OF prod.collapse [symmetric], of mpu]
    wrapped_processing_time.in_metered.run_emissions [OF prod.collapse [symmetric], of mpt]
  by simp

text \<open>
  A periodic generator never emits from \<^verbatim>\<open>on_periodic\<close>: whatever inner generator obeys the trait's
  contract, after any run of the wrapper the last emitted watermark already is the inner
  generator's current one.
\<close>

theorem periodic_never_emits:
  assumes "watermark_generator ev per adv cur invar" "invar inner" "cur inner = i64_min"
    and "gen_run (periodic_on_event ev) (periodic_on_periodic cur)
           (periodic_advance_watermark adv) (periodic_new c0 inner period) as = (g, es)"
  shows "snd (periodic_on_periodic cur c g) = None"
proof -
  have "wrapped_generator ev per adv cur invar"
    using assms(1) by (simp add: wrapped_generator_def)
  from wrapped_generator.periodic_silent_run [OF this assms(2-4)] show ?thesis .
qed

theorem periodic_never_emits_witness:
  "snd (periodic_on_periodic pt_current_watermark \<lparr>instant = 900, wall_millis = 900\<rparr>
     (fst (gen_run (periodic_on_event (\<lambda>_. processing_time_on_event))
       (periodic_on_periodic pt_current_watermark)
       (periodic_advance_watermark (\<lambda>_. processing_time_advance_watermark))
       (periodic_new \<lparr>instant = 0, wall_millis = 0\<rparr> processing_time_new 100)
       [(\<lparr>instant = 200, wall_millis = 200\<rparr>, Event 5),
        (\<lparr>instant = 400, wall_millis = 400\<rparr>, Periodic)]))) = None"
  by (rule periodic_never_emits [OF processing_time.watermark_generator_axioms _ _
        prod.collapse [symmetric]])
    (simp_all add: processing_time_new_def)

fun event_times :: "(clock \<times> gen_action) list \<Rightarrow> i64 list" where
  "event_times [] = []"
| "event_times ((c, Event t) # as) = t # event_times as"
| "event_times ((c, Periodic) # as) = event_times as"
| "event_times ((c, Advance t) # as) = event_times as"

lemma metered_step_fields:
  assumes "gen_step (metered_on_event ev) (metered_on_periodic per)
             (metered_advance_watermark adv) g c a = (g', r)"
  shows "wmet_max_event_timestamp (mg_metrics g') =
      Max (insert (wmet_max_event_timestamp (mg_metrics g)) (set (event_times [(c, a)]))) \<and>
    wmet_watermarks_emitted (mg_metrics g') =
      wmet_watermarks_emitted (mg_metrics g) + (if r = None then 0 else 1) \<and>
    wmet_current_watermark (mg_metrics g') =
      (case r of None \<Rightarrow> wmet_current_watermark (mg_metrics g) | Some w \<Rightarrow> w)"
  using assms
  by (cases a)
    (auto simp: metered_on_event_def metered_on_periodic_def metered_advance_watermark_def
        metered_record_def Let_def split: prod.splits option.splits if_splits)

lemma Max_insert_Max_Un:
  fixes m :: "'a::linorder"
  assumes "finite A" "finite B"
  shows "Max (insert (Max (insert m A)) B) = Max (insert m (A \<union> B))"
proof (cases "B = {}")
  case False
  then have "Max (insert (Max (insert m A)) B) = max (Max (insert m A)) (Max B)"
    using assms by (intro Max_insert) auto
  also have "\<dots> = Max (insert m A \<union> B)"
    using assms False by (intro Max.union [symmetric]) auto
  finally show ?thesis by simp
qed simp

lemma event_times_Cons: "event_times (ca # as) = event_times [ca] @ event_times as"
  by (cases ca; cases "snd ca") auto

lemma metered_run_fields:
  assumes "gen_run (metered_on_event ev) (metered_on_periodic per)
             (metered_advance_watermark adv) g as = (g', es)"
  shows "wmet_max_event_timestamp (mg_metrics g') =
      Max (insert (wmet_max_event_timestamp (mg_metrics g)) (set (event_times as))) \<and>
    wmet_watermarks_emitted (mg_metrics g') = wmet_watermarks_emitted (mg_metrics g) + length es \<and>
    wmet_current_watermark (mg_metrics g') = last (wmet_current_watermark (mg_metrics g) # es)"
  using assms
proof (induction as arbitrary: g es)
  case (Cons ca as)
  let ?run = "gen_run (metered_on_event ev) (metered_on_periodic per) (metered_advance_watermark adv)"
  obtain c a where ca: "ca = (c, a)" by (cases ca)
  obtain g1 r where st: "gen_step (metered_on_event ev) (metered_on_periodic per)
    (metered_advance_watermark adv) g c a = (g1, r)" by fastforce
  obtain es1 where rest: "?run g1 as = (g', es1)"
    and es: "es = (case r of None \<Rightarrow> es1 | Some w \<Rightarrow> w # es1)"
    using Cons.prems by (auto simp: ca st split: prod.splits)
  note step = metered_step_fields [OF st] and ih = Cons.IH [OF rest]
  show ?case
    using step ih es event_times_Cons [of ca as]
    by (cases r) (simp_all add: ca Max_insert_Max_Un del: Max_insert)
qed simp

text \<open>
  The metrics of a metered generator are exact for whatever generator is inside: one emission
  counted per returned watermark, the last of them recorded, and the maximal event timestamp
  (taken together with the initial value 0) .
\<close>

theorem metered_metrics_spec:
  "wmet_max_event_timestamp (mg_metrics (fst (gen_run (metered_on_event ev) (metered_on_periodic per)
     (metered_advance_watermark adv) (metered_new inner) as))) = Max (insert 0 (set (event_times as))) \<and>
   wmet_watermarks_emitted (mg_metrics (fst (gen_run (metered_on_event ev) (metered_on_periodic per)
     (metered_advance_watermark adv) (metered_new inner) as))) =
     length (snd (gen_run (metered_on_event ev) (metered_on_periodic per)
     (metered_advance_watermark adv) (metered_new inner) as)) \<and>
   wmet_current_watermark (mg_metrics (fst (gen_run (metered_on_event ev) (metered_on_periodic per)
     (metered_advance_watermark adv) (metered_new inner) as))) =
     last (0 # snd (gen_run (metered_on_event ev) (metered_on_periodic per)
     (metered_advance_watermark adv) (metered_new inner) as))"
  using metered_run_fields [OF prod.collapse [symmetric], of ev per adv "metered_new inner" as]
  by (simp add: metered_new_def watermark_metrics_new_def)

abbreviation source_provided_run ::
  "source_provided_gen \<Rightarrow> (clock \<times> gen_action) list \<Rightarrow> source_provided_gen \<times> watermark list" where
  "source_provided_run \<equiv> gen_run (\<lambda>_. source_provided_on_event) (\<lambda>_. source_provided_on_periodic)
     (\<lambda>_. source_provided_advance_watermark)"

text \<open>
  The source-provided generator breaks the contract in both modes. With \<^verbatim>\<open>prefer_source = false\<close>
  an event emits a watermark below one already emitted; with \<^verbatim>\<open>prefer_source = true\<close> the first
  source watermark moves the current watermark back.
\<close>

theorem source_provided_regresses:
  "snd (source_provided_run (source_provided_new 0 False)
     [(c, Advance 5000), (c, Event 1000)]) = [5000, 1000] \<and>
   snd (source_provided_run (source_provided_new 0 True)
     [(c, Event 5000), (c, Advance 100)]) = [5000, 100] \<and>
   source_provided_current_watermark (fst (source_provided_run (source_provided_new 0 True)
     [(c, Event 5000)])) = 5000 \<and>
   source_provided_current_watermark (fst (source_provided_run (source_provided_new 0 True)
     [(c, Event 5000), (c, Advance 100)])) = 100"
  by (simp add: source_provided_new_def source_provided_on_event_def
      source_provided_advance_watermark_def source_provided_on_source_watermark_def
      source_provided_current_watermark_def bounded_new_def bounded_on_event_def i64_simps)

end
