(* ===== verification/Timer_Service.thy ===== *)
theory Timer_Service
  imports Laminar_Prelude
begin

text \<open>
  The timer service of \<^verbatim>\<open>crates/laminar-core/src/time/mod.rs\<close>. The binary heap of the standard
  library is a list together with the operations the service calls on it: \<^verbatim>\<open>peek\<close> returns a
  greatest element for the reversed order of \<^verbatim>\<open>TimerRegistration\<close>, \<^verbatim>\<open>pop\<close> removes it. Timer ids
  are natural numbers.
\<close>

section \<open>Definitions\<close>

record timer =
  tr_id :: nat
  tr_timestamp :: i64
  tr_key :: "bytes option"
  tr_operator_index :: "nat option"

definition timer_cmp :: "timer \<Rightarrow> timer \<Rightarrow> ordering" where
  "timer_cmp self other =
     (case cmp_ord (tr_timestamp other) (tr_timestamp self) of
        Equal \<Rightarrow> cmp_ord (tr_id other) (tr_id self)
      | ord \<Rightarrow> ord)"

fun heap_peek :: "timer list \<Rightarrow> timer option" where
  "heap_peek [] = None"
| "heap_peek (t # ts) =
     (case heap_peek ts of
        None \<Rightarrow> Some t
      | Some u \<Rightarrow> if timer_cmp u t = Greater then Some u else Some t)"

definition heap_pop :: "timer list \<Rightarrow> (timer \<times> timer list) option" where
  "heap_pop ts = (case heap_peek ts of None \<Rightarrow> None | Some t \<Rightarrow> Some (t, remove1 t ts))"

record timer_service =
  ts_timers :: "timer list"
  ts_next_timer_id :: nat

definition timer_service_new :: timer_service where
  "timer_service_new = \<lparr>ts_timers = [], ts_next_timer_id = 0\<rparr>"

definition register_timer ::
  "timer_service \<Rightarrow> i64 \<Rightarrow> bytes option \<Rightarrow> nat option \<Rightarrow> timer_service \<times> nat" where
  "register_timer s timestamp key operator_index =
     (let id = ts_next_timer_id s;
          s1 = s\<lparr>ts_next_timer_id := ts_next_timer_id s + 1\<rparr>
      in (s1\<lparr>ts_timers := \<lparr>tr_id = id, tr_timestamp = timestamp, tr_key = key,
             tr_operator_index = operator_index\<rparr> # ts_timers s1\<rparr>, id))"

lemma heap_peek_mem: "heap_peek ts = Some t \<Longrightarrow> t \<in> set ts"
  by (induction ts arbitrary: t) (auto split: option.splits if_splits)

lemma heap_pop_length: "heap_pop ts = Some (t, ts') \<Longrightarrow> length ts' < length ts"
  using length_remove1 [of t ts] length_pos_if_in_set [of t ts]
  by (auto simp: heap_pop_def dest: heap_peek_mem split: option.splits)

function poll_loop :: "i64 \<Rightarrow> timer list \<Rightarrow> timer list \<Rightarrow> timer list \<times> timer list" where
  "poll_loop current_time fired timers =
     (case heap_peek timers of
        None \<Rightarrow> (fired, timers)
      | Some t \<Rightarrow>
          if tr_timestamp t \<le> current_time
          then (case heap_pop timers of
                  None \<Rightarrow> (fired, timers)
                | Some (t', timers') \<Rightarrow> poll_loop current_time (fired @ [t']) timers')
          else (fired, timers))"
  by auto
termination
  by (relation "measure (\<lambda>(c, f, ts). length ts)")
    (auto dest: heap_pop_length)

declare poll_loop.simps [simp del]

definition poll_timers :: "timer_service \<Rightarrow> i64 \<Rightarrow> timer_service \<times> timer list" where
  "poll_timers s current_time =
     (let (fired, timers) = poll_loop current_time [] (ts_timers s)
      in (s\<lparr>ts_timers := timers\<rparr>, fired))"

definition cancel_timer :: "timer_service \<Rightarrow> nat \<Rightarrow> timer_service \<times> bool" where
  "cancel_timer s tid =
     (let count_before = length (ts_timers s);
          s1 = s\<lparr>ts_timers := filter (\<lambda>t. tr_id t \<noteq> tid) (ts_timers s)\<rparr>
      in (s1, length (ts_timers s1) < count_before))"

definition pending_count :: "timer_service \<Rightarrow> nat" where
  "pending_count s = length (ts_timers s)"

definition next_timer_timestamp :: "timer_service \<Rightarrow> i64 option" where
  "next_timer_timestamp s = map_option tr_timestamp (heap_peek (ts_timers s))"

definition timer_clear :: "timer_service \<Rightarrow> timer_service" where
  "timer_clear s = s\<lparr>ts_timers := []\<rparr>"

section \<open>The heap\<close>

definition timer_le :: "timer \<Rightarrow> timer \<Rightarrow> bool" where
  "timer_le a b \<longleftrightarrow>
     tr_timestamp a < tr_timestamp b \<or> tr_timestamp a = tr_timestamp b \<and> tr_id a \<le> tr_id b"

lemma timer_cmp_not_Greater: "timer_cmp u t \<noteq> Greater \<longleftrightarrow> timer_le t u"
  by (auto simp: timer_cmp_def timer_le_def cmp_ord_def not_less split: if_splits)

lemma timer_cmp_Greater: "timer_cmp u t = Greater \<Longrightarrow> timer_le u t"
  by (auto simp: timer_cmp_def timer_le_def cmp_ord_def split: if_splits)

lemma timer_le_refl [simp]: "timer_le a a"
  by (simp add: timer_le_def)

lemma timer_le_trans: "timer_le a b \<Longrightarrow> timer_le b c \<Longrightarrow> timer_le a c"
  by (auto simp: timer_le_def)

lemma heap_peek_None [simp]: "heap_peek ts = None \<longleftrightarrow> ts = []"
  by (cases ts) (auto split: option.splits)

lemma heap_peek_least: "heap_peek ts = Some t \<Longrightarrow> u \<in> set ts \<Longrightarrow> timer_le t u"
proof (induction ts arbitrary: t u)
  case (Cons a ts)
  show ?case
  proof (cases "heap_peek ts")
    case None
    then show ?thesis using Cons.prems by simp
  next
    case (Some b)
    note ih = Cons.IH [OF Some]
    show ?thesis
    proof (cases "timer_cmp b a = Greater")
      case True
      then show ?thesis using Cons.prems Some ih timer_cmp_Greater by auto
    next
      case False
      then have "timer_le a b" by (simp add: timer_cmp_not_Greater)
      then show ?thesis using Cons.prems Some False ih timer_le_trans by auto
    qed
  qed
qed simp

lemma heap_pop_Some:
  assumes "heap_peek ts = Some t"
  shows "heap_pop ts = Some (t, remove1 t ts)" "mset ts = add_mset t (mset (remove1 t ts))"
  using assms heap_peek_mem [OF assms] by (simp_all add: heap_pop_def)

section \<open>Polling\<close>

lemma poll_loop_spec:
  assumes "poll_loop T fired ts = (fired', ts')"
    and "sorted_wrt timer_le fired" "\<forall>f \<in> set fired. \<forall>t \<in> set ts. timer_le f t"
  shows "sorted_wrt timer_le fired' \<and>
    mset fired' = mset fired + filter_mset (\<lambda>t. tr_timestamp t \<le> T) (mset ts) \<and>
    mset ts' = filter_mset (\<lambda>t. T < tr_timestamp t) (mset ts)"
  using assms
proof (induction T fired ts rule: poll_loop.induct)
  case (1 T fired ts)
  show ?case
  proof (cases "heap_peek ts")
    case None
    then show ?thesis using "1.prems" by (auto simp: poll_loop.simps)
  next
    case (Some t)
    note pop = heap_pop_Some [OF Some] and least = heap_peek_least [OF Some]
    show ?thesis
    proof (cases "tr_timestamp t \<le> T")
      case True
      have run: "poll_loop T (fired @ [t]) (remove1 t ts) = (fired', ts')"
        using "1.prems"(1) Some True pop by (subst (asm) poll_loop.simps) simp
      have sorted: "sorted_wrt timer_le (fired @ [t])"
        using "1.prems"(2,3) heap_peek_mem [OF Some] by (auto simp: sorted_wrt_append)
      have below: "\<forall>f \<in> set (fired @ [t]). \<forall>u \<in> set (remove1 t ts). timer_le f u"
        using "1.prems"(3) least set_remove1_subset [of t ts] by auto
      show ?thesis
        using "1.IH" [OF Some True pop(1) refl run sorted below] True
        by (subst pop(2), subst pop(2)) simp
    next
      case False
      then have "\<forall>u \<in> set ts. T < tr_timestamp u"
        using least by (force simp: timer_le_def)
      then have "filter_mset (\<lambda>t. tr_timestamp t \<le> T) (mset ts) = {#}"
        "filter_mset (\<lambda>t. T < tr_timestamp t) (mset ts) = mset ts"
        by (auto simp: filter_mset_eq_conv filter_mset_eq_mempty_iff not_le)
      then show ?thesis
        using "1.prems" Some False by (simp add: poll_loop.simps)
    qed
  qed
qed

text \<open>
  \<^verbatim>\<open>poll_timers\<close> removes exactly the timers due at the given time, keeps exactly the others, and
  returns the due ones ordered by timestamp and, for equal timestamps, by registration .
\<close>

theorem poll_timers_spec:
  "sorted_wrt timer_le (snd (poll_timers s T)) \<and>
   mset (snd (poll_timers s T)) = filter_mset (\<lambda>t. tr_timestamp t \<le> T) (mset (ts_timers s)) \<and>
   mset (ts_timers (fst (poll_timers s T))) =
     filter_mset (\<lambda>t. T < tr_timestamp t) (mset (ts_timers s)) \<and>
   ts_next_timer_id (fst (poll_timers s T)) = ts_next_timer_id s"
  using poll_loop_spec [of T "[]" "ts_timers s", OF prod.collapse [symmetric]]
  by (simp add: poll_timers_def case_prod_unfold Let_def)

section \<open>Timer identifiers\<close>

text \<open>A list of timers with distinct ids below the next id.\<close>

definition ids_below :: "timer list \<Rightarrow> nat \<Rightarrow> bool" where
  "ids_below ts n \<longleftrightarrow> distinct (map tr_id ts) \<and> (\<forall>t \<in> set ts. tr_id t < n)"

definition timer_inv :: "timer_service \<Rightarrow> bool" where
  "timer_inv s \<longleftrightarrow> ids_below (ts_timers s) (ts_next_timer_id s)"

lemma ids_below_mset_cong:
  assumes "mset xs = mset ys"
  shows "ids_below xs n = ids_below ys n"
  using mset_eq_setD [OF assms] mset_eq_imp_distinct_iff [of "map tr_id xs" "map tr_id ys"] assms
  by (simp add: ids_below_def)

lemma ids_below_Cons: "ids_below xs n \<Longrightarrow> tr_id t = n \<Longrightarrow> ids_below (t # xs) (Suc n)"
  by (force simp: ids_below_def)

lemma ids_below_append_filter: "ids_below (xs @ ys) n \<Longrightarrow> ids_below (xs @ filter P ys) n"
  by (auto simp: ids_below_def distinct_map_filter)

datatype timer_op = Register i64 "bytes option" "nat option" | Poll i64 | Cancel nat | Clear

text \<open>A step returns the timers it fires.\<close>

fun timer_step :: "timer_service \<Rightarrow> timer_op \<Rightarrow> timer_service \<times> timer list" where
  "timer_step s (Register ts k i) = (fst (register_timer s ts k i), [])"
| "timer_step s (Poll T) = poll_timers s T"
| "timer_step s (Cancel tid) = (fst (cancel_timer s tid), [])"
| "timer_step s Clear = (timer_clear s, [])"

fun timer_run :: "timer_service \<Rightarrow> timer_op list \<Rightarrow> timer_service \<times> timer list" where
  "timer_run s [] = (s, [])"
| "timer_run s (op # ops) =
     (let (s1, f1) = timer_step s op; (s2, f2) = timer_run s1 ops in (s2, f1 @ f2))"

text \<open>The fired timers of a history together with the pending ones.\<close>

definition timer_history_inv :: "timer list \<Rightarrow> timer_service \<Rightarrow> bool" where
  "timer_history_inv fired s \<longleftrightarrow> ids_below (fired @ ts_timers s) (ts_next_timer_id s)"

lemma poll_timers_mset:
  assumes "poll_timers s T = (s', fs)"
  shows "mset (fs @ ts_timers s') = mset (ts_timers s)" "ts_next_timer_id s' = ts_next_timer_id s"
proof -
  have "mset fs = filter_mset (\<lambda>t. tr_timestamp t \<le> T) (mset (ts_timers s))"
    "mset (ts_timers s') = filter_mset (\<lambda>t. \<not> tr_timestamp t \<le> T) (mset (ts_timers s))"
    using poll_loop_spec [of T "[]" "ts_timers s", OF prod.collapse [symmetric]] assms
    by (auto simp: poll_timers_def case_prod_unfold Let_def not_le)
  then show "mset (fs @ ts_timers s') = mset (ts_timers s)"
    by (simp only: mset_append multiset_partition [symmetric])
  show "ts_next_timer_id s' = ts_next_timer_id s"
    using assms by (auto simp: poll_timers_def Let_def split: prod.splits)
qed

lemma timer_step_history:
  assumes "timer_history_inv fired s" "timer_step s op = (s', fs)"
  shows "timer_history_inv (fired @ fs) s'"
proof (cases op)
  case (Poll T)
  then have p: "poll_timers s T = (s', fs)" using assms(2) by simp
  have "mset (fired @ fs @ ts_timers s') = mset (fired @ ts_timers s)"
    using poll_timers_mset(1) [OF p] by simp
  from ids_below_mset_cong [OF this] show ?thesis
    using assms(1) poll_timers_mset(2) [OF p] by (simp add: timer_history_inv_def)
next
  case (Register ts k i)
  then obtain t where s': "ts_timers s' = t # ts_timers s" "tr_id t = ts_next_timer_id s"
    "ts_next_timer_id s' = Suc (ts_next_timer_id s)" "fs = []"
    using assms(2) by (auto simp: register_timer_def Let_def)
  have "ids_below (t # fired @ ts_timers s) (ts_next_timer_id s')"
    using ids_below_Cons assms(1) s' by (simp add: timer_history_inv_def)
  then show ?thesis
    using ids_below_mset_cong [of "fired @ t # ts_timers s" "t # fired @ ts_timers s"] s'
    by (simp add: timer_history_inv_def)
next
  case (Cancel tid)
  then show ?thesis
    using assms ids_below_append_filter by (auto simp: timer_history_inv_def cancel_timer_def Let_def)
next
  case Clear
  then show ?thesis
    using assms by (auto simp: timer_history_inv_def timer_clear_def ids_below_def)
qed

lemma timer_run_history:
  assumes "timer_history_inv fired s" "timer_run s ops = (s', fs)"
  shows "timer_history_inv (fired @ fs) s'"
  using assms
proof (induction ops arbitrary: fired s fs)
  case (Cons op ops)
  obtain s1 f1 where st: "timer_step s op = (s1, f1)" by fastforce
  then obtain f2 where "timer_run s1 ops = (s', f2)" "fs = f1 @ f2"
    using Cons.prems(2) by (auto split: prod.splits)
  then show ?case using Cons.IH [OF timer_step_history [OF Cons.prems(1) st]] by simp
qed simp

text \<open>
  Over any sequence of registrations, polls, cancellations and clears, no timer fires twice, no fired
  timer is still pending, and every fired or pending timer carries an id that was handed out (C13).
\<close>

theorem timers_fire_once:
  "timer_history_inv (snd (timer_run timer_service_new ops)) (fst (timer_run timer_service_new ops))"
  using timer_run_history [of "[]" timer_service_new ops, OF _ prod.collapse [symmetric]]
  by (simp add: timer_history_inv_def ids_below_def timer_service_new_def)

lemma length_filter_neq:
  "distinct (map f xs) \<Longrightarrow>
     length (filter (\<lambda>x. f x \<noteq> a) xs) = length xs - (if a \<in> f ` set xs then 1 else 0)"
proof (induction xs)
  case (Cons x xs)
  then show ?case by (cases "xs = []") (auto simp: Suc_diff_le length_greater_0_conv)
qed simp

text \<open>
  \<^verbatim>\<open>cancel_timer\<close> returns true exactly for a pending timer and removes exactly that timer.
\<close>

theorem cancel_timer_spec:
  assumes "timer_inv s"
  shows "(snd (cancel_timer s tid) \<longleftrightarrow> tid \<in> tr_id ` set (ts_timers s)) \<and>
    set (ts_timers (fst (cancel_timer s tid))) = {t \<in> set (ts_timers s). tr_id t \<noteq> tid} \<and>
    pending_count (fst (cancel_timer s tid)) =
      pending_count s - (if snd (cancel_timer s tid) then 1 else 0) \<and>
    timer_inv (fst (cancel_timer s tid))"
proof -
  have len: "length (filter (\<lambda>t. tr_id t \<noteq> tid) (ts_timers s)) =
      length (ts_timers s) - (if tid \<in> tr_id ` set (ts_timers s) then 1 else 0)"
    using assms by (simp add: timer_inv_def ids_below_def length_filter_neq)
  have pos: "0 < length (ts_timers s)" if "tid \<in> tr_id ` set (ts_timers s)"
    using that by auto
  have "(snd (cancel_timer s tid) \<longleftrightarrow> tid \<in> tr_id ` set (ts_timers s)) \<and>
    pending_count (fst (cancel_timer s tid)) =
       pending_count s - (if snd (cancel_timer s tid) then 1 else 0)"
    using len pos by (auto simp: cancel_timer_def pending_count_def Let_def)
  moreover have
    "set (ts_timers (fst (cancel_timer s tid))) = {t \<in> set (ts_timers s). tr_id t \<noteq> tid} \<and>
     timer_inv (fst (cancel_timer s tid))"
    using assms by (auto simp: cancel_timer_def timer_inv_def ids_below_def Let_def distinct_map_filter)
  ultimately show ?thesis by blast
qed

theorem cancel_timer_spec_witness:
  "snd (cancel_timer (fst (register_timer timer_service_new 50 None None)) 0)"
proof -
  have "timer_inv (fst (register_timer timer_service_new 50 None None))"
    by (simp add: timer_inv_def ids_below_def register_timer_def timer_service_new_def Let_def)
  from cancel_timer_spec [OF this, of 0] show ?thesis
    by (simp add: register_timer_def timer_service_new_def Let_def)
qed

text \<open>The next timer timestamp is the least pending one.\<close>

lemma next_timer_timestamp_Min:
  assumes "ts_timers s \<noteq> []"
  shows "next_timer_timestamp s = Some (Min (tr_timestamp ` set (ts_timers s)))"
proof -
  obtain t where t: "heap_peek (ts_timers s) = Some t" using assms by (cases "heap_peek (ts_timers s)") auto
  have "Min (tr_timestamp ` set (ts_timers s)) = tr_timestamp t"
    using heap_peek_mem [OF t] heap_peek_least [OF t]
    by (intro Min_eqI) (force simp: timer_le_def)+
  then show ?thesis by (simp add: next_timer_timestamp_def t)
qed

end
