(* ===== verification/Watermark_Tracker.thy ===== *)
theory Watermark_Tracker
  imports Watermark_Generators
begin

text \<open>
  The multi-source tracker of \<^verbatim>\<open>crates/laminar-core/src/time/watermark.rs\<close>, and the locale
  \<^verbatim>\<open>combining_tracker\<close>: the contract shared by every component that combines the watermarks of
  several inputs into one (this tracker, the partitioned tracker, the per-core state and the
  global collector). An instant is a natural number and \<^verbatim>\<open>elapsed\<close> saturates at zero, as
  \<^verbatim>\<open>Instant::elapsed\<close> does.
\<close>

section \<open>The contract of a combining tracker\<close>

text \<open>A run records every emitted watermark with the state its step reaches.\<close>

fun tracker_run ::
  "('s \<Rightarrow> 'op \<Rightarrow> 's \<times> watermark option) \<Rightarrow> 's \<Rightarrow> 'op list \<Rightarrow> 's \<times> ('s \<times> watermark) list" where
  "tracker_run step s [] = (s, [])"
| "tracker_run step s (a # as) =
     (let (s1, r) = step s a; (s2, es) = tracker_run step s1 as
      in (s2, (case r of None \<Rightarrow> es | Some w \<Rightarrow> (s1, w) # es)))"

locale combining_tracker =
  fixes step :: "'s \<Rightarrow> 'op \<Rightarrow> 's \<times> watermark option"
    and inputs :: "'s \<Rightarrow> (bool \<times> i64) list"
    and combined :: "'s \<Rightarrow> i64"
    and invar :: "'s \<Rightarrow> bool"
    and ok :: "'op \<Rightarrow> bool"
  assumes step_invar: "\<lbrakk>invar s; ok a; step s a = (s', r)\<rbrakk> \<Longrightarrow> invar s'"
    and step_None: "\<lbrakk>invar s; ok a; step s a = (s', None)\<rbrakk> \<Longrightarrow> combined s' = combined s"
    and step_Some: "\<lbrakk>invar s; ok a; step s a = (s', Some w)\<rbrakk>
      \<Longrightarrow> w = combine_active (inputs s') \<and> combined s < w \<and> combined s' = w"
begin

lemma run_emissions:
  assumes "invar s" "\<forall>a \<in> set as. ok a" "tracker_run step s as = (s', es)"
  shows "invar s' \<and> sorted_wrt (<) (combined s # map snd es) \<and>
    combined s' = last (combined s # map snd es) \<and>
    (\<forall>(t, w) \<in> set es. \<forall>x. (False, x) \<in> set (inputs t) \<longrightarrow> w \<le> x)"
  using assms
proof (induction as arbitrary: s es)
  case (Cons a as)
  obtain s1 r where st: "step s a = (s1, r)" by fastforce
  obtain es1 where rest: "tracker_run step s1 as = (s', es1)"
    and es: "es = (case r of None \<Rightarrow> es1 | Some w \<Rightarrow> (s1, w) # es1)"
    using Cons.prems(3) by (auto simp: st split: prod.splits)
  have ok: "ok a" "\<forall>a \<in> set as. ok a" using Cons.prems(2) by simp_all
  note ih = Cons.IH [OF step_invar [OF Cons.prems(1) ok(1) st] ok(2) rest]
  show ?case
  proof (cases r)
    case None
    then show ?thesis
      using ih es step_None [OF Cons.prems(1) ok(1) st [unfolded None]] by simp
  next
    case (Some w)
    note w = step_Some [OF Cons.prems(1) ok(1) st [unfolded Some]]
    have "\<forall>x. (False, x) \<in> set (inputs s1) \<longrightarrow> w \<le> x"
      using combine_active_le w by blast
    then show ?thesis using ih es Some w by auto
  qed
qed simp

lemma run_mono:
  assumes "invar s" "\<forall>a \<in> set as. ok a" "tracker_run step s as = (s', es)"
  shows "combined s \<le> combined s'"
  using run_emissions [OF assms] by (cases es rule: rev_cases) auto

end

section \<open>The tracker\<close>

record watermark_tracker =
  wt_source_watermarks :: "i64 list"
  wt_combined_watermark :: i64
  wt_idle_sources :: "bool list"
  wt_last_activity :: "nat list"
  wt_idle_timeout :: nat

definition wt_with_idle_timeout :: "nat \<Rightarrow> nat \<Rightarrow> nat \<Rightarrow> watermark_tracker" where
  "wt_with_idle_timeout now num_sources idle_timeout =
     \<lparr>wt_source_watermarks = replicate num_sources i64_min,
      wt_combined_watermark = i64_min,
      wt_idle_sources = replicate num_sources False,
      wt_last_activity = replicate num_sources now,
      wt_idle_timeout = idle_timeout\<rparr>"

text \<open>The default timeout is 30 seconds; the unit of instants is the millisecond.\<close>

definition wt_new :: "nat \<Rightarrow> nat \<Rightarrow> watermark_tracker" where
  "wt_new now num_sources = wt_with_idle_timeout now num_sources 30000"

definition wt_inputs :: "watermark_tracker \<Rightarrow> (bool \<times> i64) list" where
  "wt_inputs s = zip (wt_idle_sources s) (wt_source_watermarks s)"

definition wt_update_combined :: "watermark_tracker \<Rightarrow> watermark_tracker \<times> watermark option" where
  "wt_update_combined s =
     (let min_watermark = combine_active (wt_inputs s)
      in if min_watermark > wt_combined_watermark s \<and> min_watermark \<noteq> i64_max
         then (s\<lparr>wt_combined_watermark := min_watermark\<rparr>, Some min_watermark)
         else (s, None))"

definition wt_update_source ::
  "nat \<Rightarrow> watermark_tracker \<Rightarrow> nat \<Rightarrow> i64 \<Rightarrow> watermark_tracker \<times> watermark option" where
  "wt_update_source now s source_id watermark =
     (if source_id \<ge> length (wt_source_watermarks s) then (s, None)
      else
        let s1 = s\<lparr>wt_idle_sources := (wt_idle_sources s)[source_id := False],
                   wt_last_activity := (wt_last_activity s)[source_id := now]\<rparr>
        in if watermark > wt_source_watermarks s1 ! source_id
           then wt_update_combined
                  (s1\<lparr>wt_source_watermarks := (wt_source_watermarks s1)[source_id := watermark]\<rparr>)
           else (s1, None))"

definition wt_mark_idle :: "watermark_tracker \<Rightarrow> nat \<Rightarrow> watermark_tracker \<times> watermark option" where
  "wt_mark_idle s source_id =
     (if source_id \<ge> length (wt_idle_sources s) then (s, None)
      else wt_update_combined (s\<lparr>wt_idle_sources := (wt_idle_sources s)[source_id := True]\<rparr>))"

text \<open>One iteration of the loop of \<^verbatim>\<open>check_idle_sources\<close>.\<close>

definition wt_check_one :: "nat \<Rightarrow> nat \<Rightarrow> watermark_tracker \<times> bool \<Rightarrow> watermark_tracker \<times> bool" where
  "wt_check_one now i acc =
     (let (s, any_marked) = acc
      in if \<not> wt_idle_sources s ! i \<and> now - wt_last_activity s ! i \<ge> wt_idle_timeout s
         then (s\<lparr>wt_idle_sources := (wt_idle_sources s)[i := True]\<rparr>, True)
         else (s, any_marked))"

definition wt_check_idle_sources ::
  "nat \<Rightarrow> watermark_tracker \<Rightarrow> watermark_tracker \<times> watermark option" where
  "wt_check_idle_sources now s =
     (let (s1, any_marked) = fold (wt_check_one now) [0..<length (wt_idle_sources s)] (s, False)
      in if any_marked then wt_update_combined s1 else (s1, None))"

definition wt_current_watermark :: "watermark_tracker \<Rightarrow> watermark option" where
  "wt_current_watermark s =
     (if wt_combined_watermark s = i64_min then None else Some (wt_combined_watermark s))"

definition wt_source_watermark :: "watermark_tracker \<Rightarrow> nat \<Rightarrow> i64 option" where
  "wt_source_watermark s source_id =
     (if source_id < length (wt_source_watermarks s)
      then Some (wt_source_watermarks s ! source_id) else None)"

definition wt_is_idle :: "watermark_tracker \<Rightarrow> nat \<Rightarrow> bool" where
  "wt_is_idle s source_id =
     (source_id < length (wt_idle_sources s) \<and> wt_idle_sources s ! source_id)"

definition wt_active_source_count :: "watermark_tracker \<Rightarrow> nat" where
  "wt_active_source_count s = length (filter Not (wt_idle_sources s))"

section \<open>Invariant and contract\<close>

definition wt_inv :: "watermark_tracker \<Rightarrow> bool" where
  "wt_inv s \<longleftrightarrow>
     length (wt_idle_sources s) = length (wt_source_watermarks s) \<and>
     length (wt_last_activity s) = length (wt_source_watermarks s)"

datatype tracker_op = UpdateSource nat nat i64 | MarkIdle nat | CheckIdle nat

fun wt_step :: "watermark_tracker \<Rightarrow> tracker_op \<Rightarrow> watermark_tracker \<times> watermark option" where
  "wt_step s (UpdateSource now i w) = wt_update_source now s i w"
| "wt_step s (MarkIdle i) = wt_mark_idle s i"
| "wt_step s (CheckIdle now) = wt_check_idle_sources now s"

lemma wt_update_combined_Some:
  assumes "wt_update_combined s = (s', Some w)"
  shows "w = combine_active (wt_inputs s') \<and> wt_combined_watermark s < w \<and>
         wt_combined_watermark s' = w \<and> w \<noteq> i64_max"
  using assms by (auto simp: wt_update_combined_def wt_inputs_def Let_def split: if_splits)

lemma wt_update_combined_None:
  "wt_update_combined s = (s', None) \<Longrightarrow> s' = s"
  by (auto simp: wt_update_combined_def Let_def split: if_splits)

lemma wt_update_combined_inv [simp]: "wt_inv (fst (wt_update_combined s)) = wt_inv s"
  by (simp add: wt_update_combined_def wt_inv_def Let_def)

lemma wt_check_fold:
  "wt_inv s \<Longrightarrow> wt_inv (fst (fold (wt_check_one now) is (s, b))) \<and>
     wt_combined_watermark (fst (fold (wt_check_one now) is (s, b))) = wt_combined_watermark s \<and>
     wt_source_watermarks (fst (fold (wt_check_one now) is (s, b))) = wt_source_watermarks s"
proof (induction "is" arbitrary: s b)
  case (Cons i "is")
  obtain s1 b1 where one: "wt_check_one now i (s, b) = (s1, b1)" by fastforce
  then have "wt_inv s1" "wt_combined_watermark s1 = wt_combined_watermark s"
    "wt_source_watermarks s1 = wt_source_watermarks s"
    using Cons.prems by (auto simp: wt_check_one_def wt_inv_def split: if_splits)
  then show ?case using Cons.IH [of s1 b1] one by simp
qed simp

text \<open>Each operation is a change of the inputs that keeps the combined watermark, then at most an advance.\<close>

lemma wt_step_shape:
  assumes "wt_inv s" "wt_step s a = (s', r)"
  shows "\<exists>s1. wt_inv s1 \<and> wt_combined_watermark s1 = wt_combined_watermark s \<and>
    ((s', r) = (s1, None) \<or> (s', r) = wt_update_combined s1)"
proof (cases a)
  case (UpdateSource now i w)
  let ?s1 = "s\<lparr>wt_idle_sources := (wt_idle_sources s)[i := False],
               wt_last_activity := (wt_last_activity s)[i := now]\<rparr>"
  let ?s2 = "?s1\<lparr>wt_source_watermarks := (wt_source_watermarks ?s1)[i := w]\<rparr>"
  have "wt_inv ?s1" "wt_inv ?s2" using assms(1) by (simp_all add: wt_inv_def)
  then show ?thesis
    using assms UpdateSource
    by (auto simp: wt_update_source_def Let_def split: if_splits
        intro: exI [of _ s] exI [of _ ?s1] exI [of _ ?s2])
next
  case (MarkIdle i)
  let ?s1 = "s\<lparr>wt_idle_sources := (wt_idle_sources s)[i := True]\<rparr>"
  have "wt_inv ?s1" using assms(1) by (simp add: wt_inv_def)
  then show ?thesis
    using assms MarkIdle
    by (auto simp: wt_mark_idle_def split: if_splits intro: exI [of _ s] exI [of _ ?s1])
next
  case (CheckIdle now)
  obtain s1 b where f: "fold (wt_check_one now) [0..<length (wt_idle_sources s)] (s, False) = (s1, b)"
    by fastforce
  then have "wt_inv s1" "wt_combined_watermark s1 = wt_combined_watermark s"
    using wt_check_fold [OF assms(1), of now "[0..<length (wt_idle_sources s)]" False] by simp_all
  then show ?thesis
    using assms(2) CheckIdle f
    by (auto simp: wt_check_idle_sources_def split: if_splits intro: exI [of _ s1])
qed

interpretation sources: combining_tracker
  wt_step wt_inputs wt_combined_watermark wt_inv "\<lambda>_. True"
proof (unfold_locales, goal_cases)
  case (1 s a s' r)
  then show ?case using wt_step_shape [OF 1(1,3)] wt_update_combined_inv by (metis fst_conv)
next
  case (2 s a s')
  then show ?case using wt_step_shape [OF 2(1,3)] wt_update_combined_None by (metis prod.inject)
next
  case (3 s a s' w)
  then show ?case
    using wt_step_shape [OF 3(1,3)] wt_update_combined_Some by (metis option.distinct(1) snd_conv)
qed

lemma wt_inv_new [simp]: "wt_inv (wt_with_idle_timeout now n t)"
  by (simp add: wt_inv_def wt_with_idle_timeout_def)

section \<open>Properties of the tracker\<close>

text \<open>
  Over any sequence of updates, idle marks and idle checks, the watermarks that the tracker emits
  strictly increase, each one is at most the watermark of every source active at that moment, and
  the combined watermark is the last one emitted (C16).
\<close>

theorem tracker_emissions_safe:
  assumes "wt_inv s" "tracker_run wt_step s as = (s', es)"
  shows "wt_inv s' \<and> sorted_wrt (<) (wt_combined_watermark s # map snd es) \<and>
    wt_combined_watermark s' = last (wt_combined_watermark s # map snd es) \<and>
    (\<forall>(t, w) \<in> set es. \<forall>x. (False, x) \<in> set (wt_inputs t) \<longrightarrow> w \<le> x)"
  using sources.run_emissions [OF assms(1) _ assms(2)] by simp

theorem tracker_emissions_safe_witness:
  "map snd (snd (tracker_run wt_step (wt_new 0 2)
     [UpdateSource 1 0 100, UpdateSource 2 1 50, MarkIdle 1])) = [50, 100] \<and>
   wt_combined_watermark (fst (tracker_run wt_step (wt_new 0 2)
     [UpdateSource 1 0 100, UpdateSource 2 1 50, MarkIdle 1])) = 100"
proof -
  let ?as = "[UpdateSource 1 0 100, UpdateSource 2 1 50, MarkIdle 1]"
  have e: "map snd (snd (tracker_run wt_step (wt_new 0 2) ?as)) = [50, 100]"
    by (simp add: wt_new_def wt_with_idle_timeout_def wt_update_source_def wt_update_combined_def
        wt_mark_idle_def wt_inputs_def combine_active_def i64_simps numeral_2_eq_2)
  have "wt_inv (wt_new 0 2)" by (simp add: wt_new_def)
  from tracker_emissions_safe [OF this, of ?as, OF prod.collapse [symmetric]]
  show ?thesis unfolding e by simp
qed

text \<open>The watermarks reported for one source.\<close>

definition reported :: "(nat \<times> nat \<times> i64) list \<Rightarrow> nat \<Rightarrow> i64 set" where
  "reported us i = set (map (snd \<circ> snd) (filter (\<lambda>u. fst (snd u) = i) us))"

lemma finite_reported [simp]: "finite (reported us i)"
  by (simp add: reported_def)

lemma reported_snoc:
  "reported (us @ [(now, i, w)]) j = (if j = i then insert w (reported us j) else reported us j)"
  by (auto simp: reported_def)

lemma set_nth_image: "set xs = (\<lambda>i. xs ! i) ` {..<length xs}"
  by (auto simp: set_conv_nth)

lemma Max_insert_insert:
  "finite S \<Longrightarrow> Max (insert m (insert w S)) = max w (Max (insert m S))"
  by (subst insert_commute, subst Max_insert) auto

abbreviation wt_updates :: "watermark_tracker \<Rightarrow> (nat \<times> nat \<times> i64) list \<Rightarrow> watermark_tracker" where
  "wt_updates s us \<equiv> fold (\<lambda>(now, i, w) s. fst (wt_update_source now s i w)) us s"

definition all_active :: "nat \<Rightarrow> watermark_tracker \<Rightarrow> bool" where
  "all_active n s \<longleftrightarrow>
     length (wt_source_watermarks s) = n \<and> wt_idle_sources s = replicate n False \<and>
     (\<forall>w \<in> set (wt_source_watermarks s). w < i64_max) \<and>
     wt_combined_watermark s = Min (set (wt_source_watermarks s))"

lemma combine_all_active:
  assumes "xs \<noteq> []" "\<forall>w \<in> set xs. w \<le> i64_max"
  shows "combine_active (zip (replicate (length xs) False) xs) = Min (set xs)"
proof -
  have "active_wms (zip (replicate (length xs) False) xs) = set xs"
    by (simp add: zip_replicate1 active_wms_def image_iff)
  then show ?thesis using assms combine_active_Min by simp
qed

lemma Min_list_update_mono:
  fixes w :: "'a::linorder"
  assumes "i < length xs" "xs ! i \<le> w"
  shows "Min (set xs) \<le> Min (set (xs[i := w]))"
proof (rule Min.boundedI)
  show "set (xs[i := w]) \<noteq> {}" using assms(1) by auto
  fix a assume "a \<in> set (xs[i := w])"
  then have "a = w \<or> a \<in> set xs" using set_update_subset_insert by fastforce
  moreover have "Min (set xs) \<le> w"
    using assms by (meson List.finite_set Min_le nth_mem order_trans)
  ultimately show "Min (set xs) \<le> a" by auto
qed simp

lemma all_active_update:
  assumes "all_active n s" "w < i64_max"
  shows "all_active n (fst (wt_update_source now s i w)) \<and>
    wt_source_watermarks (fst (wt_update_source now s i w)) =
      (if i < n \<and> wt_source_watermarks s ! i < w then (wt_source_watermarks s)[i := w]
       else wt_source_watermarks s)"
proof -
  let ?xs = "wt_source_watermarks s"
  have "(replicate n False)[i := False] = replicate n False"
    by (cases "i < n") (auto simp: list_eq_iff_nth_eq nth_list_update)
  then have idle: "(wt_idle_sources s)[i := False] = replicate n False" "length ?xs = n"
    using assms(1) by (auto simp: all_active_def)
  show ?thesis
  proof (cases "i < n \<and> ?xs ! i < w")
    case True
    let ?ys = "?xs[i := w]"
    have ys: "?ys \<noteq> []" "\<forall>v \<in> set ?ys. v < i64_max"
      using True assms idle(2) set_update_subset_insert [of ?xs i w]
      by (auto simp: all_active_def)
    have c: "combine_active (zip (replicate n False) ?ys) = Min (set ?ys)"
      using combine_all_active [of ?ys] ys idle(2) by force
    have "Min (set ?ys) \<in> set ?ys" using ys(1) by (intro Min_in) auto
    then have "Min (set ?ys) \<noteq> i64_max" using ys(2) by force
    moreover have "Min (set ?xs) \<le> Min (set ?ys)"
      using Min_list_update_mono [of i ?xs w] True idle(2) by simp
    ultimately show ?thesis
      using True assms idle c ys
      by (auto simp: wt_update_source_def wt_update_combined_def wt_inputs_def all_active_def Let_def
          simp del: Min_gr_iff Min_ge_iff Min_less_iff Min_le_iff)
  next
    case False
    then show ?thesis
      using assms idle by (auto simp: wt_update_source_def all_active_def Let_def)
  qed
qed

lemma all_active_updates:
  assumes "0 < n" "\<forall>(now, i, w) \<in> set us. i64_min \<le> w \<and> w < i64_max"
  shows "all_active n (wt_updates (wt_with_idle_timeout t0 n d) us) \<and>
    (\<forall>i < n. wt_source_watermarks (wt_updates (wt_with_idle_timeout t0 n d) us) ! i =
       Max (insert i64_min (reported us i)))"
  using assms(2)
proof (induction us rule: rev_induct)
  case Nil
  then show ?case using assms(1)
    by (simp add: all_active_def wt_with_idle_timeout_def reported_def)
next
  case (snoc u us)
  obtain now i w where u: "u = (now, i, w)" by (cases u) auto
  let ?s = "wt_updates (wt_with_idle_timeout t0 n d) us"
  have ih: "all_active n ?s" "\<forall>j<n. wt_source_watermarks ?s ! j = Max (insert i64_min (reported us j))"
    and w: "i64_min \<le> w" "w < i64_max"
    using snoc by (auto simp: u)
  note step = all_active_update [OF ih(1) w(2), of now i]
  have len: "length (wt_source_watermarks ?s) = n" using ih(1) by (simp add: all_active_def)
  have mx: "Max (insert i64_min (reported (us @ [u]) j)) =
      (if j = i then max w (Max (insert i64_min (reported us j)))
       else Max (insert i64_min (reported us j)))" for j
    by (simp add: u reported_snoc Max_insert_insert del: Max_insert)
  have "wt_source_watermarks (fst (wt_update_source now ?s i w)) ! j =
      Max (insert i64_min (reported (us @ [u]) j))" if "j < n" for j
    unfolding mx ih(2) [rule_format, OF that, symmetric] conjunct2 [OF step]
    using that len by (auto simp: nth_list_update max_def)
  then show ?case using step by (simp add: u)
qed

text \<open>
  As long as no source is idle, the combined watermark is the minimum over the sources of the
  greatest watermark each source has reported: no source is overtaken, none is ignored.
\<close>

theorem tracker_combined_is_min:
  assumes "0 < n" "\<forall>(now, i, w) \<in> set us. i64_min \<le> w \<and> w < i64_max"
  shows "wt_combined_watermark (wt_updates (wt_with_idle_timeout t0 n d) us) =
    Min ((\<lambda>i. Max (insert i64_min (reported us i))) ` {..<n})"
proof -
  let ?s = "wt_updates (wt_with_idle_timeout t0 n d) us"
  note inv = all_active_updates [OF assms, of t0 d]
  have "set (wt_source_watermarks ?s) = (\<lambda>i. wt_source_watermarks ?s ! i) ` {..<n}"
    using inv set_nth_image [of "wt_source_watermarks ?s"] by (simp add: all_active_def)
  also have "\<dots> = (\<lambda>i. Max (insert i64_min (reported us i))) ` {..<n}"
    using inv by (intro image_cong) simp_all
  finally have "set (wt_source_watermarks ?s) = (\<lambda>i. Max (insert i64_min (reported us i))) ` {..<n}" .
  then show ?thesis using inv by (simp add: all_active_def)
qed

theorem tracker_combined_is_min_witness:
  "wt_combined_watermark (wt_updates (wt_with_idle_timeout 0 2 30000)
     [(1, 0, 100), (2, 1, 50), (3, 1, 80)]) = 80"
  using tracker_combined_is_min [of 2 "[(1, 0, 100), (2, 1, 50), (3, 1, 80)]" 0 30000]
  by (simp add: reported_def lessThan_nat_numeral lessThan_Suc i64_simps)

end
