(* ===== verification/Partitioned_Watermark.thy ===== *)
theory Partitioned_Watermark
  imports Watermark_Tracker
begin

text \<open>
  The tracker of per-partition watermarks, \<^verbatim>\<open>PartitionedWatermarkTracker\<close> of
  \<^verbatim>\<open>crates/laminar-core/src/time/partitioned_watermark.rs\<close>: its operations, the exactness of its
  metrics, the safety of what it emits, and its agreement with the plain tracker when every source
  has one partition.
\<close>

section \<open>Definitions\<close>

record partition_id =
  pid_source_id :: nat
  pid_partition :: nat

definition partition_id_new :: "nat \<Rightarrow> nat \<Rightarrow> partition_id" where
  "partition_id_new source_id part = \<lparr>pid_source_id = source_id, pid_partition = part\<rparr>"

record partition_watermark_state =
  pws_watermark :: i64
  pws_last_event_time :: i64
  pws_last_activity :: nat
  pws_is_idle :: bool
  pws_assigned_core :: "nat option"

definition pws_new :: "nat \<Rightarrow> partition_watermark_state" where
  "pws_new now =
     \<lparr>pws_watermark = i64_min, pws_last_event_time = i64_min, pws_last_activity = now,
      pws_is_idle = False, pws_assigned_core = None\<rparr>"

definition pws_with_core :: "nat \<Rightarrow> nat \<Rightarrow> partition_watermark_state" where
  "pws_with_core now core_id =
     \<lparr>pws_watermark = i64_min, pws_last_event_time = i64_min, pws_last_activity = now,
      pws_is_idle = False, pws_assigned_core = Some core_id\<rparr>"

record partitioned_metrics =
  pm_total_partitions :: nat
  pm_active_partitions :: nat
  pm_idle_partitions :: nat
  pm_watermark_advances :: nat
  pm_rebalances :: nat

definition partitioned_metrics_new :: partitioned_metrics where
  "partitioned_metrics_new =
     \<lparr>pm_total_partitions = 0, pm_active_partitions = 0, pm_idle_partitions = 0,
      pm_watermark_advances = 0, pm_rebalances = 0\<rparr>"

datatype watermark_error =
    UnknownPartition partition_id
  | SourceNotFound nat
  | InvalidPartition nat nat nat
  | PartitionExists partition_id

record partitioned_tracker =
  pw_partitions :: "(partition_id, partition_watermark_state) hashmap"
  pw_source_partition_counts :: "nat list"
  pw_combined_watermark :: i64
  pw_idle_timeout :: nat
  pw_metrics :: partitioned_metrics

definition pw_with_idle_timeout :: "nat \<Rightarrow> partitioned_tracker" where
  "pw_with_idle_timeout idle_timeout =
     \<lparr>pw_partitions = [], pw_source_partition_counts = [], pw_combined_watermark = i64_min,
      pw_idle_timeout = idle_timeout, pw_metrics = partitioned_metrics_new\<rparr>"

definition pw_new :: partitioned_tracker where
  "pw_new = pw_with_idle_timeout 30000"

definition pw_update_metrics :: "partitioned_tracker \<Rightarrow> partitioned_tracker" where
  "pw_update_metrics t =
     (let total = length (pw_partitions t);
          idle = length (filter (\<lambda>(_, s). pws_is_idle s) (pw_partitions t))
      in t\<lparr>pw_metrics := (pw_metrics t)\<lparr>pm_total_partitions := total, pm_idle_partitions := idle,
           pm_active_partitions := total - idle\<rparr>\<rparr>)"

definition pw_inputs :: "partitioned_tracker \<Rightarrow> (bool \<times> i64) list" where
  "pw_inputs t = map (\<lambda>(_, s). (pws_is_idle s, pws_watermark s)) (pw_partitions t)"

definition pw_calculate_combined :: "partitioned_tracker \<Rightarrow> i64" where
  "pw_calculate_combined t = combine_active (pw_inputs t)"

definition pw_recalculate_combined :: "partitioned_tracker \<Rightarrow> partitioned_tracker" where
  "pw_recalculate_combined t =
     (let new_combined = pw_calculate_combined t
      in if new_combined \<noteq> i64_max then t\<lparr>pw_combined_watermark := new_combined\<rparr> else t)"

definition pw_try_advance_combined ::
  "partitioned_tracker \<Rightarrow> partitioned_tracker \<times> watermark option" where
  "pw_try_advance_combined t =
     (let new_combined = pw_calculate_combined t
      in if new_combined > pw_combined_watermark t \<and> new_combined \<noteq> i64_max
         then (t\<lparr>pw_combined_watermark := new_combined,
                 pw_metrics := (pw_metrics t)
                   \<lparr>pm_watermark_advances := pm_watermark_advances (pw_metrics t) + 1\<rparr>\<rparr>,
               Some new_combined)
         else (t, None))"

text \<open>The loop that pads the partition counts with zeros up to an index.\<close>

definition pad_counts :: "nat \<Rightarrow> nat list \<Rightarrow> nat list" where
  "pad_counts i counts = counts @ replicate (Suc i - length counts) 0"

definition pw_entry_or_default ::
  "nat \<Rightarrow> partition_id \<Rightarrow> (partition_id, partition_watermark_state) hashmap \<Rightarrow>
   (partition_id, partition_watermark_state) hashmap" where
  "pw_entry_or_default now pid m =
     (if contains_key m pid then m else AList.update pid (pws_new now) m)"

definition pw_register_source :: "nat \<Rightarrow> partitioned_tracker \<Rightarrow> nat \<Rightarrow> nat \<Rightarrow> partitioned_tracker" where
  "pw_register_source now t source_id num_partitions =
     (let counts = (pad_counts source_id (pw_source_partition_counts t))[source_id := num_partitions];
          parts = fold (\<lambda>p. pw_entry_or_default now (partition_id_new source_id (p mod 2 ^ 32)))
                    [0..<num_partitions] (pw_partitions t)
      in pw_update_metrics (t\<lparr>pw_source_partition_counts := counts, pw_partitions := parts\<rparr>))"

definition pw_add_partition ::
  "nat \<Rightarrow> partitioned_tracker \<Rightarrow> partition_id \<Rightarrow> partitioned_tracker \<times> (watermark_error + unit)" where
  "pw_add_partition now t pid =
     (if contains_key (pw_partitions t) pid then (t, Inl (PartitionExists pid))
      else
        let counts = pad_counts (pid_source_id pid) (pw_source_partition_counts t);
            current_count = counts ! pid_source_id pid;
            counts' = (if pid_partition pid \<ge> current_count
                       then counts[pid_source_id pid := pid_partition pid + 1] else counts);
            t1 = t\<lparr>pw_source_partition_counts := counts',
                   pw_partitions := AList.update pid (pws_new now) (pw_partitions t),
                   pw_metrics := (pw_metrics t)\<lparr>pm_rebalances := pm_rebalances (pw_metrics t) + 1\<rparr>\<rparr>
        in (pw_update_metrics t1, Inr ()))"

definition pw_remove_partition ::
  "partitioned_tracker \<Rightarrow> partition_id \<Rightarrow> partitioned_tracker \<times> partition_watermark_state option" where
  "pw_remove_partition t pid =
     (let state = map_of (pw_partitions t) pid;
          t1 = t\<lparr>pw_partitions := AList.delete pid (pw_partitions t)\<rparr>
      in if state \<noteq> None
         then (pw_recalculate_combined (pw_update_metrics
                 (t1\<lparr>pw_metrics := (pw_metrics t1)
                    \<lparr>pm_rebalances := pm_rebalances (pw_metrics t1) + 1\<rparr>\<rparr>)), state)
         else (t1, state))"

text \<open>The metric changes when a partition becomes active or idle.\<close>

definition pm_activate :: "partitioned_metrics \<Rightarrow> partitioned_metrics" where
  "pm_activate m = m\<lparr>pm_active_partitions := pm_active_partitions m + 1,
                     pm_idle_partitions := pm_idle_partitions m - 1\<rparr>"

definition pm_deactivate :: "partitioned_metrics \<Rightarrow> partitioned_metrics" where
  "pm_deactivate m = m\<lparr>pm_idle_partitions := pm_idle_partitions m + 1,
                       pm_active_partitions := pm_active_partitions m - 1\<rparr>"

definition pw_update_partition ::
  "nat \<Rightarrow> partitioned_tracker \<Rightarrow> partition_id \<Rightarrow> i64 \<Rightarrow> partitioned_tracker \<times> watermark option" where
  "pw_update_partition now t pid watermark =
     (case map_of (pw_partitions t) pid of
        None \<Rightarrow> (t, None)
      | Some state \<Rightarrow>
          let t1 = (if pws_is_idle state then t\<lparr>pw_metrics := pm_activate (pw_metrics t)\<rparr> else t);
              state1 = state\<lparr>pws_is_idle := False, pws_last_activity := now\<rparr>
          in if watermark > pws_watermark state1
             then pw_try_advance_combined
                    (t1\<lparr>pw_partitions := AList.update pid
                       (state1\<lparr>pws_watermark := watermark, pws_last_event_time := watermark\<rparr>)
                       (pw_partitions t1)\<rparr>)
             else (t1\<lparr>pw_partitions := AList.update pid state1 (pw_partitions t1)\<rparr>, None))"

definition pw_update_partition_from_event ::
  "nat \<Rightarrow> partitioned_tracker \<Rightarrow> partition_id \<Rightarrow> i64 \<Rightarrow> i64 \<Rightarrow> partitioned_tracker \<times> watermark option" where
  "pw_update_partition_from_event now t pid event_time max_lateness =
     pw_update_partition now t pid (saturating_sub event_time max_lateness)"

definition pw_mark_partition_idle ::
  "partitioned_tracker \<Rightarrow> partition_id \<Rightarrow> partitioned_tracker \<times> watermark option" where
  "pw_mark_partition_idle t pid =
     (case map_of (pw_partitions t) pid of
        None \<Rightarrow> (t, None)
      | Some state \<Rightarrow>
          if \<not> pws_is_idle state
          then pw_try_advance_combined
                 (t\<lparr>pw_partitions := AList.update pid (state\<lparr>pws_is_idle := True\<rparr>) (pw_partitions t),
                    pw_metrics := pm_deactivate (pw_metrics t)\<rparr>)
          else (t, None))"

definition pw_mark_partition_active ::
  "nat \<Rightarrow> partitioned_tracker \<Rightarrow> partition_id \<Rightarrow> partitioned_tracker" where
  "pw_mark_partition_active now t pid =
     (case map_of (pw_partitions t) pid of
        None \<Rightarrow> t
      | Some state \<Rightarrow>
          if pws_is_idle state
          then t\<lparr>pw_partitions := AList.update pid
                    (state\<lparr>pws_is_idle := False, pws_last_activity := now\<rparr>) (pw_partitions t),
                 pw_metrics := pm_activate (pw_metrics t)\<rparr>
          else t)"

definition pws_timed_out :: "nat \<Rightarrow> nat \<Rightarrow> partition_watermark_state \<Rightarrow> bool" where
  "pws_timed_out now timeout s \<longleftrightarrow> \<not> pws_is_idle s \<and> now - pws_last_activity s \<ge> timeout"

definition pw_check_idle_partitions ::
  "nat \<Rightarrow> partitioned_tracker \<Rightarrow> partitioned_tracker \<times> watermark option" where
  "pw_check_idle_partitions now t =
     (let due = pws_timed_out now (pw_idle_timeout t);
          any_marked = (\<exists>(_, s) \<in> set (pw_partitions t). due s);
          t1 = t\<lparr>pw_partitions :=
                 map_vals (\<lambda>s. if due s then s\<lparr>pws_is_idle := True\<rparr> else s) (pw_partitions t)\<rparr>
      in if any_marked then pw_try_advance_combined (pw_update_metrics t1) else (t1, None))"

definition pw_set_idle_timeout :: "partitioned_tracker \<Rightarrow> nat \<Rightarrow> partitioned_tracker" where
  "pw_set_idle_timeout t timeout = t\<lparr>pw_idle_timeout := timeout\<rparr>"

definition pw_current_watermark :: "partitioned_tracker \<Rightarrow> watermark option" where
  "pw_current_watermark t =
     (if pw_combined_watermark t = i64_min then None else Some (pw_combined_watermark t))"

definition pw_partition_watermark :: "partitioned_tracker \<Rightarrow> partition_id \<Rightarrow> i64 option" where
  "pw_partition_watermark t pid = map_option pws_watermark (map_of (pw_partitions t) pid)"

definition pw_source_watermark :: "partitioned_tracker \<Rightarrow> nat \<Rightarrow> i64 option" where
  "pw_source_watermark t source_id =
     (let (min_watermark, found) =
        fold (\<lambda>(pid, s) (m, f).
            if pid_source_id pid = source_id \<and> \<not> pws_is_idle s
            then (min m (pws_watermark s), True) else (m, f))
          (pw_partitions t) (i64_max, False)
      in if found \<and> min_watermark \<noteq> i64_max then Some min_watermark else None)"

definition pw_is_partition_idle :: "partitioned_tracker \<Rightarrow> partition_id \<Rightarrow> bool" where
  "pw_is_partition_idle t pid =
     (case map_of (pw_partitions t) pid of None \<Rightarrow> False | Some s \<Rightarrow> pws_is_idle s)"

definition pw_active_partition_count :: "partitioned_tracker \<Rightarrow> nat \<Rightarrow> nat" where
  "pw_active_partition_count t source_id =
     length (filter (\<lambda>(pid, s). pid_source_id pid = source_id \<and> \<not> pws_is_idle s) (pw_partitions t))"

definition pw_partition_count :: "partitioned_tracker \<Rightarrow> nat \<Rightarrow> nat" where
  "pw_partition_count t source_id =
     (if source_id < length (pw_source_partition_counts t)
      then pw_source_partition_counts t ! source_id else 0)"

definition pw_assign_partition_to_core ::
  "partitioned_tracker \<Rightarrow> partition_id \<Rightarrow> nat \<Rightarrow> partitioned_tracker" where
  "pw_assign_partition_to_core t pid core_id =
     t\<lparr>pw_partitions :=
        AList.map_entry pid (\<lambda>s. s\<lparr>pws_assigned_core := Some core_id\<rparr>) (pw_partitions t)\<rparr>"

definition pw_partition_core :: "partitioned_tracker \<Rightarrow> partition_id \<Rightarrow> nat option" where
  "pw_partition_core t pid = Option.bind (map_of (pw_partitions t) pid) pws_assigned_core"

definition pw_partitions_for_core :: "partitioned_tracker \<Rightarrow> nat \<Rightarrow> partition_id list" where
  "pw_partitions_for_core t core_id =
     map fst (filter (\<lambda>(_, s). pws_assigned_core s = Some core_id) (pw_partitions t))"

section \<open>Steps\<close>

datatype pw_op =
    RegisterSource nat nat nat
  | AddPartition nat partition_id
  | UpdatePartition nat partition_id i64
  | UpdateFromEvent nat partition_id i64 i64
  | MarkPartitionIdle partition_id
  | MarkPartitionActive nat partition_id
  | CheckIdlePartitions nat
  | AssignToCore partition_id nat
  | SetIdleTimeout nat

fun pw_step :: "partitioned_tracker \<Rightarrow> pw_op \<Rightarrow> partitioned_tracker \<times> watermark option" where
  "pw_step t (RegisterSource now i n) = (pw_register_source now t i n, None)"
| "pw_step t (AddPartition now pid) = (fst (pw_add_partition now t pid), None)"
| "pw_step t (UpdatePartition now pid w) = pw_update_partition now t pid w"
| "pw_step t (UpdateFromEvent now pid e l) = pw_update_partition_from_event now t pid e l"
| "pw_step t (MarkPartitionIdle pid) = pw_mark_partition_idle t pid"
| "pw_step t (MarkPartitionActive now pid) = (pw_mark_partition_active now t pid, None)"
| "pw_step t (CheckIdlePartitions now) = pw_check_idle_partitions now t"
| "pw_step t (AssignToCore pid c) = (pw_assign_partition_to_core t pid c, None)"
| "pw_step t (SetIdleTimeout d) = (pw_set_idle_timeout t d, None)"

lemmas pw_eval =
  pw_register_source_def pw_new_def pw_with_idle_timeout_def pad_counts_def
  pw_entry_or_default_def contains_key_def partition_id_new_def pws_new_def
  pw_update_metrics_def pw_update_partition_def pw_try_advance_combined_def
  pw_calculate_combined_def pw_inputs_def combine_active_def i64_min_def i64_max_def
  pw_mark_partition_idle_def pw_mark_partition_active_def pw_remove_partition_def
  pw_recalculate_combined_def pm_deactivate_def pm_activate_def partitioned_metrics_new_def

section \<open>Exact metrics\<close>

abbreviation idle_count :: "(partition_id, partition_watermark_state) hashmap \<Rightarrow> nat" where
  "idle_count m \<equiv> length (filter (\<lambda>(_, s). pws_is_idle s) m)"

definition pw_inv :: "partitioned_tracker \<Rightarrow> bool" where
  "pw_inv t \<longleftrightarrow>
     wf_map (pw_partitions t) \<and>
     pm_total_partitions (pw_metrics t) = length (pw_partitions t) \<and>
     pm_idle_partitions (pw_metrics t) = idle_count (pw_partitions t) \<and>
     pm_active_partitions (pw_metrics t) + pm_idle_partitions (pw_metrics t) =
       pm_total_partitions (pw_metrics t)"

lemma pw_inv_wf [simp]: "pw_inv t \<Longrightarrow> wf_map (pw_partitions t)"
  by (simp add: pw_inv_def)

lemma pw_inv_new [simp]: "pw_inv (pw_with_idle_timeout d)"
  by (simp add: pw_inv_def pw_with_idle_timeout_def partitioned_metrics_new_def)

lemma pw_inv_update_metrics [simp]: "wf_map (pw_partitions t) \<Longrightarrow> pw_inv (pw_update_metrics t)"
  by (simp add: pw_inv_def pw_update_metrics_def Let_def)

lemma pw_update_metrics_simps [simp]:
  "pw_partitions (pw_update_metrics t) = pw_partitions t"
  "pw_combined_watermark (pw_update_metrics t) = pw_combined_watermark t"
  "pw_idle_timeout (pw_update_metrics t) = pw_idle_timeout t"
  by (simp_all add: pw_update_metrics_def Let_def)

lemma pw_inv_try_advance [simp]: "pw_inv (fst (pw_try_advance_combined t)) = pw_inv t"
  by (simp add: pw_try_advance_combined_def pw_inv_def Let_def)

lemma pw_inv_recalculate [simp]: "pw_inv (pw_recalculate_combined t) = pw_inv t"
  by (simp add: pw_recalculate_combined_def pw_inv_def Let_def)

lemma pw_try_advance_Some:
  assumes "pw_try_advance_combined t = (t', Some w)"
  shows "w = combine_active (pw_inputs t') \<and> pw_combined_watermark t < w \<and>
         pw_combined_watermark t' = w"
  using assms
  by (auto simp: pw_try_advance_combined_def pw_calculate_combined_def pw_inputs_def Let_def
      split: if_splits)

lemma pw_try_advance_None: "pw_try_advance_combined t = (t', None) \<Longrightarrow> t' = t"
  by (auto simp: pw_try_advance_combined_def Let_def split: if_splits)

text \<open>Replacing the state of a known partition, with the metric change that goes with it.\<close>

lemma pw_inv_replace:
  assumes "pw_inv t" "map_of (pw_partitions t) pid = Some s"
    and "pw_partitions t' = AList.update pid s' (pw_partitions t)"
    and "pw_metrics t' =
      (if pws_is_idle s then if pws_is_idle s' then pw_metrics t else pm_activate (pw_metrics t)
       else if pws_is_idle s' then pm_deactivate (pw_metrics t) else pw_metrics t)"
  shows "pw_inv t'"
proof -
  have pos: "pws_is_idle s \<Longrightarrow> 0 < idle_count (pw_partitions t)"
    using count_pos_existing [OF assms(2), of pws_is_idle] by blast
  have "\<not> pws_is_idle s \<Longrightarrow> idle_count (pw_partitions t) < length (pw_partitions t)"
    using count_pos_existing [OF assms(2), of "\<lambda>x. \<not> pws_is_idle x"]
      sum_length_filter_compl [of "\<lambda>(_, s). pws_is_idle s" "pw_partitions t"]
    by (simp add: case_prod_unfold del: length_greater_0_conv)
  then show ?thesis
    using assms pos count_update_existing [of "pw_partitions t" pid s pws_is_idle s']
    by (cases "pws_is_idle s"; cases "pws_is_idle s'")
      (simp_all add: pw_inv_def pm_activate_def pm_deactivate_def length_update_existing
        del: length_greater_0_conv)
qed

lemma wf_entry_or_default [simp]: "wf_map (pw_entry_or_default now pid m) = wf_map m"
  by (simp add: pw_entry_or_default_def)

lemma wf_fold_entry_or_default [simp]:
  "wf_map (fold (\<lambda>p. pw_entry_or_default now (f p)) ps m) = wf_map m"
  by (induction ps arbitrary: m) simp_all

text \<open>Each operation changes the partitions and keeps the combined watermark, then at most advances.\<close>

lemma pw_update_shape:
  assumes "pw_inv t" "pw_update_partition now t pid w = (t', r)"
  shows "\<exists>t1. pw_inv t1 \<and> pw_combined_watermark t1 = pw_combined_watermark t \<and>
    ((t', r) = (t1, None) \<or> (t', r) = pw_try_advance_combined t1)"
proof (cases "map_of (pw_partitions t) pid")
  case None
  then show ?thesis using assms by (auto simp: pw_update_partition_def intro: exI [of _ t])
next
  case (Some s)
  define s1 where "s1 = s\<lparr>pws_is_idle := False, pws_last_activity := now\<rparr>"
  define s2 where "s2 = (if w > pws_watermark s1
    then s1\<lparr>pws_watermark := w, pws_last_event_time := w\<rparr> else s1)"
  define t1 where "t1 = (if pws_is_idle s then t\<lparr>pw_metrics := pm_activate (pw_metrics t)\<rparr> else t)
    \<lparr>pw_partitions := AList.update pid s2 (pw_partitions t)\<rparr>"
  have idle: "\<not> pws_is_idle s2" by (simp add: s2_def s1_def)
  have "pw_inv t1"
    using idle by (intro pw_inv_replace [OF assms(1) Some, of _ s2]) (simp_all add: t1_def)
  moreover have "pw_combined_watermark t1 = pw_combined_watermark t"
    by (simp add: t1_def)
  moreover have "(t', r) = (t1, None) \<or> (t', r) = pw_try_advance_combined t1"
    using assms(2) Some
    by (auto simp: pw_update_partition_def Let_def t1_def s2_def s1_def split: if_splits)
  ultimately show ?thesis by blast
qed

lemma pw_step_shape:
  assumes "pw_inv t" "pw_step t a = (t', r)"
  shows "\<exists>t1. pw_inv t1 \<and> pw_combined_watermark t1 = pw_combined_watermark t \<and>
    ((t', r) = (t1, None) \<or> (t', r) = pw_try_advance_combined t1)"
proof (cases a)
  case (RegisterSource now i n)
  then show ?thesis using assms
    by (intro exI [of _ t']) (auto simp: pw_register_source_def Let_def)
next
  case (AddPartition now pid)
  then show ?thesis using assms
    by (intro exI [of _ t']) (auto simp: pw_add_partition_def Let_def)
next
  case (UpdatePartition now pid w)
  then show ?thesis using assms pw_update_shape by simp
next
  case (UpdateFromEvent now pid e l)
  then show ?thesis using assms pw_update_shape by (simp add: pw_update_partition_from_event_def)
next
  case (MarkPartitionIdle pid)
  show ?thesis
  proof (cases "map_of (pw_partitions t) pid")
    case None
    then show ?thesis using assms MarkPartitionIdle
      by (intro exI [of _ t]) (simp add: pw_mark_partition_idle_def)
  next
    case (Some s)
    let ?t1 = "t\<lparr>pw_partitions := AList.update pid (s\<lparr>pws_is_idle := True\<rparr>) (pw_partitions t),
                 pw_metrics := pm_deactivate (pw_metrics t)\<rparr>"
    have "\<not> pws_is_idle s \<Longrightarrow> pw_inv ?t1"
      by (rule pw_inv_replace [OF assms(1) Some, where s' = "s\<lparr>pws_is_idle := True\<rparr>"]) simp_all
    then show ?thesis using assms MarkPartitionIdle Some
      by (intro exI [of _ "if pws_is_idle s then t else ?t1"])
        (auto simp: pw_mark_partition_idle_def)
  qed
next
  case (MarkPartitionActive now pid)
  show ?thesis
  proof (cases "map_of (pw_partitions t) pid")
    case None
    then show ?thesis using assms MarkPartitionActive
      by (intro exI [of _ t]) (simp add: pw_mark_partition_active_def)
  next
    case (Some s)
    let ?t1 = "t\<lparr>pw_partitions := AList.update pid
                   (s\<lparr>pws_is_idle := False, pws_last_activity := now\<rparr>) (pw_partitions t),
                 pw_metrics := pm_activate (pw_metrics t)\<rparr>"
    have "pws_is_idle s \<Longrightarrow> pw_inv ?t1"
      by (rule pw_inv_replace [OF assms(1) Some,
            where s' = "s\<lparr>pws_is_idle := False, pws_last_activity := now\<rparr>"]) simp_all
    then show ?thesis using assms MarkPartitionActive Some
      by (intro exI [of _ "if pws_is_idle s then ?t1 else t"])
        (auto simp: pw_mark_partition_active_def)
  qed
next
  case (CheckIdlePartitions now)
  let ?due = "pws_timed_out now (pw_idle_timeout t)"
  let ?ps = "map_vals (\<lambda>s. if ?due s then s\<lparr>pws_is_idle := True\<rparr> else s) (pw_partitions t)"
  show ?thesis
  proof (cases "\<exists>(_, s) \<in> set (pw_partitions t). ?due s")
    case True
    then show ?thesis
      using assms CheckIdlePartitions
      by (intro exI [of _ "pw_update_metrics (t\<lparr>pw_partitions := ?ps\<rparr>)"])
        (simp add: pw_check_idle_partitions_def Let_def)
  next
    case False
    then have "?ps = pw_partitions t" by (intro map_vals_idem) auto
    then show ?thesis
      using assms CheckIdlePartitions False
      by (intro exI [of _ t]) (auto simp: pw_check_idle_partitions_def Let_def)
  qed
next
  case (AssignToCore pid c)
  then show ?thesis
    using assms
    by (intro exI [of _ t'])
      (auto simp: pw_assign_partition_to_core_def pw_inv_def count_map_entry)
next
  case (SetIdleTimeout d)
  then show ?thesis
    using assms by (intro exI [of _ t']) (auto simp: pw_set_idle_timeout_def pw_inv_def)
qed

interpretation partitions: combining_tracker
  pw_step pw_inputs pw_combined_watermark pw_inv "\<lambda>_. True"
proof (unfold_locales, goal_cases)
  case (1 s a s' r)
  then show ?case using pw_step_shape [OF 1(1,3)] pw_inv_try_advance by (metis fst_conv)
next
  case (2 s a s')
  then show ?case using pw_step_shape [OF 2(1,3)] pw_try_advance_None by (metis prod.inject)
next
  case (3 s a s' w)
  then show ?case
    using pw_step_shape [OF 3(1,3)] pw_try_advance_Some by (metis option.distinct(1) snd_conv)
qed

lemma pw_inv_remove_partition:
  assumes "pw_inv t"
  shows "pw_inv (fst (pw_remove_partition t pid))"
proof (cases "map_of (pw_partitions t) pid")
  case None
  then have "AList.delete pid (pw_partitions t) = pw_partitions t"
    by (simp add: map_of_eq_None_iff AList.delete_id)
  then show ?thesis using assms None by (simp add: pw_remove_partition_def)
next
  case (Some s)
  then show ?thesis using assms by (simp add: pw_remove_partition_def Let_def)
qed

section \<open>Properties of the partitioned tracker\<close>

text \<open>
  Emitted watermarks strictly increase, and none exceeds the watermark of a partition active at that
  moment, whatever the order of registrations, updates, idle marks, checks, assignments and changes of the timeout (C37).
\<close>

theorem partitioned_emissions_safe:
  assumes "pw_inv t" "tracker_run pw_step t as = (t', es)"
  shows "sorted_wrt (<) (pw_combined_watermark t # map snd es) \<and>
    pw_combined_watermark t' = last (pw_combined_watermark t # map snd es) \<and>
    (\<forall>(u, w) \<in> set es. \<forall>(pid, s) \<in> set (pw_partitions u). \<not> pws_is_idle s \<longrightarrow> w \<le> pws_watermark s)"
proof -
  have "w \<le> pws_watermark s"
    if "(u, w) \<in> set es" "(pid, s) \<in> set (pw_partitions u)" "\<not> pws_is_idle s" for u w pid s
  proof -
    have "(False, pws_watermark s) \<in> set (pw_inputs u)"
      using that(2,3) by (force simp: pw_inputs_def)
    then show ?thesis using partitions.run_emissions [OF assms(1) _ assms(2)] that(1) by auto
  qed
  then show ?thesis using partitions.run_emissions [OF assms(1) _ assms(2)] by auto
qed

theorem partitioned_emissions_safe_witness:
  "map snd (snd (tracker_run pw_step (pw_register_source 0 pw_new 0 2)
     [UpdatePartition 1 (partition_id_new 0 0) 100, UpdatePartition 2 (partition_id_new 0 1) 70]))
   = [70] \<and>
   pw_combined_watermark (fst (tracker_run pw_step (pw_register_source 0 pw_new 0 2)
     [UpdatePartition 1 (partition_id_new 0 0) 100, UpdatePartition 2 (partition_id_new 0 1) 70]))
   = 70"
proof -
  let ?t = "pw_register_source 0 pw_new 0 2"
  let ?as = "[UpdatePartition 1 (partition_id_new 0 0) 100, UpdatePartition 2 (partition_id_new 0 1) 70]"
  have e: "map snd (snd (tracker_run pw_step ?t ?as)) = [70]"
    by (simp add: pw_eval upt_conv_Cons)
  have "pw_inv ?t" by (simp add: pw_register_source_def pw_new_def Let_def)
  from partitioned_emissions_safe [OF this, of ?as, OF prod.collapse [symmetric]]
  show ?thesis unfolding e by simp
qed

definition pw_step_or_remove :: "pw_op + partition_id \<Rightarrow> partitioned_tracker \<Rightarrow> partitioned_tracker" where
  "pw_step_or_remove a t =
     (case a of Inl op \<Rightarrow> fst (pw_step t op) | Inr pid \<Rightarrow> fst (pw_remove_partition t pid))"

lemma pw_inv_step_or_remove: "pw_inv t \<Longrightarrow> pw_inv (pw_step_or_remove a t)"
  using partitions.step_invar [of t _ "fst (pw_step t (projl a))" "snd (pw_step t (projl a))"]
    pw_inv_remove_partition [of t]
  by (cases a) (simp_all add: pw_step_or_remove_def)

text \<open>
  The metrics are exact after every sequence of operations, removals included: they count the
  partitions and the idle ones, and the guarded decrements never saturate.
\<close>

theorem partitioned_metrics_exact:
  "let t = fold pw_step_or_remove as (pw_with_idle_timeout d) in
     pm_total_partitions (pw_metrics t) = length (pw_partitions t) \<and>
     pm_idle_partitions (pw_metrics t) = idle_count (pw_partitions t) \<and>
     pm_active_partitions (pw_metrics t) = length (pw_partitions t) - idle_count (pw_partitions t)"
proof -
  have "pw_inv (fold pw_step_or_remove as t0)" if "pw_inv t0" for t0
    using that by (induction as arbitrary: t0) (simp_all add: pw_inv_step_or_remove)
  from this [OF pw_inv_new, of d] show ?thesis by (auto simp: pw_inv_def Let_def)
qed

text \<open>
  Removing a partition can move the combined watermark back: a partition that was idle and became
  active again below the combined watermark determines it once another partition leaves.
\<close>

theorem remove_partition_regresses:
  "pw_combined_watermark (fst (tracker_run pw_step (pw_register_source 0 pw_new 0 2)
     [UpdatePartition 1 (partition_id_new 0 0) 100, MarkPartitionIdle (partition_id_new 0 1),
      MarkPartitionActive 2 (partition_id_new 0 1), UpdatePartition 3 (partition_id_new 0 1) 10]))
   = 100 \<and>
   pw_combined_watermark (fst (pw_remove_partition (fst (tracker_run pw_step
     (pw_register_source 0 pw_new 0 2)
     [UpdatePartition 1 (partition_id_new 0 0) 100, MarkPartitionIdle (partition_id_new 0 1),
      MarkPartitionActive 2 (partition_id_new 0 1), UpdatePartition 3 (partition_id_new 0 1) 10]))
     (partition_id_new 0 0)))
   = 10"
  by (simp add: pw_eval upt_conv_Cons)

end
