(* ===== verification/Tracker_Refinement.thy ===== *)
theory Tracker_Refinement
  imports Partitioned_Watermark
begin

text \<open>
  The partitioned tracker with one partition per source simulates the plain tracker: for every
  sequence of operations both emit the same watermarks. The simulation relation compares the idle
  flag, the watermark and the last activity of every source with those of its partition.
\<close>

abbreviation src_pid :: "nat \<Rightarrow> partition_id" where
  "src_pid i \<equiv> partition_id_new i 0"

fun lift_op :: "tracker_op \<Rightarrow> pw_op" where
  "lift_op (UpdateSource now i w) = UpdatePartition now (src_pid i) w"
| "lift_op (MarkIdle i) = MarkPartitionIdle (src_pid i)"
| "lift_op (CheckIdle now) = CheckIdlePartitions now"

fun op_in_range :: "tracker_op \<Rightarrow> bool" where
  "op_in_range (UpdateSource now i w) = (w < i64_max)"
| "op_in_range _ = True"

definition part_view :: "partition_watermark_state \<Rightarrow> bool \<times> i64 \<times> nat" where
  "part_view s = (pws_is_idle s, pws_watermark s, pws_last_activity s)"

definition src_view :: "watermark_tracker \<Rightarrow> nat \<Rightarrow> bool \<times> i64 \<times> nat" where
  "src_view w i = (wt_idle_sources w ! i, wt_source_watermarks w ! i, wt_last_activity w ! i)"

definition src_views :: "watermark_tracker \<Rightarrow> partition_id \<Rightarrow> (bool \<times> i64 \<times> nat) option" where
  "src_views w q =
     (if pid_partition q = 0 \<and> pid_source_id q < length (wt_source_watermarks w)
      then Some (src_view w (pid_source_id q)) else None)"

definition same_view :: "watermark_tracker \<Rightarrow> partitioned_tracker \<Rightarrow> bool" where
  "same_view w t \<longleftrightarrow>
     wt_inv w \<and> wf_map (pw_partitions t) \<and>
     (\<forall>q. map_option part_view (map_of (pw_partitions t) q) = src_views w q) \<and>
     wt_combined_watermark w = pw_combined_watermark t \<and> wt_idle_timeout w = pw_idle_timeout t \<and>
     (\<forall>x \<in> set (wt_source_watermarks w). x < i64_max)"

definition simulates :: "watermark_tracker \<Rightarrow> partitioned_tracker \<Rightarrow> bool" where
  "simulates w t \<longleftrightarrow> same_view w t \<and> combine_active (wt_inputs w) \<le> wt_combined_watermark w"

lemma set_wt_inputs:
  "wt_inv w \<Longrightarrow> set (wt_inputs w) =
     (\<lambda>i. (wt_idle_sources w ! i, wt_source_watermarks w ! i)) ` {..<length (wt_source_watermarks w)}"
  by (auto simp: wt_inputs_def wt_inv_def set_zip)

lemma src_views_SomeD:
  "src_views w q = Some v \<Longrightarrow> \<exists>i < length (wt_source_watermarks w). q = src_pid i \<and> v = src_view w i"
  by (cases q) (auto simp: src_views_def partition_id_new_def split: if_splits)

lemma src_views_src_pid:
  "src_views w (src_pid i) = (if i < length (wt_source_watermarks w) then Some (src_view w i) else None)"
  by (simp add: src_views_def partition_id_new_def)

lemma same_view_inputs:
  assumes "same_view w t"
  shows "set (pw_inputs t) = set (wt_inputs w)"
proof -
  have wf: "wf_map (pw_partitions t)" and inv: "wt_inv w"
    and v: "\<And>q. map_option part_view (map_of (pw_partitions t) q) = src_views w q"
    using assms by (simp_all add: same_view_def)
  show ?thesis
  proof (intro equalityI subsetI)
    fix x assume "x \<in> set (pw_inputs t)"
    then obtain q s where qs: "(q, s) \<in> set (pw_partitions t)" and x: "x = (pws_is_idle s, pws_watermark s)"
      by (auto simp: pw_inputs_def)
    then have "src_views w q = Some (part_view s)" using v [of q] wf by (simp add: wf_map_in_set)
    then obtain i where "i < length (wt_source_watermarks w)" "part_view s = src_view w i"
      using src_views_SomeD by blast
    then show "x \<in> set (wt_inputs w)"
      using x inv by (auto simp: set_wt_inputs part_view_def src_view_def)
  next
    fix x assume "x \<in> set (wt_inputs w)"
    then obtain i where i: "i < length (wt_source_watermarks w)"
      "x = (wt_idle_sources w ! i, wt_source_watermarks w ! i)"
      using inv by (auto simp: set_wt_inputs)
    then have "map_option part_view (map_of (pw_partitions t) (src_pid i)) = Some (src_view w i)"
      using v [of "src_pid i"] by (simp add: src_views_src_pid)
    then obtain s where "map_of (pw_partitions t) (src_pid i) = Some s" "part_view s = src_view w i"
      by auto
    then have "(src_pid i, s) \<in> set (pw_partitions t)" "x = (pws_is_idle s, pws_watermark s)"
      using i by (auto simp: part_view_def src_view_def dest: map_of_SomeD)
    then show "x \<in> set (pw_inputs t)" by (force simp: pw_inputs_def)
  qed
qed

lemma combine_less_max:
  assumes "wt_inv w" "\<forall>x \<in> set (wt_source_watermarks w). x < i64_max"
  shows "combine_active (wt_inputs w) < i64_max"
proof (cases "active_wms (wt_inputs w) = {}")
  case True
  show ?thesis
  proof (cases "wt_inputs w = []")
    case False
    then have "Max (snd ` set (wt_inputs w)) \<in> snd ` set (wt_inputs w)" by (intro Max_in) auto
    moreover have "snd ` set (wt_inputs w) \<subseteq> set (wt_source_watermarks w)"
      by (auto simp: wt_inputs_def dest: set_zip_rightD)
    ultimately show ?thesis using assms(2) combine_active_idle [OF True False] by auto
  qed simp
next
  case False
  then obtain x where "(False, x) \<in> set (wt_inputs w)" by (auto simp: active_wms_def)
  then show ?thesis
    using combine_active_le assms(2) by (fastforce simp: wt_inputs_def dest: set_zip_rightD)
qed

text \<open>Both trackers advance alike, and afterwards nothing is left to advance.\<close>

lemma advance_simulates:
  assumes "same_view w t"
  shows "snd (wt_update_combined w) = snd (pw_try_advance_combined t) \<and>
    simulates (fst (wt_update_combined w)) (fst (pw_try_advance_combined t))"
proof -
  have "combine_active (pw_inputs t) = combine_active (wt_inputs w)"
    by (rule combine_active_order [OF same_view_inputs [OF assms]])
  moreover have "combine_active (wt_inputs w) < i64_max"
    using assms combine_less_max by (simp add: same_view_def)
  ultimately show ?thesis
    using assms
    by (auto simp: wt_update_combined_def pw_try_advance_combined_def pw_calculate_combined_def
        Let_def simulates_def same_view_def wt_inv_def wt_inputs_def src_views_def src_view_def)
qed

lemma same_view_replace:
  assumes "same_view w t" "i < length (wt_source_watermarks w)" "x < i64_max"
    and "wt_idle_sources w' = (wt_idle_sources w)[i := b]"
    and "wt_source_watermarks w' = (wt_source_watermarks w)[i := x]"
    and "wt_last_activity w' = (wt_last_activity w)[i := a]"
    and "wt_combined_watermark w' = wt_combined_watermark w" "wt_idle_timeout w' = wt_idle_timeout w"
    and "pw_partitions t' = AList.update (src_pid i) s' (pw_partitions t)" "part_view s' = (b, x, a)"
    and "pw_combined_watermark t' = pw_combined_watermark t" "pw_idle_timeout t' = pw_idle_timeout t"
  shows "same_view w' t'"
proof -
  have inv: "wt_inv w" using assms(1) by (simp add: same_view_def)
  have "src_views w' q = (if q = src_pid i then Some (b, x, a) else src_views w q)" for q
    using assms(2,4-6) inv
    by (cases q) (auto simp: src_views_def src_view_def partition_id_new_def wt_inv_def)
  moreover have "\<forall>y \<in> set (wt_source_watermarks w'). y < i64_max"
    using assms(1,3,5) set_update_subset_insert [of "wt_source_watermarks w" i x]
    by (auto simp: same_view_def)
  ultimately show ?thesis
    using assms inv by (auto simp: same_view_def wt_inv_def)
qed

lemma combine_reactivate:
  assumes "i < length xs" "length bs = length xs"
  shows "combine_active (zip (bs[i := False]) xs) \<le> combine_active (zip bs xs)"
proof (cases "active_wms (zip bs xs) = {}")
  case True
  have "(False, xs ! i) \<in> set (zip (bs[i := False]) xs)"
    using assms by (auto simp: set_zip intro!: exI [of _ i])
  then have "combine_active (zip (bs[i := False]) xs) \<le> xs ! i" by (rule combine_active_le)
  moreover have "zip bs xs \<noteq> []" using assms by (cases bs; cases xs) auto
  moreover have "xs ! i \<in> snd ` set (zip bs xs)"
    using assms by (force simp: set_zip)
  then have "xs ! i \<le> Max (snd ` set (zip bs xs))" by (intro Max_ge) simp_all
  ultimately show ?thesis
    using combine_active_idle [OF True] by simp
next
  case False
  have "active_wms (zip bs xs) \<subseteq> active_wms (zip (bs[i := False]) xs)"
    using assms by (auto simp: active_wms_def set_zip nth_list_update)
  then have "Min (insert i64_max (active_wms (zip (bs[i := False]) xs))) \<le>
      Min (insert i64_max (active_wms (zip bs xs)))"
    by (intro Min_antimono) auto
  then show ?thesis
    using False \<open>active_wms (zip bs xs) \<subseteq> _\<close> by (auto simp: combine_active_eq simp del: Min_insert)
qed

lemma same_view_lookup:
  assumes "same_view w t" "i < length (wt_source_watermarks w)"
  obtains s where "map_of (pw_partitions t) (src_pid i) = Some s" "part_view s = src_view w i"
  using assms src_views_src_pid [of w i] by (auto simp: same_view_def) (metis map_option_eq_Some)

lemma same_view_lookup_None:
  assumes "same_view w t" "\<not> i < length (wt_source_watermarks w)"
  shows "map_of (pw_partitions t) (src_pid i) = None"
  using assms src_views_src_pid [of w i] by (auto simp: same_view_def) (metis map_option_is_None)

lemma update_simulates:
  assumes "simulates w t" "x < i64_max"
  shows "snd (wt_update_source now w i x) = snd (pw_update_partition now t (src_pid i) x) \<and>
    simulates (fst (wt_update_source now w i x)) (fst (pw_update_partition now t (src_pid i) x))"
proof (cases "i < length (wt_source_watermarks w)")
  case False
  then show ?thesis
    using assms same_view_lookup_None [of w t i]
    by (simp add: simulates_def wt_update_source_def pw_update_partition_def)
next
  case True
  have sv: "same_view w t" using assms(1) by (simp add: simulates_def)
  obtain s where s: "map_of (pw_partitions t) (src_pid i) = Some s" "part_view s = src_view w i"
    using same_view_lookup [OF sv True] .
  then have wm: "pws_watermark s = wt_source_watermarks w ! i" and idle: "pws_is_idle s = wt_idle_sources w ! i"
    by (simp_all add: part_view_def src_view_def)
  define t1 where "t1 = (if pws_is_idle s then t\<lparr>pw_metrics := pm_activate (pw_metrics t)\<rparr> else t)"
  define w1 where "w1 = w\<lparr>wt_idle_sources := (wt_idle_sources w)[i := False],
    wt_last_activity := (wt_last_activity w)[i := now]\<rparr>"
  define s1 where "s1 = s\<lparr>pws_is_idle := False, pws_last_activity := now\<rparr>"
  have t1: "pw_partitions t1 = pw_partitions t" "pw_combined_watermark t1 = pw_combined_watermark t"
    "pw_idle_timeout t1 = pw_idle_timeout t"
    by (simp_all add: t1_def)
  show ?thesis
  proof (cases "x > wt_source_watermarks w ! i")
    case gt: True
    let ?w2 = "w1\<lparr>wt_source_watermarks := (wt_source_watermarks w)[i := x]\<rparr>"
    let ?t2 = "t1\<lparr>pw_partitions := AList.update (src_pid i)
      (s1\<lparr>pws_watermark := x, pws_last_event_time := x\<rparr>) (pw_partitions t)\<rparr>"
    have "same_view ?w2 ?t2"
      by (rule same_view_replace [OF sv True assms(2), where b = False and a = now and
            s' = "s1\<lparr>pws_watermark := x, pws_last_event_time := x\<rparr>"])
        (simp_all add: w1_def s1_def t1 part_view_def)
    then show ?thesis
      using advance_simulates [of ?w2 ?t2] True gt s(1) wm
      by (simp add: wt_update_source_def pw_update_partition_def Let_def
          w1_def [symmetric] t1_def [symmetric] s1_def [symmetric] t1)
         (simp add: w1_def s1_def)
  next
    case le: False
    let ?t2 = "t1\<lparr>pw_partitions := AList.update (src_pid i) s1 (pw_partitions t)\<rparr>"
    have "same_view w1 ?t2"
      by (rule same_view_replace [OF sv True, where x = "wt_source_watermarks w ! i" and
            b = False and a = now and s' = s1])
        (use sv True in \<open>simp_all add: w1_def s1_def t1 part_view_def wm same_view_def\<close>)
    moreover have "combine_active (wt_inputs w1) \<le> wt_combined_watermark w1"
      using combine_reactivate [OF True, of "wt_idle_sources w"] assms(1) sv
      by (auto simp: w1_def wt_inputs_def simulates_def same_view_def wt_inv_def)
    ultimately show ?thesis
      using True le s(1) wm
      by (simp add: wt_update_source_def pw_update_partition_def Let_def simulates_def
          w1_def [symmetric] t1_def [symmetric] s1_def [symmetric] t1)
         (simp add: w1_def s1_def)
  qed
qed

lemma settled_no_advance:
  assumes "combine_active (wt_inputs w) \<le> wt_combined_watermark w"
  shows "wt_update_combined w = (w, None)"
  using assms by (simp add: wt_update_combined_def)

lemma mark_idle_simulates:
  assumes "simulates w t"
  shows "snd (wt_mark_idle w i) = snd (pw_mark_partition_idle t (src_pid i)) \<and>
    simulates (fst (wt_mark_idle w i)) (fst (pw_mark_partition_idle t (src_pid i)))"
proof (cases "i < length (wt_source_watermarks w)")
  case False
  then show ?thesis
    using assms same_view_lookup_None [of w t i]
    by (simp add: simulates_def wt_mark_idle_def pw_mark_partition_idle_def same_view_def wt_inv_def)
next
  case True
  have sv: "same_view w t" using assms by (simp add: simulates_def)
  have len: "length (wt_idle_sources w) = length (wt_source_watermarks w)"
    using sv by (simp add: same_view_def wt_inv_def)
  obtain s where s: "map_of (pw_partitions t) (src_pid i) = Some s" "part_view s = src_view w i"
    using same_view_lookup [OF sv True] .
  then have wm: "pws_watermark s = wt_source_watermarks w ! i"
    and idle: "pws_is_idle s = wt_idle_sources w ! i"
    and act: "pws_last_activity s = wt_last_activity w ! i"
    by (simp_all add: part_view_def src_view_def)
  show ?thesis
  proof (cases "pws_is_idle s")
    case i: True
    have "w\<lparr>wt_idle_sources := (wt_idle_sources w)[i := True]\<rparr> = w"
      using i idle by (simp add: list_update_same_conv len True)
    then show ?thesis
      using assms True len s(1) i settled_no_advance [of w]
      by (simp add: wt_mark_idle_def pw_mark_partition_idle_def simulates_def)
  next
    case a: False
    let ?w1 = "w\<lparr>wt_idle_sources := (wt_idle_sources w)[i := True]\<rparr>"
    let ?t1 = "t\<lparr>pw_partitions := AList.update (src_pid i) (s\<lparr>pws_is_idle := True\<rparr>) (pw_partitions t),
      pw_metrics := pm_deactivate (pw_metrics t)\<rparr>"
    have "same_view ?w1 ?t1"
      by (rule same_view_replace [OF sv True, where x = "wt_source_watermarks w ! i" and
            b = True and a = "wt_last_activity w ! i" and s' = "s\<lparr>pws_is_idle := True\<rparr>"])
        (use sv True in \<open>simp_all add: part_view_def wm act same_view_def\<close>)
    then show ?thesis
      using advance_simulates [of ?w1 ?t1] True len s(1) a
      by (simp add: wt_mark_idle_def pw_mark_partition_idle_def)
  qed
qed

definition src_due :: "nat \<Rightarrow> watermark_tracker \<Rightarrow> nat \<Rightarrow> bool" where
  "src_due now w i \<longleftrightarrow> \<not> wt_idle_sources w ! i \<and> now - wt_last_activity w ! i \<ge> wt_idle_timeout w"

lemma map_upt_flag:
  assumes "k < n"
  shows "map (\<lambda>j. B j \<or> j < Suc k \<and> D j) [0..<n] =
    (if D k then (map (\<lambda>j. B j \<or> j < k \<and> D j) [0..<n])[k := True]
     else map (\<lambda>j. B j \<or> j < k \<and> D j) [0..<n])"
proof (rule nth_equalityI)
  fix i assume "i < length (map (\<lambda>j. B j \<or> j < Suc k \<and> D j) [0..<n])"
  then show "map (\<lambda>j. B j \<or> j < Suc k \<and> D j) [0..<n] ! i =
    (if D k then (map (\<lambda>j. B j \<or> j < k \<and> D j) [0..<n])[k := True]
     else map (\<lambda>j. B j \<or> j < k \<and> D j) [0..<n]) ! i"
    using assms by (cases "i = k") (auto simp: less_Suc_eq)
qed simp

lemma check_fold_eq:
  assumes "k \<le> length (wt_idle_sources w)"
  shows "fold (wt_check_one now) [0..<k] (w, False) =
    (w\<lparr>wt_idle_sources := map (\<lambda>j. wt_idle_sources w ! j \<or> j < k \<and> src_due now w j)
        [0..<length (wt_idle_sources w)]\<rparr>, \<exists>j<k. src_due now w j)"
  using assms
proof (induction k)
  case 0
  have "map (\<lambda>j. wt_idle_sources w ! j) [0..<length (wt_idle_sources w)] = wt_idle_sources w"
    by (rule map_nth)
  then show ?case by simp
next
  case (Suc k)
  let ?bs = "map (\<lambda>j. wt_idle_sources w ! j \<or> j < k \<and> src_due now w j)
    [0..<length (wt_idle_sources w)]"
  have k: "k < length (wt_idle_sources w)" using Suc.prems by simp
  note m = map_upt_flag [OF k, of "\<lambda>j. wt_idle_sources w ! j" "src_due now w"]
  have e: "(\<exists>j<Suc k. src_due now w j) = (src_due now w k \<or> (\<exists>j<k. src_due now w j))"
    by (auto simp: less_Suc_eq)
  have "wt_check_one now k (w\<lparr>wt_idle_sources := ?bs\<rparr>, b) =
      (w\<lparr>wt_idle_sources := (if src_due now w k then ?bs[k := True] else ?bs)\<rparr>, src_due now w k \<or> b)"
    for b
    using k by (simp add: wt_check_one_def src_due_def)
  then show ?case using Suc by (simp only: m e) simp
qed

lemma check_idle_simulates:
  assumes "simulates w t"
  shows "snd (wt_check_idle_sources now w) = snd (pw_check_idle_partitions now t) \<and>
    simulates (fst (wt_check_idle_sources now w)) (fst (pw_check_idle_partitions now t))"
proof -
  have sv: "same_view w t" using assms by (simp add: simulates_def)
  let ?n = "length (wt_source_watermarks w)"
  let ?due = "pws_timed_out now (pw_idle_timeout t)"
  let ?w1 = "w\<lparr>wt_idle_sources := map (\<lambda>j. wt_idle_sources w ! j \<or> j < ?n \<and> src_due now w j) [0..<?n]\<rparr>"
  let ?f = "\<lambda>s. if ?due s then s\<lparr>pws_is_idle := True\<rparr> else s"
  let ?t1 = "t\<lparr>pw_partitions := map_vals ?f (pw_partitions t)\<rparr>"
  have len: "length (wt_idle_sources w) = ?n" and wf: "wf_map (pw_partitions t)"
    and to: "pw_idle_timeout t = wt_idle_timeout w"
    using sv by (simp_all add: same_view_def wt_inv_def)
  have due: "?due s = src_due now w i" if "part_view s = src_view w i" for s i
    using that by (auto simp: pws_timed_out_def src_due_def part_view_def src_view_def to)
  have any: "(\<exists>(_, s) \<in> set (pw_partitions t). ?due s) \<longleftrightarrow> (\<exists>i < ?n. src_due now w i)"
  proof
    assume "\<exists>(_, s) \<in> set (pw_partitions t). ?due s"
    then obtain q s where "map_of (pw_partitions t) q = Some s" "?due s"
      using wf by (auto simp: wf_map_in_set)
    moreover from this have "src_views w q = Some (part_view s)"
      using sv by (metis same_view_def option.simps(9))
    ultimately show "\<exists>i < ?n. src_due now w i" using src_views_SomeD due by blast
  next
    assume "\<exists>i < ?n. src_due now w i"
    then obtain i where "i < ?n" "src_due now w i" by blast
    moreover obtain s where "map_of (pw_partitions t) (src_pid i) = Some s" "part_view s = src_view w i"
      using same_view_lookup [OF sv \<open>i < ?n\<close>] .
    ultimately show "\<exists>(_, s) \<in> set (pw_partitions t). ?due s"
      using due by (auto dest!: map_of_SomeD)
  qed
  have view: "map_option part_view (map_of (map_vals ?f (pw_partitions t)) q) = src_views ?w1 q" for q
  proof (cases "map_of (pw_partitions t) q")
    case None
    then have "src_views w q = None" using sv by (metis same_view_def option.simps(8))
    then show ?thesis using None by (simp add: map_of_map_vals src_views_def split: if_splits)
  next
    case (Some s)
    then have "src_views w q = Some (part_view s)" using sv by (metis same_view_def option.simps(9))
    then obtain i where i: "i < ?n" "q = src_pid i" "part_view s = src_view w i"
      using src_views_SomeD by blast
    have "part_view (?f s) = (wt_idle_sources w ! i \<or> src_due now w i, snd (src_view w i))"
      using i(3) due [OF i(3)] by (auto simp: part_view_def src_view_def src_due_def)
    then show ?thesis
      using Some i by (simp add: map_of_map_vals src_views_src_pid src_view_def)
  qed
  then have sv1: "same_view ?w1 (pw_update_metrics ?t1)"
    using sv by (simp add: same_view_def wt_inv_def)
  note fold = check_fold_eq [of "length (wt_idle_sources w)" w now]
  show ?thesis
  proof (cases "\<exists>i < ?n. src_due now w i")
    case True
    then show ?thesis
      using advance_simulates [OF sv1] any fold len
      by (simp add: wt_check_idle_sources_def pw_check_idle_partitions_def Let_def)
  next
    case False
    have "?w1 = w"
    proof -
      have "map (\<lambda>j. wt_idle_sources w ! j \<or> j < ?n \<and> src_due now w j) [0..<?n] =
          map (\<lambda>j. wt_idle_sources w ! j) [0..<?n]"
        using False by (intro map_cong) auto
      also have "\<dots> = wt_idle_sources w" using map_nth [of "wt_idle_sources w"] len by simp
      finally show ?thesis by simp
    qed
    moreover have "map_vals ?f (pw_partitions t) = pw_partitions t"
      using False any by (intro map_vals_idem) auto
    moreover have "(\<exists>(_, s) \<in> set (pw_partitions t). ?due s) = False"
      using False any by (simp only:)
    moreover have "(\<exists>i < ?n. src_due now w i) = False" using False by (simp only:)
    ultimately show ?thesis
      using assms fold len
      by (simp only: wt_check_idle_sources_def pw_check_idle_partitions_def Let_def) simp
  qed
qed

lemma step_simulates:
  assumes "simulates w t" "op_in_range a"
  shows "snd (wt_step w a) = snd (pw_step t (lift_op a)) \<and>
    simulates (fst (wt_step w a)) (fst (pw_step t (lift_op a)))"
  using assms update_simulates mark_idle_simulates check_idle_simulates
  by (cases a) simp_all

lemma run_simulates:
  assumes "simulates w t" "\<forall>a \<in> set as. op_in_range a"
  shows "map snd (snd (tracker_run wt_step w as)) =
    map snd (snd (tracker_run pw_step t (map lift_op as)))"
  using assms
proof (induction as arbitrary: w t)
  case (Cons a as)
  obtain w1 r where w1: "wt_step w a = (w1, r)" by fastforce
  obtain t1 r' where t1: "pw_step t (lift_op a) = (t1, r')" by fastforce
  have "r' = r" "simulates w1 t1"
    using step_simulates [of w t a] Cons.prems w1 t1 by simp_all
  moreover from this Cons have "map snd (snd (tracker_run wt_step w1 as)) =
      map snd (snd (tracker_run pw_step t1 (map lift_op as)))"
    by simp
  ultimately show ?case
    by (cases r) (simp_all add: w1 t1 case_prod_unfold Let_def)
qed simp

text \<open>The partitioned tracker with \<^verbatim>\<open>n\<close> sources of one partition each.\<close>

definition pw_single :: "nat \<Rightarrow> nat \<Rightarrow> nat \<Rightarrow> partitioned_tracker" where
  "pw_single now n d = fold (\<lambda>i t. pw_register_source now t i 1) [0..<n] (pw_with_idle_timeout d)"

lemma pw_single_partitions:
  "pw_partitions (pw_single now n d) = map (\<lambda>i. (src_pid i, pws_new now)) [0..<n] \<and>
   pw_combined_watermark (pw_single now n d) = i64_min \<and> pw_idle_timeout (pw_single now n d) = d"
proof (induction n)
  case 0
  then show ?case by (simp add: pw_single_def pw_with_idle_timeout_def)
next
  case (Suc n)
  have "map_of (map (\<lambda>i. (src_pid i, pws_new now)) [0..<n]) (src_pid n) = None"
    by (auto simp: map_of_eq_None_iff partition_id_new_def)
  then show ?case
    using Suc by (simp add: pw_single_def pw_register_source_def pw_entry_or_default_def
        contains_key_def update_new Let_def)
qed

lemma single_simulates: "simulates (wt_with_idle_timeout now n d) (pw_single now n d)"
proof -
  have d: "distinct (map src_pid [0..<n])"
    by (auto simp: distinct_map inj_on_def partition_id_new_def)
  have "map_of (map (\<lambda>i. (src_pid i, pws_new now)) [0..<n]) q =
      (if pid_partition q = 0 \<and> pid_source_id q < n then Some (pws_new now) else None)" for q
  proof -
    have "map_of (map (\<lambda>i. (src_pid i, pws_new now)) [0..<n]) q =
        (if q \<in> src_pid ` {..<n} then Some (pws_new now) else None)"
      by (induction n) (auto simp: map_of_eq_None_iff map_add_Some_iff lessThan_Suc map_add_def split: option.splits)
    moreover have "q \<in> src_pid ` {..<n} \<longleftrightarrow> pid_partition q = 0 \<and> pid_source_id q < n"
      by (cases q) (auto simp: partition_id_new_def)
    ultimately show ?thesis by simp
  qed
  moreover have "combine_active (zip (replicate n False) (replicate n i64_min)) \<le> i64_min"
    by (cases n) (simp, rule combine_active_le, simp)
  ultimately show ?thesis
    using d pw_single_partitions [of now n d]
    by (auto simp: simulates_def same_view_def wt_with_idle_timeout_def wt_inv_def wf_map_def comp_def
        src_views_def src_view_def part_view_def pws_new_def wt_inputs_def)
qed

text \<open>
  With one partition per source the partitioned tracker is equivalent to the plain tracker: on every
  sequence of updates with watermarks below the largest 64-bit value, idle marks and idle checks both emit the same
  watermarks, in the same order (C17).
\<close>

theorem partitioned_tracker_agrees:
  assumes "\<forall>a \<in> set as. op_in_range a"
  shows "map snd (snd (tracker_run wt_step (wt_with_idle_timeout now n d) as)) =
    map snd (snd (tracker_run pw_step (pw_single now n d) (map lift_op as)))"
  using run_simulates [OF single_simulates assms] .

theorem partitioned_tracker_agrees_witness:
  "map snd (snd (tracker_run pw_step (pw_single 0 2 30000)
     (map lift_op [UpdateSource 1 0 100, UpdateSource 2 1 50, MarkIdle 1]))) = [50, 100]"
proof -
  have "\<forall>a \<in> set [UpdateSource 1 0 100, UpdateSource 2 1 50, MarkIdle 1]. op_in_range a"
    by (simp add: i64_simps)
  from partitioned_tracker_agrees [OF this, of 0 2 30000, symmetric] show ?thesis
    by (simp only:) (simp add: wt_with_idle_timeout_def wt_update_source_def wt_update_combined_def
        wt_mark_idle_def wt_inputs_def combine_active_def i64_simps numeral_2_eq_2)
qed

text \<open>
  With the largest 64-bit value as a watermark the two differ: the partitioned tracker takes a minimum of that value for
  the absence of active partitions.
\<close>

lemma trackers_differ_at_max:
  "let ops = [MarkIdle 2, UpdateSource 1 1 5, MarkIdle 1, UpdateSource 1 0 i64_max, UpdateSource 1 1 3, MarkIdle 2] in
   map snd (snd (tracker_run wt_step (wt_with_idle_timeout 0 3 30000) ops)) = [5] \<and>
   map snd (snd (tracker_run pw_step (pw_single 0 3 30000) (map lift_op ops))) = []"
  by (simp add: Let_def pw_single_def pw_eval wt_with_idle_timeout_def wt_update_source_def wt_update_combined_def
      wt_mark_idle_def wt_inputs_def numeral_3_eq_3 upt_rec)

end
