(* ===== verification/Core_Watermark.thy ===== *)
theory Core_Watermark
  imports Partitioned_Watermark
begin

text \<open>
  The per-core watermark state and the global collector of
  \<^verbatim>\<open>crates/laminar-core/src/time/partitioned_watermark.rs\<close>. A core keeps three parallel vectors;
  a removal swaps the last entry of each into the hole.
\<close>

section \<open>Per-core state\<close>

record core_watermark_state =
  cw_assigned_partitions :: "partition_id list"
  cw_partition_watermarks :: "i64 list"
  cw_local_watermark :: i64
  cw_idle_status :: "bool list"
  cw_core_id :: nat

definition cw_with_partitions :: "nat \<Rightarrow> partition_id list \<Rightarrow> core_watermark_state" where
  "cw_with_partitions core_id parts =
     \<lparr>cw_assigned_partitions = parts,
      cw_partition_watermarks = replicate (length parts) i64_min,
      cw_local_watermark = i64_min,
      cw_idle_status = replicate (length parts) False,
      cw_core_id = core_id\<rparr>"

definition cw_new :: "nat \<Rightarrow> core_watermark_state" where
  "cw_new core_id =
     \<lparr>cw_assigned_partitions = [], cw_partition_watermarks = [], cw_local_watermark = i64_min,
      cw_idle_status = [], cw_core_id = core_id\<rparr>"

definition cw_inputs :: "core_watermark_state \<Rightarrow> (bool \<times> i64) list" where
  "cw_inputs s = zip (cw_idle_status s) (cw_partition_watermarks s)"

definition cw_calculate_local :: "core_watermark_state \<Rightarrow> i64" where
  "cw_calculate_local s =
     (let (m, has_active) = scan_active (cw_inputs s) (i64_max, False)
      in if \<not> has_active then unwrap_or (list_max (cw_partition_watermarks s)) i64_min
         else if m = i64_max then i64_min
         else m)"

definition cw_recalculate_local :: "core_watermark_state \<Rightarrow> core_watermark_state" where
  "cw_recalculate_local s = s\<lparr>cw_local_watermark := cw_calculate_local s\<rparr>"

definition cw_assign_partition :: "core_watermark_state \<Rightarrow> partition_id \<Rightarrow> core_watermark_state" where
  "cw_assign_partition s p =
     (if p \<notin> set (cw_assigned_partitions s)
      then s\<lparr>cw_assigned_partitions := cw_assigned_partitions s @ [p],
             cw_partition_watermarks := cw_partition_watermarks s @ [i64_min],
             cw_idle_status := cw_idle_status s @ [False]\<rparr>
      else s)"

definition cw_remove_partition ::
  "core_watermark_state \<Rightarrow> partition_id \<Rightarrow> core_watermark_state \<times> bool" where
  "cw_remove_partition s p =
     (case position (\<lambda>q. q = p) (cw_assigned_partitions s) of
        Some idx \<Rightarrow>
          (cw_recalculate_local
             (s\<lparr>cw_assigned_partitions := swap_remove idx (cw_assigned_partitions s),
                cw_partition_watermarks := swap_remove idx (cw_partition_watermarks s),
                cw_idle_status := swap_remove idx (cw_idle_status s)\<rparr>), True)
      | None \<Rightarrow> (s, False))"

text \<open>The end of \<^verbatim>\<open>update_partition\<close> and \<^verbatim>\<open>mark_idle\<close>: advance the local watermark if it grows.\<close>

definition cw_advance :: "core_watermark_state \<Rightarrow> core_watermark_state \<times> i64 option" where
  "cw_advance s =
     (let new_local = cw_calculate_local s
      in if new_local > cw_local_watermark s
         then (s\<lparr>cw_local_watermark := new_local\<rparr>, Some new_local) else (s, None))"

definition cw_update_partition ::
  "core_watermark_state \<Rightarrow> partition_id \<Rightarrow> i64 \<Rightarrow> core_watermark_state \<times> i64 option" where
  "cw_update_partition s p watermark =
     (case position (\<lambda>q. q = p) (cw_assigned_partitions s) of
        Some idx \<Rightarrow>
          if watermark > cw_partition_watermarks s ! idx
          then cw_advance (s\<lparr>cw_partition_watermarks := (cw_partition_watermarks s)[idx := watermark],
                             cw_idle_status := (cw_idle_status s)[idx := False]\<rparr>)
          else (s, None)
      | None \<Rightarrow> (s, None))"

definition cw_mark_idle ::
  "core_watermark_state \<Rightarrow> partition_id \<Rightarrow> core_watermark_state \<times> i64 option" where
  "cw_mark_idle s p =
     (case position (\<lambda>q. q = p) (cw_assigned_partitions s) of
        Some idx \<Rightarrow>
          if \<not> cw_idle_status s ! idx
          then cw_advance (s\<lparr>cw_idle_status := (cw_idle_status s)[idx := True]\<rparr>)
          else (s, None)
      | None \<Rightarrow> (s, None))"

section \<open>Global collector\<close>

record global_collector =
  gc_core_watermarks :: "i64 list"
  gc_global_watermark :: i64

definition gc_new :: "nat \<Rightarrow> global_collector" where
  "gc_new num_cores =
     \<lparr>gc_core_watermarks = replicate num_cores i64_min, gc_global_watermark = i64_min\<rparr>"

definition gc_update_core ::
  "global_collector \<Rightarrow> nat \<Rightarrow> i64 \<Rightarrow> global_collector \<times> watermark option" where
  "gc_update_core g core_id watermark =
     (if core_id < length (gc_core_watermarks g) then
        let g1 = g\<lparr>gc_core_watermarks := (gc_core_watermarks g)[core_id := watermark]\<rparr>;
            new_global = unwrap_or (list_min (gc_core_watermarks g1)) i64_min
        in if new_global > gc_global_watermark g1 \<and> new_global \<noteq> i64_min
           then (g1\<lparr>gc_global_watermark := new_global\<rparr>, Some new_global) else (g1, None)
      else (g, None))"

definition gc_global :: "global_collector \<Rightarrow> watermark option" where
  "gc_global g = (if gc_global_watermark g = i64_min then None else Some (gc_global_watermark g))"

definition gc_core_watermark :: "global_collector \<Rightarrow> nat \<Rightarrow> i64 option" where
  "gc_core_watermark g core_id =
     (if core_id < length (gc_core_watermarks g) then Some (gc_core_watermarks g ! core_id) else None)"

section \<open>Invariants and contracts\<close>

text \<open>The three vectors stay parallel and no partition occurs twice.\<close>

definition cw_inv :: "core_watermark_state \<Rightarrow> bool" where
  "cw_inv s \<longleftrightarrow>
     distinct (cw_assigned_partitions s) \<and>
     length (cw_partition_watermarks s) = length (cw_assigned_partitions s) \<and>
     length (cw_idle_status s) = length (cw_assigned_partitions s)"

text \<open>What the vectors say about each partition.\<close>

definition cw_view :: "core_watermark_state \<Rightarrow> (partition_id \<times> bool \<times> i64) list" where
  "cw_view s = zip (cw_assigned_partitions s) (cw_inputs s)"

datatype cw_op = CwAssign partition_id | CwUpdate partition_id i64 | CwMarkIdle partition_id

fun cw_step :: "core_watermark_state \<Rightarrow> cw_op \<Rightarrow> core_watermark_state \<times> i64 option" where
  "cw_step s (CwAssign p) = (cw_assign_partition s p, None)"
| "cw_step s (CwUpdate p w) = cw_update_partition s p w"
| "cw_step s (CwMarkIdle p) = cw_mark_idle s p"

lemma cw_calculate_combine:
  assumes "cw_inv s" "cw_local_watermark s < cw_calculate_local s" "i64_min \<le> cw_local_watermark s"
  shows "cw_calculate_local s = combine_active (cw_inputs s)"
proof -
  have "map snd (cw_inputs s) = cw_partition_watermarks s"
    using assms(1) by (simp add: cw_inputs_def cw_inv_def)
  then show ?thesis
    using assms(2,3) by (auto simp: cw_calculate_local_def combine_active_def Let_def split: prod.splits if_splits)
qed

definition cw_ok :: "core_watermark_state \<Rightarrow> bool" where
  "cw_ok s \<longleftrightarrow> cw_inv s \<and> i64_min \<le> cw_local_watermark s"

lemma cw_advance_Some:
  assumes "cw_ok s" "cw_advance s = (s', Some w)"
  shows "w = combine_active (cw_inputs s') \<and> cw_local_watermark s < w \<and> cw_local_watermark s' = w"
  using assms cw_calculate_combine [of s]
  by (auto simp: cw_advance_def cw_ok_def cw_inputs_def Let_def split: if_splits)

lemma cw_advance_None: "cw_advance s = (s', None) \<Longrightarrow> s' = s"
  by (auto simp: cw_advance_def Let_def split: if_splits)

lemma cw_ok_advance: "cw_ok s \<Longrightarrow> cw_ok (fst (cw_advance s))"
  by (auto simp: cw_advance_def cw_ok_def cw_inv_def Let_def)

lemma cw_step_shape:
  assumes "cw_ok s" "cw_step s a = (s', r)"
  shows "\<exists>s1. cw_ok s1 \<and> cw_local_watermark s1 = cw_local_watermark s \<and>
    ((s', r) = (s1, None) \<or> (s', r) = cw_advance s1)"
proof (cases a)
  case (CwAssign p)
  then show ?thesis
    using assms by (intro exI [of _ s']) (auto simp: cw_assign_partition_def cw_ok_def cw_inv_def)
next
  case (CwUpdate p w)
  show ?thesis
  proof (cases "position (\<lambda>q. q = p) (cw_assigned_partitions s)")
    case None
    then show ?thesis using assms CwUpdate by (auto simp: cw_update_partition_def intro: exI [of _ s])
  next
    case (Some i)
    let ?s1 = "s\<lparr>cw_partition_watermarks := (cw_partition_watermarks s)[i := w],
                 cw_idle_status := (cw_idle_status s)[i := False]\<rparr>"
    have "cw_ok ?s1" using assms(1) by (simp add: cw_ok_def cw_inv_def)
    then show ?thesis using assms CwUpdate Some
      by (auto simp: cw_update_partition_def split: if_splits intro: exI [of _ s] exI [of _ ?s1])
  qed
next
  case (CwMarkIdle p)
  show ?thesis
  proof (cases "position (\<lambda>q. q = p) (cw_assigned_partitions s)")
    case None
    then show ?thesis using assms CwMarkIdle by (auto simp: cw_mark_idle_def intro: exI [of _ s])
  next
    case (Some i)
    let ?s1 = "s\<lparr>cw_idle_status := (cw_idle_status s)[i := True]\<rparr>"
    have "cw_ok ?s1" using assms(1) by (simp add: cw_ok_def cw_inv_def)
    then show ?thesis using assms CwMarkIdle Some
      by (auto simp: cw_mark_idle_def split: if_splits intro: exI [of _ s] exI [of _ ?s1])
  qed
qed

interpretation core: combining_tracker
  cw_step cw_inputs cw_local_watermark cw_ok "\<lambda>_. True"
proof (unfold_locales, goal_cases)
  case (1 s a s' r)
  then show ?case using cw_step_shape [OF 1(1,3)] cw_ok_advance by (metis fst_conv)
next
  case (2 s a s')
  then show ?case using cw_step_shape [OF 2(1,3)] cw_advance_None by (metis prod.inject)
next
  case (3 s a s' w)
  then show ?case
    using cw_step_shape [OF 3(1,3)] cw_advance_Some by (metis option.distinct(1) snd_conv)
qed

fun gc_step :: "global_collector \<Rightarrow> nat \<times> i64 \<Rightarrow> global_collector \<times> watermark option" where
  "gc_step g (core_id, w) = gc_update_core g core_id w"

definition gc_inputs :: "global_collector \<Rightarrow> (bool \<times> i64) list" where
  "gc_inputs g = map (Pair False) (gc_core_watermarks g)"

definition gc_inv :: "global_collector \<Rightarrow> bool" where
  "gc_inv g \<longleftrightarrow> (\<forall>w \<in> set (gc_core_watermarks g). w \<le> i64_max)"

lemma combine_all_False:
  assumes "xs \<noteq> []" "\<forall>w \<in> set xs. w \<le> i64_max"
  shows "combine_active (map (Pair False) xs) = Min (set xs)"
proof -
  have "active_wms (map (Pair False) xs) = set xs" by (auto simp: active_wms_def)
  then show ?thesis using assms combine_active_Min [of "map (Pair False) xs"] by simp
qed

interpretation collector: combining_tracker
  gc_step gc_inputs gc_global_watermark gc_inv "\<lambda>(_, w). w \<le> i64_max"
proof (unfold_locales, goal_cases)
  case (1 g a g' r)
  obtain i w where a: "a = (i, w)" by (cases a)
  have "set ((gc_core_watermarks g)[i := w]) \<subseteq> insert w (set (gc_core_watermarks g))"
    by (rule set_update_subset_insert)
  then have "\<forall>v \<in> set ((gc_core_watermarks g)[i := w]). v \<le> i64_max"
    using 1(1,2) a by (auto simp: gc_inv_def)
  then show ?case
    using 1 a by (auto simp: gc_update_core_def gc_inv_def Let_def split: if_splits)
next
  case (2 g a g')
  then show ?case by (cases a) (auto simp: gc_update_core_def Let_def split: if_splits)
next
  case (3 g a g' w)
  obtain i v where a: "a = (i, v)" by (cases a)
  let ?cs = "(gc_core_watermarks g)[i := v]"
  have i: "i < length (gc_core_watermarks g)"
    using 3(3) a by (auto simp: gc_update_core_def split: if_splits)
  then have ne: "?cs \<noteq> []" by auto
  have "\<forall>x \<in> set ?cs. x \<le> i64_max"
    using 3(1,2) a set_update_subset_insert [of "gc_core_watermarks g" i v]
    by (auto simp: gc_inv_def)
  from combine_all_False [OF ne this] show ?case
    using 3(3) a i ne
    by (auto simp: gc_update_core_def gc_inputs_def list_min_Min Let_def
        simp del: Min_gr_iff split: if_splits)
qed

lemma cw_recalculate_fixed:
  "cw_local_watermark (cw_recalculate_local s) = cw_calculate_local (cw_recalculate_local s)"
  by (simp add: cw_recalculate_local_def cw_calculate_local_def cw_inputs_def case_prod_unfold Let_def)

section \<open>Properties\<close>

text \<open>
  Removing a partition from a core removes exactly its entry: the swap keeps every other partition
  together with its own idle flag and watermark, and the local watermark is recomputed.
\<close>

theorem core_remove_partition_spec:
  assumes "cw_inv s" "cw_remove_partition s p = (s', removed)"
  shows "cw_inv s' \<and> (removed \<longleftrightarrow> p \<in> set (cw_assigned_partitions s)) \<and>
    set (cw_view s') = {e \<in> set (cw_view s). fst e \<noteq> p} \<and>
    (removed \<longrightarrow> cw_local_watermark s' = cw_calculate_local s')"
proof (cases "position (\<lambda>q. q = p) (cw_assigned_partitions s)")
  case None
  then have "p \<notin> set (cw_assigned_partitions s)" by (auto simp: position_None)
  then show ?thesis
    using assms None by (auto simp: cw_remove_partition_def cw_view_def dest: set_zip_leftD)
next
  case (Some i)
  let ?ps = "cw_assigned_partitions s" and ?in = "cw_inputs s"
  note i = position_Some [OF Some]
  have len: "length (cw_idle_status s) = length ?ps" "length (cw_partition_watermarks s) = length ?ps"
    "length ?in = length ?ps" "distinct ?ps"
    using assms(1) by (simp_all add: cw_inv_def cw_inputs_def)
  have v: "cw_view s' = swap_remove i (cw_view s)"
    using assms(2) Some i(1) len
    by (auto simp: cw_remove_partition_def cw_recalculate_local_def cw_view_def cw_inputs_def
        zip_swap_remove)
  have d: "distinct (map fst (cw_view s))" using len by (simp add: cw_view_def)
  have vi: "i < length (cw_view s)" "fst (cw_view s ! i) = p"
    using i len by (simp_all add: cw_view_def)
  note m = mset_swap_remove [OF vi(1)]
  have "mset (map fst (cw_view s)) = mset (map fst (cw_view s ! i # cw_view s'))"
    using m v by simp
  then have d': "distinct (map fst (cw_view s ! i # cw_view s'))"
    using d by (metis mset_eq_imp_distinct_iff)
  have "set (cw_view s) = insert (cw_view s ! i) (set (cw_view s'))"
    using arg_cong [OF m, of set_mset] v by simp
  moreover have "\<forall>e \<in> set (cw_view s'). fst e \<noteq> p"
    using d' vi(2) by (auto simp: image_iff)
  ultimately have "set (cw_view s') = {e \<in> set (cw_view s). fst e \<noteq> p}"
    using vi(2) by auto
  moreover have "map fst (cw_view s') = cw_assigned_partitions s'"
    using assms(2) Some len
    by (auto simp: cw_remove_partition_def cw_recalculate_local_def cw_view_def cw_inputs_def)
  then have "cw_inv s'"
    using assms(2) Some len d'
    by (auto simp: cw_remove_partition_def cw_recalculate_local_def cw_inv_def)
  moreover have "removed" "cw_local_watermark s' = cw_calculate_local s'"
    using assms(2) Some cw_recalculate_fixed by (auto simp: cw_remove_partition_def)
  moreover have "p \<in> set ?ps" using i nth_mem by blast
  ultimately show ?thesis by blast
qed

theorem core_remove_partition_spec_witness:
  "set (cw_view (fst (cw_remove_partition (cw_with_partitions 0 [partition_id_new 0 0, partition_id_new 0 1])
     (partition_id_new 0 0)))) = {(partition_id_new 0 1, False, i64_min)}"
proof -
  let ?s = "cw_with_partitions 0 [partition_id_new 0 0, partition_id_new 0 1]"
  have "cw_inv ?s" by (simp add: cw_inv_def cw_with_partitions_def partition_id_new_def)
  from core_remove_partition_spec [OF this, of "partition_id_new 0 0", OF prod.collapse [symmetric]]
  have "set (cw_view (fst (cw_remove_partition ?s (partition_id_new 0 0)))) =
      {e \<in> set (cw_view ?s). fst e \<noteq> partition_id_new 0 0}" by blast
  also have "\<dots> = {(partition_id_new 0 1, False, i64_min)}"
    by (auto simp: cw_view_def cw_with_partitions_def cw_inputs_def partition_id_new_def)
  finally show ?thesis .
qed

text \<open>
  Over any sequence of partition assignments, updates and idle marks, the local watermarks a core emits strictly
  increase, and over any sequence of reports so do those of the global collector; each is at most the watermark of
  every active partition, respectively of every core, when it is emitted. Removing a partition is not among the
  operations: it recomputes the local watermark, which may go back (C38).
\<close>

theorem core_and_global_emissions_safe:
  assumes "cw_ok s" "tracker_run cw_step s as = (s', es)"
    and "gc_inv g" "\<forall>(core_id, w) \<in> set bs. w \<le> i64_max" "tracker_run gc_step g bs = (g', fs)"
  shows "sorted_wrt (<) (cw_local_watermark s # map snd es) \<and>
    cw_local_watermark s' = last (cw_local_watermark s # map snd es) \<and>
    (\<forall>(t, w) \<in> set es. \<forall>(p, idle, x) \<in> set (cw_view t). \<not> idle \<longrightarrow> w \<le> x) \<and>
    sorted_wrt (<) (gc_global_watermark g # map snd fs) \<and>
    gc_global_watermark g' = last (gc_global_watermark g # map snd fs) \<and>
    (\<forall>(h, w) \<in> set fs. \<forall>x \<in> set (gc_core_watermarks h). w \<le> x)"
proof -
  note c = core.run_emissions [OF assms(1) _ assms(2)]
  have "w \<le> x" if "(t, w) \<in> set es" "(p, False, x) \<in> set (cw_view t)" for t w p x
  proof -
    have "(False, x) \<in> set (cw_inputs t)" using that(2) by (auto simp: cw_view_def dest: set_zip_rightD)
    then show ?thesis using c that(1) by auto
  qed
  moreover have "w \<le> x" if "(h, w) \<in> set fs" "x \<in> set (gc_core_watermarks h)" for h w x
  proof -
    have "(False, x) \<in> set (gc_inputs h)" using that(2) by (simp add: gc_inputs_def)
    then show ?thesis
      using collector.run_emissions [OF assms(3) _ assms(5)] assms(4) that(1) by auto
  qed
  ultimately show ?thesis
    using c collector.run_emissions [OF assms(3) _ assms(5)] assms(4) by auto
qed

theorem core_and_global_emissions_safe_witness:
  "let p = partition_id_new 0 0; q = partition_id_new 0 1;
       as = [CwUpdate p 30, CwUpdate q 20, CwMarkIdle q]; bs = [(0, 30), (1, 20), (1, 25)] in
   map snd (snd (tracker_run cw_step (cw_with_partitions 0 [p, q]) as)) = [20, 30] \<and>
   cw_local_watermark (fst (tracker_run cw_step (cw_with_partitions 0 [p, q]) as)) = 30 \<and>
   map snd (snd (tracker_run gc_step (gc_new 2) bs)) = [20, 25] \<and>
   gc_global_watermark (fst (tracker_run gc_step (gc_new 2) bs)) = 25"
proof -
  let ?p = "partition_id_new 0 0" and ?q = "partition_id_new 0 1"
  let ?s = "cw_with_partitions 0 [?p, ?q]" and ?as = "[CwUpdate ?p 30, CwUpdate ?q 20, CwMarkIdle ?q]"
    and ?bs = "[(0, 30), (1, 20), (1, 25)]"
  have e: "map snd (snd (tracker_run cw_step ?s ?as)) = [20, 30]"
    by code_simp
  have f: "map snd (snd (tracker_run gc_step (gc_new 2) ?bs)) = [20, 25]"
    by (simp add: gc_new_def gc_update_core_def i64_simps numeral_2_eq_2)
  have "cw_ok ?s" by (simp add: cw_ok_def cw_inv_def cw_with_partitions_def partition_id_new_def)
  moreover have "gc_inv (gc_new 2)" by (simp add: gc_inv_def gc_new_def)
  moreover have "\<forall>(core_id, w) \<in> set ?bs. w \<le> i64_max" by (simp add: i64_simps)
  ultimately have "cw_local_watermark (fst (tracker_run cw_step ?s ?as)) =
      last (cw_local_watermark ?s # map snd (snd (tracker_run cw_step ?s ?as))) \<and>
    gc_global_watermark (fst (tracker_run gc_step (gc_new 2) ?bs)) =
      last (gc_global_watermark (gc_new 2) # map snd (snd (tracker_run gc_step (gc_new 2) ?bs)))"
    using core_and_global_emissions_safe [of ?s ?as _ _ "gc_new 2" ?bs, OF _ prod.collapse [symmetric] _ _ prod.collapse [symmetric]]
    by blast
  then show ?thesis unfolding Let_def e f by simp
qed

text \<open>
  A removal lets the local watermark go back: one partition alone brings it to 100 while the other is idle; the other
  wakes up at 10, the first is removed, and the next watermark emitted is 20.
\<close>

lemma removal_regresses:
  "let p = partition_id_new 0 0; q = partition_id_new 0 1;
       (s1, es1) = tracker_run cw_step (cw_with_partitions 0 [p, q]) [CwMarkIdle q, CwUpdate p 100, CwUpdate q 10];
       (s2, es2) = tracker_run cw_step (fst (cw_remove_partition s1 p)) [CwUpdate q 20]
   in map snd es1 = [100] \<and> map snd es2 = [20]"
  by code_simp

end
