(* ===== verification/Keyed_Watermark.thy ===== *)
theory Keyed_Watermark
  imports Watermark_Generators
begin

text \<open>
  The keyed watermark tracker of \<^verbatim>\<open>crates/laminar-core/src/time/keyed_watermark.rs\<close>: one bounded
  watermark per key, a global watermark over the active keys, a bound on the number of keys with
  three eviction policies, and the wrapper that counts late events.
\<close>

section \<open>State of one key\<close>

record key_watermark_state =
  kws_max_event_time :: i64
  kws_watermark :: i64
  kws_last_activity :: nat
  kws_is_idle :: bool

definition kws_new :: "nat \<Rightarrow> key_watermark_state" where
  "kws_new now =
     \<lparr>kws_max_event_time = i64_min, kws_watermark = i64_min, kws_last_activity = now,
      kws_is_idle = False\<rparr>"

definition kws_update ::
  "key_watermark_state \<Rightarrow> i64 \<Rightarrow> i64 \<Rightarrow> nat \<Rightarrow> key_watermark_state \<times> bool" where
  "kws_update s event_time bounded_delay now =
     (let s1 = s\<lparr>kws_last_activity := now, kws_is_idle := False\<rparr>
      in if event_time > kws_max_event_time s1 then
           let s2 = s1\<lparr>kws_max_event_time := event_time\<rparr>;
               new_watermark = saturating_sub event_time bounded_delay
           in if new_watermark > kws_watermark s2
              then (s2\<lparr>kws_watermark := new_watermark\<rparr>, True) else (s2, False)
         else (s1, False))"

definition kws_is_late :: "key_watermark_state \<Rightarrow> i64 \<Rightarrow> bool" where
  "kws_is_late s event_time \<longleftrightarrow> event_time < kws_watermark s"

section \<open>Tracker\<close>

datatype key_eviction_policy = LeastRecentlyActive | LowestWatermark | RejectNew

record keyed_config =
  kc_bounded_delay :: nat
  kc_idle_timeout :: nat
  kc_max_keys :: "nat option"
  kc_eviction_policy :: key_eviction_policy

definition keyed_config_default :: keyed_config where
  "keyed_config_default =
     \<lparr>kc_bounded_delay = 5000, kc_idle_timeout = 60000, kc_max_keys = None,
      kc_eviction_policy = LeastRecentlyActive\<rparr>"

definition with_bounded_delay :: "nat \<Rightarrow> keyed_config" where
  "with_bounded_delay d = keyed_config_default\<lparr>kc_bounded_delay := d\<rparr>"

definition with_idle_timeout :: "keyed_config \<Rightarrow> nat \<Rightarrow> keyed_config" where
  "with_idle_timeout c timeout = c\<lparr>kc_idle_timeout := timeout\<rparr>"

definition with_max_keys :: "keyed_config \<Rightarrow> nat \<Rightarrow> keyed_config" where
  "with_max_keys c n = c\<lparr>kc_max_keys := Some n\<rparr>"

definition with_eviction_policy :: "keyed_config \<Rightarrow> key_eviction_policy \<Rightarrow> keyed_config" where
  "with_eviction_policy c p = c\<lparr>kc_eviction_policy := p\<rparr>"

datatype keyed_watermark_error = MaxKeysReached nat

record keyed_metrics =
  km_total_keys :: nat
  km_active_keys :: nat
  km_idle_keys :: nat
  km_evicted_keys :: nat
  km_global_advances :: nat
  km_key_advances :: nat

definition keyed_metrics_new :: keyed_metrics where
  "keyed_metrics_new =
     \<lparr>km_total_keys = 0, km_active_keys = 0, km_idle_keys = 0, km_evicted_keys = 0,
      km_global_advances = 0, km_key_advances = 0\<rparr>"

record 'k keyed_tracker =
  kt_key_states :: "('k, key_watermark_state) hashmap"
  kt_global_watermark :: i64
  kt_config :: keyed_config
  kt_bounded_delay_ms :: i64
  kt_metrics :: keyed_metrics

definition kt_new :: "keyed_config \<Rightarrow> 'k keyed_tracker" where
  "kt_new config =
     \<lparr>kt_key_states = [], kt_global_watermark = i64_min, kt_config = config,
      kt_bounded_delay_ms = wrap64 (int (kc_bounded_delay config)),
      kt_metrics = keyed_metrics_new\<rparr>"

definition kt_inputs :: "'k keyed_tracker \<Rightarrow> (bool \<times> i64) list" where
  "kt_inputs t = map (\<lambda>(_, s). (kws_is_idle s, kws_watermark s)) (kt_key_states t)"

definition kt_calculate_global :: "'k keyed_tracker \<Rightarrow> i64" where
  "kt_calculate_global t = combine_active (kt_inputs t)"

definition kt_try_advance_global :: "'k keyed_tracker \<Rightarrow> 'k keyed_tracker \<times> watermark option" where
  "kt_try_advance_global t =
     (let new_global = kt_calculate_global t
      in if new_global \<noteq> i64_max \<and> new_global \<noteq> i64_min \<and> new_global \<noteq> kt_global_watermark t then
           let old_global = kt_global_watermark t;
               t1 = t\<lparr>kt_global_watermark := new_global\<rparr>;
               t2 = (if new_global > old_global
                     then t1\<lparr>kt_metrics := (kt_metrics t1)
                       \<lparr>km_global_advances := km_global_advances (kt_metrics t1) + 1\<rparr>\<rparr>
                     else t1)
           in (t2, Some new_global)
         else (t, None))"

definition kt_update_metrics_counts :: "'k keyed_tracker \<Rightarrow> 'k keyed_tracker" where
  "kt_update_metrics_counts t =
     (let idle = length (filter (\<lambda>(_, s). kws_is_idle s) (kt_key_states t))
      in t\<lparr>kt_metrics := (kt_metrics t)
           \<lparr>km_idle_keys := idle,
            km_active_keys := usize_sub (km_total_keys (kt_metrics t)) idle\<rparr>\<rparr>)"

text \<open>Both eviction functions remove the first key that minimises a measure.\<close>

definition kt_evict :: "(key_watermark_state \<Rightarrow> int) \<Rightarrow> 'k keyed_tracker \<Rightarrow> 'k keyed_tracker" where
  "kt_evict rank t =
     (case min_by_key (\<lambda>(_, s). rank s) (kt_key_states t) of
        None \<Rightarrow> t
      | Some (key, _) \<Rightarrow>
          t\<lparr>kt_key_states := AList.delete key (kt_key_states t),
            kt_metrics := (kt_metrics t)\<lparr>km_evicted_keys := km_evicted_keys (kt_metrics t) + 1\<rparr>\<rparr>)"

definition kt_evict_least_recently_active :: "'k keyed_tracker \<Rightarrow> 'k keyed_tracker" where
  "kt_evict_least_recently_active t = kt_evict (\<lambda>s. int (kws_last_activity s)) t"

definition kt_evict_lowest_watermark :: "'k keyed_tracker \<Rightarrow> 'k keyed_tracker" where
  "kt_evict_lowest_watermark t = kt_evict kws_watermark t"

text \<open>The check of the key limit in front of an insertion.\<close>

definition kt_make_room :: "'k keyed_tracker \<Rightarrow> keyed_watermark_error + 'k keyed_tracker" where
  "kt_make_room t =
     (case kc_max_keys (kt_config t) of
        None \<Rightarrow> Inr t
      | Some max_keys \<Rightarrow>
          if length (kt_key_states t) \<ge> max_keys
          then (case kc_eviction_policy (kt_config t) of
                  RejectNew \<Rightarrow> Inl (MaxKeysReached max_keys)
                | LeastRecentlyActive \<Rightarrow> Inr (kt_evict_least_recently_active t)
                | LowestWatermark \<Rightarrow> Inr (kt_evict_lowest_watermark t))
          else Inr t)"

definition kt_insert_new :: "nat \<Rightarrow> 'k \<Rightarrow> 'k keyed_tracker \<Rightarrow> 'k keyed_tracker" where
  "kt_insert_new now key t =
     t\<lparr>kt_key_states := AList.update key (kws_new now) (kt_key_states t)\<rparr>"

definition kt_set_total :: "'k keyed_tracker \<Rightarrow> 'k keyed_tracker" where
  "kt_set_total t =
     t\<lparr>kt_metrics := (kt_metrics t)\<lparr>km_total_keys := length (kt_key_states t)\<rparr>\<rparr>"

text \<open>The update of the key's own state; the key is present (the code's \<^verbatim>\<open>expect\<close>).\<close>

definition kt_update_key :: "nat \<Rightarrow> 'k \<Rightarrow> i64 \<Rightarrow> 'k keyed_tracker \<Rightarrow> 'k keyed_tracker" where
  "kt_update_key now key event_time t =
     (case map_of (kt_key_states t) key of
        None \<Rightarrow> t
      | Some s \<Rightarrow>
          let (s', advanced) = kws_update s event_time (kt_bounded_delay_ms t) now;
              t1 = t\<lparr>kt_key_states := AList.update key s' (kt_key_states t)\<rparr>
          in if advanced
             then t1\<lparr>kt_metrics := (kt_metrics t1)\<lparr>km_key_advances := km_key_advances (kt_metrics t1) + 1\<rparr>\<rparr>
             else t1)"

definition kt_update ::
  "nat \<Rightarrow> 'k keyed_tracker \<Rightarrow> 'k \<Rightarrow> i64 \<Rightarrow> 'k keyed_tracker \<times> (keyed_watermark_error + watermark option)" where
  "kt_update now t key event_time =
     (case (if contains_key (kt_key_states t) key then Inr t
            else (case kt_make_room t of
                    Inl e \<Rightarrow> Inl e
                  | Inr t1 \<Rightarrow> Inr (kt_set_total (kt_insert_new now key t1)))) of
        Inl e \<Rightarrow> (t, Inl e)
      | Inr t1 \<Rightarrow>
          let (t2, wm) = kt_try_advance_global
                (kt_update_metrics_counts (kt_update_key now key event_time t1))
          in (t2, Inr wm))"

text \<open>The loop of \<^verbatim>\<open>update_batch\<close>: an early return leaves the events before it applied.\<close>

fun kt_batch_loop ::
  "nat \<Rightarrow> 'k keyed_tracker \<Rightarrow> ('k \<times> i64) list \<Rightarrow> 'k keyed_tracker \<times> keyed_watermark_error option" where
  "kt_batch_loop now t [] = (t, None)"
| "kt_batch_loop now t ((key, event_time) # events) =
     (case (if contains_key (kt_key_states t) key then Inr t
            else (case kt_make_room t of
                    Inl e \<Rightarrow> Inl e
                  | Inr t1 \<Rightarrow> Inr (kt_insert_new now key t1))) of
        Inl e \<Rightarrow> (t, Some e)
      | Inr t1 \<Rightarrow> kt_batch_loop now (kt_update_key now key event_time t1) events)"

definition kt_update_batch ::
  "nat \<Rightarrow> 'k keyed_tracker \<Rightarrow> ('k \<times> i64) list \<Rightarrow>
   'k keyed_tracker \<times> (keyed_watermark_error + watermark option)" where
  "kt_update_batch now t events =
     (case kt_batch_loop now t events of
        (t1, Some e) \<Rightarrow> (t1, Inl e)
      | (t1, None) \<Rightarrow>
          let (t2, wm) = kt_try_advance_global (kt_update_metrics_counts (kt_set_total t1))
          in (t2, Inr wm))"

definition kt_watermark_for_key :: "'k keyed_tracker \<Rightarrow> 'k \<Rightarrow> i64 option" where
  "kt_watermark_for_key t key = map_option kws_watermark (map_of (kt_key_states t) key)"

definition kt_global :: "'k keyed_tracker \<Rightarrow> watermark option" where
  "kt_global t = (if kt_global_watermark t = i64_min then None else Some (kt_global_watermark t))"

definition kt_is_late :: "'k keyed_tracker \<Rightarrow> 'k \<Rightarrow> i64 \<Rightarrow> bool" where
  "kt_is_late t key event_time =
     (case map_of (kt_key_states t) key of None \<Rightarrow> False | Some s \<Rightarrow> kws_is_late s event_time)"

definition kt_is_late_global :: "'k keyed_tracker \<Rightarrow> i64 \<Rightarrow> bool" where
  "kt_is_late_global t event_time \<longleftrightarrow> event_time < kt_global_watermark t"

definition kt_mark_idle :: "'k keyed_tracker \<Rightarrow> 'k \<Rightarrow> 'k keyed_tracker \<times> watermark option" where
  "kt_mark_idle t key =
     (case map_of (kt_key_states t) key of
        None \<Rightarrow> (t, None)
      | Some s \<Rightarrow>
          if \<not> kws_is_idle s
          then kt_try_advance_global (kt_update_metrics_counts
                 (t\<lparr>kt_key_states := AList.update key (s\<lparr>kws_is_idle := True\<rparr>) (kt_key_states t)\<rparr>))
          else (t, None))"

definition kt_mark_active :: "nat \<Rightarrow> 'k keyed_tracker \<Rightarrow> 'k \<Rightarrow> 'k keyed_tracker" where
  "kt_mark_active now t key =
     (case map_of (kt_key_states t) key of
        None \<Rightarrow> t
      | Some s \<Rightarrow>
          if kws_is_idle s
          then kt_update_metrics_counts
                 (t\<lparr>kt_key_states := AList.update key
                    (s\<lparr>kws_is_idle := False, kws_last_activity := now\<rparr>) (kt_key_states t)\<rparr>)
          else t)"

definition kws_timed_out :: "nat \<Rightarrow> nat \<Rightarrow> key_watermark_state \<Rightarrow> bool" where
  "kws_timed_out now timeout s \<longleftrightarrow> \<not> kws_is_idle s \<and> now - kws_last_activity s \<ge> timeout"

definition kt_check_idle_keys :: "nat \<Rightarrow> 'k keyed_tracker \<Rightarrow> 'k keyed_tracker \<times> watermark option" where
  "kt_check_idle_keys now t =
     (let due = kws_timed_out now (kc_idle_timeout (kt_config t));
          any_marked = (\<exists>(_, s) \<in> set (kt_key_states t). due s);
          t1 = t\<lparr>kt_key_states :=
                 map_vals (\<lambda>s. if due s then s\<lparr>kws_is_idle := True\<rparr> else s) (kt_key_states t)\<rparr>
      in if any_marked then kt_try_advance_global (kt_update_metrics_counts t1) else (t1, None))"

definition kt_active_key_count :: "'k keyed_tracker \<Rightarrow> nat" where
  "kt_active_key_count t = length (filter (\<lambda>(_, s). \<not> kws_is_idle s) (kt_key_states t))"

definition kt_recalculate_global :: "'k keyed_tracker \<Rightarrow> 'k keyed_tracker \<times> watermark option" where
  "kt_recalculate_global t =
     (let new_global = kt_calculate_global t
      in if new_global \<noteq> i64_max \<and> new_global \<noteq> i64_min
         then (t\<lparr>kt_global_watermark := new_global\<rparr>, Some new_global) else (t, None))"

definition kt_remove_key :: "'k keyed_tracker \<Rightarrow> 'k \<Rightarrow> 'k keyed_tracker \<times> key_watermark_state option" where
  "kt_remove_key t key =
     (let state = map_of (kt_key_states t) key;
          t1 = t\<lparr>kt_key_states := AList.delete key (kt_key_states t)\<rparr>
      in if state \<noteq> None then
           let t2 = kt_update_metrics_counts (kt_set_total t1);
               new_global = kt_calculate_global t2
           in (if new_global > kt_global_watermark t2 \<and> new_global \<noteq> i64_max
               then t2\<lparr>kt_global_watermark := new_global\<rparr> else t2, state)
         else (t1, state))"

definition kt_clear :: "'k keyed_tracker \<Rightarrow> 'k keyed_tracker" where
  "kt_clear t =
     t\<lparr>kt_key_states := [], kt_global_watermark := i64_min, kt_metrics := keyed_metrics_new\<rparr>"

section \<open>Late events\<close>

record 'k late_tracker =
  lt_tracker :: "'k keyed_tracker"
  lt_late_events_per_key :: "('k, nat) hashmap"
  lt_total_late_events :: nat

definition lt_new :: "keyed_config \<Rightarrow> 'k late_tracker" where
  "lt_new config =
     \<lparr>lt_tracker = kt_new config, lt_late_events_per_key = [], lt_total_late_events = 0\<rparr>"

definition lt_late_events_for_key :: "'k late_tracker \<Rightarrow> 'k \<Rightarrow> nat" where
  "lt_late_events_for_key l key = unwrap_or (map_of (lt_late_events_per_key l) key) 0"

definition lt_update_with_late_check ::
  "nat \<Rightarrow> 'k late_tracker \<Rightarrow> 'k \<Rightarrow> i64 \<Rightarrow>
   'k late_tracker \<times> (keyed_watermark_error + watermark option \<times> bool)" where
  "lt_update_with_late_check now l key event_time =
     (let is_late = kt_is_late (lt_tracker l) key event_time;
          l1 = (if is_late
                then l\<lparr>lt_late_events_per_key := AList.update key
                         (unwrap_or (map_of (lt_late_events_per_key l) key) 0 + 1)
                         (lt_late_events_per_key l),
                       lt_total_late_events := lt_total_late_events l + 1\<rparr>
                else l);
          (t, res) = kt_update now (lt_tracker l1) key event_time;
          l2 = l1\<lparr>lt_tracker := t\<rparr>
      in case res of Inl e \<Rightarrow> (l2, Inl e) | Inr wm \<Rightarrow> (l2, Inr (wm, is_late)))"

section \<open>The key limit\<close>

definition kt_inv :: "'k keyed_tracker \<Rightarrow> bool" where
  "kt_inv t \<longleftrightarrow>
     wf_map (kt_key_states t) \<and>
     (\<forall>m. kc_max_keys (kt_config t) = Some m \<longrightarrow> length (kt_key_states t) \<le> max m 1)"

lemma kt_inv_cong:
  assumes "kt_inv t" "wf_map (kt_key_states t')" "length (kt_key_states t') \<le> length (kt_key_states t)"
    "kt_config t' = kt_config t"
  shows "kt_inv t'"
  using assms by (auto simp: kt_inv_def split: option.splits)

lemma kt_inv_new [simp]: "kt_inv (kt_new c)"
  by (simp add: kt_inv_def kt_new_def split: option.splits)

lemma kt_advance_simps [simp]:
  "kt_key_states (fst (kt_try_advance_global t)) = kt_key_states t"
  "kt_config (fst (kt_try_advance_global t)) = kt_config t"
  "kt_key_states (kt_update_metrics_counts t) = kt_key_states t"
  "kt_config (kt_update_metrics_counts t) = kt_config t"
  "kt_key_states (kt_set_total t) = kt_key_states t"
  "kt_config (kt_set_total t) = kt_config t"
  "kt_config (kt_insert_new now key t) = kt_config t"
  "kt_config (kt_update_key now key e t) = kt_config t"
  "kt_bounded_delay_ms (fst (kt_try_advance_global t)) = kt_bounded_delay_ms t"
  "kt_bounded_delay_ms (kt_update_metrics_counts t) = kt_bounded_delay_ms t"
  "kt_bounded_delay_ms (kt_set_total t) = kt_bounded_delay_ms t"
  "kt_bounded_delay_ms (kt_insert_new now key t) = kt_bounded_delay_ms t"
  "kt_bounded_delay_ms (kt_update_key now key e t) = kt_bounded_delay_ms t"
  by (simp_all add: kt_try_advance_global_def kt_update_metrics_counts_def kt_set_total_def
      kt_insert_new_def kt_update_key_def Let_def split: option.splits prod.splits)

lemma kt_evict_spec:
  assumes "wf_map (kt_key_states t)"
  shows "wf_map (kt_key_states (kt_evict rank t)) \<and> kt_config (kt_evict rank t) = kt_config t \<and>
    length (kt_key_states (kt_evict rank t)) = length (kt_key_states t) - 1"
proof (cases "min_by_key (\<lambda>(_, s). rank s) (kt_key_states t)")
  case None
  then show ?thesis using assms by (simp add: kt_evict_def)
next
  case (Some e)
  obtain k s where e: "e = (k, s)" by (cases e)
  then have "map_of (kt_key_states t) k = Some s"
    using min_by_key_Some [OF Some] assms by (simp add: wf_map_in_set)
  then show ?thesis
    using Some e assms length_delete_existing [OF assms, of k s] by (simp add: kt_evict_def)
qed

lemma kt_make_room_spec:
  assumes "kt_inv t" "kt_make_room t = Inr t1"
  shows "wf_map (kt_key_states t1) \<and> kt_config t1 = kt_config t \<and>
    (\<forall>m. kc_max_keys (kt_config t) = Some m \<longrightarrow> length (kt_key_states t1) < max m 1)"
proof -
  have wf: "wf_map (kt_key_states t)" using assms(1) by (simp add: kt_inv_def)
  show ?thesis
    using assms wf kt_evict_spec [OF wf]
    by (auto simp: kt_make_room_def kt_inv_def kt_evict_least_recently_active_def
        kt_evict_lowest_watermark_def split: option.splits if_splits key_eviction_policy.splits)
qed

lemma kt_inv_insert:
  assumes "kt_inv t" "kt_make_room t = Inr t1"
  shows "kt_inv (kt_insert_new now key t1)"
proof -
  have "length (AList.update key v m) \<le> Suc (length m)" for v m
    by (cases "map_of m key") (simp_all add: length_update_existing length_update_new)
  from this [of "kws_new now" "kt_key_states t1"] show ?thesis
    using kt_make_room_spec [OF assms]
    by (auto simp: kt_inv_def kt_insert_new_def split: option.splits)
qed

lemma kt_inv_update_key: "kt_inv t \<Longrightarrow> kt_inv (kt_update_key now key e t)"
  by (rule kt_inv_cong)
    (auto simp: kt_update_key_def kt_inv_def length_update_existing Let_def
        split: option.splits prod.splits)

lemma kt_inv_advance [simp]:
  "kt_inv (fst (kt_try_advance_global t)) = kt_inv t"
  "kt_inv (kt_update_metrics_counts t) = kt_inv t"
  "kt_inv (kt_set_total t) = kt_inv t"
  "kt_inv (t\<lparr>kt_global_watermark := w\<rparr>) = kt_inv t"
  by (simp_all add: kt_inv_def)

text \<open>Bringing a key in: nothing if it is known, room and an insertion otherwise.\<close>

definition kt_ensure :: "nat \<Rightarrow> 'k \<Rightarrow> 'k keyed_tracker \<Rightarrow> keyed_watermark_error + 'k keyed_tracker" where
  "kt_ensure now key t =
     (if contains_key (kt_key_states t) key then Inr t
      else (case kt_make_room t of Inl e \<Rightarrow> Inl e | Inr t1 \<Rightarrow> Inr (kt_insert_new now key t1)))"

lemma kt_batch_loop_Cons:
  "kt_batch_loop now t ((key, e) # es) =
     (case kt_ensure now key t of
        Inl err \<Rightarrow> (t, Some err)
      | Inr t1 \<Rightarrow> kt_batch_loop now (kt_update_key now key e t1) es)"
  by (simp add: kt_ensure_def)

declare kt_batch_loop.simps(2) [simp del]

lemma kt_inv_ensure: "kt_inv t \<Longrightarrow> kt_ensure now key t = Inr t1 \<Longrightarrow> kt_inv t1"
  by (auto simp: kt_ensure_def kt_inv_insert split: if_splits sum.splits)

lemma kt_update_ensure:
  "(case kt_ensure now key t of
      Inl err \<Rightarrow> kt_update now t key e = (t, Inl err)
    | Inr t1 \<Rightarrow> kt_inv t1 \<longrightarrow>
        kt_inv (fst (kt_update now t key e)) \<and>
        kt_key_states (fst (kt_update now t key e)) = kt_key_states (kt_update_key now key e t1))"
proof (cases "kt_ensure now key t")
  case (Inl err)
  then show ?thesis by (auto simp: kt_update_def kt_ensure_def split: if_splits sum.splits)
next
  case (Inr t1)
  define u where "u = (if contains_key (kt_key_states t) key then t1 else kt_set_total t1)"
  have "kt_update now t key e =
      (let (t2, wm) = kt_try_advance_global (kt_update_metrics_counts (kt_update_key now key e u))
       in (t2, Inr wm))"
    using Inr by (auto simp: kt_update_def kt_ensure_def u_def split: if_splits sum.splits)
  moreover have "kt_key_states (kt_update_key now key e u) = kt_key_states (kt_update_key now key e t1)"
    by (simp add: u_def kt_update_key_def Let_def split: option.splits prod.splits)
  moreover have "kt_inv t1 \<Longrightarrow> kt_inv (kt_update_key now key e u)"
    by (rule kt_inv_update_key) (simp add: u_def)
  ultimately show ?thesis using Inr by (simp add: case_prod_unfold Let_def)
qed

lemma kt_inv_update: "kt_inv t \<Longrightarrow> kt_inv (fst (kt_update now t key e))"
  using kt_update_ensure [of now t key e] kt_inv_ensure [of t now key]
  by (cases "kt_ensure now key t") simp_all

lemma kt_inv_batch_loop: "kt_inv t \<Longrightarrow> kt_inv (fst (kt_batch_loop now t es))"
proof (induction es arbitrary: t)
  case (Cons a es)
  obtain key e where a: "a = (key, e)" by (cases a)
  show ?case
    using Cons.IH Cons.prems kt_inv_ensure [OF Cons.prems, of now key]
    by (cases "kt_ensure now key t") (simp_all add: a kt_batch_loop_Cons kt_inv_update_key)
qed simp

lemma kt_inv_batch: "kt_inv t \<Longrightarrow> kt_inv (fst (kt_update_batch now t es))"
  using kt_inv_batch_loop [of t now es]
  by (cases "kt_batch_loop now t es")
    (auto simp: kt_update_batch_def case_prod_unfold Let_def split: option.splits)

datatype 'k kt_op =
    KtUpdate nat 'k i64
  | KtBatch nat "('k \<times> i64) list"
  | KtMarkIdle 'k
  | KtMarkActive nat 'k
  | KtCheckIdle nat
  | KtRecalculate
  | KtRemove 'k
  | KtClear

fun kt_step :: "'k kt_op \<Rightarrow> 'k keyed_tracker \<Rightarrow> 'k keyed_tracker" where
  "kt_step (KtUpdate now k e) t = fst (kt_update now t k e)"
| "kt_step (KtBatch now es) t = fst (kt_update_batch now t es)"
| "kt_step (KtMarkIdle k) t = fst (kt_mark_idle t k)"
| "kt_step (KtMarkActive now k) t = kt_mark_active now t k"
| "kt_step (KtCheckIdle now) t = fst (kt_check_idle_keys now t)"
| "kt_step KtRecalculate t = fst (kt_recalculate_global t)"
| "kt_step (KtRemove k) t = fst (kt_remove_key t k)"
| "kt_step KtClear t = kt_clear t"

lemma kt_config_ensure: "kt_inv t \<Longrightarrow> kt_ensure now key t = Inr t1 \<Longrightarrow> kt_config t1 = kt_config t"
  using kt_make_room_spec [of t] by (auto simp: kt_ensure_def split: if_splits sum.splits)

lemma kt_config_update:
  assumes "kt_inv t"
  shows "kt_config (fst (kt_update now t key e)) = kt_config t"
proof (cases "contains_key (kt_key_states t) key")
  case True
  then show ?thesis by (simp add: kt_update_def case_prod_unfold Let_def)
next
  case False
  then show ?thesis
    using kt_make_room_spec [OF assms]
    by (cases "kt_make_room t") (simp_all add: kt_update_def case_prod_unfold Let_def)
qed

lemma kt_config_batch_loop: "kt_inv t \<Longrightarrow> kt_config (fst (kt_batch_loop now t es)) = kt_config t"
proof (induction es arbitrary: t)
  case (Cons a es)
  obtain key e where a: "a = (key, e)" by (cases a)
  show ?case
    using Cons.IH Cons.prems kt_inv_ensure [OF Cons.prems, of now key]
      kt_config_ensure [OF Cons.prems, of now key]
    by (cases "kt_ensure now key t") (simp_all add: a kt_batch_loop_Cons kt_inv_update_key)
qed simp

lemma kt_config_batch: "kt_inv t \<Longrightarrow> kt_config (fst (kt_update_batch now t es)) = kt_config t"
  using kt_config_batch_loop [of t now es]
  by (cases "kt_batch_loop now t es")
    (auto simp: kt_update_batch_def case_prod_unfold Let_def split: option.splits)

lemma kt_inv_replace:
  assumes "kt_inv t" "map_of (kt_key_states t) key = Some s"
  shows "kt_inv (t\<lparr>kt_key_states := AList.update key s' (kt_key_states t)\<rparr>)"
  using assms(1) by (rule kt_inv_cong) (use assms in \<open>simp_all add: kt_inv_def length_update_existing\<close>)

lemma length_map_vals: "length (map_vals f m) = length m"
  by (simp add: map_vals_def)

lemma kt_inv_map_vals: "kt_inv t \<Longrightarrow> kt_inv (t\<lparr>kt_key_states := map_vals f (kt_key_states t)\<rparr>)"
  by (simp add: kt_inv_def length_map_vals)

lemma kt_inv_step:
  assumes "kt_inv t"
  shows "kt_inv (kt_step a t) \<and> kt_config (kt_step a t) = kt_config t"
proof (cases a)
  case (KtMarkIdle k)
  then show ?thesis using assms
    by (cases "map_of (kt_key_states t) k") (simp_all add: kt_mark_idle_def kt_inv_replace)
next
  case (KtMarkActive now k)
  then show ?thesis using assms
    by (cases "map_of (kt_key_states t) k") (simp_all add: kt_mark_active_def kt_inv_replace)
next
  case (KtCheckIdle now)
  then show ?thesis using assms by (simp add: kt_check_idle_keys_def Let_def kt_inv_map_vals)
next
  case KtRecalculate
  then show ?thesis using assms KtRecalculate by (simp add: kt_recalculate_global_def Let_def)
next
  case (KtRemove k)
  have "kt_inv (t\<lparr>kt_key_states := AList.delete k (kt_key_states t)\<rparr>)"
    using assms by (rule kt_inv_cong) (use assms in \<open>simp_all add: kt_inv_def AList.length_delete_le\<close>)
  then show ?thesis using KtRemove by (simp add: kt_remove_key_def Let_def)
next
  case KtClear
  then show ?thesis using assms by (auto simp: kt_clear_def kt_inv_def split: option.splits)
qed (use assms in \<open>simp_all add: kt_inv_update kt_config_update kt_inv_batch kt_config_batch\<close>)

section \<open>Properties of the keyed tracker\<close>

text \<open>
  The number of tracked keys never exceeds the configured limit (one key is kept even for limit 0),
  whatever the eviction policy and the sequence of operations, and keys stay unique (C39).
\<close>

theorem keyed_key_limit:
  assumes "kc_max_keys c = Some m"
  shows "length (kt_key_states (fold kt_step ops (kt_new c))) \<le> max m 1 \<and>
    distinct (map fst (kt_key_states (fold kt_step ops (kt_new c))))"
proof -
  have "kt_inv (fold kt_step ops t) \<and> kt_config (fold kt_step ops t) = kt_config t" if "kt_inv t" for t
    using that
  proof (induction ops arbitrary: t)
    case (Cons a ops)
    then show ?case using kt_inv_step [OF Cons.prems, of a] by simp
  qed simp
  from this [OF kt_inv_new, of c] have "kt_inv (fold kt_step ops (kt_new c))"
    "kt_config (fold kt_step ops (kt_new c)) = c"
    by (simp_all, simp add: kt_new_def)
  then show ?thesis using assms by (simp add: kt_inv_def wf_map_def)
qed

theorem keyed_key_limit_witness:
  "length (kt_key_states (fold kt_step [KtUpdate 0 (1::nat) 10, KtUpdate 1 2 20, KtUpdate 2 3 30]
     (kt_new (with_max_keys keyed_config_default 2)))) \<le> 2"
  using keyed_key_limit [of "with_max_keys keyed_config_default 2" 2
      "[KtUpdate 0 (1::nat) 10, KtUpdate 1 2 20, KtUpdate 2 3 30]"]
  by (simp add: with_max_keys_def del: kt_step.simps fold_simps)

text \<open>The part of a key's state that a bounded generator has.\<close>

definition kws_gen :: "i64 \<Rightarrow> key_watermark_state \<Rightarrow> bounded_gen" where
  "kws_gen d s =
     \<lparr>bg_max_out_of_orderness = d, bg_current_max_timestamp = kws_max_event_time s,
      bg_current_watermark = kws_watermark s\<rparr>"

lemma kws_gen_update: "kws_gen d (fst (kws_update s e d now)) = fst (bounded_on_event (kws_gen d s) e)"
  by (simp add: kws_gen_def kws_update_def bounded_on_event_def Let_def)

lemma kws_gen_new: "kws_gen d (kws_new now) = bounded_new d"
  by (simp add: kws_gen_def kws_new_def bounded_new_def)

lemma kt_update_key_map_of:
  "map_of (kt_key_states (kt_update_key now key e t)) k =
     (if k = key
      then map_option (\<lambda>s. fst (kws_update s e (kt_bounded_delay_ms t) now)) (map_of (kt_key_states t) key)
      else map_of (kt_key_states t) k)"
  by (simp add: kt_update_key_def Let_def split: option.split prod.split)

lemma kt_update_unbounded:
  assumes "kc_max_keys (kt_config t) = None"
  shows "map_of (kt_key_states (fst (kt_update now t key e))) k =
      (if k = key
       then Some (fst (kws_update (unwrap_or (map_of (kt_key_states t) key) (kws_new now)) e
              (kt_bounded_delay_ms t) now))
       else map_of (kt_key_states t) k)"
    and "kt_config (fst (kt_update now t key e)) = kt_config t"
    and "kt_bounded_delay_ms (fst (kt_update now t key e)) = kt_bounded_delay_ms t"
proof -
  have room: "kt_make_room t = Inr t" using assms by (simp add: kt_make_room_def)
  define u where "u = (if contains_key (kt_key_states t) key then t
    else kt_set_total (kt_insert_new now key t))"
  have up: "kt_update now t key e =
      (let (t2, wm) = kt_try_advance_global (kt_update_metrics_counts (kt_update_key now key e u))
       in (t2, Inr wm))"
    by (simp add: kt_update_def room u_def)
  have "map_of (kt_key_states u) k =
      (if k = key then Some (unwrap_or (map_of (kt_key_states t) key) (kws_new now))
       else map_of (kt_key_states t) k)" for k
    by (auto simp: u_def contains_key_def kt_insert_new_def kt_set_total_def)
  moreover have d: "kt_bounded_delay_ms u = kt_bounded_delay_ms t" "kt_config u = kt_config t"
    by (simp_all add: u_def)
  ultimately show "map_of (kt_key_states (fst (kt_update now t key e))) k =
      (if k = key
       then Some (fst (kws_update (unwrap_or (map_of (kt_key_states t) key) (kws_new now)) e
              (kt_bounded_delay_ms t) now))
       else map_of (kt_key_states t) k)"
    by (simp add: up case_prod_unfold Let_def kt_update_key_map_of)
  show "kt_config (fst (kt_update now t key e)) = kt_config t"
    "kt_bounded_delay_ms (fst (kt_update now t key e)) = kt_bounded_delay_ms t"
    by (simp_all add: up case_prod_unfold Let_def d)
qed

definition events_of :: "'k \<Rightarrow> (nat \<times> 'k \<times> i64) list \<Rightarrow> i64 list" where
  "events_of k evs = map (snd \<circ> snd) (filter (\<lambda>ev. fst (snd ev) = k) evs)"

abbreviation kt_updates :: "(nat \<times> 'k \<times> i64) list \<Rightarrow> 'k keyed_tracker \<Rightarrow> 'k keyed_tracker" where
  "kt_updates evs t \<equiv> fold (\<lambda>(now, k, e) t. fst (kt_update now t k e)) evs t"

abbreviation bounded_events :: "i64 list \<Rightarrow> bounded_gen \<Rightarrow> bounded_gen" where
  "bounded_events es g \<equiv> fold (\<lambda>e g. fst (bounded_on_event g e)) es g"

lemma kt_updates_gen:
  assumes "kc_max_keys c = None"
  shows "kt_config (kt_updates evs (kt_new c)) = c \<and>
    kt_bounded_delay_ms (kt_updates evs (kt_new c)) = wrap64 (int (kc_bounded_delay c)) \<and>
    (\<forall>k. map_option (kws_gen (wrap64 (int (kc_bounded_delay c))))
        (map_of (kt_key_states (kt_updates evs (kt_new c))) k) =
      (if events_of k evs = [] then None
       else Some (bounded_events (events_of k evs) (bounded_new (wrap64 (int (kc_bounded_delay c)))))))"
proof (induction evs rule: rev_induct)
  case Nil
  then show ?case by (simp add: kt_new_def events_of_def)
next
  case (snoc ev evs)
  obtain now key e where ev: "ev = (now, key, e)" by (cases ev) auto
  let ?d = "wrap64 (int (kc_bounded_delay c))" and ?t = "kt_updates evs (kt_new c)"
  have unb: "kc_max_keys (kt_config ?t) = None" using snoc assms by simp
  note up = kt_update_unbounded [OF unb, of now key e]
  have ih: "map_option (kws_gen ?d) (map_of (kt_key_states ?t) k) =
      (if events_of k evs = [] then None else Some (bounded_events (events_of k evs) (bounded_new ?d)))" for k
    using snoc by blast
  have base: "kws_gen ?d (unwrap_or (map_of (kt_key_states ?t) key) (kws_new now)) =
      bounded_events (events_of key evs) (bounded_new ?d)"
    using ih [of key] by (cases "map_of (kt_key_states ?t) key") (auto simp: kws_gen_new split: if_splits)
  have snoc_ev: "events_of k (evs @ [ev]) = (if k = key then events_of k evs @ [e] else events_of k evs)" for k
    by (simp add: events_of_def ev)
  have "map_option (kws_gen ?d) (map_of (kt_key_states (fst (kt_update now ?t key e))) k) =
      (if events_of k (evs @ [ev]) = [] then None
       else Some (bounded_events (events_of k (evs @ [ev])) (bounded_new ?d)))" for k
  proof (cases "k = key")
    case True
    then show ?thesis using base snoc by (simp add: up(1) snoc_ev kws_gen_update)
  next
    case False
    then show ?thesis by (simp only: up(1) snoc_ev ih if_False)
  qed
  then show ?case using snoc up(2,3) by (simp add: ev)
qed

text \<open>
  Without a key limit the keys are isolated: the watermark of a key is exactly the watermark of a
  bounded generator of its own that sees only the events of that key, in their order.
\<close>

theorem keyed_watermark_isolated:
  assumes "kc_max_keys c = None"
  shows "kt_watermark_for_key (kt_updates evs (kt_new c)) k =
    (if events_of k evs = [] then None
     else Some (bg_current_watermark
       (bounded_events (events_of k evs) (bounded_new (wrap64 (int (kc_bounded_delay c)))))))"
proof -
  let ?d = "wrap64 (int (kc_bounded_delay c))" and ?t = "kt_updates evs (kt_new c)"
  have gen: "map_option (kws_gen ?d) (map_of (kt_key_states ?t) k) =
      (if events_of k evs = [] then None else Some (bounded_events (events_of k evs) (bounded_new ?d)))"
    using kt_updates_gen [OF assms, of evs] by blast
  have "kt_watermark_for_key ?t k =
      map_option bg_current_watermark (map_option (kws_gen ?d) (map_of (kt_key_states ?t) k))"
    by (simp add: kt_watermark_for_key_def option.map_comp comp_def kws_gen_def)
  then show ?thesis unfolding gen by simp
qed

theorem keyed_watermark_isolated_witness:
  "kt_watermark_for_key (kt_updates [(0, 1::nat, 10000), (1, 2, 70000), (2, 1, 9000)]
     (kt_new keyed_config_default)) 1 = Some 5000"
  using keyed_watermark_isolated [of keyed_config_default "[(0, 1::nat, 10000), (1, 2, 70000), (2, 1, 9000)]" 1]
  by (simp add: keyed_config_default_def events_of_def bounded_on_event_def bounded_new_def
      in_i64_def i64_simps)

text \<open>
  \<^verbatim>\<open>update_batch\<close> returns early when a key is rejected and skips the update of the key count. The
  next operation subtracts the idle keys from the stale count and the active-key metric wraps.
\<close>

theorem batch_rejection_wraps_metric:
  "let c = with_eviction_policy (with_max_keys keyed_config_default 1) RejectNew;
       t = fst (kt_update_batch 0 (kt_new c) [(1::nat, 10000), (2, 20000)]);
       t' = fst (kt_mark_idle t 1)
   in length (kt_key_states t) = 1 \<and> km_total_keys (kt_metrics t) = 0 \<and>
      km_idle_keys (kt_metrics t') = 1 \<and> km_active_keys (kt_metrics t') = 2 ^ 64 - 1"
  by (simp add: with_eviction_policy_def with_max_keys_def keyed_config_default_def
      kt_update_batch_def kt_batch_loop_Cons kt_ensure_def contains_key_def kt_make_room_def kt_new_def
      kt_insert_new_def kt_update_key_def kws_new_def kws_update_def kt_mark_idle_def
      kt_update_metrics_counts_def kt_try_advance_global_def kt_calculate_global_def kt_inputs_def
      combine_active_def keyed_metrics_new_def usize_sub_def i64_simps)

text \<open>Agreement up to the global watermark and the metrics.\<close>

definition same_keys :: "'k keyed_tracker \<Rightarrow> 'k keyed_tracker \<Rightarrow> bool" where
  "same_keys t u \<longleftrightarrow>
     kt_key_states t = kt_key_states u \<and> kt_config t = kt_config u \<and>
     kt_bounded_delay_ms t = kt_bounded_delay_ms u"

lemma same_keys_evict: "same_keys t u \<Longrightarrow> same_keys (kt_evict rank t) (kt_evict rank u)"
  by (auto simp: same_keys_def kt_evict_def split: option.splits)

lemma same_keys_update_key: "same_keys t u \<Longrightarrow> same_keys (kt_update_key now k e t) (kt_update_key now k e u)"
  by (auto simp: same_keys_def kt_update_key_def Let_def split: option.splits prod.splits)

lemma same_keys_ensure:
  assumes "same_keys t u" "kt_ensure now k t = Inr t1"
  shows "\<exists>u1. kt_ensure now k u = Inr u1 \<and> same_keys t1 u1"
proof (cases "contains_key (kt_key_states t) k")
  case True
  then show ?thesis using assms by (auto simp: kt_ensure_def same_keys_def)
next
  case False
  then obtain t0 where t0: "kt_make_room t = Inr t0" "t1 = kt_insert_new now k t0"
    using assms(2) by (auto simp: kt_ensure_def split: sum.splits)
  have "\<exists>u0. kt_make_room u = Inr u0 \<and> same_keys t0 u0"
    using assms(1) t0(1) same_keys_evict [OF assms(1)]
    by (auto simp: kt_make_room_def same_keys_def kt_evict_least_recently_active_def
        kt_evict_lowest_watermark_def split: option.splits if_splits key_eviction_policy.splits)
  then show ?thesis
    using False assms(1) t0(2) by (auto simp: kt_ensure_def same_keys_def kt_insert_new_def)
qed

lemma same_keys_update:
  assumes "kt_ensure now k t = Inr t1"
  shows "same_keys (kt_update_key now k e t1) (fst (kt_update now t k e))"
proof -
  define u where "u = (if contains_key (kt_key_states t) k then t1 else kt_set_total t1)"
  have "kt_update now t k e =
      (let (t2, wm) = kt_try_advance_global (kt_update_metrics_counts (kt_update_key now k e u))
       in (t2, Inr wm))"
    using assms by (auto simp: kt_update_def kt_ensure_def u_def split: if_splits sum.splits)
  moreover have "same_keys (kt_update_key now k e t1) (kt_update_key now k e u)"
    by (rule same_keys_update_key) (simp add: u_def same_keys_def)
  ultimately show ?thesis by (simp add: same_keys_def case_prod_unfold Let_def)
qed

lemma batch_loop_same_keys:
  assumes "kt_batch_loop now t es = (t', None)" "same_keys t u"
  shows "same_keys t' (kt_updates (map (\<lambda>(k, e). (now, k, e)) es) u)"
  using assms
proof (induction es arbitrary: t u)
  case (Cons a es)
  obtain k e where a: "a = (k, e)" by (cases a)
  obtain t1 where t1: "kt_ensure now k t = Inr t1"
    and rest: "kt_batch_loop now (kt_update_key now k e t1) es = (t', None)"
    using Cons.prems(1) by (auto simp: a kt_batch_loop_Cons split: sum.splits)
  obtain u1 where u1: "kt_ensure now k u = Inr u1" "same_keys t1 u1"
    using same_keys_ensure [OF Cons.prems(2) t1] by blast
  have "same_keys (kt_update_key now k e t1) (fst (kt_update now u k e))"
    using same_keys_update [OF u1(1), of e] same_keys_update_key [OF u1(2), of now k e]
    by (simp add: same_keys_def)
  from Cons.IH [OF rest this] show ?case by (simp add: a)
qed simp

text \<open>
  A batch that is accepted leaves every key in the state that updating with its events one by one, all at the one
  instant the batch reads, would leave it in, evictions included. Single updates read the clock anew, so at
  different instants an eviction of the least recently active key may choose another key (C34).
\<close>

theorem keyed_batch_equiv:
  assumes "kt_update_batch now t es = (t', Inr wm)"
  shows "kt_key_states t' = kt_key_states (kt_updates (map (\<lambda>(k, e). (now, k, e)) es) t)"
proof -
  obtain t1 where "kt_batch_loop now t es = (t1, None)" "kt_key_states t' = kt_key_states t1"
    using assms by (cases "kt_batch_loop now t es")
      (auto simp: kt_update_batch_def case_prod_unfold Let_def split: option.splits)
  then show ?thesis
    using batch_loop_same_keys [of now t es t1 t] by (simp add: same_keys_def)
qed

theorem keyed_batch_equiv_witness:
  "kt_key_states (fst (kt_update_batch 3 (kt_new keyed_config_default) [(1::nat, 9000), (1, 7000)])) =
   kt_key_states (kt_updates [(3, 1, 9000), (3, 1, 7000)] (kt_new keyed_config_default))"
proof -
  have "snd (kt_update_batch 3 (kt_new keyed_config_default) [(1::nat, 9000), (1, 7000)]) = Inr (Some 4000)"
    by (simp add: keyed_config_default_def
      kt_update_batch_def kt_batch_loop_Cons kt_ensure_def contains_key_def kt_make_room_def kt_new_def
      kt_insert_new_def kt_update_key_def kws_new_def kws_update_def
      kt_update_metrics_counts_def kt_try_advance_global_def kt_calculate_global_def kt_inputs_def
      kt_set_total_def combine_active_def keyed_metrics_new_def usize_sub_def i64_simps)
  then have "kt_update_batch 3 (kt_new keyed_config_default) [(1::nat, 9000), (1, 7000)] =
      (fst (kt_update_batch 3 (kt_new keyed_config_default) [(1::nat, 9000), (1, 7000)]), Inr (Some 4000))"
    by (metis prod.collapse)
  from keyed_batch_equiv [OF this] show ?thesis by simp
qed

section \<open>Properties of late-event counting\<close>

definition lt_inv :: "'k late_tracker \<Rightarrow> bool" where
  "lt_inv l \<longleftrightarrow>
     wf_map (lt_late_events_per_key l) \<and>
     lt_total_late_events l = sum_list (map snd (lt_late_events_per_key l))"

lemma sum_list_update:
  "wf_map m \<Longrightarrow> sum_list (map snd (AList.update k (unwrap_or (map_of m k) 0 + 1) m)) =
     Suc (sum_list (map snd m))"
proof (induction m)
  case (Cons a m)
  then show ?case by (cases a) (auto simp: wf_map_def)
qed simp

text \<open>
  An update is counted as late exactly when its event time lies below the watermark its key has, the
  count of that key and the total grow by one, and the total stays the sum over the keys.
\<close>

theorem late_event_accounting:
  assumes "lt_inv l" "lt_update_with_late_check now l key e = (l', res)"
  shows "lt_inv l' \<and>
    lt_total_late_events l' = lt_total_late_events l +
      (if \<exists>w. kt_watermark_for_key (lt_tracker l) key = Some w \<and> e < w then 1 else 0) \<and>
    lt_late_events_for_key l' k = lt_late_events_for_key l k +
      (if k = key \<and> (\<exists>w. kt_watermark_for_key (lt_tracker l) key = Some w \<and> e < w) then 1 else 0)"
proof -
  have late: "kt_is_late (lt_tracker l) key e \<longleftrightarrow>
      (\<exists>w. kt_watermark_for_key (lt_tracker l) key = Some w \<and> e < w)"
    by (auto simp: kt_is_late_def kt_watermark_for_key_def kws_is_late_def split: option.splits)
  define l1 where "l1 = (if kt_is_late (lt_tracker l) key e
    then l\<lparr>lt_late_events_per_key := AList.update key
             (unwrap_or (map_of (lt_late_events_per_key l) key) 0 + 1) (lt_late_events_per_key l),
           lt_total_late_events := lt_total_late_events l + 1\<rparr> else l)"
  have "lt_late_events_per_key l' = lt_late_events_per_key l1"
    "lt_total_late_events l' = lt_total_late_events l1"
    using assms(2)
    by (auto simp: lt_update_with_late_check_def l1_def Let_def split: prod.splits sum.splits if_splits)
  moreover have "lt_inv l1"
    using assms(1) sum_list_update [of "lt_late_events_per_key l" key]
    by (simp add: l1_def lt_inv_def)
  ultimately show ?thesis
    unfolding late [symmetric]
    by (cases "kt_is_late (lt_tracker l) key e")
      (simp_all add: lt_inv_def lt_late_events_for_key_def l1_def)
qed

theorem late_event_accounting_witness:
  "lt_total_late_events (fst (lt_update_with_late_check 2
     (fst (lt_update_with_late_check 1 (lt_new (with_bounded_delay 10)) (7::nat) 100)) 7 50)) = 1"
proof -
  let ?l = "fst (lt_update_with_late_check 1 (lt_new (with_bounded_delay 10)) (7::nat) 100)"
  have l: "lt_late_events_per_key ?l = []" "lt_total_late_events ?l = 0"
    "kt_watermark_for_key (lt_tracker ?l) 7 = Some 90"
    by (simp_all add: lt_update_with_late_check_def lt_new_def with_bounded_delay_def kt_is_late_def
      keyed_config_default_def kt_update_def contains_key_def kt_make_room_def kt_new_def
      kt_insert_new_def kt_update_key_def kws_new_def kws_update_def kt_watermark_for_key_def
      kt_update_metrics_counts_def kt_try_advance_global_def kt_calculate_global_def kt_inputs_def
      kt_set_total_def combine_active_def keyed_metrics_new_def usize_sub_def i64_simps)
  have "lt_inv ?l" using l by (simp add: lt_inv_def)
  from late_event_accounting [OF this prod.collapse [symmetric], of 2 7 50] l show ?thesis by simp
qed

end
