(* ===== verification/Alignment_Groups.thy ===== *)
theory Alignment_Groups
  imports Watermark_Generators
begin

text \<open>
  Alignment groups of \<^verbatim>\<open>crates/laminar-core/src/time/alignment_group.rs\<close>: sources whose watermarks
  drift too far ahead are paused until the others catch up. Durations and instants count
  nanoseconds.
\<close>

section \<open>Definitions\<close>

definition from_millis :: "nat \<Rightarrow> nat" where
  "from_millis ms = ms * 1000000"

definition as_millis :: "nat \<Rightarrow> nat" where
  "as_millis d = d div 1000000"

datatype enforcement_mode = ModePause | ModeWarnOnly | ModeDropExcess

record alignment_config =
  ac_group_id :: string
  ac_max_drift :: nat
  ac_update_interval :: nat
  ac_enforcement_mode :: enforcement_mode

definition alignment_config_new :: "string \<Rightarrow> alignment_config" where
  "alignment_config_new gid =
     \<lparr>ac_group_id = gid, ac_max_drift = from_millis 300000, ac_update_interval = from_millis 1000,
      ac_enforcement_mode = ModePause\<rparr>"

definition with_max_drift :: "alignment_config \<Rightarrow> nat \<Rightarrow> alignment_config" where
  "with_max_drift c d = c\<lparr>ac_max_drift := d\<rparr>"

definition with_update_interval :: "alignment_config \<Rightarrow> nat \<Rightarrow> alignment_config" where
  "with_update_interval c i = c\<lparr>ac_update_interval := i\<rparr>"

definition with_enforcement_mode :: "alignment_config \<Rightarrow> enforcement_mode \<Rightarrow> alignment_config" where
  "with_enforcement_mode c m = c\<lparr>ac_enforcement_mode := m\<rparr>"

record alignment_source =
  as_source_id :: nat
  as_watermark :: i64
  as_is_paused :: bool
  as_pause_start :: "nat option"
  as_total_pause_time :: nat
  as_events_dropped :: nat
  as_last_activity :: nat

definition as_new :: "nat \<Rightarrow> nat \<Rightarrow> alignment_source" where
  "as_new now source_id =
     \<lparr>as_source_id = source_id, as_watermark = i64_min, as_is_paused = False, as_pause_start = None,
      as_total_pause_time = 0, as_events_dropped = 0, as_last_activity = now\<rparr>"

definition as_pause :: "nat \<Rightarrow> alignment_source \<Rightarrow> alignment_source" where
  "as_pause now s =
     (if \<not> as_is_paused s then s\<lparr>as_is_paused := True, as_pause_start := Some now\<rparr> else s)"

definition as_resume :: "nat \<Rightarrow> alignment_source \<Rightarrow> alignment_source" where
  "as_resume now s =
     (if as_is_paused s then
        let s1 = s\<lparr>as_is_paused := False, as_pause_start := None\<rparr>
        in (case as_pause_start s of
              Some start \<Rightarrow> s1\<lparr>as_total_pause_time := as_total_pause_time s1 + (now - start)\<rparr>
            | None \<Rightarrow> s1)
      else s)"

record alignment_metrics =
  am_pause_events :: nat
  am_resume_events :: nat
  am_total_pause_time :: nat
  am_max_observed_drift :: nat
  am_current_drift :: nat
  am_events_dropped :: nat
  am_warnings_emitted :: nat

definition alignment_metrics_new :: alignment_metrics where
  "alignment_metrics_new =
     \<lparr>am_pause_events = 0, am_resume_events = 0, am_total_pause_time = 0, am_max_observed_drift = 0,
      am_current_drift = 0, am_events_dropped = 0, am_warnings_emitted = 0\<rparr>"

datatype alignment_action = ActContinue | ActPause | ActResume | ActDrop | ActWarn i64

record alignment_group =
  al_config :: alignment_config
  al_sources :: "(nat, alignment_source) hashmap"
  al_min_watermark :: i64
  al_max_watermark :: i64
  al_last_check :: nat
  al_metrics :: alignment_metrics

definition al_new :: "nat \<Rightarrow> alignment_config \<Rightarrow> alignment_group" where
  "al_new now config =
     \<lparr>al_config = config, al_sources = [], al_min_watermark = i64_min, al_max_watermark = i64_min,
      al_last_check = now, al_metrics = alignment_metrics_new\<rparr>"

definition active_watermarks :: "alignment_group \<Rightarrow> i64 list" where
  "active_watermarks g =
     map (\<lambda>(_, s). as_watermark s)
       (filter (\<lambda>(_, s). \<not> as_is_paused s \<and> as_watermark s \<noteq> i64_min) (al_sources g))"

definition al_recalculate_bounds :: "alignment_group \<Rightarrow> alignment_group" where
  "al_recalculate_bounds g =
     (let ws = active_watermarks g
      in if ws = [] then g\<lparr>al_min_watermark := i64_min, al_max_watermark := i64_min\<rparr>
         else g\<lparr>al_min_watermark := unwrap_or (list_min ws) i64_min,
                al_max_watermark := unwrap_or (list_max ws) i64_min\<rparr>)"

definition al_entry :: "nat \<Rightarrow> nat \<Rightarrow> alignment_group \<Rightarrow> alignment_group" where
  "al_entry now source_id g =
     (if contains_key (al_sources g) source_id then g
      else g\<lparr>al_sources := AList.update source_id (as_new now source_id) (al_sources g)\<rparr>)"

definition al_register_source :: "nat \<Rightarrow> alignment_group \<Rightarrow> nat \<Rightarrow> alignment_group" where
  "al_register_source now g source_id = al_entry now source_id g"

definition al_unregister_source :: "alignment_group \<Rightarrow> nat \<Rightarrow> alignment_group" where
  "al_unregister_source g source_id =
     al_recalculate_bounds (g\<lparr>al_sources := AList.delete source_id (al_sources g)\<rparr>)"

definition can_resume_with_watermark :: "alignment_group \<Rightarrow> nat \<Rightarrow> i64 \<Rightarrow> bool" where
  "can_resume_with_watermark g source_id watermark =
     (let others = map (\<lambda>(_, s). as_watermark s)
            (filter (\<lambda>(id, s). id \<noteq> source_id \<and> \<not> as_is_paused s \<and> as_watermark s \<noteq> i64_min)
              (al_sources g));
          min_without_source = unwrap_or (list_min others) i64_min
      in if min_without_source = i64_min then True
         else
           let drift_if_resumed = max (saturating_sub watermark min_without_source) 0
           in from_millis (nat drift_if_resumed) \<le> ac_max_drift (al_config g))"

text \<open>An update of the source's entry, which exists after \<^verbatim>\<open>al_entry\<close>.\<close>

definition al_modify :: "nat \<Rightarrow> (alignment_source \<Rightarrow> alignment_source) \<Rightarrow> alignment_group \<Rightarrow> alignment_group" where
  "al_modify source_id f g = g\<lparr>al_sources := AList.map_entry source_id f (al_sources g)\<rparr>"

definition al_is_paused :: "alignment_group \<Rightarrow> nat \<Rightarrow> bool" where
  "al_is_paused g source_id =
     (case map_of (al_sources g) source_id of None \<Rightarrow> False | Some s \<Rightarrow> as_is_paused s)"

definition al_drift :: "alignment_group \<Rightarrow> nat" where
  "al_drift g =
     (if al_min_watermark g = i64_min \<or> al_max_watermark g = i64_min then 0
      else from_millis (nat (max (saturating_sub (al_max_watermark g) (al_min_watermark g)) 0)))"

text \<open>
  The second half of \<^verbatim>\<open>report_watermark\<close>: the source is not held back, its watermark is
  recorded and the drift is checked.
\<close>

definition al_report_active ::
  "nat \<Rightarrow> alignment_group \<Rightarrow> nat \<Rightarrow> i64 \<Rightarrow> alignment_group \<times> alignment_action" where
  "al_report_active now g source_id watermark =
     (let g1 = al_recalculate_bounds
            (al_modify source_id (\<lambda>s. s\<lparr>as_watermark := watermark, as_last_activity := now\<rparr>) g);
          current_drift = al_drift g1;
          g2 = g1\<lparr>al_metrics := (al_metrics g1)
                  \<lparr>am_current_drift := current_drift,
                   am_max_observed_drift := max (am_max_observed_drift (al_metrics g1)) current_drift\<rparr>\<rparr>
      in if watermark = al_max_watermark g2 \<and> current_drift > ac_max_drift (al_config g2) then
           (case ac_enforcement_mode (al_config g2) of
              ModePause \<Rightarrow>
                ((al_modify source_id (as_pause now) g2)
                   \<lparr>al_metrics := (al_metrics g2)\<lparr>am_pause_events := am_pause_events (al_metrics g2) + 1\<rparr>\<rparr>,
                 ActPause)
            | ModeWarnOnly \<Rightarrow>
                (g2\<lparr>al_metrics := (al_metrics g2)
                     \<lparr>am_warnings_emitted := am_warnings_emitted (al_metrics g2) + 1\<rparr>\<rparr>,
                 ActWarn (min (int (as_millis current_drift)) i64_max))
            | ModeDropExcess \<Rightarrow>
                ((al_modify source_id
                    (\<lambda>s. s\<lparr>as_is_paused := True, as_events_dropped := as_events_dropped s + 1\<rparr>) g2)
                   \<lparr>al_metrics := (al_metrics g2)\<lparr>am_events_dropped := am_events_dropped (al_metrics g2) + 1\<rparr>\<rparr>,
                 ActDrop))
         else (g2, ActContinue))"

definition al_report_watermark ::
  "nat \<Rightarrow> alignment_group \<Rightarrow> nat \<Rightarrow> i64 \<Rightarrow> alignment_group \<times> alignment_action" where
  "al_report_watermark now g source_id watermark =
     (let g1 = al_entry now source_id g
      in if al_is_paused g1 source_id then
           (case ac_enforcement_mode (al_config g1) of
              ModePause \<Rightarrow>
                if can_resume_with_watermark g1 source_id watermark
                then (al_recalculate_bounds
                        ((al_modify source_id
                            (\<lambda>s. as_resume now (s\<lparr>as_watermark := watermark, as_last_activity := now\<rparr>)) g1)
                          \<lparr>al_metrics := (al_metrics g1)
                             \<lparr>am_resume_events := am_resume_events (al_metrics g1) + 1\<rparr>\<rparr>),
                      ActResume)
                else (g1, ActPause)
            | ModeDropExcess \<Rightarrow>
                ((al_modify source_id (\<lambda>s. s\<lparr>as_events_dropped := as_events_dropped s + 1\<rparr>) g1)
                   \<lparr>al_metrics := (al_metrics g1)\<lparr>am_events_dropped := am_events_dropped (al_metrics g1) + 1\<rparr>\<rparr>,
                 ActDrop)
            | ModeWarnOnly \<Rightarrow> al_report_active now g1 source_id watermark)
         else al_report_active now g1 source_id watermark)"

definition al_should_resume :: "alignment_group \<Rightarrow> nat \<Rightarrow> bool" where
  "al_should_resume g source_id =
     (case map_of (al_sources g) source_id of
        None \<Rightarrow> False
      | Some s \<Rightarrow> as_is_paused s \<and> can_resume_with_watermark g source_id (as_watermark s))"

text \<open>The loop of \<^verbatim>\<open>check_alignment\<close>: a resumed source counts as active for the ones after it.\<close>

fun check_loop ::
  "nat \<Rightarrow> alignment_group \<Rightarrow> nat list \<Rightarrow> alignment_group \<times> (nat \<times> alignment_action) list" where
  "check_loop now g [] = (g, [])"
| "check_loop now g (i # is) =
     (if al_should_resume g i then
        let g1 = (al_modify i (as_resume now) g)
              \<lparr>al_metrics := (al_metrics g)\<lparr>am_resume_events := am_resume_events (al_metrics g) + 1\<rparr>\<rparr>;
            (g2, acts) = check_loop now g1 is
        in (g2, (i, ActResume) # acts)
      else check_loop now g is)"

definition al_check_alignment ::
  "nat \<Rightarrow> alignment_group \<Rightarrow> alignment_group \<times> (nat \<times> alignment_action) list" where
  "al_check_alignment now g =
     (if now - al_last_check g < ac_update_interval (al_config g) then (g, [])
      else
        let g1 = g\<lparr>al_last_check := now\<rparr>;
            paused = map fst (filter (\<lambda>(_, s). as_is_paused s) (al_sources g1));
            (g2, acts) = check_loop now g1 paused
        in (if acts \<noteq> [] then al_recalculate_bounds g2 else g2, acts))"

definition al_paused_source_count :: "alignment_group \<Rightarrow> nat" where
  "al_paused_source_count g = length (filter (\<lambda>(_, s). as_is_paused s) (al_sources g))"

definition al_active_source_count :: "alignment_group \<Rightarrow> nat" where
  "al_active_source_count g = length (filter (\<lambda>(_, s). \<not> as_is_paused s) (al_sources g))"

section \<open>Coordinator\<close>

datatype alignment_error =
    SourceNotInGroup nat
  | GroupNotFound string
  | SourceAlreadyInGroup nat string

record alignment_coordinator =
  co_groups :: "(string, alignment_group) hashmap"
  co_source_groups :: "(nat, string) hashmap"

definition co_new :: alignment_coordinator where
  "co_new = \<lparr>co_groups = [], co_source_groups = []\<rparr>"

definition co_add_group :: "nat \<Rightarrow> alignment_coordinator \<Rightarrow> alignment_config \<Rightarrow> alignment_coordinator" where
  "co_add_group now c config =
     c\<lparr>co_groups := AList.update (ac_group_id config) (al_new now config) (co_groups c)\<rparr>"

definition co_remove_group ::
  "alignment_coordinator \<Rightarrow> string \<Rightarrow> alignment_coordinator \<times> alignment_group option" where
  "co_remove_group c gid =
     (c\<lparr>co_source_groups := filter (\<lambda>(_, g). g \<noteq> gid) (co_source_groups c),
        co_groups := AList.delete gid (co_groups c)\<rparr>, map_of (co_groups c) gid)"

definition co_assign_source_to_group ::
  "nat \<Rightarrow> alignment_coordinator \<Rightarrow> nat \<Rightarrow> string \<Rightarrow> alignment_coordinator \<times> (alignment_error + unit)" where
  "co_assign_source_to_group now c source_id gid =
     (case map_of (co_source_groups c) source_id of
        Some existing \<Rightarrow>
          if existing \<noteq> gid then (c, Inl (SourceAlreadyInGroup source_id existing)) else (c, Inr ())
      | None \<Rightarrow>
          (case map_of (co_groups c) gid of
             None \<Rightarrow> (c, Inl (GroupNotFound gid))
           | Some g \<Rightarrow>
               (c\<lparr>co_groups := AList.update gid (al_register_source now g source_id) (co_groups c),
                  co_source_groups := AList.update source_id gid (co_source_groups c)\<rparr>, Inr ())))"

definition co_unassign_source :: "alignment_coordinator \<Rightarrow> nat \<Rightarrow> alignment_coordinator" where
  "co_unassign_source c source_id =
     (case map_of (co_source_groups c) source_id of
        None \<Rightarrow> c
      | Some gid \<Rightarrow>
          let c1 = c\<lparr>co_source_groups := AList.delete source_id (co_source_groups c)\<rparr>
          in c1\<lparr>co_groups :=
                 AList.map_entry gid (\<lambda>g. al_unregister_source g source_id) (co_groups c1)\<rparr>)"

definition co_report_watermark ::
  "nat \<Rightarrow> alignment_coordinator \<Rightarrow> nat \<Rightarrow> i64 \<Rightarrow> alignment_coordinator \<times> alignment_action option" where
  "co_report_watermark now c source_id watermark =
     (case map_of (co_source_groups c) source_id of
        None \<Rightarrow> (c, None)
      | Some gid \<Rightarrow>
          (case map_of (co_groups c) gid of
             None \<Rightarrow> (c, None)
           | Some g \<Rightarrow>
               let (g', act) = al_report_watermark now g source_id watermark
               in (c\<lparr>co_groups := AList.update gid g' (co_groups c)\<rparr>, Some act)))"

definition co_check_all_alignments ::
  "nat \<Rightarrow> alignment_coordinator \<Rightarrow> alignment_coordinator \<times> (nat \<times> alignment_action) list" where
  "co_check_all_alignments now c =
     (c\<lparr>co_groups := map_vals (\<lambda>g. fst (al_check_alignment now g)) (co_groups c)\<rparr>,
      concat (map (\<lambda>(_, g). snd (al_check_alignment now g)) (co_groups c)))"

definition co_should_resume :: "alignment_coordinator \<Rightarrow> nat \<Rightarrow> bool" where
  "co_should_resume c source_id =
     (case map_of (co_source_groups c) source_id of
        None \<Rightarrow> False
      | Some gid \<Rightarrow>
          (case map_of (co_groups c) gid of None \<Rightarrow> False | Some g \<Rightarrow> al_should_resume g source_id))"

definition co_is_paused :: "alignment_coordinator \<Rightarrow> nat \<Rightarrow> bool" where
  "co_is_paused c source_id =
     (case map_of (co_source_groups c) source_id of
        None \<Rightarrow> False
      | Some gid \<Rightarrow>
          (case map_of (co_groups c) gid of None \<Rightarrow> False | Some g \<Rightarrow> al_is_paused g source_id))"

section \<open>Bounds\<close>

lemma al_recalculate_simps [simp]:
  "al_sources (al_recalculate_bounds g) = al_sources g"
  "al_config (al_recalculate_bounds g) = al_config g"
  "al_metrics (al_recalculate_bounds g) = al_metrics g"
  "al_last_check (al_recalculate_bounds g) = al_last_check g"
  by (simp_all add: al_recalculate_bounds_def Let_def)

lemma al_modify_simps [simp]:
  "al_config (al_modify i f g) = al_config g" "al_metrics (al_modify i f g) = al_metrics g"
  "al_min_watermark (al_modify i f g) = al_min_watermark g"
  "al_max_watermark (al_modify i f g) = al_max_watermark g"
  "map_of (al_sources (al_modify i f g)) k =
     (if k = i then map_option f (map_of (al_sources g) i) else map_of (al_sources g) k)"
  "wf_map (al_sources (al_modify i f g)) = wf_map (al_sources g)"
  by (simp_all add: al_modify_def)

lemma al_entry_simps [simp]:
  "al_config (al_entry now i g) = al_config g" "al_metrics (al_entry now i g) = al_metrics g"
  "wf_map (al_sources (al_entry now i g)) = wf_map (al_sources g)"
  "map_of (al_sources (al_entry now i g)) k =
     (if k = i then Some (unwrap_or (map_of (al_sources g) i) (as_new now i)) else map_of (al_sources g) k)"
  by (auto simp: al_entry_def contains_key_def)

lemma set_active_watermarks:
  "set (active_watermarks g) =
     {w. \<exists>i s. (i, s) \<in> set (al_sources g) \<and> \<not> as_is_paused s \<and> as_watermark s = w \<and> w \<noteq> i64_min}"
  by (force simp: active_watermarks_def)

text \<open>Positive drift is witnessed by two active sources at different watermarks.\<close>

lemma drift_pos_witness:
  assumes "0 < al_drift (al_recalculate_bounds g)"
  shows "\<exists>i s. (i, s) \<in> set (al_sources g) \<and> \<not> as_is_paused s \<and> as_watermark s \<noteq> i64_min \<and>
    as_watermark s < al_max_watermark (al_recalculate_bounds g)"
proof -
  have ne: "active_watermarks g \<noteq> []"
    using assms by (auto simp: al_drift_def al_recalculate_bounds_def)
  then have b: "al_min_watermark (al_recalculate_bounds g) = Min (set (active_watermarks g))"
    "al_max_watermark (al_recalculate_bounds g) = Max (set (active_watermarks g))"
    by (simp_all add: al_recalculate_bounds_def list_min_Min list_max_Max Let_def)
  have "0 < saturating_sub (Max (set (active_watermarks g))) (Min (set (active_watermarks g)))"
    using assms unfolding al_drift_def b from_millis_def by (simp split: if_splits)
  then have "Min (set (active_watermarks g)) < Max (set (active_watermarks g))"
    by (auto simp: saturating_sub_def clamp64_def max_def min_def i64_min_def i64_max_def split: if_splits)
  moreover have "Min (set (active_watermarks g)) \<in> set (active_watermarks g)"
    using ne by (intro Min_in) auto
  ultimately obtain m where "m \<in> set (active_watermarks g)" "m < Max (set (active_watermarks g))"
    by blast
  then show ?thesis unfolding b by (subst (asm) set_active_watermarks) blast
qed

section \<open>No deadlock and balanced pauses\<close>

definition active_source :: "alignment_group \<Rightarrow> nat \<Rightarrow> bool" where
  "active_source g i \<longleftrightarrow>
     (\<exists>s. map_of (al_sources g) i = Some s \<and> \<not> as_is_paused s \<and> as_watermark s \<noteq> i64_min)"

definition al_live :: "alignment_group \<Rightarrow> bool" where
  "al_live g \<longleftrightarrow> ((\<exists>i. al_is_paused g i) \<longrightarrow> (\<exists>i. active_source g i))"

definition al_inv :: "alignment_group \<Rightarrow> bool" where
  "al_inv g \<longleftrightarrow>
     wf_map (al_sources g) \<and> ac_enforcement_mode (al_config g) = ModePause \<and> al_live g \<and>
     al_paused_source_count g + am_resume_events (al_metrics g) = am_pause_events (al_metrics g)"

lemma paused_count_modify:
  assumes "wf_map (al_sources g)" "map_of (al_sources g) i = Some s"
  shows "al_paused_source_count (al_modify i f g) + (if as_is_paused s then 1 else 0) =
    al_paused_source_count g + (if as_is_paused (f s) then 1 else 0)"
  using count_update_existing [OF assms, of as_is_paused "f s"] map_entry_eq_update [OF assms, of f]
  by (simp add: al_paused_source_count_def al_modify_def)

lemma as_pause_resume_simps [simp]:
  "as_is_paused (as_pause now s)" "\<not> as_is_paused (as_resume now s)"
  "as_watermark (as_pause now s) = as_watermark s" "as_watermark (as_resume now s) = as_watermark s"
  by (simp_all add: as_pause_def as_resume_def Let_def split: option.splits)

lemma paused_count_cong:
  "al_sources g = al_sources h \<Longrightarrow> al_paused_source_count g = al_paused_source_count h"
  by (simp add: al_paused_source_count_def)

lemma paused_count_entry [simp]:
  "al_paused_source_count (al_entry now i g) = al_paused_source_count g"
proof (cases "map_of (al_sources g) i")
  case None
  then show ?thesis
    by (simp add: al_entry_def contains_key_def update_new al_paused_source_count_def as_new_def)
next
  case (Some s)
  then show ?thesis by (simp add: al_entry_def contains_key_def)
qed

lemma al_live_active: "active_source g i \<Longrightarrow> al_live g"
  by (auto simp: al_live_def)

lemma active_source_cong: "al_sources g = al_sources h \<Longrightarrow> active_source g i = active_source h i"
  by (simp add: active_source_def)

lemma al_inv_report_active:
  assumes "al_inv g" "map_of (al_sources g) i = Some s" "\<not> as_is_paused s" "w \<noteq> i64_min"
  shows "al_inv (fst (al_report_active now g i w))"
proof -
  let ?set = "\<lambda>s. s\<lparr>as_watermark := w, as_last_activity := now\<rparr>"
  define g1 where "g1 = al_recalculate_bounds (al_modify i ?set g)"
  define g2 where "g2 = g1\<lparr>al_metrics := (al_metrics g1)\<lparr>am_current_drift := al_drift g1,
    am_max_observed_drift := max (am_max_observed_drift (al_metrics g1)) (al_drift g1)\<rparr>\<rparr>"
  have wf: "wf_map (al_sources g)" and mode: "ac_enforcement_mode (al_config g) = ModePause"
    and bal: "al_paused_source_count g + am_resume_events (al_metrics g) = am_pause_events (al_metrics g)"
    using assms(1) by (simp_all add: al_inv_def)
  have src: "al_sources g2 = al_sources (al_modify i ?set g)" by (simp add: g2_def g1_def)
  have ev: "am_resume_events (al_metrics g2) = am_resume_events (al_metrics g)"
    "am_pause_events (al_metrics g2) = am_pause_events (al_metrics g)"
    "al_config g2 = al_config g" "al_max_watermark g2 = al_max_watermark g1"
    by (simp_all add: g2_def g1_def)
  have wf2: "wf_map (al_sources g2)" using wf by (simp add: src)
  have entry: "map_of (al_sources g2) i = Some (?set s)" using assms(2) by (simp add: src)
  have cnt: "al_paused_source_count g2 = al_paused_source_count g"
    using paused_count_modify [OF wf assms(2), of ?set] assms(3) paused_count_cong [OF src] by simp
  let ?g3 = "(al_modify i (as_pause now) g2)
    \<lparr>al_metrics := (al_metrics g2)\<lparr>am_pause_events := am_pause_events (al_metrics g2) + 1\<rparr>\<rparr>"
  have act: "al_inv g2"
    using wf2 mode bal cnt ev entry assms(3,4) al_live_active [of g2 i]
    by (simp add: al_inv_def active_source_def)
  have pause: "al_inv ?g3" if max: "w = al_max_watermark g2" and drift: "al_drift g1 > ac_max_drift (al_config g2)"
  proof -
    obtain j t where jt: "(j, t) \<in> set (al_sources g2)" "\<not> as_is_paused t" "as_watermark t \<noteq> i64_min"
      "as_watermark t < al_max_watermark g1"
      using drift_pos_witness [of "al_modify i ?set g"] drift by (auto simp: g1_def src)
    then have mj: "map_of (al_sources g2) j = Some t" using wf2 by (simp add: wf_map_in_set)
    have "j \<noteq> i" using jt(4) mj entry max ev(4) by auto
    then have "active_source ?g3 j" using jt mj by (simp add: active_source_def)
    moreover have "al_paused_source_count (al_modify i (as_pause now) g2) = al_paused_source_count g2 + 1"
      using paused_count_modify [OF wf2 entry, of "as_pause now"] assms(3) by simp
    then have "al_paused_source_count ?g3 = al_paused_source_count g2 + 1"
      by (simp add: al_paused_source_count_def)
    ultimately show ?thesis
      using wf2 mode bal cnt ev al_live_active [of ?g3 j] by (simp add: al_inv_def)
  qed
  have "fst (al_report_active now g i w) =
      (if w = al_max_watermark g2 \<and> al_drift g1 > ac_max_drift (al_config g2) then ?g3 else g2)"
    using mode ev(3) unfolding al_report_active_def Let_def g2_def [symmetric] g1_def [symmetric]
    by simp
  then show ?thesis using act pause by simp
qed

lemma al_inv_entry:
  assumes "al_inv g"
  shows "al_inv (al_entry now i g)"
proof -
  have "active_source g j \<Longrightarrow> active_source (al_entry now i g) j" for j
    by (auto simp: active_source_def)
  moreover have "al_is_paused (al_entry now i g) j \<Longrightarrow> al_is_paused g j" for j
    by (cases "map_of (al_sources g) i") (auto simp: al_is_paused_def as_new_def split: if_splits)
  ultimately have "al_live (al_entry now i g)" using assms by (auto simp: al_inv_def al_live_def)
  then show ?thesis using assms by (simp add: al_inv_def)
qed

lemma al_inv_resume:
  assumes "al_inv g" "map_of (al_sources g) i = Some s" "as_is_paused s"
    and "as_is_paused (f s) = as_is_paused s" "as_watermark (f s) \<noteq> i64_min"
    and "al_sources g' = al_sources (al_modify i (\<lambda>s. as_resume now (f s)) g)" "al_config g' = al_config g"
    and "am_resume_events (al_metrics g') = am_resume_events (al_metrics g) + 1"
    and "am_pause_events (al_metrics g') = am_pause_events (al_metrics g)"
  shows "al_inv g'"
proof -
  have wf: "wf_map (al_sources g)" using assms(1) by (simp add: al_inv_def)
  have "al_paused_source_count g' + 1 = al_paused_source_count g"
    using paused_count_modify [OF wf assms(2), of "\<lambda>s. as_resume now (f s)"] assms(3)
      paused_count_cong [OF assms(6)] by simp
  moreover have "active_source g' i"
    using assms(2,5,6) by (simp add: active_source_def)
  ultimately show ?thesis
    using assms(1,6-9) wf al_live_active by (simp add: al_inv_def)
qed

lemma al_inv_report:
  assumes "al_inv g" "w \<noteq> i64_min"
  shows "al_inv (fst (al_report_watermark now g i w))"
proof -
  let ?g1 = "al_entry now i g"
  have inv: "al_inv ?g1" using assms(1) by (rule al_inv_entry)
  obtain s where s: "map_of (al_sources ?g1) i = Some s" by simp
  have mode: "ac_enforcement_mode (al_config ?g1) = ModePause" using inv by (simp add: al_inv_def)
  show ?thesis
  proof (cases "as_is_paused s")
    case True
    then have p: "al_is_paused ?g1 i" using s by (simp add: al_is_paused_def)
    have "al_inv (al_recalculate_bounds ((al_modify i
        (\<lambda>s. as_resume now (s\<lparr>as_watermark := w, as_last_activity := now\<rparr>)) ?g1)
        \<lparr>al_metrics := (al_metrics ?g1)\<lparr>am_resume_events := am_resume_events (al_metrics ?g1) + 1\<rparr>\<rparr>))"
      by (rule al_inv_resume [OF inv s True, of "\<lambda>s. s\<lparr>as_watermark := w, as_last_activity := now\<rparr>"])
        (simp_all add: assms(2))
    then show ?thesis
      using p mode inv by (simp add: al_report_watermark_def Let_def del: al_entry_simps)
  next
    case False
    then have "\<not> al_is_paused ?g1 i" using s by (simp add: al_is_paused_def)
    then show ?thesis
      using al_inv_report_active [OF inv s False assms(2)] by (simp add: al_report_watermark_def Let_def)
  qed
qed

lemma al_inv_check_resume:
  assumes "al_inv g" "al_should_resume g i"
  shows "al_inv ((al_modify i (as_resume now) g)
    \<lparr>al_metrics := (al_metrics g)\<lparr>am_resume_events := am_resume_events (al_metrics g) + 1\<rparr>\<rparr>)"
    (is "al_inv ?g'")
proof -
  obtain s where s: "map_of (al_sources g) i = Some s" "as_is_paused s"
    using assms(2) by (auto simp: al_should_resume_def split: option.splits)
  have wf: "wf_map (al_sources g)" using assms(1) by (simp add: al_inv_def)
  have "al_is_paused g i" using s by (simp add: al_is_paused_def)
  then obtain j where j: "active_source g j" using assms(1) by (auto simp: al_inv_def al_live_def)
  then have "j \<noteq> i" using s by (auto simp: active_source_def)
  then have "active_source ?g' j" using j by (simp add: active_source_def)
  moreover have "al_paused_source_count ?g' + 1 = al_paused_source_count g"
    using paused_count_modify [OF wf s(1), of "as_resume now"] s(2)
    by (simp add: al_paused_source_count_def)
  ultimately show ?thesis
    using assms(1) wf al_live_active [of ?g' j] by (simp add: al_inv_def)
qed

lemma al_inv_check_loop: "al_inv g \<Longrightarrow> al_inv (fst (check_loop now g is))"
proof (induction "is" arbitrary: g)
  case (Cons i "is")
  then show ?case using al_inv_check_resume [OF Cons.prems, of i now]
    by (simp add: case_prod_unfold Let_def)
qed simp

lemma al_inv_sources_cong:
  "\<lbrakk>al_inv g; al_sources h = al_sources g; al_config h = al_config g; al_metrics h = al_metrics g\<rbrakk> \<Longrightarrow> al_inv h"
  by (simp add: al_inv_def al_live_def al_is_paused_def active_source_def al_paused_source_count_def)

lemma al_inv_check:
  assumes "al_inv g"
  shows "al_inv (fst (al_check_alignment now g))"
proof -
  have "al_inv (g\<lparr>al_last_check := now\<rparr>)" using assms by (rule al_inv_sources_cong) simp_all
  from al_inv_check_loop [OF this] have l: "al_inv (fst (check_loop now (g\<lparr>al_last_check := now\<rparr>) is))" for "is" .
  then have "al_inv (al_recalculate_bounds (fst (check_loop now (g\<lparr>al_last_check := now\<rparr>) is)))" for "is"
    by (rule al_inv_sources_cong) simp_all
  then show ?thesis using assms l by (simp add: al_check_alignment_def case_prod_unfold Let_def)
qed

text \<open>The operations of a group; each but the last carries the time of its call.\<close>

datatype al_op = AlRegister nat nat | AlReport nat nat i64 | AlCheck nat | AlUnregister nat

fun al_step :: "al_op \<Rightarrow> alignment_group \<Rightarrow> alignment_group" where
  "al_step (AlRegister now i) g = al_register_source now g i"
| "al_step (AlReport now i w) g = fst (al_report_watermark now g i w)"
| "al_step (AlCheck now) g = fst (al_check_alignment now g)"
| "al_step (AlUnregister i) g = al_unregister_source g i"

text \<open>The operations that cannot take the last active source away: neither a removal nor a report of the smallest value.\<close>

fun al_op_ok :: "al_op \<Rightarrow> bool" where
  "al_op_ok (AlReport now i w) = (w \<noteq> i64_min)"
| "al_op_ok (AlUnregister i) = False"
| "al_op_ok _ = True"

lemma al_inv_step: "al_inv g \<Longrightarrow> al_op_ok a \<Longrightarrow> al_inv (al_step a g)"
  by (cases a) (simp_all add: al_register_source_def al_inv_entry al_inv_report al_inv_check)

lemma al_inv_run: "al_inv g \<Longrightarrow> \<forall>a \<in> set as. al_op_ok a \<Longrightarrow> al_inv (fold al_step as g)"
  by (induction as arbitrary: g) (simp_all add: al_inv_step)

lemma al_inv_new: "ac_enforcement_mode c = ModePause \<Longrightarrow> al_inv (al_new now c)"
  by (simp add: al_inv_def al_new_def al_live_def al_is_paused_def al_paused_source_count_def
      alignment_metrics_new_def)

section \<open>What a check does\<close>

lemma check_loop_frame:
  "al_config (fst (check_loop now g is)) = al_config g"
  "wf_map (al_sources g) \<Longrightarrow> wf_map (al_sources (fst (check_loop now g is)))"
  by (induction "is" arbitrary: g) (simp_all add: case_prod_unfold Let_def)

lemma check_loop_spec:
  assumes "check_loop now g is = (g', acts)"
  shows "(\<forall>(i, a) \<in> set acts. a = ActResume \<and> i \<in> set is \<and> al_is_paused g i \<and> \<not> al_is_paused g' i) \<and>
    (\<forall>i. i \<notin> fst ` set acts \<longrightarrow> map_of (al_sources g') i = map_of (al_sources g) i) \<and>
    am_resume_events (al_metrics g') = am_resume_events (al_metrics g) + length acts"
  using assms
proof (induction "is" arbitrary: g acts)
  case (Cons i "is")
  show ?case
  proof (cases "al_should_resume g i")
    case False
    then show ?thesis using Cons.IH [of g acts] Cons.prems by fastforce
  next
    case True
    let ?g = "(al_modify i (as_resume now) g)
      \<lparr>al_metrics := (al_metrics g)\<lparr>am_resume_events := am_resume_events (al_metrics g) + 1\<rparr>\<rparr>"
    obtain g2 acts' where c: "check_loop now ?g is = (g2, acts')" by fastforce
    then have a: "check_loop now ?g is = (g', acts')" "acts = (i, ActResume) # acts'"
      using Cons.prems True by (simp_all add: Let_def)
    note IH = Cons.IH [OF a(1)]
    obtain s where s: "map_of (al_sources g) i = Some s" "as_is_paused s"
      using True by (auto simp: al_should_resume_def split: option.splits)
    have p: "\<not> al_is_paused ?g i" "al_is_paused g i" "al_is_paused ?g j \<Longrightarrow> al_is_paused g j" for j
      using s by (auto simp: al_is_paused_def split: if_splits)
    have ni: "i \<notin> fst ` set acts'" using IH p(1) by fastforce
    then have "map_of (al_sources g') i = map_of (al_sources ?g) i" using IH by blast
    then have "\<not> al_is_paused g' i" using p(1) by (simp add: al_is_paused_def)
    moreover have "map_of (al_sources g') j = map_of (al_sources g) j" if "j \<noteq> i" "j \<notin> fst ` set acts'" for j
      using IH that by simp
    ultimately show ?thesis using IH p(2,3) unfolding a(2) by fastforce
  qed
qed simp

lemma al_check_alignment_spec:
  assumes "al_check_alignment now g = (g', acts)"
  shows "(\<forall>(i, a) \<in> set acts. a = ActResume \<and> al_is_paused g i \<and> \<not> al_is_paused g' i) \<and>
    (\<forall>i. i \<notin> fst ` set acts \<longrightarrow> map_of (al_sources g') i = map_of (al_sources g) i) \<and>
    am_resume_events (al_metrics g') = am_resume_events (al_metrics g) + length acts"
proof (cases "now - al_last_check g < ac_update_interval (al_config g)")
  case True
  then show ?thesis using assms by (simp add: al_check_alignment_def)
next
  case False
  obtain g2 acts2 where c: "check_loop now (g\<lparr>al_last_check := now\<rparr>)
      (map fst (filter (\<lambda>(_, s). as_is_paused s) (al_sources g))) = (g2, acts2)" by fastforce
  then have "acts = acts2" "al_sources g' = al_sources g2" "al_metrics g' = al_metrics g2"
    using assms False by (auto simp: al_check_alignment_def Let_def)
  then show ?thesis using check_loop_spec [OF c] by (auto simp: al_is_paused_def)
qed

section \<open>Properties of alignment groups\<close>

text \<open>A report that pauses its source leaves another source active, in any state.\<close>

lemma pause_leaves_active:
  assumes wf: "wf_map (al_sources g)" and s: "map_of (al_sources g) i = Some s" "\<not> as_is_paused s"
    and p: "al_is_paused (fst (al_report_active now g i w)) i" and mode: "ac_enforcement_mode (al_config g) = ModePause"
  shows "\<exists>j. j \<noteq> i \<and> active_source (fst (al_report_active now g i w)) j"
proof -
  let ?set = "\<lambda>s. s\<lparr>as_watermark := w, as_last_activity := now\<rparr>"
  define g1 where "g1 = al_recalculate_bounds (al_modify i ?set g)"
  define g2 where "g2 = g1\<lparr>al_metrics := (al_metrics g1)\<lparr>am_current_drift := al_drift g1,
    am_max_observed_drift := max (am_max_observed_drift (al_metrics g1)) (al_drift g1)\<rparr>\<rparr>"
  let ?g3 = "(al_modify i (as_pause now) g2)
    \<lparr>al_metrics := (al_metrics g2)\<lparr>am_pause_events := am_pause_events (al_metrics g2) + 1\<rparr>\<rparr>"
  have src: "al_sources g2 = al_sources (al_modify i ?set g)" by (simp add: g2_def g1_def)
  have eq: "fst (al_report_active now g i w) =
      (if w = al_max_watermark g2 \<and> al_drift g1 > ac_max_drift (al_config g2) then ?g3 else g2)"
    using mode unfolding al_report_active_def Let_def g2_def [symmetric] g1_def [symmetric]
    by (simp add: g2_def g1_def)
  have entry: "map_of (al_sources g2) i = Some (?set s)" using s(1) by (simp add: src)
  then have "\<not> al_is_paused g2 i" using s(2) by (simp add: al_is_paused_def)
  then have c: "w = al_max_watermark g2" "al_drift g1 > ac_max_drift (al_config g2)" "fst (al_report_active now g i w) = ?g3"
    using p eq by (auto split: if_splits)
  obtain j t where jt: "(j, t) \<in> set (al_sources g2)" "\<not> as_is_paused t" "as_watermark t \<noteq> i64_min"
    "as_watermark t < al_max_watermark g1"
    using drift_pos_witness [of "al_modify i ?set g"] c(2) by (auto simp: g1_def src)
  have "wf_map (al_sources g2)" using wf by (simp add: src)
  then have mj: "map_of (al_sources g2) j = Some t" using jt(1) by (simp add: wf_map_in_set)
  have "j \<noteq> i" using jt(4) mj entry c(1) by (auto simp: g2_def)
  then show ?thesis unfolding c(3) using jt mj by (intro exI [of _ j]) (simp add: active_source_def)
qed

definition al_wf :: "alignment_group \<Rightarrow> bool" where
  "al_wf g \<longleftrightarrow> wf_map (al_sources g) \<and> ac_enforcement_mode (al_config g) = ModePause"

lemma al_wf_report_active: "al_wf g \<Longrightarrow> al_wf (fst (al_report_active now g i w))"
  by (simp add: al_wf_def al_report_active_def Let_def)

lemma al_wf_step: "al_wf g \<Longrightarrow> al_wf (al_step a g)"
proof (cases a)
  case (AlReport now i w)
  then show "al_wf g \<Longrightarrow> al_wf (al_step a g)"
    using al_wf_report_active [of "al_entry now i g" now i w]
    by (auto simp: al_report_watermark_def Let_def al_wf_def split: if_splits)
next
  case (AlCheck now)
  then show "al_wf g \<Longrightarrow> al_wf (al_step a g)"
    by (simp add: al_check_alignment_def case_prod_unfold Let_def al_wf_def check_loop_frame)
qed (simp_all add: al_wf_def al_register_source_def al_unregister_source_def)

lemma al_wf_run: "ac_enforcement_mode c = ModePause \<Longrightarrow> al_wf (fold al_step as (al_new t c))"
proof (induction as rule: rev_induct)
  case Nil
  then show ?case by (simp add: al_wf_def al_new_def)
next
  case (snoc a as)
  then show ?case by (simp add: al_wf_step)
qed

lemma step_pause_leaves_active:
  assumes "al_wf g" "\<not> al_is_paused g i" "al_is_paused (al_step a g) i"
  shows "\<exists>j. j \<noteq> i \<and> active_source (al_step a g) j"
proof (cases a)
  case (AlReport now k w)
  let ?g = "al_entry now k g"
  obtain s where s: "map_of (al_sources ?g) k = Some s" by simp
  have wf: "wf_map (al_sources ?g)" "ac_enforcement_mode (al_config ?g) = ModePause" using assms(1) by (simp_all add: al_wf_def)
  have np: "\<not> al_is_paused ?g i"
    using assms(2) by (auto simp: al_is_paused_def as_new_def split: option.splits)
  show ?thesis
  proof (cases "as_is_paused s")
    case True
    then have "i \<noteq> k" using np s by (auto simp: al_is_paused_def)
    then have "\<not> al_is_paused (al_step a g) i"
      using True s wf(2) np AlReport by (auto simp: al_report_watermark_def Let_def al_is_paused_def split: option.splits)
    then show ?thesis using assms(3) by simp
  next
    case False
    then have eq: "al_step a g = fst (al_report_active now ?g k w)"
      using s AlReport by (simp add: al_report_watermark_def Let_def al_is_paused_def)
    have "i = k"
      using assms(3) np wf(2) unfolding eq
      by (rule_tac ccontr) (simp add: al_report_active_def Let_def al_is_paused_def split: if_splits option.splits)
    then show ?thesis
      using pause_leaves_active [OF wf(1) s False _ wf(2)] assms(3) unfolding eq by blast
  qed
next
  case (AlCheck now)
  obtain g' acts where c: "al_check_alignment now g = (g', acts)" by fastforce
  then have "i \<notin> fst ` set acts"
    using al_check_alignment_spec [OF c] assms(2) by fastforce
  then have "map_of (al_sources g') i = map_of (al_sources g) i" using al_check_alignment_spec [OF c] by blast
  then show ?thesis using assms(2,3) c AlCheck by (simp add: al_is_paused_def)
qed (use assms in \<open>auto simp: al_is_paused_def al_register_source_def al_unregister_source_def delete_conv' as_new_def
    split: option.splits if_splits\<close>)

text \<open>
  In pause mode no operation pauses the last active source: whenever a step of any sequence of registrations, removals,
  reports and checks pauses a source, another source is active and has a watermark afterwards. Without removals and
  without reports of the smallest 64-bit value this makes deadlock impossible: as long as one source is paused,
  another one is active, and the number of paused sources is the number of pauses minus the number of resumes.
  A removal can leave only paused sources (C30).
\<close>

theorem alignment_no_deadlock:
  assumes "ac_enforcement_mode c = ModePause"
  shows "let g = fold al_step as (al_new t c) in
    (\<forall>a i. \<not> al_is_paused g i \<and> al_is_paused (al_step a g) i \<longrightarrow> (\<exists>j. j \<noteq> i \<and> active_source (al_step a g) j)) \<and>
    (list_all al_op_ok as \<longrightarrow>
       ((\<exists>i. al_is_paused g i) \<longrightarrow> (\<exists>i. active_source g i)) \<and>
       al_paused_source_count g + am_resume_events (al_metrics g) = am_pause_events (al_metrics g))"
proof -
  let ?g = "fold al_step as (al_new t c)"
  have "al_inv ?g" if "list_all al_op_ok as"
    using al_inv_run [OF al_inv_new [OF assms], of as t] that by (simp add: list_all_iff)
  then show ?thesis
    using step_pause_leaves_active [OF al_wf_run [OF assms, of as t]] unfolding Let_def al_inv_def al_live_def by blast
qed

theorem alignment_no_deadlock_witness:
  "al_is_paused (fold al_step [AlReport 1 0 1000, AlReport 2 1 900000] (al_new 0 (alignment_config_new ''g''))) 1 \<and>
   (\<exists>i. active_source (fold al_step [AlReport 1 0 1000, AlReport 2 1 900000]
     (al_new 0 (alignment_config_new ''g''))) i)"
proof -
  let ?as = "[AlReport 1 0 1000, AlReport 2 1 900000]" and ?c = "alignment_config_new ''g''"
  have p: "al_is_paused (fold al_step ?as (al_new 0 ?c)) 1"
    by (simp add: al_report_watermark_def al_report_active_def al_entry_def al_new_def
        alignment_config_new_def contains_key_def al_is_paused_def al_modify_def as_new_def
        al_recalculate_bounds_def active_watermarks_def al_drift_def from_millis_def as_pause_def
        alignment_metrics_new_def i64_simps)
  have "ac_enforcement_mode ?c = ModePause" "list_all al_op_ok ?as"
    by (simp_all add: alignment_config_new_def i64_simps)
  with alignment_no_deadlock [of ?c ?as 0] p show ?thesis unfolding Let_def by blast
qed

text \<open>Removing the only active source stalls the group until the next check: all that is left is paused.\<close>

lemma unregister_stalls_group:
  "let g = fold al_step [AlReport 1 0 1000, AlReport 2 1 900000, AlUnregister 0] (al_new 0 (alignment_config_new ''g''))
   in al_is_paused g 1 \<and> map fst (al_sources g) = [1]"
  by (simp add: al_report_watermark_def al_report_active_def al_entry_def al_new_def al_unregister_source_def
      alignment_config_new_def contains_key_def al_is_paused_def al_modify_def as_new_def
      al_recalculate_bounds_def active_watermarks_def al_drift_def from_millis_def as_pause_def
      alignment_metrics_new_def i64_simps Let_def)

text \<open>
  If every source of a group is paused (the active ones were unregistered), the next due check resumes at least one
  of them, in every enforcement mode: the sources named in its actions are exactly those that were paused and are no
  longer, all other sources are as before, and each resumption is counted (C31).
\<close>

theorem check_resumes_stalled_group:
  assumes "al_sources g \<noteq> []" "list_all (\<lambda>(i, s). as_is_paused s) (al_sources g)"
    and "ac_update_interval (al_config g) \<le> now - al_last_check g"
    and "al_check_alignment now g = (g', acts)"
  shows "acts \<noteq> [] \<and> list_all (\<lambda>(i, a). a = ActResume) acts \<and>
    (\<forall>i. i \<in> fst ` set acts \<longleftrightarrow> al_is_paused g i \<and> \<not> al_is_paused g' i) \<and>
    (\<forall>i. i \<notin> fst ` set acts \<longrightarrow> map_of (al_sources g') i = map_of (al_sources g) i) \<and>
    am_resume_events (al_metrics g') = am_resume_events (al_metrics g) + length acts"
proof -
  have p: "\<forall>(i, s) \<in> set (al_sources g). as_is_paused s" using assms(2) by (simp add: list_all_iff)
  obtain i s rest where src: "al_sources g = (i, s) # rest" using assms(1) by (cases "al_sources g") auto
  have none: "filter (\<lambda>(id, s). id \<noteq> i \<and> \<not> as_is_paused s \<and> as_watermark s \<noteq> i64_min) (al_sources g) = []"
    using p by (auto simp: filter_empty_conv)
  have "al_should_resume (g\<lparr>al_last_check := now\<rparr>) i"
    using none p src by (simp add: al_should_resume_def can_resume_with_watermark_def)
  then have "snd (al_check_alignment now g) \<noteq> []"
    using p assms(3) src by (simp add: al_check_alignment_def case_prod_unfold Let_def)
  moreover note S = al_check_alignment_spec [OF assms(4)]
  moreover have "i \<in> fst ` set acts" if "al_is_paused g i" "\<not> al_is_paused g' i" for i
    using S that by (metis al_is_paused_def)
  ultimately show ?thesis using assms(4) by (auto simp: list_all_iff split: prod.splits)
qed

theorem check_resumes_stalled_group_witness:
  "let g = (al_new 0 (with_update_interval (alignment_config_new ''g'') 5))\<lparr>al_sources := [(7, as_pause 1 (as_new 0 7))]\<rparr>
   in al_is_paused g 7 \<and> \<not> al_is_paused (fst (al_check_alignment 5 g)) 7 \<and> snd (al_check_alignment 5 g) \<noteq> []"
proof -
  let ?g = "(al_new 0 (with_update_interval (alignment_config_new ''g'') 5))\<lparr>al_sources := [(7, as_pause 1 (as_new 0 7))]\<rparr>"
  obtain g' acts where c: "al_check_alignment 5 ?g = (g', acts)" by fastforce
  have S: "acts \<noteq> [] \<and> list_all (\<lambda>(i, a). a = ActResume) acts \<and>
    (\<forall>i. i \<in> fst ` set acts \<longleftrightarrow> al_is_paused ?g i \<and> \<not> al_is_paused g' i) \<and>
    (\<forall>i. i \<notin> fst ` set acts \<longrightarrow> map_of (al_sources g') i = map_of (al_sources ?g) i) \<and>
    am_resume_events (al_metrics g') = am_resume_events (al_metrics ?g) + length acts"
    by (rule check_resumes_stalled_group [OF _ _ _ c]) (simp_all add: al_new_def with_update_interval_def)
  then obtain i where "i \<in> fst ` set acts" by (cases acts) auto
  then have i: "al_is_paused ?g i" "\<not> al_is_paused g' i" using S by blast+
  then have "i = 7" by (simp add: al_is_paused_def split: if_splits)
  then show ?thesis using i S c by (simp add: Let_def)
qed

text \<open>
  A paused source that reports a watermark in pause mode resumes exactly when that watermark is within
  the allowed drift of every other active source; otherwise nothing changes.
\<close>

theorem paused_report_spec:
  assumes "ac_enforcement_mode (al_config g) = ModePause" "al_is_paused g i"
  shows "(snd (al_report_watermark now g i w) = ActResume \<longleftrightarrow>
      (\<forall>(j, s) \<in> set (al_sources g). j \<noteq> i \<and> \<not> as_is_paused s \<and> as_watermark s \<noteq> i64_min \<longrightarrow>
         from_millis (nat (max (saturating_sub w (as_watermark s)) 0)) \<le> ac_max_drift (al_config g))) \<and>
    (snd (al_report_watermark now g i w) \<noteq> ActResume \<longrightarrow>
      al_report_watermark now g i w = (g, ActPause))"
proof -
  let ?P = "\<lambda>(id, s). id \<noteq> i \<and> \<not> as_is_paused s \<and> as_watermark s \<noteq> i64_min"
  let ?ws = "map (\<lambda>(_, s). as_watermark s) (filter ?P (al_sources g))"
  let ?d = "\<lambda>x. from_millis (nat (max (saturating_sub w x) 0))"
  have e: "al_entry now i g = g"
    using assms(2) by (auto simp: al_entry_def contains_key_def al_is_paused_def split: option.splits)
  have "can_resume_with_watermark g i w \<longleftrightarrow> (\<forall>x \<in> set ?ws. ?d x \<le> ac_max_drift (al_config g))"
  proof (cases "?ws = []")
    case True
    then show ?thesis by (simp add: can_resume_with_watermark_def)
  next
    case False
    have "set ?ws \<noteq> {}" using False by (simp only: set_empty not_False_eq_True)
    then have min: "list_min ?ws = Some (Min (set ?ws))" "Min (set ?ws) \<in> set ?ws"
      using False by (simp_all only: list_min_Min if_False) (rule Min_in [OF List.finite_set])
    have ne: "Min (set ?ws) \<noteq> i64_min" using min(2) by auto
    have anti: "?d x \<le> ?d (Min (set ?ws))" if "x \<in> set ?ws" for x
    proof -
      have "Min (set ?ws) \<le> x" using that by (intro Min_le) auto
      then have "saturating_sub w x \<le> saturating_sub w (Min (set ?ws))"
        by (simp add: saturating_sub_def clamp64_mono)
      then show ?thesis by (simp add: from_millis_def max.mono nat_mono)
    qed
    have "can_resume_with_watermark g i w \<longleftrightarrow> ?d (Min (set ?ws)) \<le> ac_max_drift (al_config g)"
      unfolding can_resume_with_watermark_def min(1) Let_def using ne by simp
    then show ?thesis using anti min(2) order_trans by blast
  qed
  moreover have "(\<forall>x \<in> set ?ws. ?d x \<le> ac_max_drift (al_config g)) \<longleftrightarrow>
      (\<forall>(j, s) \<in> set (al_sources g). j \<noteq> i \<and> \<not> as_is_paused s \<and> as_watermark s \<noteq> i64_min \<longrightarrow>
         ?d (as_watermark s) \<le> ac_max_drift (al_config g))"
    by auto
  ultimately show ?thesis
    using assms by (simp add: al_report_watermark_def Let_def e)
qed

theorem paused_report_spec_witness:
  "al_report_watermark 9 ((al_new 0 (with_max_drift (alignment_config_new ''g'') 0))
     \<lparr>al_sources := [(1, as_pause 1 (as_new 0 1)), (2, (as_new 0 2)\<lparr>as_watermark := 10\<rparr>)]\<rparr>) 1 20 =
   ((al_new 0 (with_max_drift (alignment_config_new ''g'') 0))
     \<lparr>al_sources := [(1, as_pause 1 (as_new 0 1)), (2, (as_new 0 2)\<lparr>as_watermark := 10\<rparr>)]\<rparr>, ActPause)"
proof -
  let ?g = "(al_new 0 (with_max_drift (alignment_config_new ''g'') 0))
     \<lparr>al_sources := [(1, as_pause 1 (as_new 0 1)), (2, (as_new 0 2)\<lparr>as_watermark := 10\<rparr>)]\<rparr>"
  have "ac_enforcement_mode (al_config ?g) = ModePause" "al_is_paused ?g 1"
    by (simp_all add: al_new_def with_max_drift_def alignment_config_new_def al_is_paused_def)
  from paused_report_spec [OF this, of 9 20] show ?thesis
    by (simp add: al_new_def with_max_drift_def from_millis_def as_new_def i64_simps)
qed

section \<open>Consistency of the coordinator\<close>

definition co_inv :: "alignment_coordinator \<Rightarrow> bool" where
  "co_inv c \<longleftrightarrow>
     wf_map (co_source_groups c) \<and>
     (\<forall>s gid. map_of (co_source_groups c) s = Some gid \<longrightarrow> contains_key (co_groups c) gid)"

datatype co_op =
    CoAdd nat alignment_config
  | CoRemove string
  | CoAssign nat nat string
  | CoUnassign nat
  | CoReport nat nat i64
  | CoCheckAll nat

fun co_step :: "co_op \<Rightarrow> alignment_coordinator \<Rightarrow> alignment_coordinator" where
  "co_step (CoAdd now cfg) c = co_add_group now c cfg"
| "co_step (CoRemove gid) c = fst (co_remove_group c gid)"
| "co_step (CoAssign now s gid) c = fst (co_assign_source_to_group now c s gid)"
| "co_step (CoUnassign s) c = co_unassign_source c s"
| "co_step (CoReport now s w) c = fst (co_report_watermark now c s w)"
| "co_step (CoCheckAll now) c = fst (co_check_all_alignments now c)"

lemma contains_key_simps [simp]:
  "contains_key (AList.update k v m) k' \<longleftrightarrow> k' = k \<or> contains_key m k'"
  "contains_key (AList.map_entry k f m) k' = contains_key m k'"
  "contains_key (map_vals f m) k' = contains_key m k'"
  "k' \<noteq> k \<Longrightarrow> contains_key (AList.delete k m) k' = contains_key m k'"
  by (auto simp: contains_key_def map_of_map_vals map_of_delete_other)

lemma map_of_filter_vals:
  "wf_map m \<Longrightarrow> map_of (filter (\<lambda>(_, v). P v) m) k =
     (case map_of m k of None \<Rightarrow> None | Some v \<Rightarrow> if P v then Some v else None)"
proof (induction m)
  case (Cons a m)
  obtain k1 v1 where a: "a = (k1, v1)" by (cases a)
  have "k1 = k \<Longrightarrow> map_of m k = None" using Cons.prems by (auto simp: a wf_map_def map_of_eq_None_iff)
  then show ?case using Cons by (auto simp: a wf_map_def split: option.splits)
qed simp

lemma wf_map_filter: "wf_map m \<Longrightarrow> wf_map (filter P m)"
  by (simp add: wf_map_def distinct_map_filter)

lemma co_inv_step: "co_inv c \<Longrightarrow> co_inv (co_step a c)"
proof (induction a)
  case (CoAdd now cfg)
  then show ?case by (auto simp: co_inv_def co_add_group_def)
next
  case (CoRemove gid)
  then show ?case
    by (auto simp: co_inv_def co_remove_group_def wf_map_filter map_of_filter_vals split: option.splits if_splits)
next
  case (CoAssign now s gid)
  then show ?case
    by (auto simp: co_inv_def co_assign_source_to_group_def contains_key_def split: option.splits if_splits)
next
  case (CoUnassign s)
  then show ?case
    by (auto simp: co_inv_def co_unassign_source_def Let_def AList.delete_conv' split: option.splits if_splits)
next
  case (CoReport now s w)
  then show ?case
    by (auto simp: co_inv_def co_report_watermark_def split: option.splits prod.splits)
next
  case (CoCheckAll now)
  then show ?case by (auto simp: co_inv_def co_check_all_alignments_def)
qed

text \<open>
  After any history of the coordinator, a report is answered exactly for the sources assigned to a
  group, and it changes no other group.
\<close>

theorem coordinator_routes_reports:
  "(snd (co_report_watermark now (fold co_step ops co_new) s w) = None \<longleftrightarrow>
      map_of (co_source_groups (fold co_step ops co_new)) s = None) \<and>
   (map_of (co_source_groups (fold co_step ops co_new)) s \<noteq> Some gid \<longrightarrow>
      map_of (co_groups (fst (co_report_watermark now (fold co_step ops co_new) s w))) gid =
      map_of (co_groups (fold co_step ops co_new)) gid)"
proof -
  have "co_inv (fold co_step ops c)" if "co_inv c" for c
    using that by (induction ops arbitrary: c) (simp_all add: co_inv_step)
  then have "co_inv (fold co_step ops co_new)" by (simp add: co_inv_def co_new_def)
  then show ?thesis
    by (fastforce simp: co_report_watermark_def co_inv_def contains_key_def split: option.splits prod.splits)
qed

theorem coordinator_routes_reports_witness:
  "snd (co_report_watermark 3 (fold co_step [CoAdd 0 (alignment_config_new ''g''), CoAssign 1 5 ''g''] co_new) 5 10)
     \<noteq> None"
  using coordinator_routes_reports [of 3 "[CoAdd 0 (alignment_config_new ''g''), CoAssign 1 5 ''g'']" 5 10 "''h''"]
  by (simp add: co_add_group_def co_new_def co_assign_source_to_group_def alignment_config_new_def
      del: not_None_eq)

end
