(* ===== verification/Checkpoint_Barrier.thy ===== *)
theory Checkpoint_Barrier
  imports Laminar_Prelude "HOL-Library.Sublist"
begin

text \<open>
  Checkpoint barriers, \<^verbatim>\<open>crates/laminar-core/src/checkpoint/barrier.rs\<close>: the barrier and its flags,
  the packed command word, the injector, and polling. Polling is two atomic accesses to the command
  word, so besides the sequential functions there is a step relation in which the accesses of
  several handles and of the injector interleave.
\<close>

unbundle bit_operations_syntax

section \<open>Definitions\<close>

definition flag_none :: "64 word" where "flag_none = 0"
definition flag_full_snapshot :: "64 word" where "flag_full_snapshot = push_bit 0 1"
definition flag_drain :: "64 word" where "flag_drain = push_bit 1 1"
definition flag_cancel :: "64 word" where "flag_cancel = push_bit 2 1"
definition flag_unaligned :: "64 word" where "flag_unaligned = push_bit 3 1"

record checkpoint_barrier =
  cb_checkpoint_id :: "64 word"
  cb_epoch :: "64 word"
  cb_flags :: "64 word"

definition barrier_new :: "64 word \<Rightarrow> 64 word \<Rightarrow> checkpoint_barrier" where
  "barrier_new cid epoch = \<lparr>cb_checkpoint_id = cid, cb_epoch = epoch, cb_flags = flag_none\<rparr>"

definition full_snapshot :: "64 word \<Rightarrow> 64 word \<Rightarrow> checkpoint_barrier" where
  "full_snapshot cid epoch =
     \<lparr>cb_checkpoint_id = cid, cb_epoch = epoch, cb_flags = flag_full_snapshot\<rparr>"

definition is_full_snapshot :: "checkpoint_barrier \<Rightarrow> bool" where
  "is_full_snapshot b \<longleftrightarrow> cb_flags b AND flag_full_snapshot \<noteq> 0"

definition is_drain :: "checkpoint_barrier \<Rightarrow> bool" where
  "is_drain b \<longleftrightarrow> cb_flags b AND flag_drain \<noteq> 0"

definition is_cancel :: "checkpoint_barrier \<Rightarrow> bool" where
  "is_cancel b \<longleftrightarrow> cb_flags b AND flag_cancel \<noteq> 0"

definition is_unaligned :: "checkpoint_barrier \<Rightarrow> bool" where
  "is_unaligned b \<longleftrightarrow> cb_flags b AND flag_unaligned \<noteq> 0"

datatype 't stream_message = MsgEvent 't | MsgWatermark i64 | MsgBarrier checkpoint_barrier

fun is_barrier :: "'t stream_message \<Rightarrow> bool" where
  "is_barrier (MsgBarrier _) = True"
| "is_barrier _ = False"

fun is_watermark :: "'t stream_message \<Rightarrow> bool" where
  "is_watermark (MsgWatermark _) = True"
| "is_watermark _ = False"

fun is_event :: "'t stream_message \<Rightarrow> bool" where
  "is_event (MsgEvent _) = True"
| "is_event _ = False"

fun as_barrier :: "'t stream_message \<Rightarrow> checkpoint_barrier option" where
  "as_barrier (MsgBarrier b) = Some b"
| "as_barrier _ = None"

definition pack_barrier_cmd :: "32 word \<Rightarrow> 32 word \<Rightarrow> 64 word" where
  "pack_barrier_cmd cid fl = push_bit 32 (ucast cid) OR ucast fl"

definition unpack_barrier_cmd :: "64 word \<Rightarrow> 32 word \<times> 32 word" where
  "unpack_barrier_cmd packed = (ucast (drop_bit 32 packed), ucast packed)"

record barrier_injector =
  bi_cmd :: "64 word"
  bi_epoch :: "64 word"

definition injector_new :: barrier_injector where
  "injector_new = \<lparr>bi_cmd = 0, bi_epoch = 0\<rparr>"

definition injector_trigger :: "barrier_injector \<Rightarrow> 64 word \<Rightarrow> 64 word \<Rightarrow> barrier_injector" where
  "injector_trigger bi cid barrier_flags =
     bi\<lparr>bi_cmd := pack_barrier_cmd (ucast cid) (ucast barrier_flags), bi_epoch := bi_epoch bi + 1\<rparr>"

definition claimed_barrier :: "64 word \<Rightarrow> 64 word \<Rightarrow> checkpoint_barrier" where
  "claimed_barrier packed epoch =
     (let (cid, fl) = unpack_barrier_cmd packed
      in \<lparr>cb_checkpoint_id = ucast cid, cb_epoch = epoch, cb_flags = ucast fl\<rparr>)"

text \<open>Polling without interference: the exchange finds the word just loaded.\<close>

definition barrier_poll :: "barrier_injector \<Rightarrow> 64 word \<Rightarrow> barrier_injector \<times> checkpoint_barrier option" where
  "barrier_poll bi epoch =
     (let packed = bi_cmd bi
      in if packed = 0 then (bi, None)
         else (bi\<lparr>bi_cmd := 0\<rparr>, Some (claimed_barrier packed epoch)))"

section \<open>Packing\<close>

lemma pack_unpack: "unpack_barrier_cmd (pack_barrier_cmd cid fl) = (cid, fl)"
proof -
  have "(ucast (drop_bit 32 (push_bit 32 (ucast cid) OR ucast fl :: 64 word)) :: 32 word) = cid"
    by (rule bit_word_eqI) (auto simp: bit_simps dest: bit_imp_le_length)
  moreover have "(ucast (push_bit 32 (ucast cid) OR ucast fl :: 64 word) :: 32 word) = fl"
    by (rule bit_word_eqI) (auto simp: bit_simps dest: bit_imp_le_length)
  ultimately show ?thesis by (simp add: pack_barrier_cmd_def unpack_barrier_cmd_def)
qed

lemma unpack_pack: "pack_barrier_cmd (fst (unpack_barrier_cmd p)) (snd (unpack_barrier_cmd p)) = p"
  unfolding pack_barrier_cmd_def unpack_barrier_cmd_def
  by (rule bit_word_eqI) (auto simp: bit_simps dest: bit_imp_le_length)

lemma pack_eq_0: "pack_barrier_cmd cid fl = 0 \<longleftrightarrow> cid = 0 \<and> fl = 0"
proof
  assume "pack_barrier_cmd cid fl = 0"
  then have "unpack_barrier_cmd 0 = (cid, fl)" using pack_unpack [of cid fl] by simp
  then show "cid = 0 \<and> fl = 0" by (simp add: unpack_barrier_cmd_def)
qed (simp add: pack_barrier_cmd_def)

section \<open>Interleaved polling\<close>

text \<open>
  A handle is idle, or has loaded a non-zero word and not yet done its exchange. All accesses are
  to one atomic word, for which every memory ordering guarantees a single total order.
\<close>

datatype poll_pc = PollIdle | PollLoaded "64 word"

record poll_state =
  ps_cmd :: "64 word"
  ps_pc :: "nat \<Rightarrow> poll_pc"

datatype poll_label =
    LTrigger "64 word"
  | LEmpty nat
  | LLoad nat
  | LClaim nat "64 word"
  | LLost nat

inductive poll_step :: "poll_state \<Rightarrow> poll_label \<Rightarrow> poll_state \<Rightarrow> bool" where
  Trigger: "packed = pack_barrier_cmd (ucast (cid :: 64 word)) (ucast (fl :: 64 word)) \<Longrightarrow>
     poll_step s (LTrigger packed) (s\<lparr>ps_cmd := packed\<rparr>)"
| Empty: "ps_pc s i = PollIdle \<Longrightarrow> ps_cmd s = 0 \<Longrightarrow> poll_step s (LEmpty i) s"
| Load: "ps_pc s i = PollIdle \<Longrightarrow> ps_cmd s \<noteq> 0 \<Longrightarrow>
     poll_step s (LLoad i) (s\<lparr>ps_pc := (ps_pc s)(i := PollLoaded (ps_cmd s))\<rparr>)"
| Claim: "ps_pc s i = PollLoaded p \<Longrightarrow> ps_cmd s = p \<Longrightarrow>
     poll_step s (LClaim i p) (s\<lparr>ps_cmd := 0, ps_pc := (ps_pc s)(i := PollIdle)\<rparr>)"
| Lost: "ps_pc s i = PollLoaded p \<Longrightarrow> ps_cmd s \<noteq> p \<Longrightarrow>
     poll_step s (LLost i) (s\<lparr>ps_pc := (ps_pc s)(i := PollIdle)\<rparr>)"

inductive poll_steps :: "poll_state \<Rightarrow> poll_label list \<Rightarrow> poll_state \<Rightarrow> bool" where
  Nil: "poll_steps s [] s"
| Snoc: "poll_steps s ls t \<Longrightarrow> poll_step t l u \<Longrightarrow> poll_steps s (ls @ [l]) u"

inductive_cases poll_stepE: "poll_step s l t"

definition poll_init :: poll_state where
  "poll_init = \<lparr>ps_cmd = 0, ps_pc = (\<lambda>_. PollIdle)\<rparr>"

fun triggers :: "poll_label list \<Rightarrow> 64 word list" where
  "triggers [] = []"
| "triggers (LTrigger p # ls) = p # triggers ls"
| "triggers (_ # ls) = triggers ls"

fun claims :: "poll_label list \<Rightarrow> 64 word list" where
  "claims [] = []"
| "claims (LClaim i p # ls) = p # claims ls"
| "claims (_ # ls) = claims ls"

lemma triggers_append [simp]: "triggers (xs @ ys) = triggers xs @ triggers ys"
  by (induction xs rule: triggers.induct) auto

lemma claims_append [simp]: "claims (xs @ ys) = claims xs @ claims ys"
  by (induction xs rule: claims.induct) auto

text \<open>
  What has been claimed is a subsequence of what was triggered; while a command is pending it is the
  last one triggered and everything claimed came before it. A loaded word is never zero.
\<close>

definition poll_inv :: "poll_label list \<Rightarrow> poll_state \<Rightarrow> bool" where
  "poll_inv ls s \<longleftrightarrow>
     subseq (claims ls) (triggers ls) \<and>
     (ps_cmd s \<noteq> 0 \<longrightarrow> (\<exists>ts. triggers ls = ts @ [ps_cmd s] \<and> subseq (claims ls) ts)) \<and>
     (\<forall>i p. ps_pc s i = PollLoaded p \<longrightarrow> p \<noteq> 0)"

lemma poll_inv_step:
  assumes "poll_inv ls s" "poll_step s l t"
  shows "poll_inv (ls @ [l]) t"
  using assms(2)
proof (cases rule: poll_step.cases)
  case (Trigger packed cid fl)
  then show ?thesis using assms(1) by (auto simp: poll_inv_def)
next
  case (Claim i p)
  have "p \<noteq> 0" using assms(1) Claim by (auto simp: poll_inv_def)
  then obtain ts where "triggers ls = ts @ [p]" "subseq (claims ls) ts"
    using assms(1) Claim by (auto simp: poll_inv_def)
  then show ?thesis using assms(1) Claim by (auto simp: poll_inv_def split: if_splits)
qed (use assms(1) in \<open>auto simp: poll_inv_def split: if_splits\<close>)

lemma poll_inv_steps:
  assumes "poll_steps poll_init ls s"
  shows "poll_inv ls s"
  using assms
proof (induction poll_init ls s rule: poll_steps.induct)
  case Nil
  then show ?case by (simp add: poll_inv_def poll_init_def)
next
  case (Snoc ls t l u)
  then show ?case by (simp add: poll_inv_step)
qed

section \<open>Properties of barriers\<close>

text \<open>
  Packing a checkpoint id and flags into the command word loses nothing in either direction .
\<close>

theorem barrier_pack_roundtrip:
  "unpack_barrier_cmd (pack_barrier_cmd cid fl) = (cid, fl) \<and>
   pack_barrier_cmd (fst (unpack_barrier_cmd p)) (snd (unpack_barrier_cmd p)) = p"
  by (simp add: pack_unpack unpack_pack)

text \<open>
  Whatever the interleaving of triggers and of any number of polling handles, the claimed commands
  form a subsequence of the triggered ones: no barrier is delivered twice, none is invented, and
  none is delivered out of order (C14).
\<close>

theorem barrier_claimed_at_most_once:
  assumes "poll_steps poll_init ls s"
  shows "subseq (claims ls) (triggers ls)"
  using poll_inv_steps [OF assms] by (simp add: poll_inv_def)

theorem barrier_claimed_at_most_once_witness:
  "\<exists>s. poll_steps poll_init [LTrigger (pack_barrier_cmd 7 1), LLoad 0, LLoad 1,
      LClaim 1 (pack_barrier_cmd 7 1), LLost 0] s \<and>
    subseq (claims [LTrigger (pack_barrier_cmd 7 1), LLoad 0, LLoad 1,
      LClaim 1 (pack_barrier_cmd 7 1), LLost 0])
     (triggers [LTrigger (pack_barrier_cmd 7 1), LLoad 0, LLoad 1,
      LClaim 1 (pack_barrier_cmd 7 1), LLost 0])"
proof -
  let ?p = "pack_barrier_cmd 7 1"
  have p0: "?p \<noteq> 0" by (simp add: pack_eq_0)
  define s1 where "s1 = poll_init\<lparr>ps_cmd := ?p\<rparr>"
  define s2 where "s2 = s1\<lparr>ps_pc := (ps_pc s1)(0 := PollLoaded (ps_cmd s1))\<rparr>"
  define s3 where "s3 = s2\<lparr>ps_pc := (ps_pc s2)(1 := PollLoaded (ps_cmd s2))\<rparr>"
  define s4 where "s4 = s3\<lparr>ps_cmd := 0, ps_pc := (ps_pc s3)(1 := PollIdle)\<rparr>"
  define s5 where "s5 = s4\<lparr>ps_pc := (ps_pc s4)(0 := PollIdle)\<rparr>"
  have "poll_step poll_init (LTrigger ?p) s1"
    unfolding s1_def by (rule poll_step.Trigger [of _ 7 1]) simp
  then have "poll_steps poll_init [LTrigger ?p] s1"
    using poll_steps.Snoc [OF poll_steps.Nil] by fastforce
  moreover have "poll_step s1 (LLoad 0) s2"
    unfolding s2_def by (rule poll_step.Load) (simp_all add: s1_def poll_init_def p0)
  ultimately have "poll_steps poll_init [LTrigger ?p, LLoad 0] s2"
    using poll_steps.Snoc by fastforce
  moreover have "poll_step s2 (LLoad 1) s3"
    unfolding s3_def by (rule poll_step.Load) (simp_all add: s2_def s1_def poll_init_def p0)
  ultimately have "poll_steps poll_init [LTrigger ?p, LLoad 0, LLoad 1] s3"
    using poll_steps.Snoc by fastforce
  moreover have "poll_step s3 (LClaim 1 ?p) s4"
    unfolding s4_def by (rule poll_step.Claim) (simp_all add: s3_def s2_def s1_def)
  ultimately have "poll_steps poll_init [LTrigger ?p, LLoad 0, LLoad 1, LClaim 1 ?p] s4"
    using poll_steps.Snoc by fastforce
  moreover have "poll_step s4 (LLost 0) s5"
    unfolding s5_def by (rule poll_step.Lost [of _ _ ?p]) (simp_all add: s4_def s3_def s2_def s1_def p0 [symmetric])
  ultimately have "poll_steps poll_init [LTrigger ?p, LLoad 0, LLoad 1, LClaim 1 ?p, LLost 0] s5"
    using poll_steps.Snoc by fastforce
  from barrier_claimed_at_most_once [OF this] this show ?thesis by blast
qed

text \<open>
  A triggered barrier whose id and flags fit 32 bits is delivered unchanged by the next poll and
  only by that poll, unless both are zero: then the word equals the empty command and no poll ever
  sees the barrier.
\<close>

theorem barrier_poll_after_trigger:
  assumes "ucast (ucast cid :: 32 word) = cid" "ucast (ucast fl :: 32 word) = fl"
  shows "snd (barrier_poll (injector_trigger bi cid fl) epoch) =
      (if cid = 0 \<and> fl = 0 then None
       else Some \<lparr>cb_checkpoint_id = cid, cb_epoch = epoch, cb_flags = fl\<rparr>) \<and>
    snd (barrier_poll (fst (barrier_poll (injector_trigger bi cid fl) epoch)) epoch) = None"
proof -
  have "(ucast cid :: 32 word) = 0 \<longleftrightarrow> cid = 0" "(ucast fl :: 32 word) = 0 \<longleftrightarrow> fl = 0"
    using assms by (metis ucast_0)+
  then show ?thesis
    using assms by (simp add: barrier_poll_def injector_trigger_def claimed_barrier_def pack_unpack pack_eq_0 Let_def)
qed

theorem barrier_poll_after_trigger_witness:
  "snd (barrier_poll (injector_trigger injector_new 42 1) 3) =
     Some \<lparr>cb_checkpoint_id = 42, cb_epoch = 3, cb_flags = 1\<rparr>"
  using barrier_poll_after_trigger [of 42 1 injector_new 3] by simp

end
