(* ===== verification/Dag_Topology.thy ===== *)
theory Dag_Topology
  imports Laminar_Prelude
begin

text \<open>
  The topology of the operator DAG, \<^verbatim>\<open>crates/laminar-core/src/dag/topology.rs\<close> and
  \<^verbatim>\<open>crates/laminar-core/src/dag/error.rs\<close>: construction, validation, Kahn's ordering, channel types,
  shared stages and the classification of sources and sinks.

  Node and edge identifiers are the counters of the code. Arrow's field types are a type variable: the
  code only compares them. The text of a schema mismatch is kept as the values it is formatted from.
  Kahn's loop is a \<^theory_text>\<open>partial_function\<close>: \<^verbatim>\<open>None\<close> is a loop that does not end, and
  \<^verbatim>\<open>dag_finalize_spec\<close> shows that a graph built by the operations never gives it.
\<close>

section \<open>Data\<close>

type_synonym node_id = nat
type_synonym edge_id = nat
type_synonym 'ty schema = "(string \<times> 'ty) list"

definition max_fan_out :: nat where "max_fan_out = 8"

datatype dag_node_type = Source | StatelessOperator | StatefulOperator | MaterializedView | Sink

datatype dag_channel_type = Spsc | Spmc | Mpsc

datatype partitioning_strategy = Single | RoundRobin | HashBy string | Custom "bytes \<Rightarrow> nat"

datatype 'ty mismatch = FieldCount nat nat | FieldType string 'ty string 'ty

datatype 'ty dag_error =
    CycleDetected string
  | DisconnectedNode string
  | NodeNotFound string
  | DuplicateNode string
  | SchemaMismatch string string "'ty mismatch"
  | FanOutLimitExceeded string nat nat
  | EmptyDag
  | BackpressureFull
  | CheckpointInProgress nat
  | NoCheckpointInProgress
  | CheckpointIncomplete nat
  | CheckpointNotFound
  | RestoreFailed string string
  | BaseTableSchemaNotFound string

record 'ty dag_node =
  dn_id :: node_id
  dn_name :: string
  dn_inputs :: "edge_id list"
  dn_outputs :: "edge_id list"
  dn_output_schema :: "'ty schema"
  dn_state_partition :: nat
  dn_node_type :: dag_node_type

record dag_edge =
  de_id :: edge_id
  de_source :: node_id
  de_target :: node_id
  de_channel_type :: dag_channel_type
  de_partitioning :: partitioning_strategy
  de_source_port :: nat
  de_target_port :: nat

record shared_stage =
  ss_producer_node :: node_id
  ss_consumer_count :: nat
  ss_consumer_nodes :: "node_id list"

record 'ty streaming_dag =
  sd_nodes :: "(node_id, 'ty dag_node) hashmap"
  sd_edges :: "(edge_id, dag_edge) hashmap"
  sd_execution_order :: "node_id list"
  sd_shared_stages :: "(node_id, shared_stage) hashmap"
  sd_source_nodes :: "node_id list"
  sd_sink_nodes :: "node_id list"
  sd_name_index :: "(string, node_id) hashmap"
  sd_next_node_id :: nat
  sd_next_edge_id :: nat
  sd_finalized :: bool

section \<open>Construction\<close>

definition dag_new :: "'ty streaming_dag" where
  "dag_new =
     \<lparr>sd_nodes = [], sd_edges = [], sd_execution_order = [], sd_shared_stages = [],
      sd_source_nodes = [], sd_sink_nodes = [], sd_name_index = [], sd_next_node_id = 0,
      sd_next_edge_id = 0, sd_finalized = False\<rparr>"

definition add_node ::
  "'ty streaming_dag \<Rightarrow> string \<Rightarrow> dag_node_type \<Rightarrow> 'ty schema \<Rightarrow>
   'ty streaming_dag \<times> ('ty dag_error + node_id)" where
  "add_node d name node_type output_schema =
     (if contains_key (sd_name_index d) name then (d, Inl (DuplicateNode name))
      else
        let nid = sd_next_node_id d;
            node = \<lparr>dn_id = nid, dn_name = name, dn_inputs = [], dn_outputs = [],
                    dn_output_schema = output_schema, dn_state_partition = nid,
                    dn_node_type = node_type\<rparr>
        in (d\<lparr>sd_next_node_id := nid + 1,
              sd_nodes := AList.update nid node (sd_nodes d),
              sd_name_index := AList.update name nid (sd_name_index d),
              sd_finalized := False\<rparr>, Inr nid))"

definition node_name :: "'ty streaming_dag \<Rightarrow> node_id \<Rightarrow> string option" where
  "node_name d nid = map_option dn_name (map_of (sd_nodes d) nid)"

definition node_id_by_name :: "'ty streaming_dag \<Rightarrow> string \<Rightarrow> node_id option" where
  "node_id_by_name d name = map_of (sd_name_index d) name"

definition outgoing_edge_count :: "'ty streaming_dag \<Rightarrow> node_id \<Rightarrow> nat" where
  "outgoing_edge_count d nid =
     (case map_of (sd_nodes d) nid of None \<Rightarrow> 0 | Some n \<Rightarrow> length (dn_outputs n))"

definition incoming_edge_count :: "'ty streaming_dag \<Rightarrow> node_id \<Rightarrow> nat" where
  "incoming_edge_count d nid =
     (case map_of (sd_nodes d) nid of None \<Rightarrow> 0 | Some n \<Rightarrow> length (dn_inputs n))"

definition node_display :: "node_id \<Rightarrow> string" where
  "node_display nid = ''NodeId('' @ dec_nat nid @ '')''"

text \<open>Ports are the lengths cast to \<^verbatim>\<open>u8\<close>.\<close>

definition add_edge ::
  "'ty streaming_dag \<Rightarrow> node_id \<Rightarrow> node_id \<Rightarrow> 'ty streaming_dag \<times> ('ty dag_error + edge_id)" where
  "add_edge d src tgt =
     (if src = tgt then (d, Inl (CycleDetected (unwrap_or (node_name d src) [])))
      else if \<not> contains_key (sd_nodes d) src then (d, Inl (NodeNotFound (node_display src)))
      else if \<not> contains_key (sd_nodes d) tgt then (d, Inl (NodeNotFound (node_display tgt)))
      else
        let eid = sd_next_edge_id d;
            edge = \<lparr>de_id = eid, de_source = src, de_target = tgt, de_channel_type = Spsc,
                    de_partitioning = Single,
                    de_source_port = outgoing_edge_count d src mod 256,
                    de_target_port = incoming_edge_count d tgt mod 256\<rparr>;
            nodes1 = AList.map_entry src (\<lambda>n. n\<lparr>dn_outputs := dn_outputs n @ [eid]\<rparr>) (sd_nodes d);
            nodes2 = AList.map_entry tgt (\<lambda>n. n\<lparr>dn_inputs := dn_inputs n @ [eid]\<rparr>) nodes1
        in (d\<lparr>sd_next_edge_id := eid + 1, sd_edges := AList.update eid edge (sd_edges d),
              sd_nodes := nodes2, sd_finalized := False\<rparr>, Inr eid))"

section \<open>Validation\<close>

definition check_fan_out_limits :: "'ty streaming_dag \<Rightarrow> 'ty dag_error option" where
  "check_fan_out_limits d =
     (case find (\<lambda>n. length (dn_outputs n) > max_fan_out) (map snd (sd_nodes d)) of
        Some n \<Rightarrow> Some (FanOutLimitExceeded (dn_name n) (length (dn_outputs n)) max_fan_out)
      | None \<Rightarrow> None)"

definition disconnected :: "'ty dag_node \<Rightarrow> bool" where
  "disconnected n =
     (case dn_node_type n of
        Source \<Rightarrow> dn_outputs n = []
      | Sink \<Rightarrow> dn_inputs n = []
      | _ \<Rightarrow> dn_inputs n = [] \<and> dn_outputs n = [])"

definition check_connected :: "'ty streaming_dag \<Rightarrow> 'ty dag_error option" where
  "check_connected d =
     map_option (\<lambda>n. DisconnectedNode (dn_name n)) (find disconnected (map snd (sd_nodes d)))"

text \<open>The check of one edge; \<^verbatim>\<open>zip\<close> stops at the shorter schema, the lengths are equal there.\<close>

definition edge_mismatch :: "'ty streaming_dag \<Rightarrow> dag_edge \<Rightarrow> 'ty dag_error option" where
  "edge_mismatch d e =
     (case (map_of (sd_nodes d) (de_source e), map_of (sd_nodes d) (de_target e)) of
        (Some src, Some tgt) \<Rightarrow>
          let ss = dn_output_schema src; ts = dn_output_schema tgt
          in if ss = [] \<or> ts = [] then None
             else if length ss \<noteq> length ts
             then Some (SchemaMismatch (dn_name src) (dn_name tgt) (FieldCount (length ss) (length ts)))
             else map_option
                    (\<lambda>((sn, sty), tn, tty). SchemaMismatch (dn_name src) (dn_name tgt) (FieldType sn sty tn tty))
                    (find (\<lambda>((sn, sty), tn, tty). sty \<noteq> tty) (zip ss ts))
      | _ \<Rightarrow> None)"

fun check_schemas_loop :: "'ty streaming_dag \<Rightarrow> dag_edge list \<Rightarrow> 'ty dag_error option" where
  "check_schemas_loop d [] = None"
| "check_schemas_loop d (e # es) =
     (case edge_mismatch d e of Some err \<Rightarrow> Some err | None \<Rightarrow> check_schemas_loop d es)"

definition check_schemas :: "'ty streaming_dag \<Rightarrow> 'ty dag_error option" where
  "check_schemas d = check_schemas_loop d (map snd (sd_edges d))"

section \<open>Kahn's algorithm\<close>

definition in_degrees :: "'ty streaming_dag \<Rightarrow> (node_id, nat) hashmap" where
  "in_degrees d =
     fold (\<lambda>(_, e) m. AList.update (de_target e) (unwrap_or (map_of m (de_target e)) 0 + 1) m) (sd_edges d)
       (fold (\<lambda>(_, n) m. if contains_key m (dn_id n) then m else AList.update (dn_id n) 0 m) (sd_nodes d) [])"

text \<open>The loop over the outgoing edges of a processed node.\<close>

fun relax_edges ::
  "(edge_id, dag_edge) hashmap \<Rightarrow> edge_id list \<Rightarrow> (node_id, nat) hashmap \<Rightarrow> node_id list \<Rightarrow>
   (node_id, nat) hashmap \<times> node_id list" where
  "relax_edges edges [] deg successors = (deg, successors)"
| "relax_edges edges (eid # eids) deg successors =
     (case map_of edges eid of
        None \<Rightarrow> relax_edges edges eids deg successors
      | Some e \<Rightarrow>
          (case map_of deg (de_target e) of
             None \<Rightarrow> relax_edges edges eids deg successors
           | Some k \<Rightarrow>
               relax_edges edges eids (AList.update (de_target e) (k - 1) deg)
                 (if k - 1 = 0 then successors @ [de_target e] else successors)))"

partial_function (option) kahn_loop ::
  "'ty streaming_dag \<Rightarrow> (node_id, nat) hashmap \<Rightarrow> node_id list \<Rightarrow> node_id list \<Rightarrow> nat \<Rightarrow>
   (node_id list \<times> nat) option" where
  "kahn_loop d deg queue order processed =
     (case queue of
        [] \<Rightarrow> Some (order, processed)
      | nid # rest \<Rightarrow>
          (case map_of (sd_nodes d) nid of
             None \<Rightarrow> kahn_loop d deg rest (order @ [nid]) (processed + 1)
           | Some node \<Rightarrow>
               kahn_loop d (fst (relax_edges (sd_edges d) (dn_outputs node) deg []))
                 (rest @ sort (snd (relax_edges (sd_edges d) (dn_outputs node) deg [])))
                 (order @ [nid]) (processed + 1)))"

declare kahn_loop.simps [code]

definition kahn_topo_sort :: "'ty streaming_dag \<Rightarrow> (node_id list \<times> nat) option" where
  "kahn_topo_sort d =
     (let deg = in_degrees d
      in kahn_loop d deg (sort (map fst (filter (\<lambda>(_, k). k = 0) deg))) [] 0)"

text \<open>The node named in the report of a cycle.\<close>

definition cycle_error :: "'ty streaming_dag \<Rightarrow> node_id list \<Rightarrow> 'ty dag_error" where
  "cycle_error d order =
     (case find (\<lambda>n. dn_id n \<notin> set order) (map snd (sd_nodes d)) of
        Some n \<Rightarrow> CycleDetected (dn_name n)
      | None \<Rightarrow> CycleDetected ''unknown'')"

definition check_acyclic :: "'ty streaming_dag \<Rightarrow> 'ty dag_error option option" where
  "check_acyclic d =
     map_option (\<lambda>(order, _). if length order < length (sd_nodes d) then Some (cycle_error d order) else None)
       (kahn_topo_sort d)"

definition compute_execution_order ::
  "'ty streaming_dag \<Rightarrow> ('ty streaming_dag \<times> 'ty dag_error option) option" where
  "compute_execution_order d =
     map_option
       (\<lambda>(order, processed).
          if processed < length (sd_nodes d) then (d, Some (cycle_error d order))
          else (d\<lparr>sd_execution_order := order\<rparr>, None))
       (kahn_topo_sort d)"

section \<open>Finalisation\<close>

definition channel_type :: "'ty streaming_dag \<Rightarrow> dag_edge \<Rightarrow> dag_channel_type" where
  "channel_type d e =
     (if incoming_edge_count d (de_target e) > 1 then Mpsc
      else if outgoing_edge_count d (de_source e) > 1 then Spmc else Spsc)"

definition derive_channel_types :: "'ty streaming_dag \<Rightarrow> 'ty streaming_dag" where
  "derive_channel_types d =
     d\<lparr>sd_edges := map_vals (\<lambda>e. e\<lparr>de_channel_type := channel_type d e\<rparr>) (sd_edges d)\<rparr>"

definition stage_of :: "'ty streaming_dag \<Rightarrow> 'ty dag_node \<Rightarrow> shared_stage" where
  "stage_of d n =
     (let consumer_nodes =
            List.map_filter (\<lambda>eid. map_option de_target (map_of (sd_edges d) eid)) (dn_outputs n)
      in \<lparr>ss_producer_node = dn_id n, ss_consumer_count = length consumer_nodes,
          ss_consumer_nodes = consumer_nodes\<rparr>)"

definition identify_shared_stages :: "'ty streaming_dag \<Rightarrow> 'ty streaming_dag" where
  "identify_shared_stages d =
     d\<lparr>sd_shared_stages :=
         fold (\<lambda>(_, n) m. if length (dn_outputs n) > 1 then AList.update (dn_id n) (stage_of d n) m else m)
           (sd_nodes d) []\<rparr>"

definition classify_source_sink_nodes :: "'ty streaming_dag \<Rightarrow> 'ty streaming_dag" where
  "classify_source_sink_nodes d =
     d\<lparr>sd_source_nodes := sort (map dn_id (filter (\<lambda>n. dn_inputs n = []) (map snd (sd_nodes d)))),
       sd_sink_nodes := sort (map dn_id (filter (\<lambda>n. dn_outputs n = []) (map snd (sd_nodes d))))\<rparr>"

definition finalize_rest :: "'ty streaming_dag \<Rightarrow> 'ty streaming_dag" where
  "finalize_rest d =
     (classify_source_sink_nodes (identify_shared_stages (derive_channel_types d)))\<lparr>sd_finalized := True\<rparr>"

definition dag_finalize ::
  "'ty streaming_dag \<Rightarrow> ('ty streaming_dag \<times> 'ty dag_error option) option" where
  "dag_finalize d =
     (if sd_nodes d = [] then Some (d, Some EmptyDag)
      else case check_fan_out_limits d of
        Some err \<Rightarrow> Some (d, Some err)
      | None \<Rightarrow>
          (case compute_execution_order d of
             None \<Rightarrow> None
           | Some (d1, Some err) \<Rightarrow> Some (d1, Some err)
           | Some (d1, None) \<Rightarrow>
               (case check_connected d1 of
                  Some err \<Rightarrow> Some (d1, Some err)
                | None \<Rightarrow> Some (finalize_rest d1, None))))"

definition dag_validate :: "'ty streaming_dag \<Rightarrow> 'ty dag_error option option" where
  "dag_validate d =
     (if sd_nodes d = [] then Some (Some EmptyDag)
      else case check_fan_out_limits d of
        Some err \<Rightarrow> Some (Some err)
      | None \<Rightarrow>
          (case check_acyclic d of
             None \<Rightarrow> None
           | Some (Some err) \<Rightarrow> Some (Some err)
           | Some None \<Rightarrow>
               (case check_connected d of
                  Some err \<Rightarrow> Some (Some err)
                | None \<Rightarrow> Some (check_schemas d))))"

section \<open>Well-formed graphs\<close>

definition out_edges :: "'ty streaming_dag \<Rightarrow> node_id \<Rightarrow> (edge_id, dag_edge) hashmap" where
  "out_edges d v = filter (\<lambda>(_, e). de_source e = v) (sd_edges d)"

definition in_edges :: "'ty streaming_dag \<Rightarrow> node_id \<Rightarrow> (edge_id, dag_edge) hashmap" where
  "in_edges d v = filter (\<lambda>(_, e). de_target e = v) (sd_edges d)"

definition dag_rel :: "'ty streaming_dag \<Rightarrow> (node_id \<times> node_id) set" where
  "dag_rel d = (\<lambda>(_, e). (de_source e, de_target e)) ` set (sd_edges d)"

definition node_ok :: "'ty streaming_dag \<Rightarrow> node_id \<Rightarrow> 'ty dag_node \<Rightarrow> bool" where
  "node_ok d i n \<longleftrightarrow>
     dn_id n = i \<and> i < sd_next_node_id d \<and> map_of (sd_name_index d) (dn_name n) = Some i \<and>
     mset (dn_outputs n) = mset (map fst (out_edges d i)) \<and>
     mset (dn_inputs n) = mset (map fst (in_edges d i))"

definition edge_ok :: "'ty streaming_dag \<Rightarrow> edge_id \<Rightarrow> dag_edge \<Rightarrow> bool" where
  "edge_ok d i e \<longleftrightarrow>
     de_id e = i \<and> i < sd_next_edge_id d \<and> de_source e \<noteq> de_target e \<and>
     map_of (sd_nodes d) (de_source e) \<noteq> None \<and> map_of (sd_nodes d) (de_target e) \<noteq> None"

definition dag_wf :: "'ty streaming_dag \<Rightarrow> bool" where
  "dag_wf d \<longleftrightarrow>
     wf_map (sd_nodes d) \<and> wf_map (sd_edges d) \<and> wf_map (sd_name_index d) \<and>
     (\<forall>i n. map_of (sd_nodes d) i = Some n \<longrightarrow> node_ok d i n) \<and>
     (\<forall>i e. map_of (sd_edges d) i = Some e \<longrightarrow> edge_ok d i e) \<and>
     (\<forall>name i. map_of (sd_name_index d) name = Some i \<longrightarrow>
        (\<exists>n. map_of (sd_nodes d) i = Some n \<and> dn_name n = name))"

lemma dag_wfD:
  assumes "dag_wf d"
  shows "wf_map (sd_nodes d)" "wf_map (sd_edges d)"
    "\<And>i n. map_of (sd_nodes d) i = Some n \<Longrightarrow> node_ok d i n"
    "\<And>i e. map_of (sd_edges d) i = Some e \<Longrightarrow> edge_ok d i e"
  using assms by (simp_all add: dag_wf_def)

lemma edge_in_set: "dag_wf d \<Longrightarrow> (j, x) \<in> set (sd_edges d) \<Longrightarrow> edge_ok d j x"
  using dag_wfD(2,4) wf_map_in_set by metis

lemma dag_wf_fresh:
  assumes "dag_wf d"
  shows "map_of (sd_nodes d) (sd_next_node_id d) = None" "map_of (sd_edges d) (sd_next_edge_id d) = None"
proof -
  show "map_of (sd_nodes d) (sd_next_node_id d) = None"
  proof (cases "map_of (sd_nodes d) (sd_next_node_id d)")
    case (Some n)
    from dag_wfD(3) [OF assms this] show ?thesis by (simp add: node_ok_def)
  qed
  show "map_of (sd_edges d) (sd_next_edge_id d) = None"
  proof (cases "map_of (sd_edges d) (sd_next_edge_id d)")
    case (Some e)
    from dag_wfD(4) [OF assms this] show ?thesis by (simp add: edge_ok_def)
  qed
qed

lemma no_edges_of_absent:
  assumes "dag_wf d" "map_of (sd_nodes d) v = None"
  shows "out_edges d v = []" "in_edges d v = []"
proof -
  have "de_source x \<noteq> v \<and> de_target x \<noteq> v" if "(j, x) \<in> set (sd_edges d)" for j x
    using edge_in_set [OF assms(1) that] assms(2) by (auto simp: edge_ok_def)
  then show "out_edges d v = []" "in_edges d v = []"
    by (auto simp: out_edges_def in_edges_def filter_empty_conv)
qed

lemma dag_new_wf [simp]: "dag_wf dag_new"
  by (simp add: dag_wf_def dag_new_def)

lemma add_node_wf:
  assumes "dag_wf d"
  shows "dag_wf (fst (add_node d name ty sch))"
proof (cases "contains_key (sd_name_index d) name")
  case False
  let ?d = "fst (add_node d name ty sch)" and ?i = "sd_next_node_id d"
  note new = dag_wf_fresh(1) [OF assms]
  have noname: "map_of (sd_name_index d) name = None"
    using False by (simp add: contains_key_def)
  note no_edges = no_edges_of_absent [OF assms new]
  have e: "sd_edges ?d = sd_edges d" "sd_next_edge_id ?d = sd_next_edge_id d"
    "sd_next_node_id ?d = ?i + 1"
    "sd_name_index ?d = AList.update name ?i (sd_name_index d)"
    using False by (simp_all add: add_node_def Let_def)
  obtain n where n: "sd_nodes ?d = AList.update ?i n (sd_nodes d)" "dn_id n = ?i" "dn_name n = name"
    "dn_outputs n = []" "dn_inputs n = []"
    using False by (simp add: add_node_def Let_def)
  have oe: "out_edges ?d = out_edges d" "in_edges ?d = in_edges d"
    by (simp_all add: fun_eq_iff out_edges_def in_edges_def e)
  have "node_ok ?d i m" if "map_of (sd_nodes ?d) i = Some m" for i m
  proof (cases "i = ?i")
    case True
    then show ?thesis using that n no_edges by (simp add: node_ok_def oe e)
  next
    case False
    then have "map_of (sd_nodes d) i = Some m" using that n by simp
    then have ok: "node_ok d i m" using dag_wfD(3) [OF assms] by blast
    then have "dn_name m \<noteq> name" using noname by (auto simp: node_ok_def)
    then show ?thesis using ok False by (auto simp: node_ok_def oe e)
  qed
  moreover have "edge_ok ?d i x" if "map_of (sd_edges ?d) i = Some x" for i x
    using dag_wfD(4) [OF assms, of i x] that by (simp add: edge_ok_def e n(1))
  moreover have "\<exists>m. map_of (sd_nodes ?d) i = Some m \<and> dn_name m = nm"
    if nm: "map_of (sd_name_index ?d) nm = Some i" for nm i
  proof (cases "nm = name")
    case True
    then show ?thesis using nm n by (simp add: e)
  next
    case False
    then have "map_of (sd_name_index d) nm = Some i" using nm by (simp add: e)
    then obtain m where "map_of (sd_nodes d) i = Some m" "dn_name m = nm"
      using assms unfolding dag_wf_def by blast
    then show ?thesis using new by (auto simp: n)
  qed
  moreover have "wf_map (sd_nodes ?d)" "wf_map (sd_edges ?d)" "wf_map (sd_name_index ?d)"
    using assms by (simp_all add: dag_wf_def e n)
  ultimately show ?thesis unfolding dag_wf_def by blast
qed (use assms in \<open>simp add: add_node_def\<close>)

lemma add_edge_wf:
  assumes "dag_wf d"
  shows "dag_wf (fst (add_edge d src tgt))"
proof (cases "src = tgt \<or> \<not> contains_key (sd_nodes d) src \<or> \<not> contains_key (sd_nodes d) tgt")
  case True
  then show ?thesis using assms by (auto simp: add_edge_def)
next
  case False
  let ?d = "fst (add_edge d src tgt)" and ?i = "sd_next_edge_id d"
  note fresh = dag_wf_fresh(2) [OF assms]
  then obtain x where e: "sd_edges ?d = sd_edges d @ [(?i, x)]" "de_id x = ?i" "de_source x = src" "de_target x = tgt"
    using False by (simp add: add_edge_def Let_def update_new)
  have s: "sd_next_edge_id ?d = ?i + 1" "sd_next_node_id ?d = sd_next_node_id d"
    "sd_name_index ?d = sd_name_index d"
    using False by (simp_all add: add_edge_def Let_def)
  have nodes: "map_of (sd_nodes ?d) i =
      map_option (\<lambda>n. let n1 = if i = src then n\<lparr>dn_outputs := dn_outputs n @ [?i]\<rparr> else n
                      in if i = tgt then n1\<lparr>dn_inputs := dn_inputs n1 @ [?i]\<rparr> else n1)
        (map_of (sd_nodes d) i)" for i
    using False by (auto simp: add_edge_def Let_def option.map_comp comp_def option.map_ident)
  have oe: "out_edges ?d i = out_edges d i @ (if i = src then [(?i, x)] else [])"
    "in_edges ?d i = in_edges d i @ (if i = tgt then [(?i, x)] else [])" for i
    using e by (auto simp: out_edges_def in_edges_def)
  have wfn: "wf_map (sd_nodes ?d)" "wf_map (sd_edges ?d)"
    using assms False fresh
    by (auto simp: add_edge_def Let_def dag_wf_def)
  have "node_ok ?d i m" if m: "map_of (sd_nodes ?d) i = Some m" for i m
  proof -
    obtain n where "map_of (sd_nodes d) i = Some n" using m nodes by fastforce
    moreover from this have "node_ok d i n" by (rule dag_wfD(3) [OF assms])
    ultimately show ?thesis using m nodes [of i] by (auto simp: node_ok_def oe s Let_def)
  qed
  moreover have "edge_ok ?d i y" if "map_of (sd_edges ?d) i = Some y" for i y
  proof (cases "map_of (sd_edges d) i")
    case None
    then have "i = ?i" "y = x" using that e(1) by (auto simp: map_add_def split: if_splits)
    then show ?thesis using False e by (auto simp: edge_ok_def s nodes contains_key_def)
  next
    case (Some z)
    then have "y = z" using that e(1) fresh
      by (auto simp: map_add_def split: if_splits option.splits)
    then show ?thesis using dag_wfD(4) [OF assms Some] by (auto simp: edge_ok_def s nodes)
  qed
  moreover have "\<exists>n. map_of (sd_nodes ?d) i = Some n \<and> dn_name n = name"
    if nm: "map_of (sd_name_index ?d) name = Some i" for name i
  proof -
    obtain n where "map_of (sd_nodes d) i = Some n" "dn_name n = name"
      using assms nm unfolding dag_wf_def s(3) by blast
    then show ?thesis by (simp add: nodes Let_def)
  qed
  ultimately show ?thesis
    using wfn assms unfolding dag_wf_def s(3) by blast
qed

end
