(* ===== verification/Dag_Ordering.thy ===== *)
theory Dag_Ordering
  imports Dag_Topology
begin

text \<open>
  Correctness of \<^verbatim>\<open>StreamingDag::finalize\<close>: Kahn's loop ends on every graph that the
  operations can build, orders all nodes exactly when the graph has no cycle, and what finalisation
  derives (order, channel types, shared stages, sources and sinks) agrees with the edges.
\<close>

section \<open>Correctness of the ordering\<close>

definition topo_sorted :: "('a \<times> 'a) set \<Rightarrow> 'a list \<Rightarrow> bool" where
  "topo_sorted R xs \<longleftrightarrow> (\<forall>ys v zs. xs = ys @ v # zs \<longrightarrow> (\<forall>u. (u, v) \<in> R \<longrightarrow> u \<in> set ys))"

lemma topo_sorted_snoc:
  "topo_sorted R (xs @ [v]) \<longleftrightarrow> topo_sorted R xs \<and> (\<forall>u. (u, v) \<in> R \<longrightarrow> u \<in> set xs)"
proof
  assume t: "topo_sorted R (xs @ [v])"
  then have "topo_sorted R xs"
    unfolding topo_sorted_def by (metis append.assoc append_Cons)
  then show "topo_sorted R xs \<and> (\<forall>u. (u, v) \<in> R \<longrightarrow> u \<in> set xs)"
    using t unfolding topo_sorted_def by blast
next
  assume t: "topo_sorted R xs \<and> (\<forall>u. (u, v) \<in> R \<longrightarrow> u \<in> set xs)"
  show "topo_sorted R (xs @ [v])"
    unfolding topo_sorted_def
  proof (intro allI impI)
    fix ys w zs u
    assume e: "xs @ [v] = ys @ w # zs" and r: "(u, w) \<in> R"
    show "u \<in> set ys"
    proof (cases zs rule: rev_cases)
      case Nil
      then show ?thesis using e r t by simp
    next
      case (snoc zs' z)
      then have "xs = ys @ w # zs'" using e by simp
      then show ?thesis using t r unfolding topo_sorted_def by blast
    qed
  qed
qed

lemma takeWhile_first: "v \<notin> set ys \<Longrightarrow> takeWhile (\<lambda>w. w \<noteq> v) (ys @ v # zs) = ys"
  by (induction ys) auto

lemma topo_sorted_acyclic:
  assumes "topo_sorted R xs" "\<And>u v. (u, v) \<in> R \<Longrightarrow> v \<in> set xs"
  shows "acyclic R"
proof -
  define pos where "pos v = length (takeWhile (\<lambda>w. w \<noteq> v) xs)" for v
  have "pos u < pos v" if r: "(u, v) \<in> R" for u v
  proof -
    obtain ys zs where x: "xs = ys @ v # zs" "v \<notin> set ys" using assms(2) [OF r] by (meson split_list_first)
    then have "u \<in> set ys" using assms(1) r unfolding topo_sorted_def by blast
    then obtain as bs where a: "ys = as @ u # bs" "u \<notin> set as" by (meson split_list_first)
    have "takeWhile (\<lambda>w. w \<noteq> v) xs = ys" using x by (simp add: takeWhile_first)
    moreover have "takeWhile (\<lambda>w. w \<noteq> u) xs = as" using a x by (simp add: takeWhile_first)
    ultimately show ?thesis using a by (simp add: pos_def)
  qed
  then have "R \<subseteq> measure pos" by auto
  then show ?thesis using wf_measure wf_subset wf_acyclic by blast
qed

text \<open>An acyclic finite relation has a source in every non-empty set.\<close>

lemma acyclic_has_source:
  assumes "finite R" "acyclic R" "S \<noteq> {}"
  shows "\<exists>v \<in> S. \<forall>u. (u, v) \<in> R \<longrightarrow> u \<notin> S"
proof -
  obtain x where "x \<in> S" using assms(3) by blast
  from wfE_min [OF finite_acyclic_wf [OF assms(1,2)] this] show ?thesis by blast
qed

abbreviation edge_target :: "(edge_id, dag_edge) hashmap \<Rightarrow> edge_id \<Rightarrow> node_id" where
  "edge_target edges i \<equiv> de_target (the (map_of edges i))"

lemma relax_edges_spec:
  assumes "\<forall>i \<in> set es. map_of edges i \<noteq> None"
    "\<forall>w. count_list (map (edge_target edges) es) w > 0 \<longrightarrow>
       (\<exists>k. map_of deg w = Some k \<and> count_list (map (edge_target edges) es) w \<le> k)"
  shows "\<exists>deg' new. relax_edges edges es deg succs = (deg', succs @ new) \<and>
    (\<forall>w. map_of deg' w = map_option (\<lambda>k. k - count_list (map (edge_target edges) es) w) (map_of deg w)) \<and>
    distinct new \<and>
    (\<forall>w. w \<in> set new \<longleftrightarrow> count_list (map (edge_target edges) es) w > 0 \<and>
       map_of deg w = Some (count_list (map (edge_target edges) es) w))"
  using assms
proof (induction es arbitrary: deg succs)
  case Nil
  then show ?case by (auto simp: option.map_ident)
next
  case (Cons i es)
  let ?c = "count_list (map (edge_target edges) es)" and ?t = "edge_target edges i"
  obtain e where e: "map_of edges i = Some e" using Cons.prems(1) by auto
  obtain k where k: "map_of deg ?t = Some k" "?c ?t + 1 \<le> k"
    using Cons.prems(2) by (auto dest: spec [of _ ?t])
  define deg1 where "deg1 = AList.update ?t (k - 1) deg"
  define s1 where "s1 = (if k - 1 = 0 then succs @ [?t] else succs)"
  have "\<forall>w. ?c w > 0 \<longrightarrow> (\<exists>k. map_of deg1 w = Some k \<and> ?c w \<le> k)"
  proof (intro allI impI)
    fix w assume "?c w > 0"
    then show "\<exists>k. map_of deg1 w = Some k \<and> ?c w \<le> k"
      using Cons.prems(2) [rule_format, of w] k by (cases "w = ?t") (auto simp: deg1_def)
  qed
  from Cons.IH [OF _ this, of s1] Cons.prems(1) obtain deg' new where
    r: "relax_edges edges es deg1 s1 = (deg', s1 @ new)"
      "\<And>w. map_of deg' w = map_option (\<lambda>k. k - ?c w) (map_of deg1 w)" "distinct new"
      "\<And>w. w \<in> set new \<longleftrightarrow> ?c w > 0 \<and> map_of deg1 w = Some (?c w)"
    by auto
  have run: "relax_edges edges (i # es) deg succs = (deg', s1 @ new)"
    using e k(1) r(1) by (cases "k \<le> Suc 0") (simp_all add: deg1_def s1_def)
  show ?case
  proof (intro exI conjI)
    show "relax_edges edges (i # es) deg succs = (deg', succs @ (if k - 1 = 0 then [?t] else []) @ new)"
      using run by (simp add: s1_def)
    show "\<forall>w. map_of deg' w =
        map_option (\<lambda>k. k - count_list (map (edge_target edges) (i # es)) w) (map_of deg w)"
      using k by (auto simp: r(2) deg1_def)
    show "distinct ((if k - 1 = 0 then [?t] else []) @ new)"
      using r(3,4) k by (auto simp: deg1_def)
    show "\<forall>w. w \<in> set ((if k - 1 = 0 then [?t] else []) @ new) \<longleftrightarrow>
        count_list (map (edge_target edges) (i # es)) w > 0 \<and>
        map_of deg w = Some (count_list (map (edge_target edges) (i # es)) w)"
      using r(4) k by (auto simp: deg1_def)
  qed
qed

section \<open>Kahn's loop\<close>

text \<open>The edges into a node whose source has not been ordered yet.\<close>

definition remaining :: "'ty streaming_dag \<Rightarrow> node_id list \<Rightarrow> node_id \<Rightarrow> nat" where
  "remaining d order v =
     length (filter (\<lambda>(_, e). de_target e = v \<and> de_source e \<notin> set order) (sd_edges d))"

definition kahn_inv ::
  "'ty streaming_dag \<Rightarrow> (node_id, nat) hashmap \<Rightarrow> node_id list \<Rightarrow> node_id list \<Rightarrow> bool" where
  "kahn_inv d deg queue order \<longleftrightarrow>
     distinct (order @ queue) \<and>
     (\<forall>v. map_of (sd_nodes d) v \<noteq> None \<longrightarrow> map_of deg v = Some (remaining d order v)) \<and>
     (\<forall>v. v \<in> set order \<union> set queue \<longleftrightarrow> map_of (sd_nodes d) v \<noteq> None \<and> remaining d order v = 0) \<and>
     topo_sorted (dag_rel d) order"

lemma remaining_0:
  "remaining d order v = 0 \<longleftrightarrow> (\<forall>u. (u, v) \<in> dag_rel d \<longrightarrow> u \<in> set order)"
  by (auto simp: remaining_def dag_rel_def filter_empty_conv)

lemma remaining_snoc:
  assumes "v \<notin> set order"
  shows "remaining d order w =
    remaining d (order @ [v]) w + length (filter (\<lambda>(_, e). de_target e = w) (out_edges d v))"
proof -
  have "length (filter (\<lambda>(_, e). de_target e = w \<and> de_source e \<notin> set order) ys) =
    length (filter (\<lambda>(_, e). de_target e = w \<and> de_source e \<notin> set (order @ [v])) ys) +
    length (filter (\<lambda>(_, e). de_target e = w) (filter (\<lambda>(_, e). de_source e = v) ys))"
    for ys :: "(edge_id, dag_edge) hashmap"
    using assms by (induction ys) auto
  then show ?thesis by (simp add: remaining_def out_edges_def)
qed

lemma count_list_targets:
  "count_list (map (de_target \<circ> snd) xs) w = length (filter (\<lambda>(_, e). de_target e = w) xs)"
  by (induction xs) auto

lemma outputs_targets:
  assumes "dag_wf d" "map_of (sd_nodes d) v = Some n"
  shows "\<forall>i \<in> set (dn_outputs n). map_of (sd_edges d) i \<noteq> None"
    "count_list (map (edge_target (sd_edges d)) (dn_outputs n)) w =
     length (filter (\<lambda>(_, e). de_target e = w) (out_edges d v))"
    "mset (map (edge_target (sd_edges d)) (dn_outputs n)) = mset (map (de_target \<circ> snd) (out_edges d v))"
proof -
  have m: "mset (dn_outputs n) = mset (map fst (out_edges d v))"
    using dag_wfD(3) [OF assms] by (simp add: node_ok_def)
  have found: "map_of (sd_edges d) i = Some e" if "(i, e) \<in> set (out_edges d v)" for i e
    using that dag_wfD(2) [OF assms(1)] by (simp add: out_edges_def wf_map_in_set)
  have "set (dn_outputs n) = fst ` set (out_edges d v)" using m by (metis set_map set_mset_mset)
  then show "\<forall>i \<in> set (dn_outputs n). map_of (sd_edges d) i \<noteq> None" using found by fastforce
  have "mset (map (edge_target (sd_edges d)) (dn_outputs n)) =
      mset (map (edge_target (sd_edges d)) (map fst (out_edges d v)))"
    using m by (metis mset_map)
  also have "map (edge_target (sd_edges d)) (map fst (out_edges d v)) = map (de_target \<circ> snd) (out_edges d v)"
    using found by fastforce
  finally show m': "mset (map (edge_target (sd_edges d)) (dn_outputs n)) = mset (map (de_target \<circ> snd) (out_edges d v))" .
  then have "count_list (map (edge_target (sd_edges d)) (dn_outputs n)) w =
      count_list (map (de_target \<circ> snd) (out_edges d v)) w"
    by (metis count_mset)
  also have "\<dots> = length (filter (\<lambda>(_, e). de_target e = w) (out_edges d v))"
    by (rule count_list_targets)
  finally show "count_list (map (edge_target (sd_edges d)) (dn_outputs n)) w =
     length (filter (\<lambda>(_, e). de_target e = w) (out_edges d v))" .
qed

lemma kahn_step:
  assumes wf: "dag_wf d" and ki: "kahn_inv d deg (v # queue) order" and n: "map_of (sd_nodes d) v = Some n"
  shows "kahn_inv d (fst (relax_edges (sd_edges d) (dn_outputs n) deg []))
    (queue @ sort (snd (relax_edges (sd_edges d) (dn_outputs n) deg []))) (order @ [v])"
proof -
  let ?c = "count_list (map (edge_target (sd_edges d)) (dn_outputs n))"
  have v: "v \<notin> set order" "v \<notin> set queue" using ki by (auto simp: kahn_inv_def)
  have rem: "remaining d order w = remaining d (order @ [v]) w + ?c w" for w
    using remaining_snoc [OF v(1)] outputs_targets(2) [OF wf n] by simp
  have deg: "map_of (sd_nodes d) w \<noteq> None \<Longrightarrow> map_of deg w = Some (remaining d order w)" for w
    using ki by (simp add: kahn_inv_def)
  have node: "map_of (sd_nodes d) w \<noteq> None" if "?c w > 0" for w
  proof -
    have "filter (\<lambda>(_, e). de_target e = w) (out_edges d v) \<noteq> []"
      using that outputs_targets(2) [OF wf n, of w] by auto
    then obtain i e where "(i, e) \<in> set (sd_edges d)" "de_target e = w"
      by (auto simp: filter_empty_conv out_edges_def)
    then show ?thesis using edge_in_set [OF wf] by (auto simp: edge_ok_def)
  qed
  have "\<forall>w. ?c w > 0 \<longrightarrow> (\<exists>k. map_of deg w = Some k \<and> ?c w \<le> k)"
    using deg node rem by auto
  from relax_edges_spec [OF outputs_targets(1) [OF wf n] this, of "[]"] obtain deg' new where
    r: "relax_edges (sd_edges d) (dn_outputs n) deg [] = (deg', new)"
      "\<And>w. map_of deg' w = map_option (\<lambda>k. k - ?c w) (map_of deg w)" "distinct new"
      "\<And>w. w \<in> set new \<longleftrightarrow> ?c w > 0 \<and> map_of deg w = Some (?c w)"
    by auto
  have ready: "w \<in> set order \<union> set (v # queue) \<longleftrightarrow> map_of (sd_nodes d) w \<noteq> None \<and> remaining d order w = 0" for w
    using ki by (simp add: kahn_inv_def)
  have new: "w \<in> set new \<longleftrightarrow> ?c w > 0 \<and> remaining d (order @ [v]) w = 0" for w
    using r(4) [of w] deg [OF node, of w] rem [of w] by auto
  have fresh: "w \<notin> set order \<union> set (v # queue)" if "w \<in> set new" for w
    using that ready [of w] new [of w] rem [of w] by auto
  have "kahn_inv d deg' (queue @ sort new) (order @ [v])"
    unfolding kahn_inv_def
  proof (intro conjI allI impI)
    show "distinct ((order @ [v]) @ queue @ sort new)"
      using conjunct1 [OF ki [unfolded kahn_inv_def]] r(3) by (auto dest: fresh)
    show "map_of deg' w = Some (remaining d (order @ [v]) w)" if "map_of (sd_nodes d) w \<noteq> None" for w
      using that by (simp add: r(2) deg rem [of w])
    show "w \<in> set (order @ [v]) \<union> set (queue @ sort new) \<longleftrightarrow>
        map_of (sd_nodes d) w \<noteq> None \<and> remaining d (order @ [v]) w = 0" for w
      using ready [of w] new [of w] rem [of w] node [of w] by auto
    have "remaining d order v = 0" using ready [of v] by simp
    then show "topo_sorted (dag_rel d) (order @ [v])"
      using ki by (simp add: kahn_inv_def topo_sorted_snoc remaining_0)
  qed
  then show ?thesis by (simp add: r(1))
qed

lemma kahn_order_bound:
  assumes "dag_wf d" "kahn_inv d deg queue order"
  shows "length order + length queue \<le> length (sd_nodes d)"
proof -
  have "set (order @ queue) \<subseteq> set (map fst (sd_nodes d))"
    using assms(2) by (force simp: kahn_inv_def map_of_eq_None_iff)
  then have "card (set (order @ queue)) \<le> card (set (map fst (sd_nodes d)))" by (rule card_mono [rotated]) simp
  moreover have "distinct (order @ queue)" using assms(2) by (simp add: kahn_inv_def)
  moreover have "distinct (map fst (sd_nodes d))" using dag_wfD(1) [OF assms(1)] by (simp add: wf_map_def)
  ultimately show ?thesis by (simp only: distinct_card length_append length_map)
qed

lemma kahn_loop_spec:
  assumes "dag_wf d" "kahn_inv d deg queue order"
  shows "\<exists>order' deg'. kahn_loop d deg queue order (length order) = Some (order', length order') \<and>
    kahn_inv d deg' [] order'"
  using assms(2)
proof (induction "length (sd_nodes d) - length order" arbitrary: deg queue order rule: less_induct)
  case less
  show ?case
  proof (cases queue)
    case Nil
    then show ?thesis using less.prems by (subst kahn_loop.simps) auto
  next
    case (Cons v rest)
    have "v \<in> set order \<union> set queue" using Cons by simp
    then have "map_of (sd_nodes d) v \<noteq> None"
      using less.prems unfolding kahn_inv_def by blast
    then obtain n where n: "map_of (sd_nodes d) v = Some n" by blast
    note inv1 = kahn_step [OF assms(1) less.prems [unfolded Cons] n]
    have "length (sd_nodes d) - length (order @ [v]) < length (sd_nodes d) - length order"
      using kahn_order_bound [OF assms(1) less.prems] by (simp add: Cons)
    from less.hyps [OF this inv1] show ?thesis
      by (subst kahn_loop.simps) (simp add: Cons n)
  qed
qed

lemma map_of_in_degrees_nodes:
  "map_of (fold (\<lambda>(_, n) m. if contains_key m (dn_id n) then m else AList.update (dn_id n) 0 m) ns m0) v =
   (case map_of m0 v of Some k \<Rightarrow> Some k
    | None \<Rightarrow> if v \<in> (dn_id \<circ> snd) ` set ns then Some 0 else None)"
proof (induction ns arbitrary: m0)
  case (Cons x ns)
  have "contains_key m0 (dn_id (snd x)) = (map_of m0 (dn_id (snd x)) \<noteq> None)"
    by (simp add: contains_key_def)
  then show ?case
    by (cases x; cases "map_of m0 (dn_id (snd x))") (auto simp: Cons.IH split: option.split)
qed (simp split: option.split)

lemma map_of_in_degrees_edges:
  "map_of (fold (\<lambda>(_, e) m. AList.update (de_target e) (unwrap_or (map_of m (de_target e)) 0 + 1) m) es m0) v =
   (if count_list (map (de_target \<circ> snd) es) v = 0 then map_of m0 v
    else Some (unwrap_or (map_of m0 v) 0 + count_list (map (de_target \<circ> snd) es) v))"
  by (induction es arbitrary: m0) auto

lemma wf_in_degrees [simp]: "wf_map (in_degrees d)"
proof -
  have 1: "wf_map m0 \<Longrightarrow> wf_map (fold (\<lambda>(_, n) m. if contains_key m (dn_id n) then m
      else AList.update (dn_id n) 0 m) ns m0)" for ns :: "(node_id \<times> 'a dag_node) list" and m0 :: "(node_id, nat) hashmap"
    by (induction ns arbitrary: m0) auto
  have 2: "wf_map m0 \<Longrightarrow> wf_map (fold (\<lambda>(_, e) m. AList.update (de_target e)
      (unwrap_or (map_of m (de_target e)) 0 + 1) m) es m0)" for es :: "(edge_id \<times> dag_edge) list" and m0 :: "(node_id, nat) hashmap"
    by (induction es arbitrary: m0) auto
  show ?thesis unfolding in_degrees_def by (intro 2 1) simp
qed

lemma in_degrees_spec:
  assumes "dag_wf d"
  shows "map_of (in_degrees d) v = (if map_of (sd_nodes d) v = None then None else Some (remaining d [] v))"
proof -
  have ids: "v \<in> (dn_id \<circ> snd) ` set (sd_nodes d) \<longleftrightarrow> map_of (sd_nodes d) v \<noteq> None"
  proof -
    have "dn_id n = i" if "(i, n) \<in> set (sd_nodes d)" for i n
      using that dag_wfD(1,3) [OF assms] by (simp add: wf_map_in_set node_ok_def)
    then have "(dn_id \<circ> snd) ` set (sd_nodes d) = fst ` set (sd_nodes d)" by force
    then show ?thesis by (simp add: map_of_eq_None_iff)
  qed
  have cnt: "count_list (map (de_target \<circ> snd) (sd_edges d)) v = remaining d [] v"
    by (simp add: count_list_targets remaining_def)
  have "remaining d [] v = 0" if "map_of (sd_nodes d) v = None"
    using no_edges_of_absent(2) [OF assms that] by (simp add: remaining_def in_edges_def)
  then show ?thesis
    using ids unfolding in_degrees_def map_of_in_degrees_edges map_of_in_degrees_nodes cnt by auto
qed

lemma kahn_topo_sort_spec:
  assumes "dag_wf d"
  shows "\<exists>order deg. kahn_topo_sort d = Some (order, length order) \<and> kahn_inv d deg [] order"
proof -
  let ?init = "sort (map fst (filter (\<lambda>(_, k). k = 0) (in_degrees d)))"
  have mem: "v \<in> set ?init \<longleftrightarrow> map_of (in_degrees d) v = Some 0" for v
    using wf_map_in_set [OF wf_in_degrees, of v 0 d] by force
  have "distinct ?init"
    using wf_in_degrees [of d] unfolding wf_map_def by (simp add: distinct_map_filter)
  then have "kahn_inv d (in_degrees d) ?init []"
    using mem by (auto simp: kahn_inv_def in_degrees_spec [OF assms] topo_sorted_def)
  from kahn_loop_spec [OF assms this] show ?thesis by (auto simp: kahn_topo_sort_def Let_def)
qed

text \<open>All nodes are ordered exactly when the graph has no cycle.\<close>

lemma kahn_complete_iff:
  assumes "dag_wf d" "kahn_inv d deg [] order"
  shows "length order < length (sd_nodes d) \<longleftrightarrow> \<not> acyclic (dag_rel d)"
    "\<not> length order < length (sd_nodes d) \<Longrightarrow> set order = {v. map_of (sd_nodes d) v \<noteq> None}"
proof -
  let ?V = "{v. map_of (sd_nodes d) v \<noteq> None}"
  have V: "?V = set (map fst (sd_nodes d))" by (auto simp: map_of_eq_None_iff)
  have "card ?V = length (sd_nodes d)"
    using dag_wfD(1) [OF assms(1)] unfolding V wf_map_def by (simp only: distinct_card length_map)
  moreover have "card (set order) = length order" "set order \<subseteq> ?V"
    using assms(2) by (auto simp: kahn_inv_def distinct_card)
  ultimately have card: "card ?V = length (sd_nodes d)" "card (set order) = length order" "set order \<subseteq> ?V"
    by auto
  have fin: "finite ?V" unfolding V by simp
  show all: "set order = ?V" if "\<not> length order < length (sd_nodes d)"
    using that card fin by (metis card_subset_eq card_mono le_antisym not_less)
  show "length order < length (sd_nodes d) \<longleftrightarrow> \<not> acyclic (dag_rel d)"
  proof
    assume less: "length order < length (sd_nodes d)"
    show "\<not> acyclic (dag_rel d)"
    proof
      assume "acyclic (dag_rel d)"
      moreover have "?V - set order \<noteq> {}" using less card by (metis Diff_eq_empty_iff card_mono fin finite_set not_less)
      moreover have "finite (dag_rel d)" by (simp add: dag_rel_def)
      ultimately obtain v where v: "v \<in> ?V - set order" "\<forall>u. (u, v) \<in> dag_rel d \<longrightarrow> u \<notin> ?V - set order"
        using acyclic_has_source [of "dag_rel d" "?V - set order"] by blast
      have "remaining d order v \<noteq> 0" using v(1) assms(2) by (auto simp: kahn_inv_def)
      then obtain u where u: "(u, v) \<in> dag_rel d" "u \<notin> set order" by (auto simp: remaining_0)
      then have "u \<in> ?V" using edge_in_set [OF assms(1)] by (auto simp: dag_rel_def edge_ok_def)
      then show False using u v(2) by blast
    qed
  next
    assume cyc: "\<not> acyclic (dag_rel d)"
    show "length order < length (sd_nodes d)"
    proof (rule ccontr)
      assume "\<not> length order < length (sd_nodes d)"
      from all [OF this] have "v \<in> set order" if "(u, v) \<in> dag_rel d" for u v
        using that edge_in_set [OF assms(1)] by (auto simp: dag_rel_def edge_ok_def)
      then have "acyclic (dag_rel d)"
        using assms(2) topo_sorted_acyclic [of "dag_rel d" order] by (auto simp: kahn_inv_def)
      then show False using cyc by simp
    qed
  qed
qed

section \<open>Finalisation\<close>

lemma finalize_rest_fields:
  "sd_nodes (finalize_rest d) = sd_nodes d" "sd_execution_order (finalize_rest d) = sd_execution_order d"
  "sd_edges (finalize_rest d) = map_vals (\<lambda>e. e\<lparr>de_channel_type := channel_type d e\<rparr>) (sd_edges d)"
  "sd_name_index (finalize_rest d) = sd_name_index d" "sd_next_node_id (finalize_rest d) = sd_next_node_id d"
  "sd_next_edge_id (finalize_rest d) = sd_next_edge_id d" "sd_finalized (finalize_rest d)"
  by (simp_all add: finalize_rest_def classify_source_sink_nodes_def identify_shared_stages_def
      derive_channel_types_def)

lemma finalize_rest_derived:
  "sd_shared_stages (finalize_rest d) = fold (\<lambda>(_, n) m. if length (dn_outputs n) > 1
     then AList.update (dn_id n) (stage_of (derive_channel_types d) n) m else m) (sd_nodes d) []"
  "sd_source_nodes (finalize_rest d) = sort (map dn_id (filter (\<lambda>n. dn_inputs n = []) (map snd (sd_nodes d))))"
  "sd_sink_nodes (finalize_rest d) = sort (map dn_id (filter (\<lambda>n. dn_outputs n = []) (map snd (sd_nodes d))))"
proof -
  have "sd_nodes (derive_channel_types d) = sd_nodes d" by (simp add: derive_channel_types_def)
  then show "sd_shared_stages (finalize_rest d) = fold (\<lambda>(_, n) m. if length (dn_outputs n) > 1
     then AList.update (dn_id n) (stage_of (derive_channel_types d) n) m else m) (sd_nodes d) []"
  "sd_source_nodes (finalize_rest d) = sort (map dn_id (filter (\<lambda>n. dn_inputs n = []) (map snd (sd_nodes d))))"
  "sd_sink_nodes (finalize_rest d) = sort (map dn_id (filter (\<lambda>n. dn_outputs n = []) (map snd (sd_nodes d))))"
    by (simp_all add: finalize_rest_def classify_source_sink_nodes_def identify_shared_stages_def)
qed

lemma channel_type_order [simp]: "channel_type (d\<lparr>sd_execution_order := xs\<rparr>) e = channel_type d e"
  by (simp add: channel_type_def incoming_edge_count_def outgoing_edge_count_def)

lemma edges_of_map_vals:
  assumes "\<And>e. de_source (f e) = de_source e \<and> de_target (f e) = de_target e"
  shows "map fst (filter (\<lambda>(_, e). de_source e = v) (map_vals f m)) = map fst (filter (\<lambda>(_, e). de_source e = v) m)"
    "map fst (filter (\<lambda>(_, e). de_target e = v) (map_vals f m)) = map fst (filter (\<lambda>(_, e). de_target e = v) m)"
  by (induction m) (simp_all add: map_vals_def case_prod_unfold assms)

lemma finalize_rest_wf: "dag_wf d \<Longrightarrow> dag_wf (finalize_rest d)"
proof -
  assume wf: "dag_wf d"
  have "node_ok (finalize_rest d) i n" if "map_of (sd_nodes d) i = Some n" for i n
    using dag_wfD(3) [OF wf that]
    by (simp add: node_ok_def out_edges_def in_edges_def finalize_rest_fields edges_of_map_vals)
  moreover have "edge_ok (finalize_rest d) i e"
    if "map_of (map_vals (\<lambda>e. e\<lparr>de_channel_type := channel_type d e\<rparr>) (sd_edges d)) i = Some e" for i e
    using that dag_wfD(4) [OF wf] by (auto simp: map_of_map_vals edge_ok_def finalize_rest_fields)
  ultimately show ?thesis using wf by (simp add: dag_wf_def finalize_rest_fields)
qed

lemma dag_wf_order [simp]: "dag_wf (d\<lparr>sd_execution_order := xs\<rparr>) = dag_wf d"
  by (simp add: dag_wf_def node_ok_def edge_ok_def out_edges_def in_edges_def)

lemma compute_execution_order_spec:
  assumes "dag_wf d"
  shows "\<exists>order. compute_execution_order d =
      Some (if acyclic (dag_rel d) then (d\<lparr>sd_execution_order := order\<rparr>, None) else (d, Some (cycle_error d order))) \<and>
    (acyclic (dag_rel d) \<longrightarrow> distinct order \<and> set order = dom (map_of (sd_nodes d)) \<and> topo_sorted (dag_rel d) order)"
proof -
  obtain order deg where k: "kahn_topo_sort d = Some (order, length order)" "kahn_inv d deg [] order"
    using kahn_topo_sort_spec [OF assms] by blast
  note c = kahn_complete_iff [OF assms k(2)]
  have "distinct order \<and> topo_sorted (dag_rel d) order" using k(2) by (simp add: kahn_inv_def)
  then show ?thesis
    using c by (intro exI [of _ order]) (auto simp: compute_execution_order_def k(1) dom_def)
qed

lemma check_fan_out_None: "check_fan_out_limits d = None \<longleftrightarrow> (\<forall>(_, n) \<in> set (sd_nodes d). length (dn_outputs n) \<le> max_fan_out)"
proof -
  have "check_fan_out_limits d = None \<longleftrightarrow> find (\<lambda>n. length (dn_outputs n) > max_fan_out) (map snd (sd_nodes d)) = None"
    by (simp add: check_fan_out_limits_def split: option.split)
  then show ?thesis by (auto simp: find_None_iff not_less)
qed

lemma check_connected_None: "check_connected d = None \<longleftrightarrow> (\<forall>(_, n) \<in> set (sd_nodes d). \<not> disconnected n)"
  by (auto simp: check_connected_def find_None_iff)

definition finalizable :: "'ty streaming_dag \<Rightarrow> bool" where
  "finalizable d \<longleftrightarrow>
     sd_nodes d \<noteq> [] \<and> (\<forall>(_, n) \<in> set (sd_nodes d). length (dn_outputs n) \<le> max_fan_out) \<and>
     acyclic (dag_rel d) \<and> (\<forall>(_, n) \<in> set (sd_nodes d). \<not> disconnected n)"

lemma check_connected_order [simp]: "check_connected (d\<lparr>sd_execution_order := xs\<rparr>) = check_connected d"
  by (simp add: check_connected_def)

lemma dag_finalize_cases:
  assumes "dag_wf d"
  shows "\<exists>d' r. dag_finalize d = Some (d', r) \<and> dag_wf d' \<and> (r = None \<longleftrightarrow> finalizable d) \<and>
    (finalizable d \<longrightarrow> (\<exists>order. d' = finalize_rest (d\<lparr>sd_execution_order := order\<rparr>) \<and> distinct order \<and>
       set order = dom (map_of (sd_nodes d)) \<and> topo_sorted (dag_rel d) order))"
proof -
  obtain order where o: "compute_execution_order d =
      Some (if acyclic (dag_rel d) then (d\<lparr>sd_execution_order := order\<rparr>, None) else (d, Some (cycle_error d order)))"
    "acyclic (dag_rel d) \<longrightarrow> distinct order \<and> set order = dom (map_of (sd_nodes d)) \<and> topo_sorted (dag_rel d) order"
    using compute_execution_order_spec [OF assms] by blast
  show ?thesis
    using assms o(2) check_fan_out_None [of d] check_connected_None [of d] finalize_rest_wf [of "d\<lparr>sd_execution_order := order\<rparr>"]
    by (auto simp: dag_finalize_def o(1) finalizable_def split: option.split)
qed

section \<open>Graphs built by the operations\<close>

datatype 'ty dag_op = OpAddNode string dag_node_type "'ty schema" | OpAddEdge node_id node_id | OpFinalize

fun dag_step :: "'ty dag_op \<Rightarrow> 'ty streaming_dag \<Rightarrow> 'ty streaming_dag" where
  "dag_step (OpAddNode name ty sch) d = fst (add_node d name ty sch)"
| "dag_step (OpAddEdge u v) d = fst (add_edge d u v)"
| "dag_step OpFinalize d = (case dag_finalize d of Some (d', _) \<Rightarrow> d' | None \<Rightarrow> d)"

abbreviation dag_build :: "'ty dag_op list \<Rightarrow> 'ty streaming_dag" where
  "dag_build ops \<equiv> fold dag_step ops dag_new"

lemma dag_step_wf: "dag_wf d \<Longrightarrow> dag_wf (dag_step op d)"
  by (cases op) (use add_node_wf add_edge_wf dag_finalize_cases in \<open>fastforce+\<close>)

lemma dag_build_wf: "dag_wf (dag_build ops)"
  by (rule fold_invariant [where Q = "\<lambda>_. True"]) (auto intro: dag_step_wf)

section \<open>Properties\<close>

text \<open>
  The condition of a successful finalisation, over the edges of the graph. A source needs an outgoing edge, a sink an
  incoming one and any other node one of either kind: an operator that leads nowhere, or that nothing feeds, is accepted.
\<close>

definition linked :: "'ty streaming_dag \<Rightarrow> node_id \<Rightarrow> 'ty dag_node \<Rightarrow> bool" where
  "linked d v n \<longleftrightarrow>
     (case dn_node_type n of
        Source \<Rightarrow> out_edges d v \<noteq> []
      | Sink \<Rightarrow> in_edges d v \<noteq> []
      | _ \<Rightarrow> out_edges d v \<noteq> [] \<or> in_edges d v \<noteq> [])"

definition runnable :: "'ty streaming_dag \<Rightarrow> bool" where
  "runnable d \<longleftrightarrow>
     sd_nodes d \<noteq> [] \<and> (\<forall>(v, n) \<in> set (sd_nodes d). length (out_edges d v) \<le> 8 \<and> linked d v n) \<and> acyclic (dag_rel d)"

lemma node_links:
  assumes "dag_wf d" "(v, n) \<in> set (sd_nodes d)"
  shows "length (dn_outputs n) = length (out_edges d v)" "length (dn_inputs n) = length (in_edges d v)"
proof -
  have "map_of (sd_nodes d) v = Some n" using assms dag_wfD(1) [OF assms(1)] by (simp add: wf_map_in_set)
  then have "mset (dn_outputs n) = mset (map fst (out_edges d v))" "mset (dn_inputs n) = mset (map fst (in_edges d v))"
    using dag_wfD(3) [OF assms(1)] by (auto simp: node_ok_def)
  from this [THEN mset_eq_length] show "length (dn_outputs n) = length (out_edges d v)" "length (dn_inputs n) = length (in_edges d v)"
    by simp_all
qed

lemma finalizable_iff_runnable:
  assumes "dag_wf d"
  shows "finalizable d \<longleftrightarrow> runnable d"
proof -
  have "length (dn_outputs n) \<le> max_fan_out \<and> \<not> disconnected n \<longleftrightarrow> length (out_edges d v) \<le> 8 \<and> linked d v n"
    if "(v, n) \<in> set (sd_nodes d)" for v n
  proof -
    note l = node_links [OF assms that]
    have "dn_outputs n = [] \<longleftrightarrow> out_edges d v = []" "dn_inputs n = [] \<longleftrightarrow> in_edges d v = []"
      using l by (metis length_0_conv)+
    then have "disconnected n \<longleftrightarrow> \<not> linked d v n"
      unfolding disconnected_def linked_def by (cases "dn_node_type n") auto
    then show ?thesis by (simp add: l(1) max_fan_out_def)
  qed
  then show ?thesis unfolding finalizable_def runnable_def by blast
qed

text \<open>
  Finalising a graph built by any sequence of operations ends. It succeeds exactly when the graph is not
  empty, no node has more than eight outgoing edges, the edges have no cycle, every source has an outgoing edge, every
  sink an incoming one and every other node at least one edge, incoming or outgoing; the
  execution order then lists every node once, each after all the nodes that feed it (C6).
\<close>

theorem dag_finalize_spec:
  "\<exists>d' r. dag_finalize (dag_build ops) = Some (d', r) \<and> (r = None \<longleftrightarrow> runnable (dag_build ops)) \<and>
     (r = None \<longrightarrow> sd_finalized d' \<and> distinct (sd_execution_order d') \<and>
        set (sd_execution_order d') = dom (map_of (sd_nodes (dag_build ops))) \<and>
        topo_sorted (dag_rel (dag_build ops)) (sd_execution_order d'))"
  using dag_finalize_cases [OF dag_build_wf, of ops] finalizable_iff_runnable [OF dag_build_wf, of ops]
  by (auto simp: finalize_rest_fields)

definition diamond :: "unit dag_op list" where
  "diamond =
     [OpAddNode ''src'' Source [], OpAddNode ''a'' StatelessOperator [], OpAddNode ''b'' StatefulOperator [],
      OpAddNode ''out'' Sink [], OpAddEdge 0 2, OpAddEdge 0 1, OpAddEdge 1 3, OpAddEdge 2 3]"

lemma diamond_finalize: "map_option (\<lambda>(d, r). (sd_execution_order d, r)) (dag_finalize (dag_build diamond)) = Some ([0, 1, 2, 3], None)"
  unfolding diamond_def by code_simp

theorem dag_finalize_spec_witness:
  "runnable (dag_build diamond) \<and>
   topo_sorted (dag_rel (dag_build diamond)) [0, 1, 2, 3]"
  using dag_finalize_spec [of diamond] diamond_finalize by auto

text \<open>An operator without outputs and an operator without inputs both pass the check of the connections.\<close>

lemma dead_end_accepted:
  "map_option snd (dag_finalize (dag_build
     [OpAddNode ''src'' Source ([] :: unit schema), OpAddNode ''a'' StatelessOperator [], OpAddNode ''b'' StatelessOperator [],
      OpAddNode ''out'' Sink [], OpAddEdge 0 1, OpAddEdge 2 3])) = Some None"
  by code_simp

lemma edge_counts:
  assumes "dag_wf d" "map_of (sd_nodes d) v \<noteq> None"
  shows "outgoing_edge_count d v = length (out_edges d v)" "incoming_edge_count d v = length (in_edges d v)"
proof -
  obtain n where n: "map_of (sd_nodes d) v = Some n" using assms(2) by blast
  have "mset (dn_outputs n) = mset (map fst (out_edges d v))" "mset (dn_inputs n) = mset (map fst (in_edges d v))"
    using dag_wfD(3) [OF assms(1) n] by (simp_all add: node_ok_def)
  from this [THEN mset_eq_length] show "outgoing_edge_count d v = length (out_edges d v)"
    "incoming_edge_count d v = length (in_edges d v)"
    by (simp_all add: outgoing_edge_count_def incoming_edge_count_def n)
qed

lemma map_of_fold_stages:
  assumes "wf_map ns" "\<forall>(i, n) \<in> set ns. dn_id n = i"
  shows "map_of (fold (\<lambda>(_, n) m. if P n then AList.update (dn_id n) (g n) m else m) ns m0) v =
    (case map_of ns v of Some n \<Rightarrow> if P n then Some (g n) else map_of m0 v | None \<Rightarrow> map_of m0 v)"
  using assms
proof (induction ns arbitrary: m0)
  case (Cons x ns)
  obtain i n where x: "x = (i, n)" by (cases x)
  have "map_of ns i = None" "dn_id n = i" "wf_map ns"
    using Cons.prems by (auto simp: x wf_map_def map_of_eq_None_iff)
  then show ?case using Cons.prems by (auto simp: x Cons.IH split: option.split)
qed simp

lemma map_filter_total:
  "\<forall>x \<in> set xs. f x \<noteq> None \<Longrightarrow> List.map_filter f xs = map (\<lambda>x. the (f x)) xs"
  by (induction xs) (auto simp: List.map_filter_simps)

lemma stage_of_spec:
  assumes "dag_wf d" "map_of (sd_nodes d) v = Some n"
  shows "ss_producer_node (stage_of d n) = v" "ss_consumer_count (stage_of d n) = length (out_edges d v)"
    "mset (ss_consumer_nodes (stage_of d n)) = mset (map (de_target \<circ> snd) (out_edges d v))"
proof -
  have "List.map_filter (\<lambda>eid. map_option de_target (map_of (sd_edges d) eid)) (dn_outputs n) =
      map (edge_target (sd_edges d)) (dn_outputs n)"
    using outputs_targets(1) [OF assms] by (subst map_filter_total) (auto simp: option.map_sel)
  then have c: "ss_consumer_nodes (stage_of d n) = map (edge_target (sd_edges d)) (dn_outputs n)"
    "ss_consumer_count (stage_of d n) = length (ss_consumer_nodes (stage_of d n))"
    by (simp_all add: stage_of_def Let_def)
  show m: "mset (ss_consumer_nodes (stage_of d n)) = mset (map (de_target \<circ> snd) (out_edges d v))"
    unfolding c(1) by (rule outputs_targets(3) [OF assms])
  show "ss_consumer_count (stage_of d n) = length (out_edges d v)"
    unfolding c(2) using mset_eq_length [OF m] by simp
  show "ss_producer_node (stage_of d n) = v"
    using dag_wfD(3) [OF assms] by (simp add: stage_of_def Let_def node_ok_def)
qed

lemma dag_rel_iff:
  "(u, v) \<in> dag_rel d \<longleftrightarrow> (\<exists>i e. (i, e) \<in> set (sd_edges d) \<and> de_source e = u \<and> de_target e = v)"
  by (force simp: dag_rel_def)

lemma node_adjacency_empty:
  assumes "dag_wf d" "map_of (sd_nodes d) v = Some n"
  shows "dn_inputs n = [] \<longleftrightarrow> (\<forall>u. (u, v) \<notin> dag_rel d)" "dn_outputs n = [] \<longleftrightarrow> (\<forall>u. (v, u) \<notin> dag_rel d)"
proof -
  have m: "mset (dn_inputs n) = mset (map fst (in_edges d v))" "mset (dn_outputs n) = mset (map fst (out_edges d v))"
    using dag_wfD(3) [OF assms] by (simp_all add: node_ok_def)
  have "dn_inputs n = [] \<longleftrightarrow> in_edges d v = []" "dn_outputs n = [] \<longleftrightarrow> out_edges d v = []"
    using m by (metis mset_zero_iff map_is_Nil_conv)+
  then show "dn_inputs n = [] \<longleftrightarrow> (\<forall>u. (u, v) \<notin> dag_rel d)" "dn_outputs n = [] \<longleftrightarrow> (\<forall>u. (v, u) \<notin> dag_rel d)"
    by (auto simp: in_edges_def out_edges_def dag_rel_iff filter_empty_conv)
qed

lemma classify_list:
  assumes "dag_wf d" "\<And>v n. map_of (sd_nodes d) v = Some n \<Longrightarrow> P n \<longleftrightarrow> Q v"
  shows "sort (map dn_id (filter P (map snd (sd_nodes d)))) =
    sorted_list_of_set {v \<in> dom (map_of (sd_nodes d)). Q v}" (is "?xs = sorted_list_of_set ?S")
proof -
  have ids: "dn_id n = i \<and> map_of (sd_nodes d) i = Some n" if "(i, n) \<in> set (sd_nodes d)" for i n
    using that dag_wfD(1,3) [OF assms(1)] by (simp add: wf_map_in_set node_ok_def)
  have "map dn_id (map snd (sd_nodes d)) = map fst (sd_nodes d)" using ids by auto
  then have "distinct (map dn_id (map snd (sd_nodes d)))"
    using dag_wfD(1) [OF assms(1)] unfolding wf_map_def by (simp only:)
  then have "distinct (map dn_id (filter P (map snd (sd_nodes d))))" by (rule distinct_map_filter)
  moreover have "dn_id ` {n \<in> snd ` set (sd_nodes d). P n} = {v \<in> dom (map_of (sd_nodes d)). Q v}"
  proof (intro equalityI subsetI)
    fix v assume "v \<in> dn_id ` {n \<in> snd ` set (sd_nodes d). P n}"
    then obtain i n where "(i, n) \<in> set (sd_nodes d)" "P n" "v = dn_id n" by auto
    then show "v \<in> {v \<in> dom (map_of (sd_nodes d)). Q v}" using ids [of i n] assms(2) [of v n] by auto
  next
    fix v assume "v \<in> {v \<in> dom (map_of (sd_nodes d)). Q v}"
    then obtain n where n: "map_of (sd_nodes d) v = Some n" "Q v" by auto
    then have "(v, n) \<in> set (sd_nodes d)" by (simp add: map_of_SomeD)
    then show "v \<in> dn_id ` {n \<in> snd ` set (sd_nodes d). P n}"
      using ids [of v n] assms(2) [OF n(1)] n(2) by force
  qed
  ultimately have "sorted ?xs" "distinct ?xs" "set ?xs = ?S" by simp_all
  then show ?thesis using sorted_list_of_set.idem_if_sorted_distinct [of ?xs] by simp
qed

text \<open>
  What a successful finalisation derives agrees with the edges. An edge is multi-producer when its target
  has several inputs, otherwise multi-consumer when its source has several outputs. Exactly the nodes with
  several outputs are shared stages, with one consumer per outgoing edge. The source (sink) nodes are the
  nodes without predecessor (successor), in the order of their identifiers.
\<close>

theorem dag_finalize_derives:
  assumes "dag_finalize (dag_build ops) = Some (d', None)"
  shows "let d = dag_build ops in
    (\<forall>i e. map_of (sd_edges d') i = Some e \<longrightarrow>
       de_channel_type e = (if length (in_edges d (de_target e)) > 1 then Mpsc
                            else if length (out_edges d (de_source e)) > 1 then Spmc else Spsc)) \<and>
    (\<forall>v. (\<exists>s. map_of (sd_shared_stages d') v = Some s) \<longleftrightarrow> length (out_edges d v) > 1) \<and>
    (\<forall>v s. map_of (sd_shared_stages d') v = Some s \<longrightarrow>
       ss_producer_node s = v \<and> ss_consumer_count s = length (out_edges d v) \<and>
       mset (ss_consumer_nodes s) = mset (map (de_target \<circ> snd) (out_edges d v))) \<and>
    sd_source_nodes d' = sorted_list_of_set {v \<in> dom (map_of (sd_nodes d)). \<forall>u. (u, v) \<notin> dag_rel d} \<and>
    sd_sink_nodes d' = sorted_list_of_set {v \<in> dom (map_of (sd_nodes d)). \<forall>u. (v, u) \<notin> dag_rel d}"
proof -
  define d where "d = dag_build ops"
  have wf: "dag_wf d" unfolding d_def by (rule dag_build_wf)
  obtain order where d': "d' = finalize_rest (d\<lparr>sd_execution_order := order\<rparr>)"
    using dag_finalize_cases [OF wf] assms unfolding d_def by auto
  let ?d1 = "d\<lparr>sd_execution_order := order\<rparr>"
  let ?d2 = "derive_channel_types ?d1"
  have fields: "sd_edges d' = map_vals (\<lambda>e. e\<lparr>de_channel_type := channel_type d e\<rparr>) (sd_edges d)"
    "sd_shared_stages d' = fold (\<lambda>(_, n) m. if length (dn_outputs n) > 1
       then AList.update (dn_id n) (stage_of ?d2 n) m else m) (sd_nodes d) []"
    "sd_source_nodes d' = sort (map dn_id (filter (\<lambda>n. dn_inputs n = []) (map snd (sd_nodes d))))"
    "sd_sink_nodes d' = sort (map dn_id (filter (\<lambda>n. dn_outputs n = []) (map snd (sd_nodes d))))"
    by (simp_all add: d' finalize_rest_fields finalize_rest_derived)
  have stage: "stage_of ?d2 n = stage_of d n" for n
    by (simp add: stage_of_def derive_channel_types_def map_of_map_vals option.map_comp comp_def)
  have ids: "\<forall>(i, n) \<in> set (sd_nodes d). dn_id n = i"
    using dag_wfD(1,3) [OF wf] by (auto simp: wf_map_in_set node_ok_def)
  have shared: "map_of (sd_shared_stages d') v =
      (case map_of (sd_nodes d) v of Some n \<Rightarrow> if length (dn_outputs n) > 1 then Some (stage_of d n) else None
       | None \<Rightarrow> None)" for v
    unfolding fields(2) stage map_of_fold_stages [OF dag_wfD(1) [OF wf] ids] by (simp split: option.split)
  have outs: "length (dn_outputs n) = length (out_edges d v)" if "map_of (sd_nodes d) v = Some n" for v n
    using edge_counts(1) [OF wf, of v] that by (simp add: outgoing_edge_count_def)
  have 1: "de_channel_type e = (if length (in_edges d (de_target e)) > 1 then Mpsc
      else if length (out_edges d (de_source e)) > 1 then Spmc else Spsc)"
    if found: "map_of (sd_edges d') i = Some e" for i e
  proof -
    obtain e0 where e0: "map_of (sd_edges d) i = Some e0" "e = e0\<lparr>de_channel_type := channel_type d e0\<rparr>"
      using found by (auto simp: fields(1) map_of_map_vals)
    from dag_wfD(4) [OF wf e0(1)] show ?thesis
      by (simp add: e0(2) channel_type_def edge_ok_def edge_counts [OF wf])
  qed
  have 2: "(\<exists>s. map_of (sd_shared_stages d') v = Some s) \<longleftrightarrow> length (out_edges d v) > 1" for v
    using outs [of v] no_edges_of_absent(1) [OF wf, of v] by (auto simp: shared split: option.split)
  have 3: "ss_producer_node s = v \<and> ss_consumer_count s = length (out_edges d v) \<and>
      mset (ss_consumer_nodes s) = mset (map (de_target \<circ> snd) (out_edges d v))"
    if "map_of (sd_shared_stages d') v = Some s" for v s
    using that stage_of_spec [OF wf, of v] by (auto simp: shared split: option.splits if_splits)
  have 4: "sd_source_nodes d' = sorted_list_of_set {v \<in> dom (map_of (sd_nodes d)). \<forall>u. (u, v) \<notin> dag_rel d}"
    "sd_sink_nodes d' = sorted_list_of_set {v \<in> dom (map_of (sd_nodes d)). \<forall>u. (v, u) \<notin> dag_rel d}"
    unfolding fields(3,4)
    by (rule classify_list [OF wf], erule node_adjacency_empty [OF wf])+
  show ?thesis unfolding Let_def d_def [symmetric] using 1 2 3 4 by blast
qed

theorem dag_finalize_derives_witness:
  "\<exists>d'. dag_finalize (dag_build diamond) = Some (d', None) \<and> sd_source_nodes d' = [0] \<and>
     (\<exists>s. map_of (sd_shared_stages d') 0 = Some s \<and> ss_consumer_count s = 2)"
proof -
  obtain d' where d': "dag_finalize (dag_build diamond) = Some (d', None)"
    using diamond_finalize by (auto split: prod.splits)
  have o: "length (out_edges (dag_build diamond) 0) = 2"
    "{v \<in> dom (map_of (sd_nodes (dag_build diamond))). \<forall>u. (u, v) \<notin> dag_rel (dag_build diamond)} = {0}"
    by (auto simp: diamond_def out_edges_def dag_rel_def add_node_def add_edge_def dag_new_def contains_key_def
        outgoing_edge_count_def incoming_edge_count_def Let_def split: if_splits)
  note spec = dag_finalize_derives [OF d', unfolded Let_def o]
  then obtain s where s: "map_of (sd_shared_stages d') 0 = Some s" using o(1) by (metis one_less_numeral_iff semiring_norm(76))
  then have "ss_consumer_count s = 2" using spec o(1) by metis
  then show ?thesis using d' s spec by simp
qed

lemma find_zip_None:
  assumes "length xs = length ys"
  shows "find (\<lambda>((_, a), _, b). a \<noteq> b) (zip xs ys) = None \<longleftrightarrow> map snd xs = map snd ys"
  using assms by (induction xs ys rule: list_induct2) auto

text \<open>Two connected nodes have compatible schemas: one is empty, or the field types agree in order.\<close>

definition schemas_compatible :: "'ty streaming_dag \<Rightarrow> bool" where
  "schemas_compatible d \<longleftrightarrow>
     (\<forall>(u, v) \<in> dag_rel d. \<forall>s t. map_of (sd_nodes d) u = Some s \<longrightarrow> map_of (sd_nodes d) v = Some t \<longrightarrow>
        dn_output_schema s = [] \<or> dn_output_schema t = [] \<or>
        map snd (dn_output_schema s) = map snd (dn_output_schema t))"

lemma check_schemas_loop_None: "check_schemas_loop d es = None \<longleftrightarrow> (\<forall>e \<in> set es. edge_mismatch d e = None)"
  by (induction es) (auto split: option.split)

lemma check_schemas_None: "check_schemas d = None \<longleftrightarrow> schemas_compatible d"
proof -
  have 1: "edge_mismatch d e = None \<longleftrightarrow>
      (\<forall>s t. map_of (sd_nodes d) (de_source e) = Some s \<longrightarrow> map_of (sd_nodes d) (de_target e) = Some t \<longrightarrow>
        dn_output_schema s = [] \<or> dn_output_schema t = [] \<or>
        map snd (dn_output_schema s) = map snd (dn_output_schema t))" for e
    by (auto simp: edge_mismatch_def Let_def find_zip_None dest: map_eq_imp_length_eq split: option.split)
  show ?thesis
    unfolding check_schemas_def check_schemas_loop_None 1 schemas_compatible_def dag_rel_def by fastforce
qed

text \<open>
  (C35) Validation of a graph built by any sequence of operations ends and accepts it exactly when finalisation
  accepts it and the schemas along every edge agree.
\<close>

theorem dag_validate_spec:
  "dag_validate (dag_build ops) \<noteq> None \<and>
   (dag_validate (dag_build ops) = Some None \<longleftrightarrow>
      finalizable (dag_build ops) \<and> schemas_compatible (dag_build ops))"
proof -
  define d where "d = dag_build ops"
  have wf: "dag_wf d" unfolding d_def by (rule dag_build_wf)
  obtain order deg where k: "kahn_topo_sort d = Some (order, length order)" "kahn_inv d deg [] order"
    using kahn_topo_sort_spec [OF wf] by blast
  have "check_acyclic d = Some (if acyclic (dag_rel d) then None else Some (cycle_error d order))"
    using kahn_complete_iff(1) [OF wf k(2)] by (simp add: check_acyclic_def k(1))
  then show ?thesis
    using check_fan_out_None [of d] check_connected_None [of d] check_schemas_None [of d]
    unfolding d_def [symmetric] by (auto simp: dag_validate_def finalizable_def split: option.split)
qed

text \<open>
  The node named in a cycle report need not lie on a cycle: here the first node is only fed by the cycle
  of the other two.
\<close>

lemma cycle_report_off_cycle:
  "let d = dag_build [OpAddNode ''out'' Sink ([] :: unit schema), OpAddNode ''a'' StatelessOperator [],
      OpAddNode ''b'' StatelessOperator [], OpAddEdge 1 2, OpAddEdge 2 1, OpAddEdge 2 0]
   in map_option snd (dag_finalize d) = Some (Some (CycleDetected ''out'')) \<and> (\<forall>u. (0, u) \<notin> dag_rel d)"
proof -
  let ?d = "dag_build [OpAddNode ''out'' Sink ([] :: unit schema), OpAddNode ''a'' StatelessOperator [],
      OpAddNode ''b'' StatelessOperator [], OpAddEdge 1 2, OpAddEdge 2 1, OpAddEdge 2 0]"
  have "map_option snd (dag_finalize ?d) = Some (Some (CycleDetected ''out''))" by code_simp
  moreover have "(0, u) \<notin> dag_rel ?d" for u
    by (simp add: dag_rel_def add_node_def add_edge_def dag_new_def contains_key_def
        outgoing_edge_count_def incoming_edge_count_def Let_def)
  ultimately show ?thesis by (simp add: Let_def)
qed

end
