(* ===== verification/Dag_Watermark.thy ===== *)
theory Dag_Watermark
  imports Dag_Ordering
begin

text \<open>
  Watermark propagation through the DAG, \<^verbatim>\<open>crates/laminar-core/src/dag/watermark.rs\<close>. Slots are
  indexed by node identifier; in a tracker built from a graph every dependency is a node of the graph,
  so the unchecked indexing of the code stays in range (\<^verbatim>\<open>dw_ok\<close>). The unset watermark is the least
  \<^verbatim>\<open>i64\<close>.
\<close>

section \<open>Operations\<close>

record dag_watermark_tracker =
  dw_watermarks :: "i64 list"
  dw_source_deps :: "node_id list list"
  dw_execution_order :: "node_id list"
  dw_updated_buffer :: "(node_id \<times> i64) list"
  dw_slot_count :: nat

abbreviation watermark_unset :: i64 where
  "watermark_unset \<equiv> i64_min"

definition slot_count_of :: "'ty streaming_dag \<Rightarrow> nat" where
  "slot_count_of d = (if sd_nodes d = [] then 0 else Max (set (map fst (sd_nodes d))) + 1)"

definition dw_from_dag :: "'ty streaming_dag \<Rightarrow> dag_watermark_tracker" where
  "dw_from_dag d =
     (let max_id = slot_count_of d
      in \<lparr>dw_watermarks = replicate max_id watermark_unset,
          dw_source_deps =
            fold (\<lambda>(_, e) deps. if de_target e < max_id
                     then deps[de_target e := deps ! de_target e @ [de_source e]] else deps)
              (sd_edges d) (replicate max_id []),
          dw_execution_order = sd_execution_order d, dw_updated_buffer = [], dw_slot_count = max_id\<rparr>)"

text \<open>The scan of the dependencies; \<^verbatim>\<open>None\<close> when one of them is unset.\<close>

fun dep_min :: "i64 list \<Rightarrow> node_id list \<Rightarrow> i64 \<Rightarrow> i64 option" where
  "dep_min ws [] m = Some m"
| "dep_min ws (dep # deps) m =
     (if ws ! dep = watermark_unset then None else dep_min ws deps (min m (ws ! dep)))"

definition dw_visit :: "node_id \<Rightarrow> dag_watermark_tracker \<Rightarrow> dag_watermark_tracker" where
  "dw_visit n t =
     (if n \<ge> dw_slot_count t \<or> dw_source_deps t ! n = [] then t
      else case dep_min (dw_watermarks t) (dw_source_deps t ! n) i64_max of
        None \<Rightarrow> t
      | Some min_wm \<Rightarrow>
          if min_wm > dw_watermarks t ! n
          then t\<lparr>dw_watermarks := (dw_watermarks t)[n := min_wm],
                 dw_updated_buffer := dw_updated_buffer t @ [(n, min_wm)]\<rparr>
          else t)"

definition dw_update_watermark ::
  "dag_watermark_tracker \<Rightarrow> node_id \<Rightarrow> i64 \<Rightarrow> dag_watermark_tracker \<times> (node_id \<times> i64) list" where
  "dw_update_watermark t src wm =
     (let t0 = t\<lparr>dw_updated_buffer := []\<rparr>
      in if src \<ge> dw_slot_count t0 then (t0, dw_updated_buffer t0)
         else if wm \<le> dw_watermarks t0 ! src then (t0, dw_updated_buffer t0)
         else
           let t1 = t0\<lparr>dw_watermarks := (dw_watermarks t0)[src := wm], dw_updated_buffer := [(src, wm)]\<rparr>;
               t2 = fold dw_visit (dw_execution_order t1) t1
           in (t2, dw_updated_buffer t2))"

definition dw_get_watermark :: "dag_watermark_tracker \<Rightarrow> node_id \<Rightarrow> i64 option" where
  "dw_get_watermark t n =
     (if n < dw_slot_count t \<and> dw_watermarks t ! n \<noteq> watermark_unset then Some (dw_watermarks t ! n) else None)"

definition dw_effective_watermark :: "dag_watermark_tracker \<Rightarrow> node_id \<Rightarrow> i64 option" where
  "dw_effective_watermark t n =
     (if n \<ge> dw_slot_count t then None
      else if dw_source_deps t ! n = [] then dw_get_watermark t n
      else dep_min (dw_watermarks t) (dw_source_deps t ! n) i64_max)"

definition dw_checkpoint :: "dag_watermark_tracker \<Rightarrow> i64 list" where
  "dw_checkpoint t = dw_watermarks t"

definition dw_restore :: "dag_watermark_tracker \<Rightarrow> i64 list \<Rightarrow> dag_watermark_tracker" where
  "dw_restore t checkpoint =
     (let len = min (dw_slot_count t) (length checkpoint)
      in t\<lparr>dw_watermarks := take len checkpoint @ drop len (dw_watermarks t)\<rparr>)"

section \<open>Propagation\<close>

text \<open>Values in range; every dependency has a slot.\<close>

definition dw_ok :: "dag_watermark_tracker \<Rightarrow> bool" where
  "dw_ok t \<longleftrightarrow>
     length (dw_watermarks t) = dw_slot_count t \<and> length (dw_source_deps t) = dw_slot_count t \<and>
     (\<forall>w \<in> set (dw_watermarks t). in_i64 w) \<and>
     (\<forall>deps \<in> set (dw_source_deps t). \<forall>u \<in> set deps. u < dw_slot_count t)"

abbreviation deps_of :: "dag_watermark_tracker \<Rightarrow> node_id \<Rightarrow> node_id list" where
  "deps_of t n \<equiv> dw_source_deps t ! n"

text \<open>The watermark a node should have: the least of its dependencies, unset if one is unset.\<close>

definition wm_of_deps :: "i64 list \<Rightarrow> node_id list \<Rightarrow> i64" where
  "wm_of_deps ws deps = Min ((!) ws ` set deps)"

lemma Min_insert_min: "finite S \<Longrightarrow> Min (insert (min a b) S) = min a (Min (insert b S))"
  for a b :: "'a :: linorder"
  by (cases "S = {}") (simp_all add: min.assoc)

lemma dep_min_spec:
  assumes "\<forall>u \<in> set deps. in_i64 (ws ! u)"
  shows "dep_min ws deps m =
    (if \<exists>u \<in> set deps. ws ! u = i64_min then None else Some (Min (insert m ((!) ws ` set deps))))"
  using assms by (induction deps arbitrary: m) (auto simp: Min_insert_min)

lemma dep_min_eq:
  assumes "\<forall>u \<in> set deps. in_i64 (ws ! u)" "deps \<noteq> []"
  shows "dep_min ws deps i64_max = (if wm_of_deps ws deps = i64_min then None else Some (wm_of_deps ws deps))"
proof -
  let ?S = "(!) ws ` set deps"
  have S: "finite ?S" "?S \<noteq> {}" using assms(2) by auto
  have ge: "\<forall>x \<in> ?S. i64_min \<le> x" "\<forall>x \<in> ?S. x \<le> i64_max" using assms(1) by (auto simp: in_i64_def)
  have "Min ?S = i64_min \<longleftrightarrow> i64_min \<in> ?S"
    using S ge(1) by (metis Min_eqI Min_in)
  moreover have "i64_min \<in> ?S \<longleftrightarrow> (\<exists>u \<in> set deps. ws ! u = i64_min)" by (auto simp: image_iff eq_commute)
  ultimately have iff: "(\<exists>u \<in> set deps. ws ! u = i64_min) \<longleftrightarrow> Min ?S = i64_min" by simp
  have "Min ?S \<le> i64_max" using S ge(2) Min_in by blast
  then have "Min (insert i64_max ?S) = Min ?S" using S by (simp add: min_absorb2)
  then show ?thesis using dep_min_spec [OF assms(1)] iff by (simp add: wm_of_deps_def)
qed

lemma wm_of_deps_mono:
  assumes "deps \<noteq> []" "\<And>u. u \<in> set deps \<Longrightarrow> ws ! u \<le> ws' ! u"
  shows "wm_of_deps ws deps \<le> wm_of_deps ws' deps"
proof -
  have "wm_of_deps ws' deps \<in> (!) ws' ` set deps"
    unfolding wm_of_deps_def using assms(1) by (intro Min_in) auto
  then obtain u where u: "u \<in> set deps" "wm_of_deps ws' deps = ws' ! u" by blast
  have "wm_of_deps ws deps \<le> ws ! u" unfolding wm_of_deps_def using u(1) by (intro Min_le) auto
  then show ?thesis using assms(2) [OF u(1)] u(2) by simp
qed

lemma in_i64_deps:
  assumes "dw_ok t" "n < dw_slot_count t"
  shows "\<forall>u \<in> set (deps_of t n). in_i64 (dw_watermarks t ! u)"
  using assms by (metis dw_ok_def nth_mem)

lemma dw_visit_eq:
  assumes "dw_ok t" "n < dw_slot_count t"
  shows "dw_visit n t =
    (if deps_of t n \<noteq> [] \<and> wm_of_deps (dw_watermarks t) (deps_of t n) > dw_watermarks t ! n
     then t\<lparr>dw_watermarks := (dw_watermarks t)[n := wm_of_deps (dw_watermarks t) (deps_of t n)],
            dw_updated_buffer := dw_updated_buffer t @ [(n, wm_of_deps (dw_watermarks t) (deps_of t n))]\<rparr>
     else t)"
proof -
  have "i64_min \<le> dw_watermarks t ! n" using assms by (auto simp: dw_ok_def in_i64_def)
  then show ?thesis
    using assms(2) dep_min_eq [OF in_i64_deps [OF assms]] by (auto simp: dw_visit_def)
qed

text \<open>A node is settled when its watermark is the one its dependencies give; sources always are.\<close>

definition settled :: "dag_watermark_tracker \<Rightarrow> node_id \<Rightarrow> bool" where
  "settled t n \<longleftrightarrow> (deps_of t n \<noteq> [] \<longrightarrow> dw_watermarks t ! n = wm_of_deps (dw_watermarks t) (deps_of t n))"

text \<open>
  A pass over the execution order, after the nodes \<^verbatim>\<open>done\<close>: the watermarks only grew since \<^verbatim>\<open>ws0\<close>, the
  visited nodes are settled, the others unchanged except for the updated source, and the buffer lists
  exactly the changes.
\<close>

definition pass_inv ::
  "dag_watermark_tracker \<Rightarrow> node_id \<Rightarrow> i64 \<Rightarrow> node_id list \<Rightarrow> dag_watermark_tracker \<Rightarrow> bool" where
  "pass_inv t0 src wm visited t \<longleftrightarrow>
     dw_ok t \<and> dw_source_deps t = dw_source_deps t0 \<and> dw_slot_count t = dw_slot_count t0 \<and>
     dw_execution_order t = dw_execution_order t0 \<and>
     (\<forall>n < dw_slot_count t0. dw_watermarks t0 ! n \<le> dw_watermarks t ! n) \<and>
     dw_watermarks t ! src = wm \<and>
     (\<forall>n < dw_slot_count t0. n \<notin> set visited \<or> deps_of t0 n = [] \<longrightarrow> n \<noteq> src \<longrightarrow>
        dw_watermarks t ! n = dw_watermarks t0 ! n) \<and>
     (\<forall>n \<in> set visited. settled t n) \<and>
     distinct (map fst (dw_updated_buffer t)) \<and>
     set (dw_updated_buffer t) = {(n, w). n < dw_slot_count t0 \<and> w = dw_watermarks t ! n \<and> w \<noteq> dw_watermarks t0 ! n}"

lemma pass_step:
  assumes pi: "pass_inv t0 src wm ys t" and n: "n < dw_slot_count t0" "n \<notin> set ys"
    and src: "src < dw_slot_count t0" "deps_of t0 src = []"
    and dep: "\<And>u. u \<in> set (deps_of t0 n) \<Longrightarrow> u \<in> set ys \<and> u \<noteq> n"
    and later: "\<And>v. v \<in> set ys \<Longrightarrow> n \<notin> set (deps_of t0 v)"
    and settled0: "settled t0 n"
  shows "pass_inv t0 src wm (ys @ [n]) (dw_visit n t)"
proof -
  have t: "dw_ok t" "dw_source_deps t = dw_source_deps t0" "dw_slot_count t = dw_slot_count t0"
    "length (dw_watermarks t) = dw_slot_count t0"
    using pi by (auto simp: pass_inv_def dw_ok_def)
  let ?w = "wm_of_deps (dw_watermarks t) (deps_of t0 n)"
  have v: "dw_visit n t = (if deps_of t0 n \<noteq> [] \<and> ?w > dw_watermarks t ! n
     then t\<lparr>dw_watermarks := (dw_watermarks t)[n := ?w], dw_updated_buffer := dw_updated_buffer t @ [(n, ?w)]\<rparr> else t)"
    using dw_visit_eq [OF t(1), of n] n(1) t by simp
  show ?thesis
  proof (cases "deps_of t0 n \<noteq> [] \<and> ?w > dw_watermarks t ! n")
    case False
    have "settled t n"
    proof (cases "deps_of t0 n = []")
      case empty: False
      then have "n \<noteq> src" using src by auto
      then have "dw_watermarks t ! n = dw_watermarks t0 ! n" using pi n by (simp add: pass_inv_def)
      also have "\<dots> = wm_of_deps (dw_watermarks t0) (deps_of t0 n)" using settled0 empty by (simp add: settled_def)
      also have "\<dots> \<le> ?w"
      proof (rule wm_of_deps_mono [OF empty])
        fix u assume "u \<in> set (deps_of t0 n)"
        then have "u < dw_slot_count t0" using t n unfolding dw_ok_def by (metis nth_mem)
        then show "dw_watermarks t0 ! u \<le> dw_watermarks t ! u" using pi by (simp add: pass_inv_def)
      qed
      finally have "dw_watermarks t ! n \<le> ?w" .
      then have "dw_watermarks t ! n = ?w" using False empty by simp
      then show ?thesis by (simp add: settled_def t)
    qed (simp add: settled_def t)
    then show ?thesis using pi False unfolding v by (auto simp: pass_inv_def)
  next
    case True
    let ?t = "t\<lparr>dw_watermarks := (dw_watermarks t)[n := ?w], dw_updated_buffer := dw_updated_buffer t @ [(n, ?w)]\<rparr>"
    have nsrc: "n \<noteq> src" using True src by auto
    have old: "dw_watermarks t ! n = dw_watermarks t0 ! n" using pi n nsrc by (simp add: pass_inv_def)
    have inw: "in_i64 ?w"
    proof -
      have "?w \<in> (!) (dw_watermarks t) ` set (deps_of t0 n)"
        unfolding wm_of_deps_def using True by (intro Min_in) auto
      then show ?thesis using in_i64_deps [OF t(1), of n] n(1) t by auto
    qed
    have ok: "dw_ok ?t"
      using t(1) inw n(1) unfolding dw_ok_def by (auto dest!: set_update_subset_insert [THEN subsetD])
    have keep: "wm_of_deps ((dw_watermarks t)[n := x]) (deps_of t0 m) = wm_of_deps (dw_watermarks t) (deps_of t0 m)"
      if "n \<notin> set (deps_of t0 m)" for m x
      unfolding wm_of_deps_def using that by (intro arg_cong [of _ _ Min] image_cong refl nth_list_update_neq) auto
    have "settled ?t m" if m: "m \<in> set (ys @ [n])" for m
    proof (cases "m = n")
      case True
      have "n \<notin> set (deps_of t0 n)" using dep by blast
      from keep [OF this, of ?w] show ?thesis using True n(1) t by (simp add: settled_def)
    next
      case False
      then have "settled t m" "n \<notin> set (deps_of t0 m)" using m pi later by (auto simp: pass_inv_def)
      from this(1) keep [OF this(2), of ?w] False show ?thesis by (simp add: settled_def t)
    qed
    moreover have "n \<notin> fst ` set (dw_updated_buffer t)"
      using pi old by (auto simp: pass_inv_def)
    ultimately show ?thesis
      using pi True ok nsrc n old t unfolding v pass_inv_def
      by (auto simp: nth_list_update)
  qed
qed

text \<open>The tracker of a finalised graph: dependencies are the edges, the order is topological.\<close>

definition dw_graph :: "(node_id \<times> node_id) set \<Rightarrow> dag_watermark_tracker \<Rightarrow> bool" where
  "dw_graph R t \<longleftrightarrow>
     dw_ok t \<and> (\<forall>n < dw_slot_count t. set (deps_of t n) = {u. (u, n) \<in> R}) \<and>
     distinct (dw_execution_order t) \<and> topo_sorted R (dw_execution_order t) \<and>
     (\<forall>(u, v) \<in> R. v \<in> set (dw_execution_order t)) \<and>
     (\<forall>n \<in> set (dw_execution_order t). n < dw_slot_count t)"

lemma topo_sorted_no_later:
  assumes "topo_sorted R (ys @ n # zs)" "distinct (ys @ n # zs)" "v \<in> set ys"
  shows "(n, v) \<notin> R"
proof
  assume r: "(n, v) \<in> R"
  obtain as bs where "ys = as @ v # bs" using assms(3) by (meson split_list)
  then have "n \<in> set as" using assms(1) r unfolding topo_sorted_def by (metis append.assoc append_Cons)
  then show False using assms(2) \<open>ys = as @ v # bs\<close> by auto
qed

lemma pass_fold:
  assumes g: "dw_graph R t0" and src: "src < dw_slot_count t0" "deps_of t0 src = []"
    and set0: "\<And>n. n < dw_slot_count t0 \<Longrightarrow> settled t0 n"
  shows "pass_inv t0 src wm ys t \<Longrightarrow> dw_execution_order t0 = ys @ zs \<Longrightarrow>
    pass_inv t0 src wm (ys @ zs) (fold dw_visit zs t)"
proof (induction zs arbitrary: ys t)
  case (Cons n zs)
  have o: "topo_sorted R (ys @ n # zs)" "distinct (ys @ n # zs)" "n < dw_slot_count t0"
    "set (deps_of t0 n) = {u. (u, n) \<in> R}"
    using g Cons.prems(2) by (auto simp: dw_graph_def)
  have "pass_inv t0 src wm (ys @ [n]) (dw_visit n t)"
  proof (rule pass_step [OF Cons.prems(1) o(3) _ src])
    show "n \<notin> set ys" using o(2) by simp
    show "u \<in> set ys \<and> u \<noteq> n" if "u \<in> set (deps_of t0 n)" for u
      using that o unfolding topo_sorted_def by fastforce
    show "n \<notin> set (deps_of t0 v)" if v: "v \<in> set ys" for v
    proof -
      have "v < dw_slot_count t0" using g Cons.prems(2) v by (simp add: dw_graph_def)
      then show ?thesis using g topo_sorted_no_later [OF o(1,2) v] by (simp add: dw_graph_def)
    qed
    show "settled t0 n" using set0 o(3) by blast
  qed
  from Cons.IH [OF this] Cons.prems(2) show ?case by simp
qed simp

definition dw_stable :: "(node_id \<times> node_id) set \<Rightarrow> dag_watermark_tracker \<Rightarrow> bool" where
  "dw_stable R t \<longleftrightarrow> dw_graph R t \<and> (\<forall>n < dw_slot_count t. settled t n)"

lemma dw_update_source:
  assumes st: "dw_stable R t" and src: "src < dw_slot_count t" "deps_of t src = []" and wm: "in_i64 wm"
    and u: "dw_update_watermark t src wm = (t', upd)"
  shows "dw_stable R t'" "dw_source_deps t' = dw_source_deps t" "dw_slot_count t' = dw_slot_count t"
    "dw_watermarks t' ! src = max (dw_watermarks t ! src) wm"
    "\<And>n. n < dw_slot_count t \<Longrightarrow> n \<noteq> src \<Longrightarrow> deps_of t n = [] \<Longrightarrow> dw_watermarks t' ! n = dw_watermarks t ! n"
    "\<And>n. n < dw_slot_count t \<Longrightarrow> dw_watermarks t ! n \<le> dw_watermarks t' ! n"
    "distinct (map fst upd)"
    "set upd = {(n, w). n < dw_slot_count t \<and> w = dw_watermarks t' ! n \<and> w \<noteq> dw_watermarks t ! n}"
proof -
  have "dw_stable R t' \<and> dw_source_deps t' = dw_source_deps t \<and> dw_slot_count t' = dw_slot_count t \<and>
    dw_watermarks t' ! src = max (dw_watermarks t ! src) wm \<and>
    (\<forall>n < dw_slot_count t. n \<noteq> src \<longrightarrow> deps_of t n = [] \<longrightarrow> dw_watermarks t' ! n = dw_watermarks t ! n) \<and>
    (\<forall>n < dw_slot_count t. dw_watermarks t ! n \<le> dw_watermarks t' ! n) \<and> distinct (map fst upd) \<and>
    set upd = {(n, w). n < dw_slot_count t \<and> w = dw_watermarks t' ! n \<and> w \<noteq> dw_watermarks t ! n}"
  proof (cases "wm \<le> dw_watermarks t ! src")
    case True
    then have "t' = t\<lparr>dw_updated_buffer := []\<rparr>" "upd = []"
      using u src(1) by (auto simp: dw_update_watermark_def)
    then show ?thesis
      using st True by (auto simp: dw_stable_def dw_graph_def dw_ok_def settled_def)
  next
    case False
    define t1 where "t1 = t\<lparr>dw_watermarks := (dw_watermarks t)[src := wm], dw_updated_buffer := [(src, wm)]\<rparr>"
    have ok: "dw_ok t" and g: "dw_graph R t" and set0: "\<And>n. n < dw_slot_count t \<Longrightarrow> settled t n"
      using st by (auto simp: dw_stable_def dw_graph_def)
    have len: "length (dw_watermarks t) = dw_slot_count t" using ok by (simp add: dw_ok_def)
    have "dw_ok t1"
      using ok wm unfolding dw_ok_def t1_def by (auto dest!: set_update_subset_insert [THEN subsetD])
    then have "pass_inv t src wm [] t1"
      using src len False by (auto simp: pass_inv_def t1_def nth_list_update split: if_splits)
    from pass_fold [OF g src set0 this] have p: "pass_inv t src wm (dw_execution_order t) (fold dw_visit (dw_execution_order t) t1)"
      by simp
    have t': "t' = fold dw_visit (dw_execution_order t) t1" "upd = dw_updated_buffer t'"
      using u src(1) False by (auto simp: dw_update_watermark_def t1_def Let_def)
    have p': "pass_inv t src wm (dw_execution_order t) t'" using p t' by simp
    have "settled t' n" if n: "n < dw_slot_count t" for n
    proof (cases "n \<in> set (dw_execution_order t)")
      case True
      then show ?thesis using p' by (simp add: pass_inv_def)
    next
      case False
      then have "(u, n) \<notin> R" for u using g unfolding dw_graph_def by blast
      moreover have "set (deps_of t n) = {u. (u, n) \<in> R}" using g n by (simp add: dw_graph_def)
      ultimately have "deps_of t n = []" by simp
      then show ?thesis using p' by (simp add: settled_def pass_inv_def)
    qed
    then have "dw_stable R t'" using g p' by (auto simp: dw_stable_def dw_graph_def pass_inv_def)
    then show ?thesis using p' False by (auto simp: pass_inv_def t'(2))
  qed
  then show "dw_stable R t'" "dw_source_deps t' = dw_source_deps t" "dw_slot_count t' = dw_slot_count t"
    "dw_watermarks t' ! src = max (dw_watermarks t ! src) wm"
    "\<And>n. n < dw_slot_count t \<Longrightarrow> n \<noteq> src \<Longrightarrow> deps_of t n = [] \<Longrightarrow> dw_watermarks t' ! n = dw_watermarks t ! n"
    "\<And>n. n < dw_slot_count t \<Longrightarrow> dw_watermarks t ! n \<le> dw_watermarks t' ! n"
    "distinct (map fst upd)"
    "set upd = {(n, w). n < dw_slot_count t \<and> w = dw_watermarks t' ! n \<and> w \<noteq> dw_watermarks t ! n}"
    by simp_all
qed

section \<open>The watermark of a node\<close>

text \<open>The largest watermark reported for a source.\<close>

definition reported_wm :: "(node_id \<times> i64) list \<Rightarrow> node_id \<Rightarrow> i64" where
  "reported_wm updates s = fold max (map snd (filter (\<lambda>(u, _). u = s) updates)) i64_min"

abbreviation dw_run :: "dag_watermark_tracker \<Rightarrow> (node_id \<times> i64) list \<Rightarrow> dag_watermark_tracker" where
  "dw_run t updates \<equiv> fold (\<lambda>(s, w) t. fst (dw_update_watermark t s w)) updates t"

lemma reported_wm_snoc: "reported_wm (xs @ [(u, w)]) s = (if u = s then max (reported_wm xs s) w else reported_wm xs s)"
  by (simp add: reported_wm_def max.commute)

lemma dw_run_stable:
  assumes "dw_stable R t0" "\<forall>n < dw_slot_count t0. dw_watermarks t0 ! n = i64_min"
    "\<forall>(s, w) \<in> set updates. s < dw_slot_count t0 \<and> deps_of t0 s = [] \<and> in_i64 w"
  shows "dw_stable R (dw_run t0 updates) \<and> dw_source_deps (dw_run t0 updates) = dw_source_deps t0 \<and>
    dw_slot_count (dw_run t0 updates) = dw_slot_count t0 \<and>
    (\<forall>s < dw_slot_count t0. deps_of t0 s = [] \<longrightarrow> dw_watermarks (dw_run t0 updates) ! s = reported_wm updates s)"
  using assms(3)
proof (induction updates rule: rev_induct)
  case Nil
  then show ?case using assms by (simp add: reported_wm_def)
next
  case (snoc x xs)
  obtain s w where x: "x = (s, w)" by (cases x)
  obtain t' upd where u: "dw_update_watermark (dw_run t0 xs) s w = (t', upd)" by fastforce
  have ih: "dw_stable R (dw_run t0 xs)" "dw_source_deps (dw_run t0 xs) = dw_source_deps t0"
    "dw_slot_count (dw_run t0 xs) = dw_slot_count t0"
    "\<forall>s < dw_slot_count t0. deps_of t0 s = [] \<longrightarrow> dw_watermarks (dw_run t0 xs) ! s = reported_wm xs s"
    using snoc by auto
  have s: "s < dw_slot_count t0" "deps_of t0 s = []" "in_i64 w" using snoc.prems by (auto simp: x)
  note up = dw_update_source [OF ih(1) _ _ s(3) u, unfolded ih(2,3), OF s(1,2)]
  show ?case
    using up(1-5) ih(4) s by (auto simp: x u reported_wm_snoc)
qed

text \<open>In a settled tracker a node has the least watermark of the sources that reach it.\<close>

lemma stable_min_of_sources:
  assumes st: "dw_stable R t" and n: "n < dw_slot_count t"
  shows "dw_watermarks t ! n = Min ((!) (dw_watermarks t) ` {s. s < dw_slot_count t \<and> deps_of t s = [] \<and> (s, n) \<in> R\<^sup>*})"
proof -
  let ?S = "\<lambda>n. {s. s < dw_slot_count t \<and> deps_of t s = [] \<and> (s, n) \<in> R\<^sup>*}" and ?w = "(!) (dw_watermarks t)"
  have g: "dw_graph R t" and sett: "\<And>n. n < dw_slot_count t \<Longrightarrow> settled t n" using st by (auto simp: dw_stable_def)
  have deps: "set (deps_of t n) = {u. (u, n) \<in> R}" if "n < dw_slot_count t" for n
    using g that by (simp add: dw_graph_def)
  have bound: "u < dw_slot_count t" if "(u, v) \<in> R" "v < dw_slot_count t" for u v
    using g that deps [OF that(2)] unfolding dw_graph_def dw_ok_def by (metis mem_Collect_eq nth_mem)
  have "R \<subseteq> {..<dw_slot_count t} \<times> {..<dw_slot_count t}"
    using g bound unfolding dw_graph_def by auto
  then have "finite R" by (rule finite_subset) simp
  moreover have "acyclic R"
    using g topo_sorted_acyclic [of R "dw_execution_order t"] unfolding dw_graph_def by blast
  ultimately have wf: "wf R" by (rule finite_acyclic_wf)
  have key: "n < dw_slot_count t \<Longrightarrow> (\<forall>s \<in> ?S n. ?w n \<le> ?w s) \<and> (\<exists>s \<in> ?S n. ?w n = ?w s)" for n
    using wf
  proof (induction n rule: wf_induct_rule)
    case (less n)
    show ?case
    proof (cases "deps_of t n = []")
      case True
      then have "{u. (u, n) \<in> R} = {}" using deps [OF less.prems] by simp
      then have "?S n = {n}" using True less.prems by (auto elim: rtranclE)
      then show ?thesis by simp
    next
      case False
      have wn: "?w n = Min (?w ` {u. (u, n) \<in> R})"
        using sett [OF less.prems] False deps [OF less.prems] by (simp add: settled_def wm_of_deps_def)
      have fin: "finite {u. (u, n) \<in> R}" "{u. (u, n) \<in> R} \<noteq> {}"
        using deps [OF less.prems] False by (metis List.finite_set, metis set_empty)
      have le: "?w n \<le> ?w u" if "(u, n) \<in> R" for u using wn fin that by auto
      have "\<forall>s \<in> ?S n. ?w n \<le> ?w s"
      proof
        fix s assume s: "s \<in> ?S n"
        then have "(s, n) \<in> R\<^sup>*" "s \<noteq> n" using False by auto
        then obtain u where u: "(s, u) \<in> R\<^sup>*" "(u, n) \<in> R" by (metis rtranclE)
        then have "?w u \<le> ?w s" using less.IH [OF u(2) bound [OF u(2) less.prems]] s by blast
        then show "?w n \<le> ?w s" using le [OF u(2)] by simp
      qed
      moreover have "\<exists>s \<in> ?S n. ?w n = ?w s"
      proof -
        have "?w n \<in> ?w ` {u. (u, n) \<in> R}" unfolding wn using fin by (intro Min_in) auto
        then obtain u where u: "(u, n) \<in> R" "?w n = ?w u" by blast
        then obtain s where "s \<in> ?S u" "?w u = ?w s" using less.IH [OF u(1) bound [OF u(1) less.prems]] by blast
        then show ?thesis using u by (auto intro: rtrancl_into_rtrancl)
      qed
      ultimately show ?thesis by blast
    qed
  qed
  have "finite (?S n)" by simp
  then show ?thesis using key [OF n] by (intro Min_eqI [symmetric]) auto
qed

section \<open>Trackers of finalised graphs\<close>

lemma slot_count_bound: "map_of (sd_nodes d) n \<noteq> None \<Longrightarrow> n < slot_count_of d"
proof -
  assume "map_of (sd_nodes d) n \<noteq> None"
  then have "n \<in> set (map fst (sd_nodes d))" by (auto simp: map_of_eq_None_iff)
  then show ?thesis using Max_ge [of "set (map fst (sd_nodes d))" n]
    unfolding slot_count_of_def by (cases "sd_nodes d") (auto simp: less_Suc_eq_le simp del: Max_insert)
qed

lemma from_dag_deps:
  "length (fold (\<lambda>(_, e) deps. if de_target e < k then deps[de_target e := deps ! de_target e @ [de_source e]] else deps)
      es deps0) = length deps0 \<and>
   (length deps0 = k \<longrightarrow> n < k \<longrightarrow>
     fold (\<lambda>(_, e) deps. if de_target e < k then deps[de_target e := deps ! de_target e @ [de_source e]] else deps)
       es deps0 ! n = deps0 ! n @ map (de_source \<circ> snd) (filter (\<lambda>(_, e). de_target e = n) es))"
  by (induction es arbitrary: deps0) (auto simp: nth_list_update)

lemma finalized_fields:
  assumes "dag_finalize (dag_build ops) = Some (d, None)"
  shows "dag_wf d" "distinct (sd_execution_order d)" "set (sd_execution_order d) = dom (map_of (sd_nodes d))"
    "topo_sorted (dag_rel d) (sd_execution_order d)"
    "set (sd_source_nodes d) = {v \<in> dom (map_of (sd_nodes d)). \<forall>u. (u, v) \<notin> dag_rel d}"
    "\<forall>(_, n) \<in> set (sd_nodes d). length (dn_outputs n) \<le> max_fan_out"
proof -
  define d0 where "d0 = dag_build ops"
  have wf: "dag_wf d0" unfolding d0_def by (rule dag_build_wf)
  obtain order where o: "d = finalize_rest (d0\<lparr>sd_execution_order := order\<rparr>)" "distinct order"
    "set order = dom (map_of (sd_nodes d0))" "topo_sorted (dag_rel d0) order" "dag_wf d" "finalizable d0"
    using dag_finalize_cases [OF wf] assms unfolding d0_def by auto
  have e: "sd_nodes d = sd_nodes d0" "sd_execution_order d = order" by (simp_all add: o(1) finalize_rest_fields)
  have rel: "dag_rel d = dag_rel d0"
    by (simp add: o(1) dag_rel_def finalize_rest_fields map_vals_def image_image case_prod_unfold)
  show "dag_wf d" "distinct (sd_execution_order d)" "set (sd_execution_order d) = dom (map_of (sd_nodes d))"
    "topo_sorted (dag_rel d) (sd_execution_order d)" using o e rel by simp_all
  show "\<forall>(_, n) \<in> set (sd_nodes d). length (dn_outputs n) \<le> max_fan_out"
    using o(6) e by (simp add: finalizable_def)
  have "sd_source_nodes d = sort (map dn_id (filter (\<lambda>n. dn_inputs n = []) (map snd (sd_nodes d0))))"
    by (simp add: o(1) finalize_rest_derived)
  also have "\<dots> = sorted_list_of_set {v \<in> dom (map_of (sd_nodes d0)). \<forall>u. (u, v) \<notin> dag_rel d0}"
    by (rule classify_list [OF wf], erule node_adjacency_empty [OF wf])
  finally show "set (sd_source_nodes d) = {v \<in> dom (map_of (sd_nodes d)). \<forall>u. (u, v) \<notin> dag_rel d}"
    using rel e finite_dom_map_of [of "sd_nodes d0"] by simp
qed

lemma dw_from_dag_stable:
  assumes "dag_finalize (dag_build ops) = Some (d, None)"
  shows "dw_stable (dag_rel d) (dw_from_dag d)"
    "\<forall>n < dw_slot_count (dw_from_dag d). dw_watermarks (dw_from_dag d) ! n = i64_min"
    "dw_slot_count (dw_from_dag d) = slot_count_of d"
    "\<forall>n < slot_count_of d. set (deps_of (dw_from_dag d) n) = {u. (u, n) \<in> dag_rel d}"
proof -
  note f = finalized_fields [OF assms]
  let ?t = "dw_from_dag d"
  have fields: "dw_slot_count ?t = slot_count_of d" "dw_watermarks ?t = replicate (slot_count_of d) i64_min"
    "dw_execution_order ?t = sd_execution_order d"
    "length (dw_source_deps ?t) = slot_count_of d"
    by (simp_all add: dw_from_dag_def Let_def from_dag_deps)
  have deps_eq: "deps_of ?t n = map (de_source \<circ> snd) (filter (\<lambda>(_, e). de_target e = n) (sd_edges d))"
    if "n < slot_count_of d" for n
    using that from_dag_deps [of "slot_count_of d" "sd_edges d" "replicate (slot_count_of d) []" n]
    by (simp add: dw_from_dag_def Let_def)
  have deps: "set (deps_of ?t n) = {u. (u, n) \<in> dag_rel d}" if "n < slot_count_of d" for n
    unfolding deps_eq [OF that] by (force simp: dag_rel_def)
  have nodes: "u \<in> dom (map_of (sd_nodes d)) \<and> v \<in> dom (map_of (sd_nodes d))" if "(u, v) \<in> dag_rel d" for u v
    using that edge_in_set [OF f(1)] by (auto simp: dag_rel_def edge_ok_def)
  have slot: "u < slot_count_of d" if "u \<in> dom (map_of (sd_nodes d))" for u
    using that slot_count_bound [of d u] by auto
  have "\<forall>ds \<in> set (dw_source_deps ?t). \<forall>u \<in> set ds. u < slot_count_of d"
  proof (intro ballI)
    fix ds u assume "ds \<in> set (dw_source_deps ?t)" "u \<in> set ds"
    then obtain n where "n < slot_count_of d" "u \<in> set (deps_of ?t n)" using fields(4) by (metis in_set_conv_nth)
    then have "(u, n) \<in> dag_rel d" using deps by blast
    then show "u < slot_count_of d" using nodes slot by blast
  qed
  then have ok: "dw_ok ?t" by (simp add: dw_ok_def fields)
  have graph: "dw_graph (dag_rel d) ?t"
    unfolding dw_graph_def fields
  proof (intro conjI)
    show "\<forall>n < slot_count_of d. set (deps_of ?t n) = {u. (u, n) \<in> dag_rel d}" using deps by blast
    show "\<forall>(u, v) \<in> dag_rel d. v \<in> set (sd_execution_order d)" using nodes f(3) by blast
    show "\<forall>n \<in> set (sd_execution_order d). n < slot_count_of d" using slot f(3) by blast
  qed (use ok f in simp_all)
  have "settled ?t n" if n: "n < slot_count_of d" for n
  proof (cases "deps_of ?t n = []")
    case False
    have "dw_watermarks ?t ! u = i64_min" if "u \<in> set (deps_of ?t n)" for u
    proof -
      have "u < slot_count_of d" using that deps [OF n] nodes slot by blast
      then show ?thesis by (simp add: fields)
    qed
    then have "(!) (dw_watermarks ?t) ` set (deps_of ?t n) = (\<lambda>_. i64_min) ` set (deps_of ?t n)"
      by (rule image_cong [OF refl])
    then have "(!) (dw_watermarks ?t) ` set (deps_of ?t n) = {i64_min}"
      using False by (simp add: image_constant_conv)
    then show ?thesis using n by (simp add: settled_def wm_of_deps_def fields)
  qed (simp add: settled_def)
  then show "dw_stable (dag_rel d) ?t" using graph by (simp add: dw_stable_def fields)
  show "\<forall>n < dw_slot_count ?t. dw_watermarks ?t ! n = i64_min" by (simp add: fields)
  show "dw_slot_count ?t = slot_count_of d" by (rule fields(1))
  show "\<forall>n < slot_count_of d. set (deps_of ?t n) = {u. (u, n) \<in> dag_rel d}" using deps by blast
qed

lemma dw_run_from_dag:
  assumes "dag_finalize (dag_build ops) = Some (d, None)"
    "\<forall>(s, w) \<in> set updates. s \<in> set (sd_source_nodes d) \<and> in_i64 w"
  shows "dw_stable (dag_rel d) (dw_run (dw_from_dag d) updates)"
    "dw_slot_count (dw_run (dw_from_dag d) updates) = slot_count_of d"
    "\<forall>n < slot_count_of d. set (deps_of (dw_run (dw_from_dag d) updates) n) = {u. (u, n) \<in> dag_rel d}"
    "\<forall>s \<in> set (sd_source_nodes d). dw_watermarks (dw_run (dw_from_dag d) updates) ! s = reported_wm updates s"
proof -
  note st = dw_from_dag_stable [OF assms(1)] and f = finalized_fields [OF assms(1)]
  have src: "s < slot_count_of d \<and> deps_of (dw_from_dag d) s = []" if "s \<in> set (sd_source_nodes d)" for s
  proof -
    have "s < slot_count_of d" using that slot_count_bound [of d s] unfolding f(5) by auto
    moreover have "set (deps_of (dw_from_dag d) s) = {}"
      using that calculation st(4) unfolding f(5) by auto
    ultimately show ?thesis by simp
  qed
  have "\<forall>(s, w) \<in> set updates. s < dw_slot_count (dw_from_dag d) \<and> deps_of (dw_from_dag d) s = [] \<and> in_i64 w"
    using assms(2) src st(3) by auto
  note run = dw_run_stable [OF st(1,2) this]
  show "dw_stable (dag_rel d) (dw_run (dw_from_dag d) updates)"
    "dw_slot_count (dw_run (dw_from_dag d) updates) = slot_count_of d"
    "\<forall>n < slot_count_of d. set (deps_of (dw_run (dw_from_dag d) updates) n) = {u. (u, n) \<in> dag_rel d}"
    using run st(3,4) by simp_all
  show "\<forall>s \<in> set (sd_source_nodes d). dw_watermarks (dw_run (dw_from_dag d) updates) ! s = reported_wm updates s"
    using run src st(3) by simp
qed

section \<open>Properties\<close>

text \<open>
  Watermarks of a finalised graph. After any sequence of watermark reports at source nodes, the watermark
  of every node is the least, over the sources from which it can be reached, of the largest watermark each
  has reported; it is unset as long as one of them has not reported. The effective watermark agrees (C12).
\<close>

theorem dag_watermark_min_of_sources:
  assumes "dag_finalize (dag_build ops) = Some (d, None)"
    "\<forall>(s, w) \<in> set updates. s \<in> set (sd_source_nodes d) \<and> in_i64 w" "map_of (sd_nodes d) n \<noteq> None"
  shows "let t = dw_run (dw_from_dag d) updates;
             w = Min (reported_wm updates ` {s \<in> set (sd_source_nodes d). (s, n) \<in> (dag_rel d)\<^sup>*})
         in dw_get_watermark t n = (if w = i64_min then None else Some w) \<and>
            dw_effective_watermark t n = dw_get_watermark t n"
proof -
  define t where "t = dw_run (dw_from_dag d) updates"
  note run = dw_run_from_dag [OF assms(1,2), folded t_def] and f = finalized_fields [OF assms(1)]
  have n: "n < slot_count_of d" using slot_count_bound [OF assms(3)] .
  have wfr: "u \<in> dom (map_of (sd_nodes d))" if "(u, v) \<in> dag_rel d" for u v
    using that edge_in_set [OF f(1)] by (auto simp: dag_rel_def edge_ok_def)
  have reach: "s \<in> dom (map_of (sd_nodes d))" if "(s, n) \<in> (dag_rel d)\<^sup>*" for s
    using that assms(3) wfr by (metis converse_rtranclE domIff)
  have S: "{s. s < slot_count_of d \<and> deps_of t s = [] \<and> (s, n) \<in> (dag_rel d)\<^sup>*} =
      {s \<in> set (sd_source_nodes d). (s, n) \<in> (dag_rel d)\<^sup>*}" (is "?A = ?B")
  proof (intro equalityI subsetI)
    fix s assume s: "s \<in> ?A"
    then have "s < slot_count_of d" by simp
    from run(3) [rule_format, OF this] have "\<forall>u. (u, s) \<notin> dag_rel d" using s by simp
    then show "s \<in> ?B" using s reach unfolding f(5) by simp
  next
    fix s assume s: "s \<in> ?B"
    then have lt: "s < slot_count_of d" using slot_count_bound [of d s] unfolding f(5) by auto
    moreover have "set (deps_of t s) = {}" using s lt run(3) unfolding f(5) by auto
    ultimately show "s \<in> ?A" using s by simp
  qed
  have w: "dw_watermarks t ! n = Min ((!) (dw_watermarks t) ` ?B)"
    using stable_min_of_sources [OF run(1), of n] n unfolding run(2) S by simp
  also have "(!) (dw_watermarks t) ` ?B = reported_wm updates ` ?B"
    using run(4) by (intro image_cong) auto
  finally have w: "dw_watermarks t ! n = Min (reported_wm updates ` ?B)" .
  have "dw_effective_watermark t n = dw_get_watermark t n"
  proof (cases "deps_of t n = []")
    case False
    have "dw_ok t" using run(1) by (simp add: dw_stable_def dw_graph_def)
    from dep_min_eq [OF in_i64_deps [OF this] False] show ?thesis
      using run(1,2) n False by (simp add: dw_effective_watermark_def dw_get_watermark_def dw_stable_def settled_def)
  qed (simp add: dw_effective_watermark_def dw_get_watermark_def)
  then show ?thesis
    unfolding Let_def t_def [symmetric] using w n run(2) by (simp add: dw_get_watermark_def)
qed

lemma diamond_finalized:
  "case dag_finalize (dag_build diamond) of
     Some (d, None) \<Rightarrow> sd_source_nodes d = [0] \<and> (0, 1) \<in> dag_rel d \<and> (1, 3) \<in> dag_rel d \<and> map_of (sd_nodes d) 3 \<noteq> None
   | _ \<Rightarrow> False"
  unfolding diamond_def by code_simp

theorem dag_watermark_min_of_sources_witness:
  "\<exists>d. dag_finalize (dag_build diamond) = Some (d, None) \<and>
     dw_get_watermark (dw_run (dw_from_dag d) [(0, 50), (0, 20)]) 3 = Some 50"
proof -
  obtain d where d: "dag_finalize (dag_build diamond) = Some (d, None)" "sd_source_nodes d = [0]"
    "(0, 1) \<in> dag_rel d" "(1, 3) \<in> dag_rel d" "map_of (sd_nodes d) 3 \<noteq> None"
    using diamond_finalized by (auto split: option.splits prod.splits)
  have "(0, 3) \<in> (dag_rel d)\<^sup>*" using d(3,4) by (meson r_into_rtrancl rtrancl_into_rtrancl)
  then have "{s \<in> set (sd_source_nodes d). (s, 3) \<in> (dag_rel d)\<^sup>*} = {0}" by (auto simp: d(2))
  then show ?thesis
    using dag_watermark_min_of_sources [OF d(1) _ d(5), of "[(0, 50), (0, 20)]"] d
    by (auto simp: reported_wm_def i64_simps Let_def)
qed

text \<open>
  On a finalised graph, after any updates at its sources, a further update at a source never lowers a watermark, and it
  returns exactly the nodes whose watermark changed, each once, with the new value (C40).
\<close>

theorem dag_watermark_updates_exact:
  assumes "dag_finalize (dag_build ops) = Some (d, None)"
    "\<forall>(s, w) \<in> set updates. s \<in> set (sd_source_nodes d) \<and> in_i64 w" "src \<in> set (sd_source_nodes d)" "in_i64 wm"
  shows "let t = dw_run (dw_from_dag d) updates; (t', upd) = dw_update_watermark t src wm
         in (\<forall>n < dw_slot_count t. dw_watermarks t ! n \<le> dw_watermarks t' ! n) \<and> distinct (map fst upd) \<and>
            set upd = {(n, w). n < dw_slot_count t \<and> w = dw_watermarks t' ! n \<and> w \<noteq> dw_watermarks t ! n}"
proof -
  define t where "t = dw_run (dw_from_dag d) updates"
  note run = dw_run_from_dag [OF assms(1,2), folded t_def] and f = finalized_fields [OF assms(1)]
  obtain t' upd where u: "dw_update_watermark t src wm = (t', upd)" by fastforce
  have lt: "src < slot_count_of d" using assms(3) slot_count_bound [of d src] unfolding f(5) by auto
  moreover have "set (deps_of t src) = {}" using assms(3) lt run(3) unfolding f(5) by auto
  ultimately have "src < dw_slot_count t" "deps_of t src = []" using run(2) by simp_all
  from dw_update_source(6,7,8) [OF run(1) this assms(4) u] show ?thesis
    unfolding Let_def t_def [symmetric] u by simp
qed

theorem dag_watermark_updates_exact_witness:
  "\<exists>d. dag_finalize (dag_build diamond) = Some (d, None) \<and>
     (let (t', upd) = dw_update_watermark (dw_from_dag d) 0 50
      in set upd = {(n, w). n < dw_slot_count (dw_from_dag d) \<and> w = dw_watermarks t' ! n \<and>
           w \<noteq> dw_watermarks (dw_from_dag d) ! n})"
proof -
  obtain d where d: "dag_finalize (dag_build diamond) = Some (d, None)" "sd_source_nodes d = [0]"
    using diamond_finalized by (auto split: option.splits prod.splits)
  show ?thesis
    using dag_watermark_updates_exact [OF d(1), of "[]" 0 50] d
    by (auto simp: i64_simps Let_def case_prod_unfold)
qed

lemma dw_checkpoint_restore:
  assumes "dw_ok t" "dw_ok t'" "dw_slot_count t = dw_slot_count t'"
  shows "dw_watermarks (dw_restore t' (dw_checkpoint t)) = dw_watermarks t"
  using assms by (simp add: dw_restore_def dw_checkpoint_def dw_ok_def)

end
