(* ===== verification/Operator_Types.thy ===== *)
theory Operator_Types
  imports Checkpoint_Barrier
begin

text \<open>
  The vocabulary of streaming operators: \<^verbatim>\<open>Event\<close>, \<^verbatim>\<open>Output\<close> and \<^verbatim>\<open>OperatorState\<close> of
  \<^verbatim>\<open>crates/laminar-core/src/operator/mod.rs\<close>, and the emit strategies, change data capture operations
  and changelog records of \<^verbatim>\<open>crates/laminar-core/src/operator/window.rs\<close>. The payload of an event (an Arrow
  record batch) is a type variable.
\<close>

section \<open>Events and operator states\<close>

record 'd event =
  ev_timestamp :: i64
  ev_data :: 'd

record operator_state =
  os_operator_id :: string
  os_version :: "32 word"
  os_data :: bytes

definition operator_state_v1 :: "string \<Rightarrow> bytes \<Rightarrow> operator_state" where
  "operator_state_v1 operator_id data = \<lparr>os_operator_id = operator_id, os_version = 1, os_data = data\<rparr>"

datatype operator_error =
    StateAccessFailed string
  | SerializationFailed string
  | ProcessingFailed string
  | ConfigError string

section \<open>Changelog\<close>

datatype cdc_operation = CdcInsert | CdcDelete | CdcUpdateBefore | CdcUpdateAfter

definition cdc_weight :: "cdc_operation \<Rightarrow> int" where
  "cdc_weight op = (case op of CdcInsert \<Rightarrow> 1 | CdcUpdateAfter \<Rightarrow> 1 | CdcDelete \<Rightarrow> -1 | CdcUpdateBefore \<Rightarrow> -1)"

definition cdc_is_insert :: "cdc_operation \<Rightarrow> bool" where
  "cdc_is_insert op = (case op of CdcInsert \<Rightarrow> True | CdcUpdateAfter \<Rightarrow> True | _ \<Rightarrow> False)"

definition cdc_is_delete :: "cdc_operation \<Rightarrow> bool" where
  "cdc_is_delete op = (case op of CdcDelete \<Rightarrow> True | CdcUpdateBefore \<Rightarrow> True | _ \<Rightarrow> False)"

definition debezium_op :: "cdc_operation \<Rightarrow> char" where
  "debezium_op op =
     (case op of CdcInsert \<Rightarrow> CHR ''c'' | CdcDelete \<Rightarrow> CHR ''d'' | CdcUpdateBefore \<Rightarrow> CHR ''u'' | CdcUpdateAfter \<Rightarrow> CHR ''u'')"

definition cdc_to_u8 :: "cdc_operation \<Rightarrow> 8 word" where
  "cdc_to_u8 op = (case op of CdcInsert \<Rightarrow> 0 | CdcDelete \<Rightarrow> 1 | CdcUpdateBefore \<Rightarrow> 2 | CdcUpdateAfter \<Rightarrow> 3)"

definition cdc_from_u8 :: "8 word \<Rightarrow> cdc_operation" where
  "cdc_from_u8 v =
     (if v = 1 then CdcDelete else if v = 2 then CdcUpdateBefore else if v = 3 then CdcUpdateAfter else CdcInsert)"

record 'd changelog_record =
  cl_operation :: cdc_operation
  cl_weight :: int
  cl_emit_timestamp :: i64
  cl_event :: "'d event"

definition changelog_insert :: "'d event \<Rightarrow> i64 \<Rightarrow> 'd changelog_record" where
  "changelog_insert event ts = \<lparr>cl_operation = CdcInsert, cl_weight = 1, cl_emit_timestamp = ts, cl_event = event\<rparr>"

definition changelog_delete :: "'d event \<Rightarrow> i64 \<Rightarrow> 'd changelog_record" where
  "changelog_delete event ts = \<lparr>cl_operation = CdcDelete, cl_weight = -1, cl_emit_timestamp = ts, cl_event = event\<rparr>"

definition changelog_update :: "'d event \<Rightarrow> 'd event \<Rightarrow> i64 \<Rightarrow> 'd changelog_record \<times> 'd changelog_record" where
  "changelog_update old_event new_event ts =
     (\<lparr>cl_operation = CdcUpdateBefore, cl_weight = -1, cl_emit_timestamp = ts, cl_event = old_event\<rparr>,
      \<lparr>cl_operation = CdcUpdateAfter, cl_weight = 1, cl_emit_timestamp = ts, cl_event = new_event\<rparr>)"

definition changelog_new :: "cdc_operation \<Rightarrow> 'd event \<Rightarrow> i64 \<Rightarrow> 'd changelog_record" where
  "changelog_new op event ts =
     \<lparr>cl_operation = op, cl_weight = cdc_weight op, cl_emit_timestamp = ts, cl_event = event\<rparr>"

lemma cdc_u8_roundtrip [simp]: "cdc_from_u8 (cdc_to_u8 op) = op"
  by (cases op) (simp_all add: cdc_from_u8_def cdc_to_u8_def)

lemma cdc_weight_sign: "cdc_weight op = (if cdc_is_insert op then 1 else -1)" "cdc_is_delete op \<longleftrightarrow> \<not> cdc_is_insert op"
  by (cases op; simp add: cdc_weight_def cdc_is_insert_def cdc_is_delete_def)+

lemma changelog_weights:
  "cl_weight (changelog_insert e t) = cdc_weight (cl_operation (changelog_insert e t))"
  "cl_weight (changelog_delete e t) = cdc_weight (cl_operation (changelog_delete e t))"
  "cl_weight (fst (changelog_update e e' t)) + cl_weight (snd (changelog_update e e' t)) = 0"
  by (simp_all add: changelog_insert_def changelog_delete_def changelog_update_def cdc_weight_def)

section \<open>Outputs\<close>

datatype 'd op_output =
    OutEvent "'d event"
  | OutWatermark i64
  | OutLateEvent "'d event"
  | OutSideOutput string "'d event"
  | OutChangelog "'d changelog_record"
  | OutCheckpointComplete nat "operator_state list"
  | OutBarrier checkpoint_barrier

section \<open>Emit strategies\<close>

text \<open>The interval of \<^verbatim>\<open>Periodic\<close> is a \<^verbatim>\<open>Duration\<close> in nanoseconds.\<close>

datatype emit_strategy = OnWatermark | Periodic nat | OnUpdate | OnWindowClose | Changelog | Final

fun periodic_interval :: "emit_strategy \<Rightarrow> nat option" where
  "periodic_interval (Periodic d) = Some d"
| "periodic_interval _ = None"

definition needs_periodic_timer :: "emit_strategy \<Rightarrow> bool" where
  "needs_periodic_timer s = (case s of Periodic _ \<Rightarrow> True | _ \<Rightarrow> False)"

definition emits_on_update :: "emit_strategy \<Rightarrow> bool" where
  "emits_on_update s = (case s of OnUpdate \<Rightarrow> True | _ \<Rightarrow> False)"

definition emits_intermediate :: "emit_strategy \<Rightarrow> bool" where
  "emits_intermediate s = (case s of OnUpdate \<Rightarrow> True | Periodic _ \<Rightarrow> True | _ \<Rightarrow> False)"

definition requires_changelog :: "emit_strategy \<Rightarrow> bool" where
  "requires_changelog s = (case s of Changelog \<Rightarrow> True | _ \<Rightarrow> False)"

definition is_append_only_compatible :: "emit_strategy \<Rightarrow> bool" where
  "is_append_only_compatible s = (case s of OnWindowClose \<Rightarrow> True | Final \<Rightarrow> True | _ \<Rightarrow> False)"

definition generates_retractions :: "emit_strategy \<Rightarrow> bool" where
  "generates_retractions s = (case s of OnWatermark \<Rightarrow> True | OnUpdate \<Rightarrow> True | Changelog \<Rightarrow> True | _ \<Rightarrow> False)"

definition suppresses_intermediate :: "emit_strategy \<Rightarrow> bool" where
  "suppresses_intermediate s = (case s of OnWindowClose \<Rightarrow> True | Final \<Rightarrow> True | _ \<Rightarrow> False)"

definition drops_late_data :: "emit_strategy \<Rightarrow> bool" where
  "drops_late_data s = (case s of Final \<Rightarrow> True | _ \<Rightarrow> False)"

lemma append_only_strategies:
  "is_append_only_compatible s \<Longrightarrow> \<not> emits_intermediate s \<and> \<not> generates_retractions s \<and> \<not> requires_changelog s"
  by (cases s) (simp_all add: is_append_only_compatible_def emits_intermediate_def generates_retractions_def
      requires_changelog_def)

end
