(* ===== verification/Dag_Checkpoint.thy ===== *)
theory Dag_Checkpoint
  imports Operator_Types Dag_Topology
begin

text \<open>
  Checkpointing of the operator DAG, \<^verbatim>\<open>crates/laminar-core/src/dag/checkpoint.rs\<close> and
  \<^verbatim>\<open>crates/laminar-core/src/dag/recovery/mod.rs\<close>: barrier alignment at fan-in nodes, the
  coordinator that collects operator states, and the conversion of a checkpoint result. The order in
  which a hash map is iterated is an argument (\<^verbatim>\<open>drain\<close> and \<^verbatim>\<open>vals\<close>) wherever a result depends on it.
\<close>

section \<open>Barrier alignment\<close>

datatype 'd alignment_result = Pending | Aligned checkpoint_barrier "'d event list"

record 'd barrier_aligner =
  ba_expected_inputs :: nat
  ba_barriers_received :: "(node_id, checkpoint_barrier) hashmap"
  ba_buffered_events :: "(node_id, 'd event list) hashmap"
  ba_current_checkpoint_id :: "64 word option"

definition aligner_new :: "nat \<Rightarrow> 'd barrier_aligner" where
  "aligner_new expected_inputs =
     \<lparr>ba_expected_inputs = expected_inputs, ba_barriers_received = [], ba_buffered_events = [],
      ba_current_checkpoint_id = None\<rparr>"

definition on_barrier ::
  "((node_id \<times> 'd event list) list \<Rightarrow> (node_id \<times> 'd event list) list) \<Rightarrow>
   ((node_id \<times> checkpoint_barrier) list \<Rightarrow> (node_id \<times> checkpoint_barrier) list) \<Rightarrow>
   'd barrier_aligner \<Rightarrow> node_id \<Rightarrow> checkpoint_barrier \<Rightarrow> 'd barrier_aligner \<times> 'd alignment_result" where
  "on_barrier drain vals a source_node barrier =
     (let a1 = a\<lparr>ba_current_checkpoint_id := Some (cb_checkpoint_id barrier),
                 ba_barriers_received := AList.update source_node barrier (ba_barriers_received a)\<rparr>
      in if length (ba_barriers_received a1) \<ge> ba_expected_inputs a1 then
           let all_buffered = sort_key ev_timestamp (concat (map snd (drain (ba_buffered_events a1))));
               b = snd (last (vals (ba_barriers_received a1)))
           in (a1\<lparr>ba_buffered_events := []\<rparr>, Aligned b all_buffered)
         else (a1, Pending))"

definition buffer_if_aligned ::
  "'d barrier_aligner \<Rightarrow> node_id \<Rightarrow> 'd event \<Rightarrow> 'd barrier_aligner \<times> bool" where
  "buffer_if_aligned a source_node event =
     (if contains_key (ba_barriers_received a) source_node
      then (a\<lparr>ba_buffered_events := AList.update source_node
                 (unwrap_or (map_of (ba_buffered_events a) source_node) [] @ [event])
                 (ba_buffered_events a)\<rparr>, True)
      else (a, False))"

definition is_source_aligned :: "'d barrier_aligner \<Rightarrow> node_id \<Rightarrow> bool" where
  "is_source_aligned a source_node = contains_key (ba_barriers_received a) source_node"

definition complete_checkpoint :: "'d barrier_aligner \<Rightarrow> 'd barrier_aligner" where
  "complete_checkpoint a =
     a\<lparr>ba_barriers_received := [], ba_buffered_events := [], ba_current_checkpoint_id := None\<rparr>"

section \<open>Checkpoint results\<close>

record operator_state_entry =
  ose_version :: "32 word"
  ose_data :: bytes

record dag_checkpoint_result =
  dcr_checkpoint_id :: nat
  dcr_epoch :: nat
  dcr_timestamp_ms :: i64
  dcr_operator_states :: "(string, operator_state_entry) hashmap"

text \<open>\<^verbatim>\<open>collect\<close> into a map inserts in the order of the iteration.\<close>

definition from_operator_states ::
  "nat \<Rightarrow> nat \<Rightarrow> i64 \<Rightarrow> (node_id, operator_state) hashmap \<Rightarrow> dag_checkpoint_result" where
  "from_operator_states cid epoch timestamp_ms states =
     \<lparr>dcr_checkpoint_id = cid, dcr_epoch = epoch, dcr_timestamp_ms = timestamp_ms,
      dcr_operator_states =
        fold (\<lambda>(_, st). AList.update (os_operator_id st)
               \<lparr>ose_version = os_version st, ose_data = os_data st\<rparr>) states []\<rparr>"

definition to_data_map :: "dag_checkpoint_result \<Rightarrow> (string, bytes) hashmap" where
  "to_data_map r = map (\<lambda>(name, entry). (name, ose_data entry)) (dcr_operator_states r)"

definition to_operator_states ::
  "dag_checkpoint_result \<Rightarrow> (string, node_id) hashmap \<Rightarrow> (node_id, operator_state) hashmap" where
  "to_operator_states r name_to_node =
     fold (\<lambda>(name, entry) result.
         case map_of name_to_node name of
           Some node \<Rightarrow>
             AList.update node
               \<lparr>os_operator_id = name, os_version = ose_version entry, os_data = ose_data entry\<rparr> result
         | None \<Rightarrow> result)
       (dcr_operator_states r) []"

text \<open>Operator identifiers that are decimal node numbers; other names are skipped.\<close>

definition to_operator_states_by_index :: "dag_checkpoint_result \<Rightarrow> (node_id, operator_state) hashmap" where
  "to_operator_states_by_index r =
     fold (\<lambda>(name, entry) result.
         case parse_u32 name of
           Some idx \<Rightarrow>
             AList.update idx
               \<lparr>os_operator_id = name, os_version = ose_version entry, os_data = ose_data entry\<rparr> result
         | None \<Rightarrow> result)
       (dcr_operator_states r) []"

section \<open>Coordinator\<close>

record checkpoint_progress =
  cp_checkpoint_id :: nat
  cp_epoch :: nat
  cp_completed_nodes :: "(node_id, operator_state) hashmap"
  cp_pending_nodes :: "node_id list"
  cp_triggered_at :: i64

record dag_coordinator =
  dc_source_nodes :: "node_id list"
  dc_all_nodes :: "node_id list"
  dc_next_epoch :: nat
  dc_next_checkpoint_id :: nat
  dc_in_progress :: "checkpoint_progress option"
  dc_completed_results :: "dag_checkpoint_result list"
  dc_max_retained :: nat

definition dc_new :: "node_id list \<Rightarrow> node_id list \<Rightarrow> nat \<Rightarrow> dag_coordinator" where
  "dc_new source_nodes all_nodes max_retained =
     \<lparr>dc_source_nodes = source_nodes, dc_all_nodes = all_nodes, dc_next_epoch = 1,
      dc_next_checkpoint_id = 1, dc_in_progress = None, dc_completed_results = [],
      dc_max_retained = max_retained\<rparr>"

definition trigger_checkpoint ::
  "i64 \<Rightarrow> dag_coordinator \<Rightarrow> dag_coordinator \<times> ('ty dag_error + checkpoint_barrier)" where
  "trigger_checkpoint now_millis c =
     (case dc_in_progress c of
        Some progress \<Rightarrow> (c, Inl (CheckpointInProgress (cp_epoch progress)))
      | None \<Rightarrow>
          let cid = dc_next_checkpoint_id c;
              epoch = dc_next_epoch c;
              c1 = c\<lparr>dc_next_checkpoint_id := cid + 1, dc_next_epoch := epoch + 1,
                     dc_in_progress := Some \<lparr>cp_checkpoint_id = cid, cp_epoch = epoch,
                       cp_completed_nodes = [], cp_pending_nodes = dc_all_nodes c,
                       cp_triggered_at = now_millis\<rparr>\<rparr>
          in (c1, Inr (barrier_new (of_nat cid) (of_nat epoch))))"

definition on_node_snapshot_complete ::
  "dag_coordinator \<Rightarrow> node_id \<Rightarrow> operator_state \<Rightarrow> dag_coordinator \<times> bool" where
  "on_node_snapshot_complete c node state =
     (case dc_in_progress c of
        Some progress \<Rightarrow>
          let p1 = progress\<lparr>cp_pending_nodes := filter (\<lambda>n. n \<noteq> node) (cp_pending_nodes progress),
                            cp_completed_nodes := AList.update node state (cp_completed_nodes progress)\<rparr>
          in (c\<lparr>dc_in_progress := Some p1\<rparr>, cp_pending_nodes p1 = [])
      | None \<Rightarrow> (c, False))"

text \<open>The trimming loop pops from the front until at most \<^verbatim>\<open>max_retained\<close> results are left.\<close>

fun trim_front :: "nat \<Rightarrow> 'a list \<Rightarrow> 'a list" where
  "trim_front n [] = []"
| "trim_front n (x # xs) = (if length (x # xs) > n then trim_front n xs else x # xs)"

definition finalize_checkpoint ::
  "dag_coordinator \<Rightarrow> dag_coordinator \<times> ('ty dag_error + dag_checkpoint_result)" where
  "finalize_checkpoint c =
     (case dc_in_progress c of
        None \<Rightarrow> (c, Inl NoCheckpointInProgress)
      | Some progress \<Rightarrow>
          if cp_pending_nodes progress \<noteq> []
          then (c\<lparr>dc_in_progress := Some progress\<rparr>,
                Inl (CheckpointIncomplete (length (cp_pending_nodes progress))))
          else
            let result = from_operator_states (cp_checkpoint_id progress) (cp_epoch progress)
                  (cp_triggered_at progress) (cp_completed_nodes progress)
            in (c\<lparr>dc_in_progress := None,
                  dc_completed_results :=
                    trim_front (dc_max_retained c) (dc_completed_results c @ [result])\<rparr>,
                Inr result))"

section \<open>A consistent cut\<close>

text \<open>
  The inputs of a fan-in node as one sequence. An event that is not buffered is processed at once;
  the run stops at the barrier that completes the alignment.
\<close>

datatype 'd node_input = InEvent "'d event" | InBarrier checkpoint_barrier

fun feed ::
  "((node_id \<times> 'd event list) list \<Rightarrow> (node_id \<times> 'd event list) list) \<Rightarrow>
   ((node_id \<times> checkpoint_barrier) list \<Rightarrow> (node_id \<times> checkpoint_barrier) list) \<Rightarrow>
   'd barrier_aligner \<Rightarrow> (node_id \<times> 'd node_input) list \<Rightarrow>
   (node_id \<times> 'd event) list \<times> (checkpoint_barrier \<times> 'd event list \<times> (node_id \<times> 'd node_input) list) option" where
  "feed drain vals a [] = ([], None)"
| "feed drain vals a ((s, InEvent e) # ms) =
     (let (a1, buffered) = buffer_if_aligned a s e; (ps, r) = feed drain vals a1 ms
      in (if buffered then ps else (s, e) # ps, r))"
| "feed drain vals a ((s, InBarrier b) # ms) =
     (case on_barrier drain vals a s b of
        (a1, Aligned x es) \<Rightarrow> ([], Some (x, es, ms))
      | (a1, Pending) \<Rightarrow> feed drain vals a1 ms)"

text \<open>The events before and after the barrier of their own input.\<close>

fun before_barrier :: "node_id set \<Rightarrow> (node_id \<times> 'd node_input) list \<Rightarrow> (node_id \<times> 'd event) list" where
  "before_barrier seen [] = []"
| "before_barrier seen ((s, InEvent e) # ms) =
     (if s \<in> seen then before_barrier seen ms else (s, e) # before_barrier seen ms)"
| "before_barrier seen ((s, InBarrier b) # ms) = before_barrier (insert s seen) ms"

fun after_barrier :: "node_id set \<Rightarrow> (node_id \<times> 'd node_input) list \<Rightarrow> 'd event list" where
  "after_barrier seen [] = []"
| "after_barrier seen ((s, InEvent e) # ms) =
     (if s \<in> seen then e # after_barrier seen ms else after_barrier seen ms)"
| "after_barrier seen ((s, InBarrier b) # ms) = after_barrier (insert s seen) ms"

definition barrier_sources :: "(node_id \<times> 'd node_input) list \<Rightarrow> node_id set" where
  "barrier_sources ms = {s. \<exists>b. (s, InBarrier b) \<in> set ms}"

definition buffered :: "'d barrier_aligner \<Rightarrow> 'd event multiset" where
  "buffered a = mset (concat (map snd (ba_buffered_events a)))"

definition seen :: "'d barrier_aligner \<Rightarrow> node_id set" where
  "seen a = dom (map_of (ba_barriers_received a))"

lemma mset_concat_perm: "mset xs = mset ys \<Longrightarrow> mset (concat (map snd xs)) = mset (concat (map snd ys))"
proof -
  assume "mset xs = mset ys"
  then have "image_mset (mset \<circ> snd) (mset xs) = image_mset (mset \<circ> snd) (mset ys)" by simp
  then show ?thesis
    by (simp add: mset_concat sum_mset_sum_list [symmetric] comp_def)
qed

lemma mset_concat_update:
  "mset (concat (map snd (AList.update k (unwrap_or (map_of m k) [] @ [e]) m))) =
   add_mset e (mset (concat (map snd m)))"
  by (induction m) auto

lemma buffer_if_aligned_spec:
  assumes "buffer_if_aligned a s e = (a1, bf)"
  shows "bf = (s \<in> seen a) \<and> seen a1 = seen a \<and>
    buffered a1 = (if bf then add_mset e (buffered a) else buffered a) \<and>
    ba_expected_inputs a1 = ba_expected_inputs a \<and> ba_barriers_received a1 = ba_barriers_received a"
  using assms mset_concat_update [of s "ba_buffered_events a" e]
  by (auto simp: buffer_if_aligned_def seen_def buffered_def contains_key_def split: if_splits)

lemma on_barrier_Pending:
  assumes "on_barrier drain vals a s b = (a1, Pending)"
  shows "seen a1 = insert s (seen a) \<and> buffered a1 = buffered a \<and>
    ba_barriers_received a1 = AList.update s b (ba_barriers_received a) \<and>
    ba_expected_inputs a1 = ba_expected_inputs a \<and>
    length (ba_barriers_received a1) < ba_expected_inputs a"
  using assms by (auto simp: on_barrier_def seen_def buffered_def dom_def Let_def split: if_splits)

lemma on_barrier_Aligned:
  assumes "on_barrier drain vals a s b = (a1, Aligned x es)" "\<And>m. mset (drain m) = mset m"
    "\<And>m. set (vals m) = set m"
  shows "mset es = buffered a \<and> sorted (map ev_timestamp es) \<and>
    x \<in> snd ` set (AList.update s b (ba_barriers_received a)) \<and>
    ba_expected_inputs a \<le> length (AList.update s b (ba_barriers_received a))"
proof -
  let ?m = "AList.update s b (ba_barriers_received a)"
  have "?m \<noteq> []" by (cases "ba_barriers_received a") auto
  then have "vals ?m \<noteq> []" using assms(3) [of ?m] by (metis set_empty)
  then have "last (vals ?m) \<in> set ?m" using assms(3) last_in_set by blast
  then show ?thesis
    using assms(1) mset_concat_perm [OF assms(2), of "ba_buffered_events a"]
    by (auto simp: on_barrier_def buffered_def Let_def split: if_splits)
qed

lemma snd_update_subset: "snd ` set (AList.update k v m) \<subseteq> insert v (snd ` set m)"
  by (induction m) auto

lemma card_seen: "wf_map (ba_barriers_received a) \<Longrightarrow> card (seen a) = length (ba_barriers_received a)"
  unfolding seen_def dom_map_of_conv_image_fst wf_map_def
  by (metis distinct_card length_map list.set_map)

lemma finite_seen [simp]: "finite (seen a)"
  by (simp add: seen_def finite_dom_map_of)

lemma seen_update: "dom (map_of (AList.update s b m)) = insert s (dom (map_of m))"
  by (auto simp: dom_def)

lemma barrier_sources_simps [simp]:
  "barrier_sources [] = {}" "barrier_sources ((s, InEvent e) # ms) = barrier_sources ms"
  "barrier_sources ((s, InBarrier b) # ms) = insert s (barrier_sources ms)"
  by (auto simp: barrier_sources_def)

lemma finite_barrier_sources [simp]: "finite (barrier_sources ms)"
proof -
  have "barrier_sources ms \<subseteq> fst ` set ms" by (force simp: barrier_sources_def)
  then show ?thesis using finite_subset by blast
qed

lemma feed_aligned:
  assumes "\<And>m. mset (drain m) = mset m" "\<And>m. set (vals m) = set m"
    and "wf_map (ba_barriers_received a)" "feed drain vals a ms = (ps, Some (x, es, rest))"
  shows "\<exists>pfx. ms = pfx @ rest \<and> ps = before_barrier (seen a) pfx \<and>
    mset es = buffered a + mset (after_barrier (seen a) pfx) \<and> sorted (map ev_timestamp es) \<and>
    x \<in> snd ` set (ba_barriers_received a) \<union> {b. \<exists>s. (s, InBarrier b) \<in> set pfx} \<and>
    ba_expected_inputs a \<le> card (seen a \<union> barrier_sources pfx)"
  using assms(3,4)
proof (induction ms arbitrary: a ps)
  case (Cons m ms)
  obtain s i where m: "m = (s, i)" by (cases m)
  show ?case
  proof (cases i)
    case (InEvent e)
    obtain a1 bf where bf: "buffer_if_aligned a s e = (a1, bf)" by fastforce
    obtain ps1 where rest: "feed drain vals a1 ms = (ps1, Some (x, es, rest))"
      "ps = (if bf then ps1 else (s, e) # ps1)"
      using Cons.prems(2) by (auto simp: m InEvent bf split: prod.splits)
    note sp = buffer_if_aligned_spec [OF bf]
    obtain pfx where "ms = pfx @ rest" "ps1 = before_barrier (seen a1) pfx"
      "mset es = buffered a1 + mset (after_barrier (seen a1) pfx)" "sorted (map ev_timestamp es)"
      "x \<in> snd ` set (ba_barriers_received a1) \<union> {b. \<exists>s. (s, InBarrier b) \<in> set pfx}"
      "ba_expected_inputs a1 \<le> card (seen a1 \<union> barrier_sources pfx)"
      using Cons.IH [OF _ rest(1)] Cons.prems(1) sp by auto
    then show ?thesis
      using sp rest(2) by (intro exI [of _ "m # pfx"]) (auto simp: m InEvent)
  next
    case (InBarrier b)
    obtain a1 r where ob: "on_barrier drain vals a s b = (a1, r)" by fastforce
    show ?thesis
    proof (cases r)
      case Pending
      note sp = on_barrier_Pending [OF ob [unfolded Pending]]
      have rest: "feed drain vals a1 ms = (ps, Some (x, es, rest))"
        using Cons.prems(2) by (simp add: m InBarrier ob Pending)
      have "wf_map (ba_barriers_received a1)" using Cons.prems(1) sp by simp
      from Cons.IH [OF this rest] obtain pfx where pfx: "ms = pfx @ rest"
        "ps = before_barrier (seen a1) pfx" "mset es = buffered a1 + mset (after_barrier (seen a1) pfx)"
        "sorted (map ev_timestamp es)"
        "x \<in> snd ` set (ba_barriers_received a1) \<union> {b. \<exists>s. (s, InBarrier b) \<in> set pfx}"
        "ba_expected_inputs a1 \<le> card (seen a1 \<union> barrier_sources pfx)" by auto
      have "snd ` set (AList.update s b (ba_barriers_received a)) \<subseteq> insert b (snd ` set (ba_barriers_received a))"
        by (rule snd_update_subset)
      then show ?thesis
        using pfx sp by (intro exI [of _ "m # pfx"]) (auto simp: m InBarrier)
    next
      case (Aligned y fs)
      have eq: "x = y" "es = fs" "rest = ms" "ps = []"
        using Cons.prems(2) by (simp_all add: m InBarrier ob Aligned)
      note sp = on_barrier_Aligned [OF ob [unfolded Aligned] assms(1,2)]
      have "snd ` set (AList.update s b (ba_barriers_received a)) \<subseteq> insert b (snd ` set (ba_barriers_received a))"
        by (rule snd_update_subset)
      moreover have "card (insert s (seen a)) = length (AList.update s b (ba_barriers_received a))"
        using Cons.prems(1) card_seen [of "a\<lparr>ba_barriers_received := AList.update s b (ba_barriers_received a)\<rparr>"]
        by (simp add: seen_def seen_update)
      ultimately show ?thesis
        using sp eq by (intro exI [of _ "[m]"]) (auto simp: m InBarrier)
    qed
  qed
qed simp

lemma feed_pending:
  assumes "wf_map (ba_barriers_received a)" "length (ba_barriers_received a) < ba_expected_inputs a"
    "feed drain vals a ms = (ps, None)"
  shows "card (seen a \<union> barrier_sources ms) < ba_expected_inputs a"
  using assms
proof (induction ms arbitrary: a ps)
  case Nil
  then show ?case by (simp add: card_seen)
next
  case (Cons m ms)
  obtain s i where m: "m = (s, i)" by (cases m)
  show ?case
  proof (cases i)
    case (InEvent e)
    obtain a1 bf where bf: "buffer_if_aligned a s e = (a1, bf)" by fastforce
    note sp = buffer_if_aligned_spec [OF bf]
    obtain ps1 where "feed drain vals a1 ms = (ps1, None)"
      using Cons.prems(3) by (auto simp: m InEvent bf split: prod.splits)
    from Cons.IH [OF _ _ this] show ?thesis using Cons.prems sp by (simp add: m InEvent)
  next
    case (InBarrier b)
    obtain a1 r where ob: "on_barrier drain vals a s b = (a1, r)" by fastforce
    have r: "r = Pending" and rest: "feed drain vals a1 ms = (ps, None)"
      using Cons.prems(3) by (cases r; simp add: m InBarrier ob)+
    note sp = on_barrier_Pending [OF ob [unfolded r]]
    have "wf_map (ba_barriers_received a1)" using Cons.prems(1) sp by simp
    moreover have "length (ba_barriers_received a1) < ba_expected_inputs a1" using sp by metis
    ultimately have "card (seen a1 \<union> barrier_sources ms) < ba_expected_inputs a1"
      using rest by (rule Cons.IH)
    then show ?thesis using sp by (simp add: m InBarrier)
  qed
qed

section \<open>Properties of alignment\<close>

text \<open>
  Alignment cuts the input consistently. Once barriers of all expected inputs have arrived, exactly
  the events that precede the barrier of their own input have been processed, in order, and exactly
  the events that follow it are handed over, sorted by timestamp; none is lost or duplicated. The
  barrier reported is one of those received. Alignment happens as soon as the inputs are complete (C8).
\<close>

theorem alignment_consistent_cut:
  assumes "\<And>m. mset (drain m) = mset m" "\<And>m. set (vals m) = set m" "0 < n"
  shows "case feed drain vals (aligner_new n) ms of
      (ps, Some (x, es, rest)) \<Rightarrow>
        (\<exists>pfx. ms = pfx @ rest \<and> ps = before_barrier {} pfx \<and>
          mset es = mset (after_barrier {} pfx) \<and> sorted (map ev_timestamp es) \<and>
          (\<exists>s. (s, InBarrier x) \<in> set pfx) \<and> n \<le> card (barrier_sources pfx))
    | (ps, None) \<Rightarrow> card (barrier_sources ms) < n"
proof -
  have init: "wf_map (ba_barriers_received (aligner_new n))" "seen (aligner_new n) = {}"
    "buffered (aligner_new n) = {#}" "ba_expected_inputs (aligner_new n) = n"
    "ba_barriers_received (aligner_new n) = []"
    by (simp_all add: aligner_new_def seen_def buffered_def)
  show ?thesis
    using feed_aligned [OF assms(1,2) init(1), of ms] feed_pending [OF init(1), of drain vals ms] assms(3)
    by (auto simp: init split: prod.splits option.splits)
qed

theorem alignment_consistent_cut_witness:
  "feed id id (aligner_new 2)
     [(1, InEvent \<lparr>ev_timestamp = 5, ev_data = ''a''\<rparr>), (1, InBarrier (barrier_new 1 1)),
      (1, InEvent \<lparr>ev_timestamp = 9, ev_data = ''b''\<rparr>), (2, InBarrier (barrier_new 1 1))] =
     ([(1, \<lparr>ev_timestamp = 5, ev_data = ''a''\<rparr>)],
      Some (barrier_new 1 1, [\<lparr>ev_timestamp = 9, ev_data = ''b''\<rparr>], [])) \<and>
   before_barrier {}
     [(1, InEvent \<lparr>ev_timestamp = 5, ev_data = ''a''\<rparr>), (1, InBarrier (barrier_new 1 1)),
      (1, InEvent \<lparr>ev_timestamp = 9, ev_data = ''b''\<rparr>), (2, InBarrier (barrier_new 1 1))] =
     [(1, \<lparr>ev_timestamp = 5, ev_data = ''a''\<rparr>)]"
  (is "feed id id _ ?ms = ?r \<and> ?b")
proof
  show f: "feed id id (aligner_new 2) ?ms = ?r"
    by (simp add: buffer_if_aligned_def on_barrier_def aligner_new_def contains_key_def)
  show ?b
    using alignment_consistent_cut [of id id 2 ?ms] unfolding f by auto
qed

section \<open>Runs of the coordinator\<close>

datatype dc_op = DcTrigger i64 | DcNodeComplete node_id operator_state | DcFinalize

text \<open>A run returns the final state and the results of the successful finalisations, in order.\<close>

fun dc_step :: "dc_op \<Rightarrow> dag_coordinator \<Rightarrow> dag_coordinator \<times> dag_checkpoint_result list" where
  "dc_step (DcTrigger now) c = (fst (trigger_checkpoint now c :: _ \<times> (unit dag_error + _)), [])"
| "dc_step (DcNodeComplete node st) c = (fst (on_node_snapshot_complete c node st), [])"
| "dc_step DcFinalize c =
     (case finalize_checkpoint c of
        (c1, Inr r) \<Rightarrow> (c1, [r])
      | (c1, Inl (e :: unit dag_error)) \<Rightarrow> (c1, []))"

fun dc_run :: "dag_coordinator \<Rightarrow> dc_op list \<Rightarrow> dag_coordinator \<times> dag_checkpoint_result list" where
  "dc_run c [] = (c, [])"
| "dc_run c (op # ops) = (let (c1, r1) = dc_step op c; (c2, r2) = dc_run c1 ops in (c2, r1 @ r2))"

text \<open>The states reported since the trigger of the checkpoint that is open after the operations.\<close>

fun reported_states ::
  "(node_id \<rightharpoonup> operator_state) option \<Rightarrow> node_id set \<Rightarrow> dc_op list \<Rightarrow> (node_id \<rightharpoonup> operator_state) option" where
  "reported_states m nodes [] = m"
| "reported_states m nodes (DcTrigger now # ops) =
     reported_states (if m = None then Some Map.empty else m) nodes ops"
| "reported_states m nodes (DcNodeComplete n st # ops) =
     reported_states (map_option (\<lambda>f. f(n \<mapsto> st)) m) nodes ops"
| "reported_states m nodes (DcFinalize # ops) =
     reported_states (case m of Some f \<Rightarrow> if nodes \<subseteq> dom f then None else m | None \<Rightarrow> None) nodes ops"

lemma trim_front_eq: "trim_front n xs = drop (length xs - n) xs"
  by (induction xs) (auto simp: Suc_diff_le)

lemma trim_front_snoc: "trim_front k (drop (length rs - k) rs @ [r]) = drop (Suc (length rs) - k) (rs @ [r])"
  by (cases "k \<le> length rs") (auto simp: trim_front_eq Suc_diff_le)

definition dc_inv :: "dag_coordinator \<Rightarrow> dag_checkpoint_result list \<Rightarrow> (node_id \<rightharpoonup> operator_state) option \<Rightarrow> bool" where
  "dc_inv c rs m \<longleftrightarrow>
     dc_completed_results c = drop (length rs - dc_max_retained c) rs \<and>
     sorted_wrt (<) (map dcr_epoch rs) \<and> (\<forall>r \<in> set rs. dcr_epoch r < dc_next_epoch c \<and> dcr_checkpoint_id r = dcr_epoch r) \<and>
     dc_next_checkpoint_id c = dc_next_epoch c \<and>
     (dc_in_progress c = None \<longleftrightarrow> m = None) \<and>
     (\<forall>p. dc_in_progress c = Some p \<longrightarrow>
        m = Some (map_of (cp_completed_nodes p)) \<and> wf_map (cp_completed_nodes p) \<and>
        cp_checkpoint_id p = cp_epoch p \<and>
        cp_epoch p < dc_next_epoch c \<and> (\<forall>r \<in> set rs. dcr_epoch r < cp_epoch p) \<and>
        cp_pending_nodes p = filter (\<lambda>n. map_of (cp_completed_nodes p) n = None) (dc_all_nodes c))"

lemma from_operator_states_fields [simp]:
  "dcr_checkpoint_id (from_operator_states i e t st) = i" "dcr_epoch (from_operator_states i e t st) = e"
  by (simp_all add: from_operator_states_def)

lemma dc_new_fields [simp]:
  "dc_all_nodes (dc_new ss ns k) = ns" "dc_max_retained (dc_new ss ns k) = k"
  "dc_next_epoch (dc_new ss ns k) = 1" "dc_next_checkpoint_id (dc_new ss ns k) = 1"
  "dc_in_progress (dc_new ss ns k) = None" "dc_completed_results (dc_new ss ns k) = []"
  by (simp_all add: dc_new_def)

lemma dc_step_inv:
  assumes "dc_inv c rs m"
  shows "dc_inv (fst (dc_step op c)) (rs @ snd (dc_step op c)) (reported_states m (set (dc_all_nodes c)) [op])"
    "dc_all_nodes (fst (dc_step op c)) = dc_all_nodes c" "dc_max_retained (fst (dc_step op c)) = dc_max_retained c"
proof -
  have "dc_inv (fst (dc_step op c)) (rs @ snd (dc_step op c)) (reported_states m (set (dc_all_nodes c)) [op]) \<and>
    dc_all_nodes (fst (dc_step op c)) = dc_all_nodes c \<and> dc_max_retained (fst (dc_step op c)) = dc_max_retained c"
  proof (cases op)
    case (DcTrigger now)
    then show ?thesis
      using assms by (cases "dc_in_progress c") (auto simp: dc_inv_def trigger_checkpoint_def Let_def less_SucI)
  next
    case (DcNodeComplete n st)
    then show ?thesis
      using assms by (cases "dc_in_progress c")
        (auto simp: dc_inv_def on_node_snapshot_complete_def Let_def fun_eq_iff intro!: filter_cong)
  next
    case DcFinalize
    show ?thesis
    proof (cases "dc_in_progress c")
      case None
      then show ?thesis using assms by (auto simp: DcFinalize dc_inv_def finalize_checkpoint_def)
    next
      case (Some p)
      have pend: "cp_pending_nodes p = [] \<longleftrightarrow> set (dc_all_nodes c) \<subseteq> dom (map_of (cp_completed_nodes p))"
        using assms Some by (auto simp: dc_inv_def filter_empty_conv)
      show ?thesis
        using assms Some pend
        by (cases "cp_pending_nodes p = []")
           (auto simp: DcFinalize dc_inv_def finalize_checkpoint_def Let_def trim_front_snoc sorted_wrt_append)
    qed
  qed
  then show "dc_inv (fst (dc_step op c)) (rs @ snd (dc_step op c)) (reported_states m (set (dc_all_nodes c)) [op])"
    "dc_all_nodes (fst (dc_step op c)) = dc_all_nodes c" "dc_max_retained (fst (dc_step op c)) = dc_max_retained c"
    by blast+
qed

lemma reported_states_Cons:
  "reported_states m nodes (op # ops) = reported_states (reported_states m nodes [op]) nodes ops"
  by (cases op) simp_all

lemma dc_run_inv:
  assumes "dc_inv c rs m"
  shows "dc_inv (fst (dc_run c ops)) (rs @ snd (dc_run c ops)) (reported_states m (set (dc_all_nodes c)) ops) \<and>
    dc_all_nodes (fst (dc_run c ops)) = dc_all_nodes c \<and> dc_max_retained (fst (dc_run c ops)) = dc_max_retained c"
  using assms
proof (induction ops arbitrary: c rs m)
  case (Cons op ops)
  note st = dc_step_inv [OF Cons.prems, of op]
  from Cons.IH [OF st(1)] show ?case
    by (subst reported_states_Cons) (simp add: st(2,3) case_prod_unfold Let_def)
qed simp

text \<open>
  A result records a set of reported states: each entry is the state of a node with that operator identifier, no
  identifier is left out, and a state whose identifier no other node uses is recorded as reported.
\<close>

definition state_entry :: "operator_state \<Rightarrow> operator_state_entry" where
  "state_entry st = \<lparr>ose_version = os_version st, ose_data = os_data st\<rparr>"

definition records_states :: "dag_checkpoint_result \<Rightarrow> (node_id \<rightharpoonup> operator_state) \<Rightarrow> bool" where
  "records_states r f \<longleftrightarrow>
     (\<forall>name en. map_of (dcr_operator_states r) name = Some en \<longrightarrow>
        (\<exists>n st. f n = Some st \<and> os_operator_id st = name \<and> en = state_entry st)) \<and>
     (\<forall>n st. f n = Some st \<longrightarrow> map_of (dcr_operator_states r) (os_operator_id st) \<noteq> None) \<and>
     (\<forall>n st. f n = Some st \<and> (\<forall>n' st'. f n' = Some st' \<and> os_operator_id st' = os_operator_id st \<longrightarrow> n' = n) \<longrightarrow>
        map_of (dcr_operator_states r) (os_operator_id st) = Some (state_entry st))"

lemma map_of_fold_update:
  "map_of (fold (\<lambda>x. AList.update (k x) (v x)) xs m) name =
     (case find (\<lambda>x. k x = name) (rev xs) of Some x \<Rightarrow> Some (v x) | None \<Rightarrow> map_of m name)"
proof (induction xs rule: rev_induct)
  case (snoc x xs)
  then show ?case by (simp add: update_conv')
qed simp

lemma from_operator_states_records:
  assumes "wf_map states"
  shows "records_states (from_operator_states i e t states) (map_of states)"
proof -
  let ?m = "map_of (dcr_operator_states (from_operator_states i e t states))"
  have eq: "?m name = (case find (\<lambda>x. os_operator_id (snd x) = name) (rev states) of
      Some x \<Rightarrow> Some (state_entry (snd x)) | None \<Rightarrow> None)" for name
    using map_of_fold_update [of "\<lambda>x. os_operator_id (snd x)" "\<lambda>x. state_entry (snd x)" states "[]" name]
    by (simp add: from_operator_states_def case_prod_unfold state_entry_def split: option.split)
  have src: "\<exists>n st. map_of states n = Some st \<and> os_operator_id st = name \<and> en = state_entry st" if h: "?m name = Some en" for name en
  proof -
    obtain x where "find (\<lambda>x. os_operator_id (snd x) = name) (rev states) = Some x" "en = state_entry (snd x)"
      using h by (auto simp: eq split: option.splits)
    then have "x \<in> set states" "os_operator_id (snd x) = name"
      by (auto simp: find_Some_iff) (metis nth_mem set_rev length_rev)
    then show ?thesis
      using assms \<open>en = _\<close> by (intro exI [of _ "fst x"] exI [of _ "snd x"]) (cases x, simp add: wf_map_in_set)
  qed
  moreover have cov: "?m (os_operator_id st) \<noteq> None" if "map_of states n = Some st" for n st
  proof -
    have "(n, st) \<in> set (rev states)" using map_of_SomeD [OF that] by simp
    then have "find (\<lambda>x. os_operator_id (snd x) = os_operator_id st) (rev states) \<noteq> None"
      unfolding find_None_iff by fastforce
    then show ?thesis by (auto simp: eq)
  qed
  moreover have "?m (os_operator_id st) = Some (state_entry st)"
    if h: "map_of states n = Some st" "\<forall>n' st'. map_of states n' = Some st' \<and> os_operator_id st' = os_operator_id st \<longrightarrow> n' = n" for n st
  proof -
    obtain en where en: "?m (os_operator_id st) = Some en" using cov [OF h(1)] by blast
    then obtain n' st' where "map_of states n' = Some st'" "os_operator_id st' = os_operator_id st" "en = state_entry st'"
      using src by blast
    moreover from this(1,2) have "n' = n" using h(2) by blast
    ultimately show ?thesis using en h(1) by simp
  qed
  ultimately show ?thesis unfolding records_states_def by blast
qed

text \<open>
  For every sequence of triggers, reports and finalisations: the coordinator retains the most recent
  results, at most \<^verbatim>\<open>max_retained\<close>; epochs strictly increase. A finalisation succeeds exactly when a
  checkpoint is open and every node has reported since its trigger. Its result has a new epoch, closes the checkpoint,
  joins the retained results, and records the last state each node reported under the operator's
  identifier; of nodes that report the same identifier, one is recorded. Otherwise the finalisation reports how many
  nodes are missing and changes nothing (C32).
\<close>

theorem dag_checkpoint_runs:
  "let (c, rs) = dc_run (dc_new sources nodes k) ops in
     dc_completed_results c = drop (length rs - k) rs \<and> sorted_wrt (<) (map dcr_epoch rs) \<and>
     (case reported_states None (set nodes) ops of
        None \<Rightarrow> finalize_checkpoint c = (c, Inl (NoCheckpointInProgress :: 'ty dag_error))
      | Some f \<Rightarrow>
          if set nodes \<subseteq> dom f
          then \<exists>c' r. finalize_checkpoint c = (c', Inr r :: 'ty dag_error + _) \<and> dc_in_progress c' = None \<and>
                 dc_completed_results c' = drop (Suc (length rs) - k) (rs @ [r]) \<and>
                 dcr_checkpoint_id r = dcr_epoch r \<and> (\<forall>r' \<in> set rs. dcr_epoch r' < dcr_epoch r) \<and> records_states r f
          else finalize_checkpoint c =
                 (c, Inl (CheckpointIncomplete (length (filter (\<lambda>n. f n = None) nodes)) :: 'ty dag_error)))"
proof -
  let ?c0 = "dc_new sources nodes k"
  obtain c rs where run: "dc_run ?c0 ops = (c, rs)" by fastforce
  define m where "m = reported_states None (set nodes) ops"
  have "dc_inv ?c0 [] None" by (simp add: dc_inv_def)
  from dc_run_inv [OF this, of ops] have inv: "dc_inv c rs m" and c: "dc_all_nodes c = nodes" "dc_max_retained c = k"
    by (simp_all add: run m_def)
  have "case m of
        None \<Rightarrow> finalize_checkpoint c = (c, Inl (NoCheckpointInProgress :: 'ty dag_error))
      | Some f \<Rightarrow>
          if set nodes \<subseteq> dom f
          then \<exists>c' r. finalize_checkpoint c = (c', Inr r :: 'ty dag_error + _) \<and> dc_in_progress c' = None \<and>
                 dc_completed_results c' = drop (Suc (length rs) - k) (rs @ [r]) \<and>
                 dcr_checkpoint_id r = dcr_epoch r \<and> (\<forall>r' \<in> set rs. dcr_epoch r' < dcr_epoch r) \<and> records_states r f
          else finalize_checkpoint c =
                 (c, Inl (CheckpointIncomplete (length (filter (\<lambda>n. f n = None) nodes)) :: 'ty dag_error))"
  proof (cases "dc_in_progress c")
    case None
    then show ?thesis using inv by (simp add: dc_inv_def finalize_checkpoint_def)
  next
    case (Some p)
    have p: "m = Some (map_of (cp_completed_nodes p))" "cp_checkpoint_id p = cp_epoch p"
      "\<forall>r \<in> set rs. dcr_epoch r < cp_epoch p" "wf_map (cp_completed_nodes p)"
      "cp_pending_nodes p = filter (\<lambda>n. map_of (cp_completed_nodes p) n = None) nodes"
      "dc_completed_results c = drop (length rs - k) rs"
      using inv Some c by (simp_all add: dc_inv_def)
    have "cp_pending_nodes p = [] \<longleftrightarrow> set nodes \<subseteq> dom (map_of (cp_completed_nodes p))"
      by (auto simp: p(5) filter_empty_conv)
    moreover have "c\<lparr>dc_in_progress := Some p\<rparr> = c" using Some by simp
    ultimately show ?thesis
      using p Some from_operator_states_records [OF p(4)] c
      by (auto simp: finalize_checkpoint_def Let_def trim_front_snoc)
  qed
  then show ?thesis
    using inv by (simp add: run m_def [symmetric] dc_inv_def c)
qed

definition sample_state :: "string \<Rightarrow> operator_state" where
  "sample_state name = \<lparr>os_operator_id = name, os_version = 1, os_data = [7]\<rparr>"

theorem dag_checkpoint_runs_witness:
  "\<exists>c' r. records_states r [0 \<mapsto> sample_state ''0'', 1 \<mapsto> sample_state ''1''] \<and>
     finalize_checkpoint (fst (dc_run (dc_new [0] [0, 1] 3)
        [DcTrigger 100, DcFinalize, DcNodeComplete 0 (sample_state ''0''), DcNodeComplete 1 (sample_state ''1'')])) =
       (c', Inr r :: unit dag_error + _)"
proof -
  let ?ops = "[DcTrigger 100, DcFinalize, DcNodeComplete 0 (sample_state ''0''), DcNodeComplete 1 (sample_state ''1'')]"
  have rep: "reported_states None (set [0, 1]) ?ops = Some [0 \<mapsto> sample_state ''0'', 1 \<mapsto> sample_state ''1'']"
    by simp
  show ?thesis
    using dag_checkpoint_runs [where ?'ty = unit, of "[0]" "[0, 1]" 3 ?ops] unfolding rep
    by (auto simp: case_prod_unfold Let_def simp del: dc_run.simps)
qed

section \<open>Recovery\<close>

lemma from_operator_states_eq:
  assumes "distinct (map (\<lambda>(_, st). os_operator_id st) states)"
  shows "dcr_operator_states (from_operator_states i e t states) =
    map (\<lambda>(_, st). (os_operator_id st, \<lparr>ose_version = os_version st, ose_data = os_data st\<rparr>)) states"
  using fold_update_fresh [of "\<lambda>(_, st). os_operator_id st" states "[]"
      "\<lambda>(_, st). \<lparr>ose_version = os_version st, ose_data = os_data st\<rparr>"] assms
  by (simp add: from_operator_states_def case_prod_unfold)

lemma operator_state_eta:
  "\<lparr>os_operator_id = os_operator_id st, os_version = os_version st, os_data = os_data st\<rparr> = st"
  by (cases st) simp

text \<open>The pass back, for names that all resolve to the node they came from.\<close>

lemma restore_pass_eq:
  assumes "wf_map states" "\<And>node st. (node, st) \<in> set states \<Longrightarrow> key (os_operator_id st) = Some node"
  shows "fold (\<lambda>(name, entry) result. case key name of
        Some node \<Rightarrow> AList.update node
          \<lparr>os_operator_id = name, os_version = ose_version entry, os_data = ose_data entry\<rparr> result
      | None \<Rightarrow> result)
      (map (\<lambda>(_, st). (os_operator_id st, \<lparr>ose_version = os_version st, ose_data = os_data st\<rparr>)) states) [] = states"
proof -
  have "fold (\<lambda>(name, entry) result. case key name of
        Some node \<Rightarrow> AList.update node
          \<lparr>os_operator_id = name, os_version = ose_version entry, os_data = ose_data entry\<rparr> result
      | None \<Rightarrow> result)
      (map (\<lambda>(_, st). (os_operator_id st, \<lparr>ose_version = os_version st, ose_data = os_data st\<rparr>)) states) [] =
    fold (\<lambda>x. AList.update (fst x) (snd x)) states []"
    unfolding fold_map using assms(2) by (intro fold_cong) (auto simp: fun_eq_iff operator_state_eta)
  also have "\<dots> = states"
    using fold_update_fresh [of fst states "[]" snd] assms(1) by (simp add: wf_map_def)
  finally show ?thesis .
qed

lemma restore_by_index:
  assumes "wf_map states" "distinct (map (\<lambda>(_, st). os_operator_id st) states)"
    "\<And>node st. (node, st) \<in> set states \<Longrightarrow> node < 2 ^ 32 \<and> os_operator_id st = dec_nat node"
  shows "to_operator_states_by_index (from_operator_states i e t states) = states"
proof -
  have "parse_u32 (os_operator_id st) = Some node" if "(node, st) \<in> set states" for node st
    using assms(3) [OF that] parse_dec [of node "2 ^ 32 - 1"] by fastforce
  then show ?thesis
    unfolding to_operator_states_by_index_def from_operator_states_eq [OF assms(2)]
    by (intro restore_pass_eq [OF assms(1)])
qed

text \<open>
  Recovery restores what was checkpointed. When operator identifiers are distinct, the operator states of a
  result convert back to the states reported by the nodes, through a name index that knows the operators,
  and through the index-based mapping when identifiers are the decimal node numbers (C36).
\<close>

theorem checkpoint_restore_roundtrip:
  assumes "wf_map states" "distinct (map (\<lambda>(_, st). os_operator_id st) states)"
  shows "((\<forall>(node, st) \<in> set states. map_of name_to_node (os_operator_id st) = Some node) \<longrightarrow>
      to_operator_states (from_operator_states i e t states) name_to_node = states) \<and>
    ((\<forall>(node, st) \<in> set states. node < 2 ^ 32 \<and> os_operator_id st = dec_nat node) \<longrightarrow>
      to_operator_states_by_index (from_operator_states i e t states) = states)"
proof (intro conjI impI)
  assume "\<forall>(node, st) \<in> set states. map_of name_to_node (os_operator_id st) = Some node"
  then show "to_operator_states (from_operator_states i e t states) name_to_node = states"
    unfolding to_operator_states_def from_operator_states_eq [OF assms(2)]
    by (intro restore_pass_eq [OF assms(1)]) auto
next
  assume "\<forall>(node, st) \<in> set states. node < 2 ^ 32 \<and> os_operator_id st = dec_nat node"
  then show "to_operator_states_by_index (from_operator_states i e t states) = states"
    by (intro restore_by_index [OF assms]) auto
qed

theorem checkpoint_restore_roundtrip_witness:
  "to_operator_states (from_operator_states 1 1 0 [(4, sample_state ''4''), (12, sample_state ''12'')])
      [(''12'', 12), (''4'', 4)] = [(4, sample_state ''4''), (12, sample_state ''12'')] \<and>
   to_operator_states_by_index (from_operator_states 1 1 0 [(4, sample_state ''4''), (12, sample_state ''12'')]) =
      [(4, sample_state ''4''), (12, sample_state ''12'')]"
proof -
  have "dec_nat 4 = ''4''" "dec_nat 12 = ''12''" by code_simp+
  then show ?thesis
    using checkpoint_restore_roundtrip [of "[(4, sample_state ''4''), (12, sample_state ''12'')]"
        "[(''12'', 12), (''4'', 4)]" 1 1 0]
    by (simp add: sample_state_def wf_map_def)
qed

text \<open>
  Events buffered after an alignment was reported and before \<^verbatim>\<open>complete_checkpoint\<close> are dropped by it.
\<close>

lemma complete_checkpoint_drops_events:
  "let (a1, r) = on_barrier id id (aligner_new 1) 1 (barrier_new 1 1);
       (a2, kept) = buffer_if_aligned a1 1 \<lparr>ev_timestamp = 3, ev_data = ''x''\<rparr>
   in kept \<and> ba_buffered_events a2 \<noteq> [] \<and> ba_buffered_events (complete_checkpoint a2) = []"
  by (simp add: on_barrier_def buffer_if_aligned_def complete_checkpoint_def aligner_new_def contains_key_def)

text \<open>Barriers of different checkpoints complete an alignment together.\<close>

lemma alignment_mixes_checkpoints:
  "snd (on_barrier id id (fst (on_barrier id id (aligner_new 2) 1 (barrier_new 1 1))) 2 (barrier_new 2 2)) =
     Aligned (barrier_new 2 2) ([] :: unit event list)"
  by (simp add: on_barrier_def aligner_new_def barrier_new_def)

end
