(* ===== verification/Dag_Executor.thy ===== *)
theory Dag_Executor
  imports Dag_Watermark Dag_Checkpoint Timer_Service Watermark_Generators
begin

text \<open>
  The routing table, \<^verbatim>\<open>crates/laminar-core/src/dag/routing.rs\<close>, and the executor that runs events and
  watermarks through a finalised graph, \<^verbatim>\<open>crates/laminar-core/src/dag/executor.rs\<close>.

  Operators are trait objects: the type variable \<^verbatim>\<open>'o\<close> is the state of an operator and the record
  \<^verbatim>\<open>operator_impl\<close> holds what the trait promises. A node's state store is the type variable \<^verbatim>\<open>'s\<close>. The
  elapsed-time metric is left out. Slots are indexed by node identifier; \<^verbatim>\<open>ex_ok\<close> shows that the
  unchecked indexing stays in range.
\<close>

section \<open>Routing table\<close>

record routing_entry =
  re_targets :: "nat list"
  re_target_count :: nat
  re_is_multicast :: bool

record routing_table =
  rt_routes :: "routing_entry list"
  rt_max_node_id :: nat

definition max_ports :: nat where "max_ports = max_fan_out"

definition routing_entry_empty :: routing_entry where
  "routing_entry_empty =
     \<lparr>re_targets = replicate max_fan_out 0, re_target_count = 0, re_is_multicast = False\<rparr>"

definition target_ids :: "routing_entry \<Rightarrow> nat list" where
  "target_ids r = take (re_target_count r) (re_targets r)"

definition is_terminal :: "routing_entry \<Rightarrow> bool" where
  "is_terminal r \<longleftrightarrow> re_target_count r = 0"

text \<open>The loop that collects the targets of a node into the fixed array.\<close>

fun collect_targets :: "(edge_id, dag_edge) hashmap \<Rightarrow> edge_id list \<Rightarrow> nat list \<Rightarrow> nat \<Rightarrow> nat list \<times> nat" where
  "collect_targets edges [] targets cnt = (targets, cnt)"
| "collect_targets edges (eid # eids) targets cnt =
     (case map_of edges eid of
        Some e \<Rightarrow>
          if cnt < max_fan_out
          then collect_targets edges eids (targets[cnt := de_target e]) (cnt + 1)
          else collect_targets edges eids targets cnt
      | None \<Rightarrow> collect_targets edges eids targets cnt)"

definition node_entry :: "'ty streaming_dag \<Rightarrow> 'ty dag_node \<Rightarrow> routing_entry" where
  "node_entry d n =
     (let (targets, cnt) = collect_targets (sd_edges d) (dn_outputs n) (replicate max_fan_out 0) 0
      in \<lparr>re_targets = targets, re_target_count = cnt, re_is_multicast = cnt > 1\<rparr>)"

definition routing_from_dag :: "'ty streaming_dag \<Rightarrow> routing_table" where
  "routing_from_dag d =
     (let max_node_id = (if sd_nodes d = [] then 0 else Max (set (map fst (sd_nodes d))));
          routes = replicate ((max_node_id + 1) * max_ports) routing_entry_empty
      in \<lparr>rt_routes =
            fold (\<lambda>(_, n) rs. if dn_outputs n = [] then rs else rs[dn_id n * max_ports := node_entry d n])
              (sd_nodes d) routes,
          rt_max_node_id = max_node_id\<rparr>)"

definition route :: "routing_table \<Rightarrow> node_id \<Rightarrow> nat \<Rightarrow> routing_entry" where
  "route r src port = rt_routes r ! (src * max_ports + port)"

definition node_targets :: "routing_table \<Rightarrow> node_id \<Rightarrow> routing_entry" where
  "node_targets r src = route r src 0"

section \<open>Executor state\<close>

record 's node_runtime =
  nr_timer_service :: timer_service
  nr_state_store :: 's
  nr_watermark_generator :: bounded_gen

text \<open>
  The operations of the trait \<^verbatim>\<open>Operator\<close>. The context of a call is the event time, the processing
  time, the operator index and the node's runtime, which the operator may change.
\<close>

record ('o, 'd, 's) operator_impl =
  oi_process :: "'o \<Rightarrow> 'd event \<Rightarrow> i64 \<Rightarrow> i64 \<Rightarrow> nat \<Rightarrow> 's node_runtime \<Rightarrow> 'o \<times> 's node_runtime \<times> 'd op_output list"
  oi_on_timer :: "'o \<Rightarrow> bytes \<times> i64 \<Rightarrow> i64 \<Rightarrow> i64 \<Rightarrow> nat \<Rightarrow> 's node_runtime \<Rightarrow> 'o \<times> 's node_runtime \<times> 'd op_output list"
  oi_checkpoint :: "'o \<Rightarrow> 'o \<times> operator_state"
  oi_restore :: "'o \<Rightarrow> operator_state \<Rightarrow> 'o \<times> operator_error option"

record executor_metrics =
  xm_events_processed :: nat
  xm_events_routed :: nat
  xm_multicast_publishes :: nat
  xm_backpressure_stalls :: nat
  xm_nodes_skipped :: nat
  xm_watermarks_processed :: nat

definition executor_metrics_default :: executor_metrics where
  "executor_metrics_default =
     \<lparr>xm_events_processed = 0, xm_events_routed = 0, xm_multicast_publishes = 0, xm_backpressure_stalls = 0,
      xm_nodes_skipped = 0, xm_watermarks_processed = 0\<rparr>"

record node_metrics =
  nm_events_in :: nat
  nm_events_out :: nat
  nm_invocations :: nat

definition node_metrics_default :: node_metrics where
  "node_metrics_default = \<lparr>nm_events_in = 0, nm_events_out = 0, nm_invocations = 0\<rparr>"

record ('o, 'd, 's) dag_executor =
  ex_operators :: "'o option list"
  ex_runtimes :: "'s node_runtime option list"
  ex_input_queues :: "'d event list list"
  ex_sink_outputs :: "'d event list list"
  ex_routing :: routing_table
  ex_execution_order :: "node_id list"
  ex_source_nodes :: "node_id list"
  ex_sink_nodes :: "node_id list"
  ex_node_types :: "dag_node_type list"
  ex_slot_count :: nat
  ex_input_counts :: "nat list"
  ex_metrics :: executor_metrics
  ex_watermark_tracker :: dag_watermark_tracker
  ex_node_metrics :: "node_metrics list"

definition node_runtime_default :: "'s \<Rightarrow> 's node_runtime" where
  "node_runtime_default store =
     \<lparr>nr_timer_service = timer_service_new, nr_state_store = store, nr_watermark_generator = bounded_new 0\<rparr>"

definition ex_from_dag :: "'s \<Rightarrow> 'ty streaming_dag \<Rightarrow> ('o, 'd, 's) dag_executor" where
  "ex_from_dag store d =
     (let slot_count = slot_count_of d
      in \<lparr>ex_operators = replicate slot_count None,
          ex_runtimes = replicate slot_count (Some (node_runtime_default store)),
          ex_input_queues = replicate slot_count [],
          ex_sink_outputs = replicate slot_count [],
          ex_routing = routing_from_dag d,
          ex_execution_order = sd_execution_order d,
          ex_source_nodes = sd_source_nodes d,
          ex_sink_nodes = sd_sink_nodes d,
          ex_node_types =
            fold (\<lambda>(_, n) ts. if dn_id n < slot_count then ts[dn_id n := dn_node_type n] else ts)
              (sd_nodes d) (replicate slot_count StatelessOperator),
          ex_slot_count = slot_count,
          ex_input_counts =
            fold (\<lambda>(_, n) cs. if dn_id n < slot_count
                     then cs[dn_id n := incoming_edge_count d (dn_id n)] else cs)
              (sd_nodes d) (replicate slot_count 0),
          ex_metrics = executor_metrics_default,
          ex_watermark_tracker = dw_from_dag d,
          ex_node_metrics = replicate slot_count node_metrics_default\<rparr>)"

definition register_operator :: "('o, 'd, 's) dag_executor \<Rightarrow> node_id \<Rightarrow> 'o \<Rightarrow> ('o, 'd, 's) dag_executor" where
  "register_operator ex n op =
     (if n < ex_slot_count ex then ex\<lparr>ex_operators := (ex_operators ex)[n := Some op]\<rparr> else ex)"

section \<open>Routing of outputs\<close>

definition push_queue :: "nat \<Rightarrow> 'd event \<Rightarrow> ('o, 'd, 's) dag_executor \<Rightarrow> ('o, 'd, 's) dag_executor" where
  "push_queue t e ex = ex\<lparr>ex_input_queues := (ex_input_queues ex)[t := ex_input_queues ex ! t @ [e]]\<rparr>"

definition push_sink :: "nat \<Rightarrow> 'd event \<Rightarrow> ('o, 'd, 's) dag_executor \<Rightarrow> ('o, 'd, 's) dag_executor" where
  "push_sink t e ex = ex\<lparr>ex_sink_outputs := (ex_sink_outputs ex)[t := ex_sink_outputs ex ! t @ [e]]\<rparr>"

definition route_output :: "('o, 'd, 's) dag_executor \<Rightarrow> node_id \<Rightarrow> 'd event \<Rightarrow> ('o, 'd, 's) dag_executor" where
  "route_output ex src event =
     (let entry = node_targets (ex_routing ex) src
      in if is_terminal entry then push_sink src event ex
         else
           let m = ex_metrics ex;
               ex1 = ex\<lparr>ex_metrics := m\<lparr>xm_events_routed := xm_events_routed m + 1\<rparr>\<rparr>
           in if re_is_multicast entry then
                let m1 = ex_metrics ex1;
                    ex2 = ex1\<lparr>ex_metrics := m1\<lparr>xm_multicast_publishes := xm_multicast_publishes m1 + 1\<rparr>\<rparr>;
                    targets = target_ids entry
                in push_queue (last targets) event (fold (\<lambda>t. push_queue t event) (butlast targets) ex2)
              else push_queue (re_targets entry ! 0) event ex1)"

text \<open>Nodes whose watermark changed advance their generator; a runtime in use is taken out.\<close>

definition advance_generator :: "node_id \<times> i64 \<Rightarrow> ('o, 'd, 's) dag_executor \<Rightarrow> ('o, 'd, 's) dag_executor" where
  "advance_generator = (\<lambda>(n, wm) ex.
     if n < ex_slot_count ex then
       (case ex_runtimes ex ! n of
          Some rt \<Rightarrow>
            ex\<lparr>ex_runtimes := (ex_runtimes ex)[n :=
                 Some (rt\<lparr>nr_watermark_generator := fst (bounded_advance_watermark (nr_watermark_generator rt) wm)\<rparr>)]\<rparr>
        | None \<Rightarrow> ex)
     else ex)"

definition track_watermark :: "('o, 'd, 's) dag_executor \<Rightarrow> node_id \<Rightarrow> i64 \<Rightarrow> ('o, 'd, 's) dag_executor" where
  "track_watermark ex src wm =
     (let (t, upd) = dw_update_watermark (ex_watermark_tracker ex) src wm
      in fold advance_generator upd (ex\<lparr>ex_watermark_tracker := t\<rparr>))"

definition bump_node :: "nat \<Rightarrow> (node_metrics \<Rightarrow> node_metrics) \<Rightarrow> ('o, 'd, 's) dag_executor \<Rightarrow> ('o, 'd, 's) dag_executor" where
  "bump_node n f ex = ex\<lparr>ex_node_metrics := (ex_node_metrics ex)[n := f (ex_node_metrics ex ! n)]\<rparr>"

fun route_one :: "node_id \<Rightarrow> 'd op_output \<Rightarrow> ('o, 'd, 's) dag_executor \<Rightarrow> ('o, 'd, 's) dag_executor" where
  "route_one src (OutEvent e) ex =
     route_output
       (if src < ex_slot_count ex then bump_node src (\<lambda>m. m\<lparr>nm_events_out := nm_events_out m + 1\<rparr>) ex else ex) src e"
| "route_one src (OutWatermark wm) ex = track_watermark ex src wm"
| "route_one src (OutLateEvent e) ex = push_sink src e ex"
| "route_one src (OutSideOutput name e) ex = push_sink src e ex"
| "route_one src (OutChangelog r) ex = push_sink src (cl_event r) ex"
| "route_one src (OutCheckpointComplete cid sts) ex = ex"
| "route_one src (OutBarrier b) ex = ex"

definition route_all_outputs :: "('o, 'd, 's) dag_executor \<Rightarrow> node_id \<Rightarrow> 'd op_output list \<Rightarrow> ('o, 'd, 's) dag_executor" where
  "route_all_outputs ex src outputs = fold (route_one src) outputs ex"

section \<open>Processing\<close>

definition passthrough_output :: "'d event \<Rightarrow> 'd op_output list" where
  "passthrough_output e = [OutEvent e]"

text \<open>The loop of \<^verbatim>\<open>process_node\<close>, with the operator and the runtime taken out of the executor.\<close>

fun process_events ::
  "('o, 'd, 's) operator_impl \<Rightarrow> node_id \<Rightarrow> 'd event list \<Rightarrow> 'o option \<Rightarrow> 's node_runtime option \<Rightarrow>
   ('o, 'd, 's) dag_executor \<Rightarrow> 'o option \<times> 's node_runtime option \<times> ('o, 'd, 's) dag_executor" where
  "process_events impl n [] operator runtime ex = (operator, runtime, ex)"
| "process_events impl n (e # es) operator runtime ex =
     (let m = ex_metrics ex;
          ex1 = bump_node n (\<lambda>m. m\<lparr>nm_events_in := nm_events_in m + 1\<rparr>)
                  (ex\<lparr>ex_metrics := m\<lparr>xm_events_processed := xm_events_processed m + 1\<rparr>\<rparr>);
          (operator', runtime', outputs) =
            (case (operator, runtime) of
               (Some op, Some rt) \<Rightarrow>
                 let (op', rt', outs) = oi_process impl op e (ev_timestamp e) 0 n rt in (Some op', Some rt', outs)
             | _ \<Rightarrow> (operator, runtime, passthrough_output e));
          ex2 = bump_node n (\<lambda>m. m\<lparr>nm_invocations := nm_invocations m + 1\<rparr>) ex1
      in process_events impl n es operator' runtime' (route_all_outputs ex2 n outputs))"

definition process_node ::
  "('o, 'd, 's) operator_impl \<Rightarrow> node_id \<Rightarrow> ('o, 'd, 's) dag_executor \<Rightarrow> ('o, 'd, 's) dag_executor" where
  "process_node impl n ex =
     (if ex_input_queues ex ! n = [] then
        (let m = ex_metrics ex in ex\<lparr>ex_metrics := m\<lparr>xm_nodes_skipped := xm_nodes_skipped m + 1\<rparr>\<rparr>)
      else
        let events = ex_input_queues ex ! n;
            ex1 = ex\<lparr>ex_input_queues := (ex_input_queues ex)[n := []],
                     ex_operators := (ex_operators ex)[n := None],
                     ex_runtimes := (ex_runtimes ex)[n := None]\<rparr>;
            (operator, runtime, ex2) = process_events impl n events (ex_operators ex ! n) (ex_runtimes ex ! n) ex1
        in ex2\<lparr>ex_operators := (ex_operators ex2)[n := operator],
               ex_runtimes := (ex_runtimes ex2)[n := runtime]\<rparr>)"

definition process_dag :: "('o, 'd, 's) operator_impl \<Rightarrow> ('o, 'd, 's) dag_executor \<Rightarrow> ('o, 'd, 's) dag_executor" where
  "process_dag impl ex = fold (process_node impl) (ex_execution_order ex) ex"

definition process_event ::
  "('o, 'd, 's) operator_impl \<Rightarrow> ('o, 'd, 's) dag_executor \<Rightarrow> node_id \<Rightarrow> 'd event \<Rightarrow>
   ('o, 'd, 's) dag_executor \<times> 'ty dag_error option" where
  "process_event impl ex src event =
     (if src \<ge> ex_slot_count ex then (ex, Some (NodeNotFound (node_display src)))
      else (process_dag impl (push_queue src event ex), None))"

text \<open>The timers of one node; \<^verbatim>\<open>fired\<close> was polled before the first call.\<close>

fun fire_loop ::
  "('o, 'd, 's) operator_impl \<Rightarrow> i64 \<Rightarrow> node_id \<Rightarrow> timer list \<Rightarrow> 'o \<Rightarrow> 's node_runtime \<Rightarrow>
   ('o, 'd, 's) dag_executor \<Rightarrow> 'o \<times> 's node_runtime \<times> ('o, 'd, 's) dag_executor" where
  "fire_loop impl now n [] op rt ex = (op, rt, ex)"
| "fire_loop impl now n (reg # fired) op rt ex =
     (let (op', rt', outputs) =
            oi_on_timer impl op (unwrap_or (tr_key reg) [], tr_timestamp reg) (tr_timestamp reg) now n rt
      in fire_loop impl now n fired op' rt' (route_all_outputs ex n outputs))"

definition fire_node ::
  "('o, 'd, 's) operator_impl \<Rightarrow> i64 \<Rightarrow> node_id \<Rightarrow> ('o, 'd, 's) dag_executor \<Rightarrow> ('o, 'd, 's) dag_executor" where
  "fire_node impl now n ex =
     (if n \<ge> ex_slot_count ex then ex
      else
        let ex1 = ex\<lparr>ex_operators := (ex_operators ex)[n := None], ex_runtimes := (ex_runtimes ex)[n := None]\<rparr>;
            (operator, runtime, ex2) =
              (case (ex_operators ex ! n, ex_runtimes ex ! n) of
                 (Some op, Some rt) \<Rightarrow>
                   let (ts, fired) = poll_timers (nr_timer_service rt) now;
                       (op', rt', ex') = fire_loop impl now n fired op (rt\<lparr>nr_timer_service := ts\<rparr>) ex1
                   in (Some op', Some rt', ex')
               | (op, rt) \<Rightarrow> (op, rt, ex1))
        in ex2\<lparr>ex_operators := (ex_operators ex2)[n := operator],
               ex_runtimes := (ex_runtimes ex2)[n := runtime]\<rparr>)"

definition fire_timers :: "('o, 'd, 's) operator_impl \<Rightarrow> ('o, 'd, 's) dag_executor \<Rightarrow> i64 \<Rightarrow> ('o, 'd, 's) dag_executor" where
  "fire_timers impl ex current_time =
     process_dag impl (fold (fire_node impl current_time) (ex_execution_order ex) ex)"

definition process_watermark ::
  "('o, 'd, 's) operator_impl \<Rightarrow> ('o, 'd, 's) dag_executor \<Rightarrow> node_id \<Rightarrow> i64 \<Rightarrow>
   ('o, 'd, 's) dag_executor \<times> 'ty dag_error option" where
  "process_watermark impl ex src wm =
     (if src \<ge> ex_slot_count ex then (ex, Some (NodeNotFound (node_display src)))
      else
        let ex1 = fire_timers impl (track_watermark ex src wm) wm; m = ex_metrics ex1
        in (ex1\<lparr>ex_metrics := m\<lparr>xm_watermarks_processed := xm_watermarks_processed m + 1\<rparr>\<rparr>, None))"

definition take_sink_outputs :: "('o, 'd, 's) dag_executor \<Rightarrow> node_id \<Rightarrow> ('o, 'd, 's) dag_executor \<times> 'd event list" where
  "take_sink_outputs ex n =
     (if n < ex_slot_count ex
      then (ex\<lparr>ex_sink_outputs := (ex_sink_outputs ex)[n := []]\<rparr>, ex_sink_outputs ex ! n)
      else (ex, []))"

fun take_all_loop ::
  "node_id list \<Rightarrow> ('o, 'd, 's) dag_executor \<Rightarrow> (node_id, 'd event list) hashmap \<Rightarrow>
   ('o, 'd, 's) dag_executor \<times> (node_id, 'd event list) hashmap" where
  "take_all_loop [] ex outputs = (ex, outputs)"
| "take_all_loop (n # ns) ex outputs =
     (if n < ex_slot_count ex then
        let events = ex_sink_outputs ex ! n; ex1 = ex\<lparr>ex_sink_outputs := (ex_sink_outputs ex)[n := []]\<rparr>
        in take_all_loop ns ex1 (if events \<noteq> [] then AList.update n events outputs else outputs)
      else take_all_loop ns ex outputs)"

definition take_all_sink_outputs ::
  "('o, 'd, 's) dag_executor \<Rightarrow> ('o, 'd, 's) dag_executor \<times> (node_id, 'd event list) hashmap" where
  "take_all_sink_outputs ex = take_all_loop (ex_sink_nodes ex) ex []"

definition inject_events :: "('o, 'd, 's) dag_executor \<Rightarrow> node_id \<Rightarrow> 'd event list \<Rightarrow> ('o, 'd, 's) dag_executor" where
  "inject_events ex n events =
     (if n < ex_slot_count ex
      then ex\<lparr>ex_input_queues := (ex_input_queues ex)[n := ex_input_queues ex ! n @ events]\<rparr> else ex)"

definition ex_reset_metrics :: "('o, 'd, 's) dag_executor \<Rightarrow> ('o, 'd, 's) dag_executor" where
  "ex_reset_metrics ex =
     ex\<lparr>ex_metrics := executor_metrics_default,
        ex_node_metrics := map (\<lambda>_. node_metrics_default) (ex_node_metrics ex)\<rparr>"

section \<open>Checkpoints of the executor\<close>

text \<open>Checkpointing mutates the operators; the states are collected in slot order.\<close>

fun checkpoint_ops ::
  "('o, 'd, 's) operator_impl \<Rightarrow> nat \<Rightarrow> 'o option list \<Rightarrow> 'o option list \<times> (node_id, operator_state) hashmap" where
  "checkpoint_ops impl idx [] = ([], [])"
| "checkpoint_ops impl idx (None # ops) =
     (let (ops', states) = checkpoint_ops impl (idx + 1) ops in (None # ops', states))"
| "checkpoint_ops impl idx (Some op # ops) =
     (let (op', st) = oi_checkpoint impl op; (ops', states) = checkpoint_ops impl (idx + 1) ops
      in (Some op' # ops', (idx, st) # states))"

definition ex_checkpoint ::
  "('o, 'd, 's) operator_impl \<Rightarrow> ('o, 'd, 's) dag_executor \<Rightarrow>
   ('o, 'd, 's) dag_executor \<times> (node_id, operator_state) hashmap" where
  "ex_checkpoint impl ex =
     (let (ops, states) = checkpoint_ops impl 0 (ex_operators ex) in (ex\<lparr>ex_operators := ops\<rparr>, states))"

definition ex_checkpoint_watermarks :: "('o, 'd, 's) dag_executor \<Rightarrow> i64 list" where
  "ex_checkpoint_watermarks ex = dw_checkpoint (ex_watermark_tracker ex)"

definition ex_restore_watermarks :: "('o, 'd, 's) dag_executor \<Rightarrow> i64 list \<Rightarrow> ('o, 'd, 's) dag_executor" where
  "ex_restore_watermarks ex c = ex\<lparr>ex_watermark_tracker := dw_restore (ex_watermark_tracker ex) c\<rparr>"

definition ex_node_type :: "('o, 'd, 's) dag_executor \<Rightarrow> node_id \<Rightarrow> dag_node_type option" where
  "ex_node_type ex n = (if n < ex_slot_count ex then Some (ex_node_types ex ! n) else None)"

definition ex_input_count :: "('o, 'd, 's) dag_executor \<Rightarrow> node_id \<Rightarrow> nat" where
  "ex_input_count ex n = (if n < ex_slot_count ex then ex_input_counts ex ! n else 0)"

fun operator_error_text :: "operator_error \<Rightarrow> string" where
  "operator_error_text (StateAccessFailed s) = ''State access failed: '' @ s"
| "operator_error_text (SerializationFailed s) = ''Serialization failed: '' @ s"
| "operator_error_text (ProcessingFailed s) = ''Processing failed: '' @ s"
| "operator_error_text (ConfigError s) = ''Configuration error: '' @ s"

fun ex_restore ::
  "('o, 'd, 's) operator_impl \<Rightarrow> ('o, 'd, 's) dag_executor \<Rightarrow> (node_id, operator_state) hashmap \<Rightarrow>
   ('o, 'd, 's) dag_executor \<times> 'ty dag_error option" where
  "ex_restore impl ex [] = (ex, None)"
| "ex_restore impl ex ((n, st) # states) =
     (if n < ex_slot_count ex then
        (case ex_operators ex ! n of
           Some op \<Rightarrow>
             let (op', r) = oi_restore impl op st; ex1 = ex\<lparr>ex_operators := (ex_operators ex)[n := Some op']\<rparr>
             in (case r of
                   Some e \<Rightarrow> (ex1, Some (RestoreFailed (node_display n) (operator_error_text e)))
                 | None \<Rightarrow> ex_restore impl ex1 states)
         | None \<Rightarrow> ex_restore impl ex states)
      else ex_restore impl ex states)"

text \<open>The barrier variant visits the nodes in execution order.\<close>

fun barrier_ops ::
  "('o, 'd, 's) operator_impl \<Rightarrow> nat \<Rightarrow> node_id list \<Rightarrow> 'o option list \<Rightarrow> (node_id, operator_state) hashmap \<Rightarrow>
   'o option list \<times> (node_id, operator_state) hashmap" where
  "barrier_ops impl k [] ops states = (ops, states)"
| "barrier_ops impl k (n # ns) ops states =
     (if n < k then
        (case ops ! n of
           Some op \<Rightarrow>
             let (op', st) = oi_checkpoint impl op
             in barrier_ops impl k ns (ops[n := Some op']) (AList.update n st states)
         | None \<Rightarrow> barrier_ops impl k ns ops states)
      else barrier_ops impl k ns ops states)"

definition process_checkpoint_barrier ::
  "('o, 'd, 's) operator_impl \<Rightarrow> ('o, 'd, 's) dag_executor \<Rightarrow> checkpoint_barrier \<Rightarrow>
   ('o, 'd, 's) dag_executor \<times> (node_id, operator_state) hashmap" where
  "process_checkpoint_barrier impl ex barrier =
     (let (ops, states) = barrier_ops impl (ex_slot_count ex) (ex_execution_order ex) (ex_operators ex) []
      in (ex\<lparr>ex_operators := ops\<rparr>, states))"

section \<open>The routing table of a graph\<close>

lemma collect_targets_spec:
  assumes "\<forall>i \<in> set eids. map_of edges i \<noteq> None" "cnt + length eids \<le> max_fan_out" "length targets = max_fan_out"
  shows "collect_targets edges eids targets cnt =
    (take cnt targets @ map (edge_target edges) eids @ drop (cnt + length eids) targets, cnt + length eids)"
  using assms
proof (induction eids arbitrary: targets cnt)
  case (Cons i eids)
  obtain e where e: "map_of edges i = Some e" using Cons.prems(1) by auto
  have "take (cnt + 1) (targets[cnt := de_target e]) = take cnt targets @ [de_target e]"
    using Cons.prems(2,3) by (simp add: take_Suc_conv_app_nth)
  then show ?case using Cons.prems e Cons.IH [of "cnt + 1" "targets[cnt := de_target e]"] by simp
qed simp

lemma node_entry_spec:
  assumes "dag_wf d" "map_of (sd_nodes d) v = Some n" "length (dn_outputs n) \<le> max_fan_out"
  shows "target_ids (node_entry d n) = map (edge_target (sd_edges d)) (dn_outputs n)"
    "re_target_count (node_entry d n) = length (dn_outputs n)"
    "re_is_multicast (node_entry d n) \<longleftrightarrow> length (dn_outputs n) > 1"
    "dn_outputs n \<noteq> [] \<Longrightarrow> re_targets (node_entry d n) ! 0 = hd (target_ids (node_entry d n))"
  using collect_targets_spec [OF outputs_targets(1) [OF assms(1,2)], of 0 "replicate max_fan_out 0"] assms(3)
  by (auto simp: node_entry_def target_ids_def hd_append hd_map nth_append hd_conv_nth)

lemma fold_routes:
  assumes "wf_map ns" "\<forall>(i, n) \<in> set ns. dn_id n = i \<and> i * k < length rs" "0 < k"
  shows "length (fold (\<lambda>(_, n) rs. if P n then rs else rs[dn_id n * k := g n]) ns rs) = length rs \<and>
    fold (\<lambda>(_, n) rs. if P n then rs else rs[dn_id n * k := g n]) ns rs ! (v * k) =
      (case map_of ns v of Some n \<Rightarrow> if P n then rs ! (v * k) else g n | None \<Rightarrow> rs ! (v * k))"
  using assms
proof (induction ns arbitrary: rs)
  case (Cons x ns)
  obtain i n where x: "x = (i, n)" by (cases x)
  have "map_of ns i = None" "dn_id n = i" "wf_map ns" "i * k < length rs"
    using Cons.prems by (auto simp: x wf_map_def map_of_eq_None_iff)
  then show ?case using Cons.prems Cons.IH [of rs] Cons.IH [of "rs[i * k := g n]"]
    by (auto simp: x nth_list_update split: option.split)
qed simp

lemma node_targets_spec:
  assumes "dag_wf d" "map_of (sd_nodes d) v = Some n" "length (dn_outputs n) \<le> max_fan_out"
  shows "target_ids (node_targets (routing_from_dag d) v) = map (edge_target (sd_edges d)) (dn_outputs n)"
    "is_terminal (node_targets (routing_from_dag d) v) \<longleftrightarrow> dn_outputs n = []"
    "re_is_multicast (node_targets (routing_from_dag d) v) \<longleftrightarrow> length (dn_outputs n) > 1"
    "dn_outputs n \<noteq> [] \<Longrightarrow> re_targets (node_targets (routing_from_dag d) v) ! 0 =
       hd (target_ids (node_targets (routing_from_dag d) v))"
proof -
  let ?m = "Max (set (map fst (sd_nodes d)))"
  have ne: "sd_nodes d \<noteq> []" using assms(2) by auto
  have le: "i \<le> ?m" if "(i, x) \<in> set (sd_nodes d)" for i x
    using that by (intro Max_ge) force+
  have ids: "\<forall>(i, x) \<in> set (sd_nodes d). dn_id x = i \<and> i * max_ports < length (replicate ((?m + 1) * max_ports) routing_entry_empty)"
  proof (intro ballI, clarify)
    fix i x assume ix: "(i, x) \<in> set (sd_nodes d)"
    then have "dn_id x = i" using dag_wfD(1,3) [OF assms(1)] by (simp add: wf_map_in_set node_ok_def)
    moreover have "i * max_ports < (?m + 1) * max_ports"
      using le [OF ix] by (simp only: mult_less_mono1 max_ports_def max_fan_out_def)
    ultimately show "dn_id x = i \<and> i * max_ports < length (replicate ((?m + 1) * max_ports) routing_entry_empty)"
      by simp
  qed
  have v: "v * max_ports < (?m + 1) * max_ports"
    using ids map_of_SomeD [OF assms(2)] by auto
  have "0 < max_ports" by (simp add: max_ports_def max_fan_out_def)
  from fold_routes [OF dag_wfD(1) [OF assms(1)] ids this, of "\<lambda>n. dn_outputs n = []" "node_entry d" v]
  have r: "node_targets (routing_from_dag d) v = (if dn_outputs n = [] then routing_entry_empty else node_entry d n)"
    using ne v by (simp add: node_targets_def route_def routing_from_dag_def Let_def assms(2))
  show "target_ids (node_targets (routing_from_dag d) v) = map (edge_target (sd_edges d)) (dn_outputs n)"
    "is_terminal (node_targets (routing_from_dag d) v) \<longleftrightarrow> dn_outputs n = []"
    "re_is_multicast (node_targets (routing_from_dag d) v) \<longleftrightarrow> length (dn_outputs n) > 1"
    "dn_outputs n \<noteq> [] \<Longrightarrow> re_targets (node_targets (routing_from_dag d) v) ! 0 =
       hd (target_ids (node_targets (routing_from_dag d) v))"
    unfolding r using node_entry_spec [OF assms]
    by (auto simp: routing_entry_empty_def target_ids_def is_terminal_def)
qed

section \<open>Queues\<close>

definition ex_frame :: "('o, 'd, 's) dag_executor \<Rightarrow> node_id list \<times> routing_table \<times> nat \<times> nat" where
  "ex_frame ex = (ex_execution_order ex, ex_routing ex, ex_slot_count ex, length (ex_input_queues ex))"

text \<open>The executor of a graph with edges \<^verbatim>\<open>R\<close>: topological order, and routes along the edges.\<close>

definition ex_ok :: "(node_id \<times> node_id) set \<Rightarrow> ('o, 'd, 's) dag_executor \<Rightarrow> bool" where
  "ex_ok R ex \<longleftrightarrow>
     distinct (ex_execution_order ex) \<and> topo_sorted R (ex_execution_order ex) \<and>
     set (ex_execution_order ex) = {..<ex_slot_count ex} \<and> length (ex_input_queues ex) = ex_slot_count ex \<and>
     (\<forall>n < ex_slot_count ex.
        let en = node_targets (ex_routing ex) n
        in set (target_ids en) = {m. (n, m) \<in> R} \<and> (\<forall>m \<in> set (target_ids en). m < ex_slot_count ex) \<and>
           (is_terminal en \<longleftrightarrow> target_ids en = []) \<and> (re_is_multicast en \<longleftrightarrow> length (target_ids en) > 1) \<and>
           (target_ids en \<noteq> [] \<longrightarrow> re_targets en ! 0 = hd (target_ids en)))"

lemma ex_ok_frame: "ex_frame ex' = ex_frame ex \<Longrightarrow> ex_ok R ex' = ex_ok R ex"
  by (simp add: ex_ok_def ex_frame_def)

lemma push_queue_frame [simp]: "ex_frame (push_queue t e ex) = ex_frame ex"
  by (simp add: push_queue_def ex_frame_def)

lemma push_sink_frame [simp]:
  "ex_frame (push_sink t e ex) = ex_frame ex" "ex_input_queues (push_sink t e ex) = ex_input_queues ex"
  by (simp_all add: push_sink_def ex_frame_def)

lemma push_queues:
  "length (ex_input_queues (fold (\<lambda>t. push_queue t e) ts ex)) = length (ex_input_queues ex) \<and>
   ex_frame (fold (\<lambda>t. push_queue t e) ts ex) = ex_frame ex \<and>
   (m < length (ex_input_queues ex) \<longrightarrow>
     ex_input_queues (fold (\<lambda>t. push_queue t e) ts ex) ! m = ex_input_queues ex ! m @ replicate (count_list ts m) e)"
  by (induction ts arbitrary: ex)
     (auto simp: push_queue_def ex_frame_def nth_list_update replicate_append_same [symmetric])

lemma fold_butlast: "ts \<noteq> [] \<Longrightarrow> fold f ts x = f (last ts) (fold f (butlast ts) x)"
  by (induction ts arbitrary: x) auto

text \<open>An event goes once along every outgoing edge; a node without outputs keeps it as a sink output.\<close>

lemma route_output_queues:
  assumes "ex_ok R ex" "n < ex_slot_count ex"
  shows "ex_frame (route_output ex n e) = ex_frame ex"
    "m < ex_slot_count ex \<Longrightarrow> ex_input_queues (route_output ex n e) ! m =
       ex_input_queues ex ! m @ replicate (count_list (target_ids (node_targets (ex_routing ex) n)) m) e"
proof -
  let ?en = "node_targets (ex_routing ex) n" and ?ts = "target_ids (node_targets (ex_routing ex) n)"
  have en: "is_terminal ?en \<longleftrightarrow> ?ts = []" "re_is_multicast ?en \<longleftrightarrow> length ?ts > 1"
    "?ts \<noteq> [] \<Longrightarrow> re_targets ?en ! 0 = hd ?ts" "length (ex_input_queues ex) = ex_slot_count ex"
    using assms by (auto simp: ex_ok_def Let_def)
  have eq: "\<exists>ex1. ex_frame ex1 = ex_frame ex \<and> ex_input_queues ex1 = ex_input_queues ex \<and>
      route_output ex n e = fold (\<lambda>t. push_queue t e) ?ts ex1"
  proof (cases "?ts = []")
    case True
    then show ?thesis using en(1) by (intro exI [of _ "push_sink n e ex"]) (simp add: route_output_def Let_def)
  next
    case False
    show ?thesis
    proof (cases "length ?ts > 1")
      case True
      let ?ex1 = "ex\<lparr>ex_metrics := (ex_metrics ex)\<lparr>xm_events_routed := xm_events_routed (ex_metrics ex) + 1,
          xm_multicast_publishes := xm_multicast_publishes (ex_metrics ex) + 1\<rparr>\<rparr>"
      have "route_output ex n e = push_queue (last ?ts) e (fold (\<lambda>t. push_queue t e) (butlast ?ts) ?ex1)"
        using False True en(1,2) by (simp add: route_output_def Let_def)
      then have "route_output ex n e = fold (\<lambda>t. push_queue t e) ?ts ?ex1"
        using fold_butlast [OF False] by metis
      then show ?thesis by (intro exI [of _ ?ex1]) (simp add: ex_frame_def)
    next
      case single: False
      let ?ex1 = "ex\<lparr>ex_metrics := (ex_metrics ex)\<lparr>xm_events_routed := xm_events_routed (ex_metrics ex) + 1\<rparr>\<rparr>"
      obtain t where t: "?ts = [t]" using False single by (cases ?ts) auto
      have "route_output ex n e = push_queue t e ?ex1"
        using False single en(1,2,3) by (simp add: route_output_def Let_def t)
      then have "route_output ex n e = fold (\<lambda>t. push_queue t e) ?ts ?ex1" by (simp add: t)
      then show ?thesis by (intro exI [of _ ?ex1]) (simp add: ex_frame_def)
    qed
  qed
  then obtain ex1 where ex1: "ex_frame ex1 = ex_frame ex" "ex_input_queues ex1 = ex_input_queues ex"
    "route_output ex n e = fold (\<lambda>t. push_queue t e) ?ts ex1" by blast
  show "ex_frame (route_output ex n e) = ex_frame ex" using ex1 push_queues [of e ?ts ex1] by simp
  show "m < ex_slot_count ex \<Longrightarrow> ex_input_queues (route_output ex n e) ! m = ex_input_queues ex ! m @ replicate (count_list ?ts m) e"
    using ex1 push_queues [of e ?ts ex1 m] en(4) by simp
qed

text \<open>A change made on behalf of node \<^verbatim>\<open>n\<close> touches only the queues of its successors.\<close>

definition touches ::
  "(node_id \<times> node_id) set \<Rightarrow> node_id \<Rightarrow> ('o, 'd, 's) dag_executor \<Rightarrow> ('o, 'd, 's) dag_executor \<Rightarrow> bool" where
  "touches R n ex ex' \<longleftrightarrow>
     ex_frame ex' = ex_frame ex \<and>
     (\<forall>m < ex_slot_count ex. (n, m) \<notin> R \<longrightarrow> ex_input_queues ex' ! m = ex_input_queues ex ! m)"

lemma touches_refl [simp]: "touches R n ex ex"
  by (simp add: touches_def)

lemma touches_trans: "touches R n ex ex1 \<Longrightarrow> touches R n ex1 ex2 \<Longrightarrow> touches R n ex ex2"
  by (auto simp: touches_def ex_frame_def)

lemma touches_same: "ex_frame ex' = ex_frame ex \<Longrightarrow> ex_input_queues ex' = ex_input_queues ex \<Longrightarrow> touches R n ex ex'"
  by (simp add: touches_def)

lemma touches_ok: "touches R n ex ex' \<Longrightarrow> ex_ok R ex' = ex_ok R ex"
  unfolding touches_def by (elim conjE, rule ex_ok_frame)

lemma touches_slots: "touches R n ex ex' \<Longrightarrow> ex_slot_count ex' = ex_slot_count ex"
  by (simp add: touches_def ex_frame_def)

lemma advance_generators_same:
  "ex_frame (fold advance_generator upd ex) = ex_frame ex \<and>
   ex_input_queues (fold advance_generator upd ex) = ex_input_queues ex"
proof (induction upd arbitrary: ex)
  case (Cons x upd)
  have "ex_frame (advance_generator x ex) = ex_frame ex \<and> ex_input_queues (advance_generator x ex) = ex_input_queues ex"
    by (cases x) (simp add: advance_generator_def ex_frame_def split: option.split)
  then show ?case using Cons.IH [of "advance_generator x ex"] by simp
qed simp

lemma track_watermark_same:
  "ex_frame (track_watermark ex src wm) = ex_frame ex" "ex_input_queues (track_watermark ex src wm) = ex_input_queues ex"
proof -
  obtain t upd where u: "dw_update_watermark (ex_watermark_tracker ex) src wm = (t, upd)" by fastforce
  show "ex_frame (track_watermark ex src wm) = ex_frame ex"
    "ex_input_queues (track_watermark ex src wm) = ex_input_queues ex"
    using advance_generators_same [of upd "ex\<lparr>ex_watermark_tracker := t\<rparr>"]
    by (simp_all add: track_watermark_def u ex_frame_def)
qed

lemma bump_node_same [simp]:
  "ex_frame (bump_node n f ex) = ex_frame ex" "ex_input_queues (bump_node n f ex) = ex_input_queues ex"
  "ex_slot_count (bump_node n f ex) = ex_slot_count ex" "ex_routing (bump_node n f ex) = ex_routing ex"
  by (simp_all add: bump_node_def ex_frame_def)

lemma route_output_touches:
  assumes "ex_ok R ex" "n < ex_slot_count ex"
  shows "touches R n ex (route_output ex n e)"
proof -
  have "count_list (target_ids (node_targets (ex_routing ex) n)) m = 0" if "(n, m) \<notin> R" for m
    using assms that by (auto simp: ex_ok_def Let_def count_list_0_iff)
  then show ?thesis using route_output_queues [OF assms] by (simp add: touches_def)
qed

lemma route_one_touches:
  assumes "ex_ok R ex" "n < ex_slot_count ex"
  shows "touches R n ex (route_one n out ex)"
proof (cases out)
  case (OutEvent e)
  let ?ex1 = "bump_node n (\<lambda>m. m\<lparr>nm_events_out := nm_events_out m + 1\<rparr>) ex"
  have "ex_frame ?ex1 = ex_frame ex" by simp
  from ex_ok_frame [OF this, of R] have "ex_ok R ?ex1" using assms by blast
  then have "touches R n ?ex1 (route_output ?ex1 n e)" using assms(2) by (intro route_output_touches) simp_all
  moreover have "touches R n ex ?ex1" by (rule touches_same) simp_all
  ultimately show ?thesis using OutEvent assms(2) touches_trans by (simp, blast)
qed (auto intro: touches_same simp: track_watermark_same)

lemma route_all_touches:
  assumes "ex_ok R ex" "n < ex_slot_count ex"
  shows "touches R n ex (route_all_outputs ex n outs)"
  unfolding route_all_outputs_def using assms
proof (induction outs arbitrary: ex)
  case (Cons out outs)
  note t = route_one_touches [OF Cons.prems, of out]
  from Cons.IH [of "route_one n out ex"] touches_ok [OF t] touches_slots [OF t] Cons.prems
  have "touches R n (route_one n out ex) (fold (route_one n) outs (route_one n out ex))" by simp
  then show ?case using touches_trans [OF t] by simp
qed simp

lemma process_events_touches:
  assumes "ex_ok R ex" "n < ex_slot_count ex" "process_events impl n es op rt ex = (op', rt', ex')"
  shows "touches R n ex ex'"
  using assms
proof (induction es arbitrary: op rt ex)
  case (Cons e es)
  obtain op1 rt1 outs where o: "(case (op, rt) of
      (Some op, Some rt) \<Rightarrow>
        let (op', rt', outs) = oi_process impl op e (ev_timestamp e) 0 n rt in (Some op', Some rt', outs)
      | _ \<Rightarrow> (op, rt, passthrough_output e)) = (op1, rt1, outs)" by (metis prod_cases3)
  let ?ex1 = "bump_node n (\<lambda>m. m\<lparr>nm_invocations := nm_invocations m + 1\<rparr>)
     (bump_node n (\<lambda>m. m\<lparr>nm_events_in := nm_events_in m + 1\<rparr>)
       (ex\<lparr>ex_metrics := (ex_metrics ex)\<lparr>xm_events_processed := xm_events_processed (ex_metrics ex) + 1\<rparr>\<rparr>))"
  have t1: "touches R n ex ?ex1" by (rule touches_same) (simp_all add: ex_frame_def bump_node_def)
  have ok1: "ex_ok R ?ex1" "n < ex_slot_count ?ex1"
    using Cons.prems touches_ok [OF t1] touches_slots [OF t1] by simp_all
  note t2 = route_all_touches [OF ok1, of outs]
  have ok2: "ex_ok R (route_all_outputs ?ex1 n outs)" "n < ex_slot_count (route_all_outputs ?ex1 n outs)"
    using ok1 touches_ok [OF t2] touches_slots [OF t2] by simp_all
  have "process_events impl n es op1 rt1 (route_all_outputs ?ex1 n outs) = (op', rt', ex')"
    using Cons.prems(3) unfolding process_events.simps(2) Let_def o [unfolded Let_def] by simp
  from Cons.IH [OF ok2 this] show ?case using t1 t2 touches_trans by blast
qed simp

text \<open>Processing a node empties its queue.\<close>

lemma process_node_spec:
  assumes "ex_ok R ex" "n < ex_slot_count ex" "(n, n) \<notin> R"
  shows "touches R n (ex\<lparr>ex_input_queues := (ex_input_queues ex)[n := []]\<rparr>) (process_node impl n ex)"
    "ex_input_queues (process_node impl n ex) ! n = []"
proof -
  have len: "length (ex_input_queues ex) = ex_slot_count ex" using assms(1) by (simp add: ex_ok_def)
  show t: "touches R n (ex\<lparr>ex_input_queues := (ex_input_queues ex)[n := []]\<rparr>) (process_node impl n ex)"
  proof (cases "ex_input_queues ex ! n = []")
    case True
    then have "(ex_input_queues ex)[n := []] = ex_input_queues ex" by (metis list_update_id)
    then show ?thesis using True by (simp add: process_node_def Let_def touches_def ex_frame_def)
  next
    case False
    let ?ex1 = "ex\<lparr>ex_input_queues := (ex_input_queues ex)[n := []], ex_operators := (ex_operators ex)[n := None],
                   ex_runtimes := (ex_runtimes ex)[n := None]\<rparr>"
    obtain op rt ex2 where p: "process_events impl n (ex_input_queues ex ! n) (ex_operators ex ! n)
        (ex_runtimes ex ! n) ?ex1 = (op, rt, ex2)" by (metis prod_cases3)
    have "ex_ok R ?ex1" using assms(1) by (simp add: ex_ok_def)
    from process_events_touches [OF this _ p] assms(2) have t: "touches R n ?ex1 ex2" by simp
    have "process_node impl n ex = ex2\<lparr>ex_operators := (ex_operators ex2)[n := op], ex_runtimes := (ex_runtimes ex2)[n := rt]\<rparr>"
      using False by (simp add: process_node_def Let_def p)
    then show ?thesis using t by (simp add: touches_def ex_frame_def)
  qed
  show "ex_input_queues (process_node impl n ex) ! n = []"
    using t assms(2,3) len by (simp add: touches_def)
qed

lemma process_dag_loop:
  assumes "ex_ok R ex" "ex_execution_order ex = ys @ zs" "\<forall>v \<in> set ys. ex_input_queues ex ! v = []"
  shows "ex_frame (fold (process_node impl) zs ex) = ex_frame ex \<and>
    (\<forall>v \<in> set (ys @ zs). ex_input_queues (fold (process_node impl) zs ex) ! v = [])"
  using assms
proof (induction zs arbitrary: ys ex)
  case (Cons n zs)
  have o: "topo_sorted R (ys @ n # zs)" "distinct (ys @ n # zs)" "set (ys @ n # zs) = {..<ex_slot_count ex}"
    using Cons.prems(1,2) by (auto simp: ex_ok_def)
  then have n: "n < ex_slot_count ex" by auto
  have nn: "(n, n) \<notin> R" using o(1,2) unfolding topo_sorted_def by auto
  let ?ex1 = "process_node impl n ex"
  note p = process_node_spec [OF Cons.prems(1) n nn, of impl]
  have fr: "ex_frame ?ex1 = ex_frame ex" using p(1) by (simp add: touches_def ex_frame_def)
  have "ex_input_queues ?ex1 ! v = []" if v: "v \<in> set (ys @ [n])" for v
  proof (cases "v = n")
    case False
    then have "v \<in> set ys" "v < ex_slot_count ex" using v o(3) by auto
    then show ?thesis
      using p(1) topo_sorted_no_later [OF o(1,2)] False Cons.prems(3) by (auto simp: touches_def)
  qed (use p(2) in simp)
  moreover have "ex_ok R ?ex1" "ex_execution_order ?ex1 = (ys @ [n]) @ zs"
    using Cons.prems fr ex_ok_frame [OF fr] by (auto simp: ex_frame_def)
  ultimately show ?case using Cons.IH [of ?ex1 "ys @ [n]"] fr by simp
qed simp

lemma process_dag_drains:
  assumes "ex_ok R ex"
  shows "ex_frame (process_dag impl ex) = ex_frame ex"
    "\<forall>v < ex_slot_count ex. ex_input_queues (process_dag impl ex) ! v = []"
proof -
  have "ex_execution_order ex = [] @ ex_execution_order ex" by simp
  from process_dag_loop [OF assms this, of impl] show "ex_frame (process_dag impl ex) = ex_frame ex"
    "\<forall>v < ex_slot_count ex. ex_input_queues (process_dag impl ex) ! v = []"
    using assms by (auto simp: process_dag_def ex_ok_def)
qed

lemma fire_loop_touches:
  assumes "ex_ok R ex" "n < ex_slot_count ex" "fire_loop impl now n fired op rt ex = (op', rt', ex')"
  shows "touches R n ex ex'"
  using assms
proof (induction fired arbitrary: op rt ex)
  case (Cons reg fired)
  obtain op1 rt1 outs where o: "oi_on_timer impl op (unwrap_or (tr_key reg) [], tr_timestamp reg) (tr_timestamp reg) now n rt
      = (op1, rt1, outs)" by (metis prod_cases3)
  note t = route_all_touches [OF Cons.prems(1,2), of outs]
  have "fire_loop impl now n fired op1 rt1 (route_all_outputs ex n outs) = (op', rt', ex')"
    using Cons.prems(3) by (simp add: o)
  from Cons.IH [OF _ _ this] Cons.prems(1,2) touches_ok [OF t] touches_slots [OF t]
  show ?case using t touches_trans by (simp, blast)
qed simp

lemma fire_node_frame:
  assumes "ex_ok R ex"
  shows "ex_frame (fire_node impl now n ex) = ex_frame ex"
proof (cases "n < ex_slot_count ex")
  case True
  let ?ex1 = "ex\<lparr>ex_operators := (ex_operators ex)[n := None], ex_runtimes := (ex_runtimes ex)[n := None]\<rparr>"
  have ok1: "ex_ok R ?ex1" using assms by (simp add: ex_ok_def)
  have "ex_frame ex2 = ex_frame ?ex1" if "fire_loop impl now n fired op rt ?ex1 = (op', rt', ex2)" for fired op rt op' rt' ex2
    using fire_loop_touches [OF ok1 _ that] True by (simp add: touches_def)
  then show ?thesis
    using True by (auto simp: fire_node_def Let_def ex_frame_def split: option.split prod.split)
qed (simp add: fire_node_def)

lemma fire_nodes_frame: "ex_ok R ex \<Longrightarrow> ex_frame (fold (fire_node impl now) ns ex) = ex_frame ex"
proof (induction ns arbitrary: ex)
  case (Cons n ns)
  note f = fire_node_frame [OF Cons.prems, of impl now n]
  show ?case using Cons.IH [of "fire_node impl now n ex"] ex_ok_frame [OF f] Cons.prems f by simp
qed simp

lemma fire_timers_drains:
  assumes "ex_ok R ex"
  shows "ex_frame (fire_timers impl ex t) = ex_frame ex"
    "\<forall>v < ex_slot_count ex. ex_input_queues (fire_timers impl ex t) ! v = []"
proof -
  note f = fire_nodes_frame [OF assms, of impl t "ex_execution_order ex"]
  have "ex_ok R (fold (fire_node impl t) (ex_execution_order ex) ex)" using ex_ok_frame [OF f] assms by simp
  from process_dag_drains [OF this, of impl] f show "ex_frame (fire_timers impl ex t) = ex_frame ex"
    "\<forall>v < ex_slot_count ex. ex_input_queues (fire_timers impl ex t) ! v = []"
    by (auto simp: fire_timers_def ex_frame_def)
qed

section \<open>Executors of finalised graphs\<close>

text \<open>Node identifiers are dense, so every slot belongs to a node.\<close>

lemma dag_step_dense:
  assumes "dag_wf d" "\<forall>i < sd_next_node_id d. map_of (sd_nodes d) i \<noteq> None"
  shows "\<forall>i < sd_next_node_id (dag_step op d). map_of (sd_nodes (dag_step op d)) i \<noteq> None"
proof (cases op)
  case (OpAddNode name ty sch)
  then show ?thesis using assms(2) by (auto simp: add_node_def Let_def less_Suc_eq)
next
  case (OpAddEdge u v)
  then show ?thesis using assms(2) by (auto simp: add_edge_def Let_def)
next
  case OpFinalize
  obtain order where o: "compute_execution_order d =
      Some (if acyclic (dag_rel d) then (d\<lparr>sd_execution_order := order\<rparr>, None) else (d, Some (cycle_error d order)))"
    using compute_execution_order_spec [OF assms(1)] by blast
  have "\<exists>d' r. dag_finalize d = Some (d', r) \<and> sd_nodes d' = sd_nodes d \<and> sd_next_node_id d' = sd_next_node_id d"
    by (cases "acyclic (dag_rel d)") (auto simp: dag_finalize_def o finalize_rest_fields split: option.split)
  then show ?thesis using assms(2) OpFinalize by auto
qed

lemma dag_build_dense: "\<forall>i < sd_next_node_id (dag_build ops). map_of (sd_nodes (dag_build ops)) i \<noteq> None"
proof -
  have "dag_wf (dag_build ops) \<and> (\<forall>i < sd_next_node_id (dag_build ops). map_of (sd_nodes (dag_build ops)) i \<noteq> None)"
    by (rule fold_invariant [where Q = "\<lambda>_. True"])
       (simp_all add: dag_new_def [THEN arg_cong [of _ _ sd_next_node_id]] dag_step_wf dag_step_dense)
  then show ?thesis by blast
qed

lemma finalized_slots:
  assumes "dag_finalize (dag_build ops) = Some (d, None)"
  shows "dom (map_of (sd_nodes d)) = {..<slot_count_of d}"
proof -
  have wf: "dag_wf d" by (rule finalized_fields [OF assms])
  obtain order where d: "d = finalize_rest ((dag_build ops)\<lparr>sd_execution_order := order\<rparr>)"
    using dag_finalize_cases [OF dag_build_wf, of ops] assms by auto
  have dense: "\<forall>i < sd_next_node_id d. map_of (sd_nodes d) i \<noteq> None"
    using dag_build_dense [of ops] by (simp add: d finalize_rest_fields)
  have "i < sd_next_node_id d" if i: "i < slot_count_of d" for i
  proof -
    have ne: "sd_nodes d \<noteq> []" using i by (auto simp: slot_count_of_def)
    let ?K = "set (map fst (sd_nodes d))"
    have "Max ?K \<in> ?K" using ne by (intro Max_in) auto
    then have "map_of (sd_nodes d) (Max ?K) \<noteq> None" by (metis map_of_eq_None_iff set_map)
    then have "Max ?K < sd_next_node_id d" using dag_wfD(3) [OF wf] by (auto simp: node_ok_def)
    moreover have "i < Max ?K + 1" using i ne unfolding slot_count_of_def by (simp only: if_False)
    ultimately show ?thesis by linarith
  qed
  then show ?thesis using dense slot_count_bound [of d] by (auto simp: dom_def)
qed

lemma ex_from_dag_ok:
  assumes "dag_finalize (dag_build ops) = Some (d, None)"
  shows "ex_ok (dag_rel d) (ex_from_dag store d :: ('o, 'd, 's) dag_executor)"
proof -
  note f = finalized_fields [OF assms] and slots = finalized_slots [OF assms]
  have entry: "let en = node_targets (routing_from_dag d) n
     in set (target_ids en) = {m. (n, m) \<in> dag_rel d} \<and> (\<forall>m \<in> set (target_ids en). m < slot_count_of d) \<and>
        (is_terminal en \<longleftrightarrow> target_ids en = []) \<and> (re_is_multicast en \<longleftrightarrow> length (target_ids en) > 1) \<and>
        (target_ids en \<noteq> [] \<longrightarrow> re_targets en ! 0 = hd (target_ids en))" if n: "n < slot_count_of d" for n
  proof -
    obtain nd where nd: "map_of (sd_nodes d) n = Some nd" using n slots by blast
    have "length (dn_outputs nd) \<le> max_fan_out" using f(6) map_of_SomeD [OF nd] by auto
    note t = node_targets_spec [OF f(1) nd this]
    have "set (map (edge_target (sd_edges d)) (dn_outputs nd)) = set (map (de_target \<circ> snd) (out_edges d n))"
      using outputs_targets(3) [OF f(1) nd] by (metis mset_eq_setD)
    also have "\<dots> = {m. (n, m) \<in> dag_rel d}"
      unfolding dag_rel_iff set_map out_edges_def by (auto simp: image_iff) blast+
    finally have s: "set (target_ids (node_targets (routing_from_dag d) n)) = {m. (n, m) \<in> dag_rel d}"
      unfolding t(1) .
    have "m < slot_count_of d" if "(n, m) \<in> dag_rel d" for m
    proof -
      have "map_of (sd_nodes d) m \<noteq> None"
        using that edge_in_set [OF f(1)] unfolding dag_rel_iff by (auto simp: edge_ok_def)
      then show ?thesis using slots by blast
    qed
    then show ?thesis unfolding Let_def using s t by auto
  qed
  show ?thesis
    using f slots entry by (simp add: ex_ok_def ex_from_dag_def Let_def)
qed

datatype ('o, 'd) ex_op =
    ExRegister node_id 'o
  | ExEvent node_id "'d event"
  | ExWatermark node_id i64
  | ExFireTimers i64
  | ExTakeSink node_id
  | ExInject node_id "'d event list"

fun ex_step :: "('o, 'd, 's) operator_impl \<Rightarrow> ('o, 'd) ex_op \<Rightarrow> ('o, 'd, 's) dag_executor \<Rightarrow> ('o, 'd, 's) dag_executor" where
  "ex_step impl (ExRegister n op) ex = register_operator ex n op"
| "ex_step impl (ExEvent n e) ex = fst (process_event impl ex n e :: _ \<times> unit dag_error option)"
| "ex_step impl (ExWatermark n w) ex = fst (process_watermark impl ex n w :: _ \<times> unit dag_error option)"
| "ex_step impl (ExFireTimers t) ex = fire_timers impl ex t"
| "ex_step impl (ExTakeSink n) ex = fst (take_sink_outputs ex n)"
| "ex_step impl (ExInject n es) ex = inject_events ex n es"

abbreviation ex_run :: "('o, 'd, 's) operator_impl \<Rightarrow> ('o, 'd) ex_op list \<Rightarrow> ('o, 'd, 's) dag_executor \<Rightarrow> ('o, 'd, 's) dag_executor" where
  "ex_run impl ops ex \<equiv> fold (ex_step impl) ops ex"

lemma process_event_drains:
  assumes "ex_ok R ex" "n < ex_slot_count ex"
  shows "ex_frame (fst (process_event impl ex n e :: _ \<times> unit dag_error option)) = ex_frame ex"
    "\<forall>v < ex_slot_count ex. ex_input_queues (fst (process_event impl ex n e :: _ \<times> unit dag_error option)) ! v = []"
proof -
  have "ex_frame (push_queue n e ex) = ex_frame ex" by simp
  then have "ex_ok R (push_queue n e ex)" "ex_slot_count (push_queue n e ex) = ex_slot_count ex"
    using assms(1) ex_ok_frame by (blast, simp add: ex_frame_def)
  from process_dag_drains [OF this(1), of impl] this(2) assms(2)
  show "ex_frame (fst (process_event impl ex n e :: _ \<times> unit dag_error option)) = ex_frame ex"
    "\<forall>v < ex_slot_count ex. ex_input_queues (fst (process_event impl ex n e :: _ \<times> unit dag_error option)) ! v = []"
    by (simp_all add: process_event_def)
qed

lemma process_watermark_drains:
  assumes "ex_ok R ex" "n < ex_slot_count ex"
  shows "ex_frame (fst (process_watermark impl ex n w :: _ \<times> unit dag_error option)) = ex_frame ex"
    "\<forall>v < ex_slot_count ex. ex_input_queues (fst (process_watermark impl ex n w :: _ \<times> unit dag_error option)) ! v = []"
proof -
  have fr: "ex_frame (track_watermark ex n w) = ex_frame ex" by (rule track_watermark_same)
  then have "ex_ok R (track_watermark ex n w)" "ex_slot_count (track_watermark ex n w) = ex_slot_count ex"
    using assms(1) ex_ok_frame [OF fr] by (simp_all add: ex_frame_def)
  from fire_timers_drains [OF this(1), of impl w] this(2) fr assms(2)
  show "ex_frame (fst (process_watermark impl ex n w :: _ \<times> unit dag_error option)) = ex_frame ex"
    "\<forall>v < ex_slot_count ex. ex_input_queues (fst (process_watermark impl ex n w :: _ \<times> unit dag_error option)) ! v = []"
    by (simp_all add: process_watermark_def Let_def ex_frame_def)
qed

lemma ex_step_frame:
  assumes "ex_ok R ex"
  shows "ex_frame (ex_step impl op ex) = ex_frame ex"
proof (cases op)
  case (ExEvent n e)
  then show ?thesis using process_event_drains(1) [OF assms] by (cases "n < ex_slot_count ex") (auto simp: process_event_def)
next
  case (ExWatermark n w)
  then show ?thesis using process_watermark_drains(1) [OF assms] by (cases "n < ex_slot_count ex") (auto simp: process_watermark_def)
next
  case (ExFireTimers t)
  then show ?thesis using fire_timers_drains(1) [OF assms] by simp
qed (auto simp: register_operator_def take_sink_outputs_def inject_events_def ex_frame_def)

lemma ex_run_ok:
  assumes "ex_ok R ex"
  shows "ex_ok R (ex_run impl ops ex) \<and> ex_slot_count (ex_run impl ops ex) = ex_slot_count ex"
  using assms
proof (induction ops arbitrary: ex)
  case (Cons op ops)
  note f = ex_step_frame [OF Cons.prems, of impl op]
  then show ?case using Cons.IH [of "ex_step impl op ex"] ex_ok_frame [OF f] Cons.prems by (simp add: ex_frame_def)
qed simp

section \<open>Properties\<close>


text \<open>
  The routing table of a finalised graph sends an output event exactly once along every outgoing edge:
  its queue grows by one copy per edge to a node, and by nothing for the other nodes (C33).
\<close>

theorem dag_route_exactly_once:
  fixes impl :: "('o, 'd, 's) operator_impl"
  assumes "dag_finalize (dag_build gops) = Some (d, None)" "n < slot_count_of d" "m < slot_count_of d"
  shows "let ex = ex_run impl ops (ex_from_dag store d)
         in ex_input_queues (route_output ex n e) ! m = ex_input_queues ex ! m @
              replicate (length (filter (\<lambda>(_, x). de_source x = n \<and> de_target x = m) (sd_edges d))) e"
proof -
  let ?ex0 = "ex_from_dag store d :: ('o, 'd, 's) dag_executor"
  have base: "ex_ok (dag_rel d) ?ex0" by (rule ex_from_dag_ok [OF assms(1)])
  have fr: "ex_frame (ex_run impl ops ?ex0) = ex_frame ?ex0"
  proof (induction ops rule: rev_induct)
    case (snoc op ops)
    have "ex_ok (dag_rel d) (ex_run impl ops ?ex0)" using ex_run_ok [OF base] by blast
    from ex_step_frame [OF this, of impl op] snoc show ?case by simp
  qed simp
  then have r: "ex_routing (ex_run impl ops ?ex0) = routing_from_dag d" "ex_slot_count (ex_run impl ops ?ex0) = slot_count_of d"
    by (simp_all add: ex_frame_def ex_from_dag_def Let_def)
  have ok: "ex_ok (dag_rel d) (ex_run impl ops ?ex0)" using ex_run_ok [OF base] by blast
  note f = finalized_fields [OF assms(1)]
  obtain nd where nd: "map_of (sd_nodes d) n = Some nd" using assms(2) finalized_slots [OF assms(1)] by blast
  have "length (dn_outputs nd) \<le> max_fan_out" using f(6) map_of_SomeD [OF nd] by auto
  note t = node_targets_spec(1) [OF f(1) nd this]
  have "count_list (target_ids (node_targets (routing_from_dag d) n)) m =
      length (filter (\<lambda>(_, x). de_source x = n \<and> de_target x = m) (sd_edges d))"
    unfolding t outputs_targets(2) [OF f(1) nd] out_edges_def by (simp add: case_prod_unfold conj_commute)
  then show ?thesis
    using route_output_queues(2) [OF ok, of n m e] assms(2,3) by (simp add: r Let_def)
qed

text \<open>An operator that sets a timer ten after every event and emits an event when it fires.\<close>

definition timer_op :: "(unit, string, unit) operator_impl" where
  "timer_op =
     \<lparr>oi_process = (\<lambda>op e et pt i rt.
        (op, rt\<lparr>nr_timer_service := fst (register_timer (nr_timer_service rt) (et + 10) None (Some i))\<rparr>, [])),
      oi_on_timer = (\<lambda>op (k, ts) et pt i rt. (op, rt, [OutEvent \<lparr>ev_timestamp = ts, ev_data = ''fired''\<rparr>])),
      oi_checkpoint = (\<lambda>op. (op, operator_state_v1 ''0'' [])),
      oi_restore = (\<lambda>op st. (op, None))\<rparr>"


theorem dag_route_exactly_once_witness:
  "\<exists>d. dag_finalize (dag_build diamond) = Some (d, None) \<and>
     ex_input_queues (route_output (ex_run timer_op [] (ex_from_dag () d)) 0 \<lparr>ev_timestamp = 1, ev_data = ''x''\<rparr>) ! 3 =
     ex_input_queues (ex_run timer_op [] (ex_from_dag () d)) ! 3 @
       replicate (length (filter (\<lambda>(_, x). de_source x = 0 \<and> de_target x = 3) (sd_edges d))) \<lparr>ev_timestamp = 1, ev_data = ''x''\<rparr>"
proof -
  obtain d where d: "dag_finalize (dag_build diamond) = Some (d, None)" "map_of (sd_nodes d) 3 \<noteq> None"
    using diamond_finalized by (auto split: option.splits prod.splits)
  have "3 < slot_count_of d" using slot_count_bound [OF d(2)] .
  then show ?thesis
    using dag_route_exactly_once [OF d(1), of 0 3 timer_op "[]" "()" "\<lparr>ev_timestamp = 1, ev_data = ''x''\<rparr>"] d
    by (auto simp: Let_def)
qed

text \<open>
  Timers fire at the watermark of the reporting source on every node. Node 2 is fed by source 1 alone, which
  has not reported a watermark; a watermark of the unrelated source 0 fires its timer all the same.
\<close>

theorem timers_ignore_node_watermark:
  "case dag_finalize (dag_build [OpAddNode ''a'' Source ([] :: unit schema), OpAddNode ''b'' Source [],
        OpAddNode ''w'' StatefulOperator [], OpAddNode ''outa'' Sink [], OpAddNode ''outb'' Sink [],
        OpAddEdge 0 3, OpAddEdge 1 2, OpAddEdge 2 4]) of
     Some (d, None) \<Rightarrow>
       (let ex = ex_run timer_op [ExRegister 2 (), ExEvent 1 \<lparr>ev_timestamp = 5, ev_data = ''x''\<rparr>, ExWatermark 0 100]
                   (ex_from_dag () d)
        in dw_get_watermark (ex_watermark_tracker ex) 2 = None \<and>
           ex_sink_outputs ex ! 4 = [\<lparr>ev_timestamp = 15, ev_data = ''fired''\<rparr>])
   | _ \<Rightarrow> False"
  unfolding timer_op_def by code_simp

section \<open>Recovery of operators\<close>

lemma checkpoint_ops_spec:
  assumes "checkpoint_ops impl k ops = (ops', states)"
  shows "length ops' = length ops \<and> wf_map states \<and> (\<forall>(n, st) \<in> set states. k \<le> n \<and> n < k + length ops) \<and>
    (\<forall>i < length ops. ops' ! i = map_option (fst \<circ> oi_checkpoint impl) (ops ! i)) \<and>
    (\<forall>i < length ops. map_of states (k + i) = map_option (snd \<circ> oi_checkpoint impl) (ops ! i))"
  using assms
proof (induction impl k ops arbitrary: ops' states rule: checkpoint_ops.induct)
  case (2 impl k ops)
  obtain o1 s1 where r: "checkpoint_ops impl (k + 1) ops = (o1, s1)" by fastforce
  note ih = "2.IH" [OF r]
  have e: "ops' = None # o1" "states = s1" using "2.prems" by (simp_all add: r [simplified])
  have "map_of s1 k = None" using ih by (force simp: map_of_eq_None_iff)
  then show ?case using ih unfolding e by (fastforce simp: nth_Cons less_Suc_eq_0_disj split: nat.split)
next
  case (3 impl k op ops)
  obtain o1 s1 where r: "checkpoint_ops impl (k + 1) ops = (o1, s1)" by fastforce
  obtain op' st where c: "oi_checkpoint impl op = (op', st)" by fastforce
  have ih: "length o1 = length ops" "wf_map s1" "\<forall>(n, st) \<in> set s1. k + 1 \<le> n \<and> n < k + 1 + length ops"
    "\<forall>i < length ops. o1 ! i = map_option (fst \<circ> oi_checkpoint impl) (ops ! i)"
    "\<forall>i < length ops. map_of s1 (k + 1 + i) = map_option (snd \<circ> oi_checkpoint impl) (ops ! i)"
    using "3.IH" [OF refl c [symmetric] r] by blast+
  have e: "ops' = Some op' # o1" "states = (k, st) # s1" using "3.prems" by (simp_all add: r [simplified] c)
  have new: "k \<notin> fst ` set s1" using ih(3) by force
  have "map_of states (k + i) = map_option (snd \<circ> oi_checkpoint impl) ((Some op # ops) ! i)" if "i < Suc (length ops)" for i
    using that ih(5) by (cases i) (auto simp: e c)
  moreover have "ops' ! i = map_option (fst \<circ> oi_checkpoint impl) ((Some op # ops) ! i)" if "i < Suc (length ops)" for i
    using that ih(4) by (cases i) (auto simp: e c)
  moreover have "length ops' = length (Some op # ops)" "wf_map states" using ih(1,2) new by (simp_all add: e wf_map_def)
  moreover have "\<forall>(n, st) \<in> set states. k \<le> n \<and> n < k + length (Some op # ops)" using ih(3) unfolding e by auto
  ultimately show ?case by (simp add: comp_def)
qed simp

lemma fold_set_ops:
  assumes "wf_map states" "\<forall>(n, st) \<in> set states. n < length ops"
  shows "length (fold (\<lambda>(n, _) ops. ops[n := Some (f n)]) states ops) = length ops \<and>
    (m < length ops \<longrightarrow> fold (\<lambda>(n, _) ops. ops[n := Some (f n)]) states ops ! m =
      (if m \<in> fst ` set states then Some (f m) else ops ! m))"
  using assms
proof (induction states arbitrary: ops)
  case (Cons x states)
  obtain n st where x: "x = (n, st)" by (cases x)
  show ?case
    using Cons.prems Cons.IH [of "ops[n := Some (f n)]"] by (auto simp: x wf_map_def nth_list_update)
qed simp

lemma ex_restore_all:
  assumes "wf_map states"
    "\<forall>(n, st) \<in> set states. n < ex_slot_count ex \<and>
       (\<exists>op0. ex_operators ex ! n = Some op0 \<and> oi_restore impl op0 st = (f n, None))"
  shows "ex_restore impl ex states =
    (ex\<lparr>ex_operators := fold (\<lambda>(n, _) ops. ops[n := Some (f n)]) states (ex_operators ex)\<rparr>, None :: 'ty dag_error option)"
  using assms
proof (induction states arbitrary: ex)
  case (Cons x states)
  obtain n st where x: "x = (n, st)" by (cases x)
  obtain op0 where op0: "n < ex_slot_count ex" "ex_operators ex ! n = Some op0" "oi_restore impl op0 st = (f n, None)"
    using Cons.prems(2) by (auto simp: x)
  let ?ex1 = "ex\<lparr>ex_operators := (ex_operators ex)[n := Some (f n)]\<rparr>"
  have "\<forall>(m, st) \<in> set states. m < ex_slot_count ?ex1 \<and>
       (\<exists>op0. ex_operators ?ex1 ! m = Some op0 \<and> oi_restore impl op0 st = (f m, None))"
  proof (clarify)
    fix m st assume m: "(m, st) \<in> set states"
    then have "m \<noteq> n" using Cons.prems(1) by (force simp: x wf_map_def)
    then show "m < ex_slot_count ?ex1 \<and> (\<exists>op0. ex_operators ?ex1 ! m = Some op0 \<and> oi_restore impl op0 st = (f m, None))"
      using Cons.prems(2) m by auto
  qed
  from Cons.IH [OF _ this] Cons.prems(1) show ?case by (simp add: x op0 wf_map_def)
qed simp

text \<open>
  Recovery end to end. Checkpoint an executor whose operators use their node number as identifier, convert
  the states to a checkpoint result and back by index, and restore them into an executor with operators at
  the same nodes: if restoring each operator from its checkpoint succeeds and gives the checkpointed operator, the restored executor holds exactly the checkpointed operators and no error is
  reported (C15).
\<close>

theorem dag_recovery_restores_operators:
  assumes "length (ex_operators ex0) = length (ex_operators ex)" "ex_slot_count ex0 = length (ex_operators ex)"
    "length (ex_operators ex) \<le> 2 ^ 32"
    "\<forall>n < length (ex_operators ex). ex_operators ex0 ! n = None \<longleftrightarrow> ex_operators ex ! n = None"
    "\<forall>n op op0. n < length (ex_operators ex) \<longrightarrow> ex_operators ex ! n = Some op \<longrightarrow> ex_operators ex0 ! n = Some op0 \<longrightarrow>
       os_operator_id (snd (oi_checkpoint impl op)) = dec_nat n \<and>
       oi_restore impl op0 (snd (oi_checkpoint impl op)) = (fst (oi_checkpoint impl op), None)"
  shows "let (ex1, states) = ex_checkpoint impl ex;
             (ex2, err) = ex_restore impl ex0
               (to_operator_states_by_index (from_operator_states cid epoch t states))
         in err = (None :: 'ty dag_error option) \<and> ex_operators ex2 = ex_operators ex1"
proof -
  let ?N = "length (ex_operators ex)"
  obtain ops states where c: "checkpoint_ops impl 0 (ex_operators ex) = (ops, states)" by fastforce
  note sp = checkpoint_ops_spec [OF c]
  have len: "length ops = ?N" and wf: "wf_map states" using sp by auto
  have st: "n < ?N \<and> (\<exists>op. ex_operators ex ! n = Some op \<and> st = snd (oi_checkpoint impl op))"
    if "(n, st) \<in> set states" for n st
  proof -
    have n: "n < ?N" using sp that by auto
    moreover have "map_of states n = map_option (snd \<circ> oi_checkpoint impl) (ex_operators ex ! n)" using sp n by auto
    ultimately show ?thesis using that wf_map_in_set [OF wf] by auto
  qed
  have ids: "n < 2 ^ 32 \<and> os_operator_id st = dec_nat n" if "(n, st) \<in> set states" for n st
    using st [OF that] assms(3,4,5) by (cases "ex_operators ex0 ! n") fastforce+
  have "distinct (map (\<lambda>(_, st). os_operator_id st) states)"
  proof -
    have "map (\<lambda>(_, st). os_operator_id st) states = map (dec_nat \<circ> fst) states" using ids by auto
    moreover have "inj_on dec_nat (fst ` set states)"
    proof (rule inj_onI)
      fix a b assume ab: "a \<in> fst ` set states" "b \<in> fst ` set states" "dec_nat a = dec_nat b"
      then have "a \<le> 2 ^ 32 - 1" "b \<le> 2 ^ 32 - 1" using ids by fastforce+
      then show "a = b" using ab(3) parse_dec [of a "2 ^ 32 - 1"] parse_dec [of b "2 ^ 32 - 1"] by simp
    qed
    ultimately show ?thesis using wf by (metis distinct_map list.set_map map_map wf_map_def)
  qed
  from restore_by_index [OF wf this ids]
  have rt: "to_operator_states_by_index (from_operator_states cid epoch t states) = states" by blast
  let ?f = "\<lambda>n. fst (oi_checkpoint impl (the (ex_operators ex ! n)))"
  have "\<forall>(n, st) \<in> set states. n < ex_slot_count ex0 \<and>
      (\<exists>op0. ex_operators ex0 ! n = Some op0 \<and> oi_restore impl op0 st = (?f n, None))"
  proof (clarify, intro conjI)
    fix n st assume ns: "(n, st) \<in> set states"
    then obtain op where op: "n < ?N" "ex_operators ex ! n = Some op" "st = snd (oi_checkpoint impl op)" using st by blast
    then show "n < ex_slot_count ex0" using assms(2) by simp
    obtain op0 where "ex_operators ex0 ! n = Some op0" using op assms(4) by fastforce
    then show "\<exists>op0. ex_operators ex0 ! n = Some op0 \<and> oi_restore impl op0 st = (?f n, None)"
      using op assms(5) by auto
  qed
  note r = ex_restore_all [OF wf this]
  have "fold (\<lambda>(n, _) ops. ops[n := Some (?f n)]) states (ex_operators ex0) = ops"
  proof (rule nth_equalityI)
    have bound: "\<forall>(n, st) \<in> set states. n < length (ex_operators ex0)" using st assms(1) by auto
    note fo = fold_set_ops [OF wf bound, of ?f]
    show "length (fold (\<lambda>(n, _) ops. ops[n := Some (?f n)]) states (ex_operators ex0)) = length ops"
      using fo len assms(1) by simp
    fix m assume "m < length (fold (\<lambda>(n, _) ops. ops[n := Some (?f n)]) states (ex_operators ex0))"
    then have m: "m < ?N" using fo assms(1) by simp
    have mo: "map_of states m = map_option (snd \<circ> oi_checkpoint impl) (ex_operators ex ! m)"
      "ops ! m = map_option (fst \<circ> oi_checkpoint impl) (ex_operators ex ! m)" using sp m by auto
    have "m \<in> fst ` set states \<longleftrightarrow> ex_operators ex ! m \<noteq> None"
      using mo(1) by (metis map_of_eq_None_iff option.map_disc_iff)
    then show "fold (\<lambda>(n, _) ops. ops[n := Some (?f n)]) states (ex_operators ex0) ! m = ops ! m"
      using fo m assms(1,4) mo(2) by (cases "ex_operators ex ! m") auto
  qed
  then show ?thesis by (simp add: ex_checkpoint_def c rt r)
qed

text \<open>An operator that counts; its identifier is its node number.\<close>

definition counter_op :: "(nat \<times> nat, string, unit) operator_impl" where
  "counter_op =
     \<lparr>oi_process = (\<lambda>(n, c) e et pt i rt. ((n, c + 1), rt, [OutEvent e])),
      oi_on_timer = (\<lambda>op k et pt i rt. (op, rt, [])),
      oi_checkpoint = (\<lambda>(n, c). ((n, c), operator_state_v1 (dec_nat n) (replicate c 0))),
      oi_restore = (\<lambda>(n, c) st. ((n, length (os_data st)), None))\<rparr>"

theorem dag_recovery_restores_operators_witness:
  "let ex = (ex_from_dag () (dag_new :: unit streaming_dag) :: (nat \<times> nat, string, unit) dag_executor)
              \<lparr>ex_operators := [None, Some (1, 7)], ex_slot_count := 2\<rparr>;
       ex0 = ex\<lparr>ex_operators := [None, Some (1, 0)]\<rparr>;
       (ex1, states) = ex_checkpoint counter_op ex;
       (ex2, err) = ex_restore counter_op ex0 (to_operator_states_by_index (from_operator_states 1 1 0 states))
   in err = (None :: unit dag_error option) \<and> ex_operators ex2 = ex_operators ex1"
proof -
  let ?ex = "(ex_from_dag () (dag_new :: unit streaming_dag) :: (nat \<times> nat, string, unit) dag_executor)
              \<lparr>ex_operators := [None, Some (1, 7)], ex_slot_count := 2\<rparr>"
  let ?fresh = "?ex\<lparr>ex_operators := [None, Some (1, 0)]\<rparr>"
  have "let (ex1, states) = ex_checkpoint counter_op ?ex;
            (ex2, err) = ex_restore counter_op ?fresh (to_operator_states_by_index (from_operator_states 1 1 0 states))
        in err = (None :: unit dag_error option) \<and> ex_operators ex2 = ex_operators ex1"
    by (rule dag_recovery_restores_operators)
       (auto simp: counter_op_def operator_state_v1_def less_Suc_eq)
  then show ?thesis by (simp add: Let_def)
qed

end
