(* ===== verification/Multicast_Buffer.thy ===== *)
theory Multicast_Buffer
  imports Dag_Topology
begin

unbundle bit_operations_syntax

text \<open>
  The single-producer multi-consumer ring buffer of shared stages,
  \<^verbatim>\<open>crates/laminar-core/src/dag/multicast.rs\<close>. \<^verbatim>\<open>mb_publish\<close> and \<^verbatim>\<open>mb_consume\<close> are the two operations run
  alone. \<^verbatim>\<open>mb_step\<close> interleaves their atomic actions: one producer thread, and one thread per consumer
  index. Actions take effect in one global order; the acquire and release orderings of the code give the
  visibility this uses.
\<close>

section \<open>Operations\<close>

record 'a multicast_buffer =
  mb_slots :: "'a option list"
  mb_refcounts :: "nat list"
  mb_write_pos :: nat
  mb_read_positions :: "nat list"
  mb_capacity :: nat
  mb_mask :: nat
  mb_consumer_count :: nat

definition is_power_of_two :: "nat \<Rightarrow> bool" where
  "is_power_of_two n \<longleftrightarrow> n > 0 \<and> n AND (n - 1) = 0"

text \<open>Construction panics unless the capacity is a power of two.\<close>

definition mb_new :: "nat \<Rightarrow> nat \<Rightarrow> 'a multicast_buffer option" where
  "mb_new capacity consumer_count =
     (if capacity > 0 \<and> is_power_of_two capacity
      then Some \<lparr>mb_slots = replicate capacity None, mb_refcounts = replicate capacity 0, mb_write_pos = 0,
                 mb_read_positions = replicate consumer_count 0, mb_capacity = capacity,
                 mb_mask = capacity - 1, mb_consumer_count = consumer_count mod 2 ^ 32\<rparr>
      else None)"

definition slot_idx :: "'a multicast_buffer \<Rightarrow> nat \<Rightarrow> nat" where
  "slot_idx b pos = pos AND mb_mask b"

definition mb_publish :: "'a multicast_buffer \<Rightarrow> 'a \<Rightarrow> 'a multicast_buffer \<times> 'ty dag_error option" where
  "mb_publish b value =
     (let pos = mb_write_pos b; slot = slot_idx b pos
      in if mb_refcounts b ! slot \<noteq> 0 then (b, Some BackpressureFull)
         else (b\<lparr>mb_slots := (mb_slots b)[slot := Some value],
                 mb_refcounts := (mb_refcounts b)[slot := mb_consumer_count b],
                 mb_write_pos := pos + 1\<rparr>, None))"

definition u32_dec :: "nat \<Rightarrow> nat" where
  "u32_dec x = (if x = 0 then 2 ^ 32 - 1 else x - 1)"

text \<open>
  The outer \<^verbatim>\<open>None\<close> is a panic: an index out of range, or the \<^verbatim>\<open>unwrap\<close> of an empty slot. The inner one
  means that no data is available.
\<close>

definition mb_consume :: "'a multicast_buffer \<Rightarrow> nat \<Rightarrow> ('a multicast_buffer \<times> 'a option) option" where
  "mb_consume b i =
     (if i \<ge> length (mb_read_positions b) then None
      else
        let read_pos = mb_read_positions b ! i
        in if read_pos \<ge> mb_write_pos b then Some (b, None)
           else
             let slot = slot_idx b read_pos
             in case mb_slots b ! slot of
                  None \<Rightarrow> None
                | Some value \<Rightarrow>
                    Some (b\<lparr>mb_read_positions := (mb_read_positions b)[i := read_pos + 1],
                            mb_refcounts := (mb_refcounts b)[slot := u32_dec (mb_refcounts b ! slot)]\<rparr>,
                          Some value))"

section \<open>Interleaved actions\<close>

datatype 'a producer_pc = PIdle | PChecked 'a | PWritten 'a | PCounted 'a
datatype 'a consumer_pc = CIdle | CReady | CRead 'a | CAdvanced 'a

record 'a mb_state = "'a multicast_buffer" +
  mb_ppc :: "'a producer_pc"
  mb_cpc :: "nat \<Rightarrow> 'a consumer_pc"

datatype 'a mb_label =
    LFull 'a
  | LPublished 'a
  | LEmpty nat
  | LConsumed nat 'a
  | LPanic nat
  | LTau

inductive mb_step :: "'a mb_state \<Rightarrow> 'a mb_label \<Rightarrow> 'a mb_state \<Rightarrow> bool" where
  PubFull: "mb_ppc s = PIdle \<Longrightarrow> mb_refcounts s ! (mb_write_pos s AND mb_mask s) \<noteq> 0 \<Longrightarrow> mb_step s (LFull v) s"
| PubCheck: "mb_ppc s = PIdle \<Longrightarrow> mb_refcounts s ! (mb_write_pos s AND mb_mask s) = 0 \<Longrightarrow>
    mb_step s LTau (s\<lparr>mb_ppc := PChecked v\<rparr>)"
| PubWrite: "mb_ppc s = PChecked v \<Longrightarrow>
    mb_step s LTau (s\<lparr>mb_slots := (mb_slots s)[mb_write_pos s AND mb_mask s := Some v], mb_ppc := PWritten v\<rparr>)"
| PubCount: "mb_ppc s = PWritten v \<Longrightarrow>
    mb_step s LTau (s\<lparr>mb_refcounts := (mb_refcounts s)[mb_write_pos s AND mb_mask s := mb_consumer_count s],
      mb_ppc := PCounted v\<rparr>)"
| PubStore: "mb_ppc s = PCounted v \<Longrightarrow>
    mb_step s (LPublished v) (s\<lparr>mb_write_pos := mb_write_pos s + 1, mb_ppc := PIdle\<rparr>)"
| ConEmpty: "i < mb_consumer_count s \<Longrightarrow> mb_cpc s i = CIdle \<Longrightarrow> mb_read_positions s ! i \<ge> mb_write_pos s \<Longrightarrow>
    mb_step s (LEmpty i) s"
| ConCheck: "i < mb_consumer_count s \<Longrightarrow> mb_cpc s i = CIdle \<Longrightarrow> mb_read_positions s ! i < mb_write_pos s \<Longrightarrow>
    mb_step s LTau (s\<lparr>mb_cpc := (mb_cpc s)(i := CReady)\<rparr>)"
| ConRead: "i < mb_consumer_count s \<Longrightarrow> mb_cpc s i = CReady \<Longrightarrow>
    mb_slots s ! (mb_read_positions s ! i AND mb_mask s) = Some v \<Longrightarrow>
    mb_step s LTau (s\<lparr>mb_cpc := (mb_cpc s)(i := CRead v)\<rparr>)"
| ConPanic: "i < mb_consumer_count s \<Longrightarrow> mb_cpc s i = CReady \<Longrightarrow>
    mb_slots s ! (mb_read_positions s ! i AND mb_mask s) = None \<Longrightarrow> mb_step s (LPanic i) s"
| ConAdvance: "i < mb_consumer_count s \<Longrightarrow> mb_cpc s i = CRead v \<Longrightarrow>
    mb_step s LTau (s\<lparr>mb_read_positions := (mb_read_positions s)[i := mb_read_positions s ! i + 1],
      mb_cpc := (mb_cpc s)(i := CAdvanced v)\<rparr>)"
| ConRelease: "i < mb_consumer_count s \<Longrightarrow> mb_cpc s i = CAdvanced v \<Longrightarrow>
    slot = (mb_read_positions s ! i - 1) AND mb_mask s \<Longrightarrow>
    mb_step s (LConsumed i v) (s\<lparr>mb_refcounts := (mb_refcounts s)[slot := u32_dec (mb_refcounts s ! slot)],
      mb_cpc := (mb_cpc s)(i := CIdle)\<rparr>)"

inductive mb_steps :: "'a mb_state \<Rightarrow> 'a mb_label list \<Rightarrow> 'a mb_state \<Rightarrow> bool" where
  Nil: "mb_steps s [] s"
| Snoc: "mb_steps s ls t \<Longrightarrow> mb_step t l u \<Longrightarrow> mb_steps s (ls @ [l]) u"

inductive_cases mb_stepE: "mb_step s l t"

definition mb_init :: "nat \<Rightarrow> nat \<Rightarrow> 'a mb_state" where
  "mb_init capacity n =
     \<lparr>mb_slots = replicate capacity None, mb_refcounts = replicate capacity 0, mb_write_pos = 0,
      mb_read_positions = replicate n 0, mb_capacity = capacity, mb_mask = capacity - 1,
      mb_consumer_count = n, mb_ppc = PIdle, mb_cpc = (\<lambda>_. CIdle)\<rparr>"

fun published :: "'a mb_label list \<Rightarrow> 'a list" where
  "published [] = []"
| "published (LPublished v # ls) = v # published ls"
| "published (_ # ls) = published ls"

fun consumed :: "nat \<Rightarrow> 'a mb_label list \<Rightarrow> 'a list" where
  "consumed i [] = []"
| "consumed i (LConsumed j v # ls) = (if i = j then v # consumed i ls else consumed i ls)"
| "consumed i (_ # ls) = consumed i ls"

lemma published_append [simp]: "published (xs @ ys) = published xs @ published ys"
  by (induction xs rule: published.induct) auto

lemma consumed_append [simp]: "consumed i (xs @ ys) = consumed i xs @ consumed i ys"
  by (induction i xs rule: consumed.induct) auto

section \<open>Invariant\<close>

lemma and_mask_mod:
  assumes "cap = 2 ^ k"
  shows "(pos :: nat) AND (cap - 1) = pos mod cap"
  using assms by (simp add: take_bit_eq_mod [symmetric] take_bit_eq_mask mask_eq_exp_minus_1)

text \<open>The number of values consumer \<^verbatim>\<open>i\<close> has released; the values written, and positions counted, so far.\<close>

definition released :: "'a mb_state \<Rightarrow> nat \<Rightarrow> nat" where
  "released s i = (case mb_cpc s i of CAdvanced _ \<Rightarrow> mb_read_positions s ! i - 1 | _ \<Rightarrow> mb_read_positions s ! i)"

definition written :: "'a mb_state \<Rightarrow> 'a list \<Rightarrow> 'a list" where
  "written s vs = (case mb_ppc s of PWritten v \<Rightarrow> vs @ [v] | PCounted v \<Rightarrow> vs @ [v] | _ \<Rightarrow> vs)"

definition counted :: "'a mb_state \<Rightarrow> nat" where
  "counted s = (case mb_ppc s of PCounted _ \<Rightarrow> mb_write_pos s + 1 | _ \<Rightarrow> mb_write_pos s)"

definition waiting :: "'a mb_state \<Rightarrow> nat \<Rightarrow> nat set" where
  "waiting s p = {i. i < mb_consumer_count s \<and> released s i \<le> p}"

definition mb_shape :: "nat \<Rightarrow> nat \<Rightarrow> 'a mb_state \<Rightarrow> bool" where
  "mb_shape cap n s \<longleftrightarrow>
     mb_capacity s = cap \<and> mb_mask s = cap - 1 \<and> mb_consumer_count s = n \<and> length (mb_slots s) = cap \<and>
     length (mb_refcounts s) = cap \<and> length (mb_read_positions s) = n"

text \<open>
  Per consumer: it is behind the producer, by at most the capacity, and strictly less while the producer
  holds a free slot; a value it has read is the next one it has to deliver.
\<close>

definition consumer_ok :: "nat \<Rightarrow> 'a list \<Rightarrow> 'a mb_state \<Rightarrow> nat \<Rightarrow> bool" where
  "consumer_ok cap vs s i \<longleftrightarrow>
     mb_read_positions s ! i \<le> mb_write_pos s \<and> mb_write_pos s \<le> released s i + cap \<and>
     (mb_ppc s \<noteq> PIdle \<longrightarrow> mb_write_pos s < released s i + cap) \<and>
     (case mb_cpc s i of
        CIdle \<Rightarrow> True
      | CReady \<Rightarrow> mb_read_positions s ! i < mb_write_pos s
      | CRead v \<Rightarrow> mb_read_positions s ! i < mb_write_pos s \<and> v = vs ! (mb_read_positions s ! i)
      | CAdvanced v \<Rightarrow> 0 < mb_read_positions s ! i \<and> v = vs ! (mb_read_positions s ! i - 1))"

definition slots_ok :: "nat \<Rightarrow> 'a option list \<Rightarrow> 'a list \<Rightarrow> bool" where
  "slots_ok cap slots vals \<longleftrightarrow>
     (\<forall>p < length vals. length vals \<le> p + cap \<longrightarrow> slots ! (p mod cap) = Some (vals ! p))"

definition counts_ok :: "nat \<Rightarrow> nat list \<Rightarrow> nat \<Rightarrow> (nat \<Rightarrow> nat set) \<Rightarrow> bool" where
  "counts_ok cap refcounts m w \<longleftrightarrow>
     (\<forall>p < m. m \<le> p + cap \<longrightarrow> refcounts ! (p mod cap) = card (w p)) \<and>
     (\<forall>k < cap. m \<le> k \<longrightarrow> refcounts ! k = 0)"

definition mb_inv :: "nat \<Rightarrow> nat \<Rightarrow> 'a mb_label list \<Rightarrow> 'a mb_state \<Rightarrow> bool" where
  "mb_inv cap n ls s \<longleftrightarrow>
     mb_shape cap n s \<and> length (published ls) = mb_write_pos s \<and>
     (\<forall>i < n. consumer_ok cap (published ls) s i) \<and>
     (\<forall>i < n. consumed i ls = take (released s i) (published ls)) \<and>
     slots_ok cap (mb_slots s) (written s (published ls)) \<and>
     counts_ok cap (mb_refcounts s) (counted s) (waiting s) \<and> (\<forall>i. LPanic i \<notin> set ls)"

lemma mb_inv_init: "0 < cap \<Longrightarrow> mb_inv cap n [] (mb_init cap n)"
  by (simp add: mb_inv_def mb_init_def mb_shape_def consumer_ok_def released_def written_def counted_def
      slots_ok_def counts_ok_def)

lemma released_frame [simp]:
  "released (s\<lparr>mb_ppc := x\<rparr>) = released s" "released (s\<lparr>mb_slots := sl\<rparr>) = released s"
  "released (s\<lparr>mb_refcounts := rc\<rparr>) = released s" "released (s\<lparr>mb_write_pos := w\<rparr>) = released s"
  by (simp_all add: fun_eq_iff released_def split: consumer_pc.split)

lemma waiting_frame [simp]:
  "waiting (s\<lparr>mb_ppc := x\<rparr>) = waiting s" "waiting (s\<lparr>mb_slots := sl\<rparr>) = waiting s"
  "waiting (s\<lparr>mb_refcounts := rc\<rparr>) = waiting s" "waiting (s\<lparr>mb_write_pos := w\<rparr>) = waiting s"
  by (simp_all add: fun_eq_iff waiting_def)

lemma shape_frame [simp]:
  "mb_shape cap n (s\<lparr>mb_ppc := x\<rparr>) = mb_shape cap n s"
  "mb_shape cap n (s\<lparr>mb_write_pos := w\<rparr>) = mb_shape cap n s"
  "mb_shape cap n (s\<lparr>mb_cpc := c\<rparr>) = mb_shape cap n s"
  "mb_shape cap n (s\<lparr>mb_slots := (mb_slots s)[j := u]\<rparr>) = mb_shape cap n s"
  "mb_shape cap n (s\<lparr>mb_refcounts := (mb_refcounts s)[j := r]\<rparr>) = mb_shape cap n s"
  "mb_shape cap n (s\<lparr>mb_read_positions := (mb_read_positions s)[j := r]\<rparr>) = mb_shape cap n s"
  by (simp_all add: mb_shape_def)

lemma consumer_ok_frame [simp]:
  "consumer_ok cap vs (s\<lparr>mb_slots := sl\<rparr>) i = consumer_ok cap vs s i"
  "consumer_ok cap vs (s\<lparr>mb_refcounts := rc\<rparr>) i = consumer_ok cap vs s i"
  by (simp_all add: consumer_ok_def split: consumer_pc.split)

lemma inv_consumer: "mb_inv cap n ls s \<Longrightarrow> i < n \<Longrightarrow> consumer_ok cap (published ls) s i"
  and inv_shape: "mb_inv cap n ls s \<Longrightarrow> mb_shape cap n s"
  and inv_write_pos: "mb_inv cap n ls s \<Longrightarrow> mb_write_pos s = length (published ls)"
  and inv_slots: "mb_inv cap n ls s \<Longrightarrow> slots_ok cap (mb_slots s) (written s (published ls))"
  and inv_counts: "mb_inv cap n ls s \<Longrightarrow> counts_ok cap (mb_refcounts s) (counted s) (waiting s)"
  by (simp_all add: mb_inv_def)

lemma released_le:
  assumes "mb_inv cap n ls s" "i < n"
  shows "released s i \<le> mb_write_pos s"
proof -
  have "mb_read_positions s ! i \<le> mb_write_pos s"
    using inv_consumer [OF assms] by (simp add: consumer_ok_def)
  then show ?thesis
    by (auto simp: released_def split: consumer_pc.split)
qed

lemma same_slot:
  fixes p q cap :: nat
  assumes "p mod cap = q mod cap" "p < m" "q < m" "m \<le> p + cap" "m \<le> q + cap"
  shows "p = q"
proof -
  have *: "a = b" if "a \<le> b" "b < a + cap" "a mod cap = b mod cap" for a b
  proof -
    have "cap dvd b - a" using that by (simp add: mod_eq_dvd_iff_nat [symmetric])
    moreover have "b - a < cap" using that by simp
    ultimately have "b - a = 0" using nat_dvd_not_less by blast
    then show ?thesis using that by simp
  qed
  show ?thesis
    using *[of p q] *[of q p] assms by (cases "p \<le> q") auto
qed

lemma slots_ok_write:
  assumes ok: "slots_ok cap slots vals" and len: "length slots = cap" and cap: "0 < cap"
  shows "slots_ok cap (slots[length vals mod cap := Some v]) (vals @ [v])"
  unfolding slots_ok_def
proof (intro allI impI)
  fix p assume p: "p < length (vals @ [v])" "length (vals @ [v]) \<le> p + cap"
  show "slots[length vals mod cap := Some v] ! (p mod cap) = Some ((vals @ [v]) ! p)"
  proof (cases "p = length vals")
    case True
    then show ?thesis using len cap by simp
  next
    case False
    then have "p mod cap \<noteq> length vals mod cap"
      using same_slot [of p cap "length vals" "Suc (length vals)"] p cap by auto
    then show ?thesis
      using ok p False by (auto simp: slots_ok_def nth_append)
  qed
qed

lemma counts_ok_write:
  assumes ok: "counts_ok cap rc m w" and len: "length rc = cap" and cap: "0 < cap" and c: "card (w m) = n"
  shows "counts_ok cap (rc[m mod cap := n]) (Suc m) w"
  unfolding counts_ok_def
proof (intro conjI allI impI)
  fix p assume p: "p < Suc m" "Suc m \<le> p + cap"
  show "rc[m mod cap := n] ! (p mod cap) = card (w p)"
  proof (cases "p = m")
    case True
    then show ?thesis using len cap c by simp
  next
    case False
    then have "p mod cap \<noteq> m mod cap"
      using same_slot [of p cap m "Suc m"] p cap by auto
    then show ?thesis
      using ok p False by (auto simp: counts_ok_def)
  qed
next
  fix k assume "k < cap" "Suc m \<le> k"
  then show "rc[m mod cap := n] ! k = 0"
    using ok by (auto simp: counts_ok_def)
qed

lemma counts_ok_release:
  assumes ok: "counts_ok cap rc m w" and len: "length rc = cap" and cap: "0 < cap"
    and slot: "slot = p mod cap" and p: "p < m" "m \<le> p + cap"
    and i: "i \<in> w p" "finite (w p)" "w' p = w p - {i}" and others: "\<And>q. q \<noteq> p \<Longrightarrow> w' q = w q"
  shows "counts_ok cap (rc[slot := u32_dec (rc ! slot)]) m w'"
proof -
  have "rc ! (p mod cap) = card (w p)"
    using ok p by (auto simp: counts_ok_def)
  moreover have "card (w p) > 0"
    using i card_gt_0_iff by blast
  ultimately have dec: "u32_dec (rc ! (p mod cap)) = card (w' p)"
    using i by (auto simp: u32_dec_def)
  have "rc[p mod cap := card (w' p)] ! (q mod cap) = card (w' q)" if "q < m" "m \<le> q + cap" for q
  proof (cases "q = p")
    case False
    then have "q mod cap \<noteq> p mod cap"
      using same_slot [of q cap p m] that p by auto
    then show ?thesis using ok that others [OF False] by (auto simp: counts_ok_def)
  qed (use len cap in simp)
  moreover have "rc[p mod cap := card (w' p)] ! k = 0" if k: "k < cap" "m \<le> k" for k
  proof -
    have "p mod cap \<noteq> k" using p k by auto
    then show ?thesis using ok k by (auto simp: counts_ok_def)
  qed
  ultimately show ?thesis unfolding slot dec by (auto simp: counts_ok_def)
qed

section \<open>Every action keeps the invariant\<close>

lemma inv_pub_check:
  assumes I: "mb_inv cap n ls s" and cap: "0 < cap" and ppc: "mb_ppc s = PIdle"
    and z: "mb_refcounts s ! (mb_write_pos s mod cap) = 0"
  shows "mb_inv cap n (ls @ [LTau]) (s\<lparr>mb_ppc := PChecked v\<rparr>)"
proof -
  have n: "mb_consumer_count s = n"
    using I by (simp add: mb_inv_def mb_shape_def)
  have free: "mb_write_pos s < released s i + cap" if "i < n" for i
  proof (cases "mb_write_pos s < cap")
    case False
    let ?p = "mb_write_pos s - cap"
    have "card (waiting s ?p) = 0"
      using inv_counts [OF I] False cap z by (auto simp: counts_ok_def counted_def ppc le_mod_geq)
    then have "i \<notin> waiting s ?p"
      by (auto simp: waiting_def)
    then show ?thesis
      using that False n by (auto simp: waiting_def)
  qed simp
  have "consumer_ok cap (published ls) (s\<lparr>mb_ppc := PChecked v\<rparr>) i" if "i < n" for i
    using inv_consumer [OF I that] free [OF that] by (simp add: consumer_ok_def ppc split: consumer_pc.splits)
  then show ?thesis
    using I by (simp add: mb_inv_def written_def counted_def ppc)
qed

lemma inv_pub_write:
  assumes I: "mb_inv cap n ls s" and cap: "0 < cap" and ppc: "mb_ppc s = PChecked v"
  shows "mb_inv cap n (ls @ [LTau])
    (s\<lparr>mb_slots := (mb_slots s)[mb_write_pos s mod cap := Some v], mb_ppc := PWritten v\<rparr>)"
    (is "mb_inv cap n _ ?t")
proof -
  have "consumer_ok cap (published ls) ?t i" if "i < n" for i
    using inv_consumer [OF I that] by (simp add: consumer_ok_def ppc split: consumer_pc.splits)
  moreover have "slots_ok cap ((mb_slots s)[mb_write_pos s mod cap := Some v]) (published ls @ [v])"
    using slots_ok_write [OF _ _ cap, of "mb_slots s" "published ls" v] inv_slots [OF I] inv_shape [OF I]
      inv_write_pos [OF I] by (simp add: mb_shape_def written_def ppc)
  ultimately show ?thesis
    using I by (simp add: mb_inv_def written_def counted_def ppc)
qed

lemma inv_pub_count:
  assumes I: "mb_inv cap n ls s" and cap: "0 < cap" and ppc: "mb_ppc s = PWritten v"
  shows "mb_inv cap n (ls @ [LTau])
    (s\<lparr>mb_refcounts := (mb_refcounts s)[mb_write_pos s mod cap := mb_consumer_count s], mb_ppc := PCounted v\<rparr>)"
    (is "mb_inv cap n _ ?t")
proof -
  have n: "mb_consumer_count s = n" and len: "length (mb_refcounts s) = cap"
    using inv_shape [OF I] by (simp_all add: mb_shape_def)
  have "waiting s (mb_write_pos s) = {..<n}"
    using released_le [OF I] by (auto simp: waiting_def n)
  then have "counts_ok cap ((mb_refcounts s)[mb_write_pos s mod cap := n]) (Suc (mb_write_pos s)) (waiting s)"
    using inv_counts [OF I] counts_ok_write [OF _ len cap] by (simp add: counted_def ppc)
  moreover have "consumer_ok cap (published ls) ?t i" if "i < n" for i
    using inv_consumer [OF I that] by (simp add: consumer_ok_def ppc split: consumer_pc.splits)
  ultimately show ?thesis
    using I by (simp add: mb_inv_def written_def counted_def ppc n)
qed

lemma inv_pub_store:
  assumes I: "mb_inv cap n ls s" and ppc: "mb_ppc s = PCounted v"
  shows "mb_inv cap n (ls @ [LPublished v]) (s\<lparr>mb_write_pos := mb_write_pos s + 1, mb_ppc := PIdle\<rparr>)"
    (is "mb_inv cap n ?ls ?t")
proof -
  have W: "mb_write_pos s = length (published ls)"
    using I by (rule inv_write_pos)
  have "consumer_ok cap (published ls @ [v]) ?t i" if "i < n" for i
    using inv_consumer [OF I that] W by (auto simp: consumer_ok_def ppc nth_append split: consumer_pc.splits)
  moreover have "consumed i ls = take (released s i) (published ls @ [v])" if "i < n" for i
    using I released_le [OF I that] W that by (simp add: mb_inv_def)
  ultimately show ?thesis
    using I by (simp add: mb_inv_def written_def counted_def ppc)
qed

text \<open>A consumer's action that leaves its released count alone.\<close>

lemma inv_consumer_move:
  assumes I: "mb_inv cap n ls s" and i: "i < n"
    and rp: "rp = (mb_read_positions s)[i := r]"
    and rel: "released (s\<lparr>mb_read_positions := rp, mb_cpc := (mb_cpc s)(i := c)\<rparr>) i = released s i"
    and ok: "consumer_ok cap (published ls) (s\<lparr>mb_read_positions := rp, mb_cpc := (mb_cpc s)(i := c)\<rparr>) i"
  shows "mb_inv cap n (ls @ [LTau]) (s\<lparr>mb_read_positions := rp, mb_cpc := (mb_cpc s)(i := c)\<rparr>)"
    (is "mb_inv cap n _ ?t")
proof -
  have rel': "released ?t = released s"
  proof
    fix j show "released ?t j = released s j"
    proof (cases "j = i")
      case False
      then show ?thesis by (simp add: released_def rp split: consumer_pc.split)
    qed (use rel in simp)
  qed
  have "consumer_ok cap (published ls) ?t j" if "j < n" for j
  proof (cases "j = i")
    case False
    then show ?thesis
      using inv_consumer [OF I that] rel' by (simp add: consumer_ok_def rp split: consumer_pc.splits)
  qed (use ok in simp)
  moreover have "waiting ?t = waiting s"
    by (simp add: fun_eq_iff waiting_def rel')
  moreover have "written ?t = written s" "counted ?t = counted s"
    by (simp_all add: fun_eq_iff written_def counted_def split: producer_pc.split)
  ultimately show ?thesis
    using I rel' by (simp add: mb_inv_def rp)
qed

lemma inv_con_release:
  assumes I: "mb_inv cap n ls s" and cap: "0 < cap" and i: "i < n" and cpc: "mb_cpc s i = CAdvanced v"
    and slot: "slot = (mb_read_positions s ! i - 1) mod cap"
  shows "mb_inv cap n (ls @ [LConsumed i v])
    (s\<lparr>mb_refcounts := (mb_refcounts s)[slot := u32_dec (mb_refcounts s ! slot)], mb_cpc := (mb_cpc s)(i := CIdle)\<rparr>)"
    (is "mb_inv cap n _ ?t")
proof -
  let ?p = "released s i"
  have ok: "consumer_ok cap (published ls) s i"
    using inv_consumer [OF I i] .
  then have p: "mb_read_positions s ! i = Suc ?p" "?p < mb_write_pos s" "counted s \<le> ?p + cap"
    and v: "v = published ls ! ?p"
    by (auto simp: consumer_ok_def cpc released_def counted_def split: producer_pc.split)
  have n: "mb_consumer_count s = n" and len: "length (mb_refcounts s) = cap"
    using inv_shape [OF I] by (simp_all add: mb_shape_def)
  have rel: "released ?t j = (if j = i then Suc ?p else released s j)" for j
    using p by (simp add: released_def cpc split: consumer_pc.split)
  have slot: "slot = ?p mod cap"
    using slot p by simp
  have "counts_ok cap ((mb_refcounts s)[slot := u32_dec (mb_refcounts s ! slot)]) (counted s) (waiting ?t)"
  proof (rule counts_ok_release [OF _ _ _ slot, where i = i])
    show "waiting ?t ?p = waiting s ?p - {i}"
      by (auto simp: waiting_def rel split: if_splits)
    show "waiting ?t q = waiting s q" if "q \<noteq> ?p" for q
      using that by (auto simp: waiting_def rel split: if_splits)
    show "i \<in> waiting s ?p" "finite (waiting s ?p)"
      using i n by (auto simp: waiting_def)
    show "?p < counted s"
      using p by (auto simp: counted_def split: producer_pc.split)
  qed (use inv_counts [OF I] len cap p in auto)
  moreover have "consumer_ok cap (published ls) ?t j" if "j < n" for j
  proof (cases "j = i")
    case True
    then show ?thesis using ok p by (auto simp: consumer_ok_def rel)
  next
    case False
    then show ?thesis
      using inv_consumer [OF I that] by (simp add: consumer_ok_def rel split: consumer_pc.splits)
  qed
  moreover have "consumed j (ls @ [LConsumed i v]) = take (released ?t j) (published ls)" if "j < n" for j
    using I that p v inv_write_pos [OF I] by (simp add: mb_inv_def rel take_Suc_conv_app_nth)
  moreover have "written ?t = written s" "counted ?t = counted s"
    by (simp_all add: fun_eq_iff written_def counted_def split: producer_pc.split)
  ultimately show ?thesis
    using I by (simp add: mb_inv_def)
qed

lemma inv_tau:
  assumes "mb_inv cap n ls s" "published [l] = []" "\<And>i. consumed i [l] = []" "\<And>i. l \<noteq> LPanic i"
  shows "mb_inv cap n (ls @ [l]) s"
  using assms by (auto simp: mb_inv_def)

lemma inv_read:
  assumes I: "mb_inv cap n ls s" and cap: "0 < cap" and i: "i < n" and cpc: "mb_cpc s i = CReady"
  shows "mb_slots s ! (mb_read_positions s ! i mod cap) = Some (published ls ! (mb_read_positions s ! i))"
proof -
  let ?r = "mb_read_positions s ! i"
  have "?r < mb_write_pos s" "length (written s (published ls)) \<le> ?r + cap"
    using inv_consumer [OF I i] inv_write_pos [OF I]
    by (auto simp: consumer_ok_def cpc released_def written_def split: producer_pc.split)
  moreover have "?r < length (written s (published ls))" "written s (published ls) ! ?r = published ls ! ?r"
    using \<open>?r < mb_write_pos s\<close> inv_write_pos [OF I]
    by (auto simp: written_def nth_append split: producer_pc.split)
  ultimately show ?thesis
    using inv_slots [OF I] by (simp add: slots_ok_def)
qed

lemma mb_step_inv:
  assumes I: "mb_inv cap n ls s" and cap: "cap = 2 ^ k" and st: "mb_step s l t"
  shows "mb_inv cap n (ls @ [l]) t"
proof -
  have pos: "0 < cap" using cap by simp
  have mask: "mb_mask s = cap - 1" and n: "mb_consumer_count s = n"
    using inv_shape [OF I] by (simp_all add: mb_shape_def)
  have idx: "p AND mb_mask s = p mod cap" for p
    unfolding mask by (rule and_mask_mod [OF cap])
  show ?thesis
    using st
  proof (cases rule: mb_step.cases)
    case (PubFull v)
    then show ?thesis using inv_tau [OF I] by simp
  next
    case (PubCheck v)
    then show ?thesis using inv_pub_check [OF I pos] by (simp add: idx)
  next
    case (PubWrite v)
    then show ?thesis using inv_pub_write [OF I pos] by (simp add: idx)
  next
    case (PubCount v)
    then show ?thesis using inv_pub_count [OF I pos] by (simp add: idx)
  next
    case (PubStore v)
    then show ?thesis using inv_pub_store [OF I] by simp
  next
    case (ConEmpty i)
    then show ?thesis using inv_tau [OF I] by simp
  next
    case (ConCheck i)
    then show ?thesis
      using inv_consumer_move [OF I, of i "mb_read_positions s" "mb_read_positions s ! i" CReady]
        inv_consumer [OF I, of i] by (simp add: n consumer_ok_def released_def)
  next
    case (ConRead i v)
    then have "v = published ls ! (mb_read_positions s ! i)"
      using inv_read [OF I pos, of i] by (simp add: idx n)
    with ConRead show ?thesis
      using inv_consumer_move [OF I, of i "mb_read_positions s" "mb_read_positions s ! i" "CRead v"]
        inv_consumer [OF I, of i] by (simp add: n consumer_ok_def released_def)
  next
    case (ConPanic i)
    then show ?thesis using inv_read [OF I pos, of i] by (simp add: idx n)
  next
    case (ConAdvance i v)
    moreover have "i < length (mb_read_positions s)"
      using ConAdvance inv_shape [OF I] by (simp add: mb_shape_def)
    ultimately show ?thesis
      using inv_consumer_move [OF I, of i _ "mb_read_positions s ! i + 1" "CAdvanced v"]
        inv_consumer [OF I, of i] by (simp add: n consumer_ok_def released_def)
  next
    case (ConRelease i v slot)
    then show ?thesis using inv_con_release [OF I pos] by (simp add: idx n)
  qed
qed

lemma mb_steps_inv:
  assumes "mb_steps (mb_init cap n) ls s" "cap = 2 ^ k"
  shows "mb_inv cap n ls s"
  using assms
proof (induction "mb_init cap n :: 'a mb_state" ls s rule: mb_steps.induct)
  case Nil
  then show ?case by (simp add: mb_inv_init)
next
  case (Snoc ls t l u)
  then show ?case using mb_step_inv by blast
qed

section \<open>Guarantees\<close>

lemma consumed_length:
  assumes "mb_inv cap n ls s" "i < n"
  shows "length (consumed i ls) = released s i"
proof -
  have "consumed i ls = take (released s i) (published ls)"
    using assms by (simp add: mb_inv_def)
  then show ?thesis
    using released_le [OF assms] inv_write_pos [OF assms(1)] by simp
qed

lemma full_has_waiting:
  assumes I: "mb_inv cap n ls s" and cap: "0 < cap" and ppc: "mb_ppc s = PIdle"
    and full: "mb_refcounts s ! (mb_write_pos s mod cap) \<noteq> 0"
  shows "\<exists>i < n. mb_write_pos s = released s i + cap"
proof -
  have c: "counts_ok cap (mb_refcounts s) (mb_write_pos s) (waiting s)"
    using inv_counts [OF I] by (simp add: counted_def ppc)
  have n: "mb_consumer_count s = n"
    using inv_shape [OF I] by (simp add: mb_shape_def)
  have ge: "cap \<le> mb_write_pos s"
  proof (rule ccontr)
    assume "\<not> cap \<le> mb_write_pos s"
    then show False using c full by (simp add: counts_ok_def)
  qed
  let ?p = "mb_write_pos s - cap"
  have "card (waiting s ?p) \<noteq> 0"
    using c full ge cap by (auto simp: counts_ok_def le_mod_geq)
  then obtain i where "i \<in> waiting s ?p"
    by (metis card.empty ex_in_conv)
  then have i: "i < n" "released s i \<le> ?p"
    by (auto simp: waiting_def n)
  moreover have "mb_write_pos s \<le> released s i + cap"
    using inv_consumer [OF I i(1)] by (simp add: consumer_ok_def)
  ultimately have "mb_write_pos s = released s i + cap"
    using ge by simp
  then show ?thesis using i(1) by blast
qed

text \<open>
  (C1) However the atomic actions of the producer and of the consumers interleave, each consumer receives
  the published values in order, without a gap, a duplicate or a torn read, and is at most the capacity
  behind; no consumer unwraps an empty slot. Publishing reports backpressure only if some consumer is a
  full capacity behind, and consuming reports no data only to a consumer that has received everything.
\<close>

theorem multicast_delivers_in_order:
  assumes run: "mb_steps (mb_init (2 ^ k) n) ls s"
  shows "(\<forall>i < n. consumed i ls = take (length (consumed i ls)) (published ls) \<and>
            length (published ls) \<le> length (consumed i ls) + 2 ^ k) \<and>
    (\<forall>i. LPanic i \<notin> set ls) \<and>
    (\<forall>v t. mb_step s (LFull v) t \<longrightarrow> (\<exists>i < n. length (published ls) = length (consumed i ls) + 2 ^ k)) \<and>
    (\<forall>i t. mb_step s (LEmpty i) t \<longrightarrow> consumed i ls = published ls)"
proof (intro conjI allI impI)
  have I: "mb_inv (2 ^ k) n ls s"
    using mb_steps_inv [OF run] by simp
  have W: "length (published ls) = mb_write_pos s" and np: "\<forall>i. LPanic i \<notin> set ls"
    and n: "mb_consumer_count s = n" and mask: "mb_mask s = 2 ^ k - 1"
    using I by (simp_all add: mb_inv_def mb_shape_def)
  have idx: "p AND mb_mask s = p mod 2 ^ k" for p
    unfolding mask by (rule and_mask_mod [OF refl])
  {
    fix i assume i: "i < n"
    have "consumed i ls = take (released s i) (published ls)"
      using I i by (simp add: mb_inv_def)
    then show "consumed i ls = take (length (consumed i ls)) (published ls)"
      using consumed_length [OF I i] by simp
    show "length (published ls) \<le> length (consumed i ls) + 2 ^ k"
      using inv_consumer [OF I i] consumed_length [OF I i] W by (simp add: consumer_ok_def)
  }
  show "LPanic i \<notin> set ls" for i
    using np by simp
  {
    fix v t assume "mb_step s (LFull v) t"
    then have "\<exists>i < n. mb_write_pos s = released s i + 2 ^ k"
      by (cases rule: mb_step.cases) (use full_has_waiting [OF I] in \<open>simp_all add: idx\<close>)
    then show "\<exists>i < n. length (published ls) = length (consumed i ls) + 2 ^ k"
      using consumed_length [OF I] W by auto
  }
  {
    fix i t assume "mb_step s (LEmpty i) t"
    then have i: "i < n" and "mb_cpc s i = CIdle" "mb_write_pos s \<le> mb_read_positions s ! i"
      by (cases rule: mb_step.cases; simp add: n)+
    then have "mb_write_pos s \<le> released s i"
      by (simp add: released_def)
    then show "consumed i ls = published ls"
      using I i W by (simp add: mb_inv_def)
  }
qed

text \<open>A run with a publication, which the only consumer has yet to read.\<close>

theorem multicast_delivers_in_order_witness:
  "\<exists>s. mb_steps (mb_init (2 ^ 1) 1) [LTau, LTau, LTau, LPublished (7 :: nat)] s \<and>
     consumed 0 [LTau, LTau, LTau, LPublished (7 :: nat)] =
       take (length (consumed 0 [LTau, LTau, LTau, LPublished (7 :: nat)]))
         (published [LTau, LTau, LTau, LPublished 7])"
proof -
  let ?s = "mb_init 2 1 :: nat mb_state"
  have "mb_step ?s LTau (?s\<lparr>mb_ppc := PChecked 7\<rparr>)" (is "mb_step _ _ ?a")
    by (rule mb_step.PubCheck) (simp_all add: mb_init_def)
  moreover have "mb_step ?a LTau (?a\<lparr>mb_slots := [Some 7, None], mb_ppc := PWritten 7\<rparr>)" (is "mb_step _ _ ?b")
    using mb_step.PubWrite [of ?a 7] by (simp add: mb_init_def numeral_2_eq_2)
  moreover have "mb_step ?b LTau (?b\<lparr>mb_refcounts := [1, 0], mb_ppc := PCounted 7\<rparr>)" (is "mb_step _ _ ?c")
    using mb_step.PubCount [of ?b 7] by (simp add: mb_init_def numeral_2_eq_2)
  moreover have "mb_step ?c (LPublished 7) (?c\<lparr>mb_write_pos := 1, mb_ppc := PIdle\<rparr>)" (is "mb_step _ _ ?d")
    using mb_step.PubStore [of ?c 7] by (simp add: mb_init_def)
  ultimately have "mb_steps ?s (((([] @ [LTau]) @ [LTau]) @ [LTau]) @ [LPublished 7]) ?d"
    by (meson mb_steps.intros)
  then have run: "mb_steps (mb_init (2 ^ 1) 1) [LTau, LTau, LTau, LPublished 7] ?d"
    by simp
  then show ?thesis
    using multicast_delivers_in_order [OF run] by auto
qed

text \<open>Run without interruption, the actions of an operation have the effect of the operation.\<close>

lemma mb_publish_runs:
  assumes "mb_ppc s = PIdle" "mb_publish (multicast_buffer.truncate s) v = (b, None)"
  shows "\<exists>t. mb_steps s [LTau, LTau, LTau, LPublished v] t \<and> multicast_buffer.truncate t = b \<and>
    mb_ppc t = PIdle \<and> mb_cpc t = mb_cpc s"
proof -
  let ?i = "mb_write_pos s AND mb_mask s"
  let ?a = "s\<lparr>mb_ppc := PChecked v\<rparr>"
  let ?b = "?a\<lparr>mb_slots := (mb_slots s)[?i := Some v], mb_ppc := PWritten v\<rparr>"
  let ?c = "?b\<lparr>mb_refcounts := (mb_refcounts s)[?i := mb_consumer_count s], mb_ppc := PCounted v\<rparr>"
  let ?d = "?c\<lparr>mb_write_pos := mb_write_pos s + 1, mb_ppc := PIdle\<rparr>"
  have free: "mb_refcounts s ! ?i = 0"
    and b: "b = multicast_buffer.truncate ?d"
    using assms(2)
    by (auto simp: mb_publish_def multicast_buffer.truncate_def slot_idx_def Let_def split: if_splits)
  have "mb_steps s ([] @ [LTau]) ?a"
    using mb_step.PubCheck [of s v] assms(1) free by (blast intro: mb_steps.intros)
  moreover have "mb_step ?a LTau ?b"
    using mb_step.PubWrite [of ?a v] by simp
  moreover have "mb_step ?b LTau ?c"
    using mb_step.PubCount [of ?b v] by simp
  moreover have "mb_step ?c (LPublished v) ?d"
    using mb_step.PubStore [of ?c v] by simp
  ultimately have "mb_steps s (((([] @ [LTau]) @ [LTau]) @ [LTau]) @ [LPublished v]) ?d"
    by (meson mb_steps.Snoc)
  then show ?thesis
    using b by auto
qed

lemma mb_consume_runs:
  assumes i: "i < mb_consumer_count s" and idle: "mb_cpc s i = CIdle"
    and len: "length (mb_read_positions s) = mb_consumer_count s"
    and c: "mb_consume (multicast_buffer.truncate s) i = Some (b, Some v)"
  shows "\<exists>t. mb_steps s [LTau, LTau, LTau, LConsumed i v] t \<and> multicast_buffer.truncate t = b"
proof -
  let ?r = "mb_read_positions s ! i"
  let ?j = "?r AND mb_mask s"
  let ?a = "s\<lparr>mb_cpc := (mb_cpc s)(i := CReady)\<rparr>"
  let ?b = "?a\<lparr>mb_cpc := (mb_cpc ?a)(i := CRead v)\<rparr>"
  let ?c = "?b\<lparr>mb_read_positions := (mb_read_positions s)[i := ?r + 1], mb_cpc := (mb_cpc ?b)(i := CAdvanced v)\<rparr>"
  let ?d = "?c\<lparr>mb_refcounts := (mb_refcounts s)[?j := u32_dec (mb_refcounts s ! ?j)],
    mb_cpc := (mb_cpc ?c)(i := CIdle)\<rparr>"
  have pre: "?r < mb_write_pos s" "mb_slots s ! ?j = Some v" and b: "b = multicast_buffer.truncate ?d"
    using c by (auto simp: mb_consume_def multicast_buffer.truncate_def slot_idx_def Let_def
        split: if_splits option.splits)
  have "mb_steps s ([] @ [LTau]) ?a"
    using mb_step.ConCheck [OF i idle pre(1)] by (blast intro: mb_steps.intros)
  moreover have "mb_step ?a LTau ?b"
    using mb_step.ConRead [of i ?a v] i pre(2) by simp
  moreover have "mb_step ?b LTau ?c"
    using mb_step.ConAdvance [of i ?b v] i by simp
  moreover have "mb_step ?c (LConsumed i v) ?d"
    using mb_step.ConRelease [of i ?c v ?j] i len by simp
  ultimately have "mb_steps s (((([] @ [LTau]) @ [LTau]) @ [LTau]) @ [LConsumed i v]) ?d"
    by (meson mb_steps.Snoc)
  then show ?thesis
    using b by auto
qed

lemma mb_new_init:
  assumes "capacity = 2 ^ k" "n < 2 ^ 32"
  shows "mb_new capacity n = Some (multicast_buffer.truncate (mb_init capacity n))"
proof -
  have "is_power_of_two capacity"
    unfolding is_power_of_two_def using and_mask_mod [OF assms(1), of capacity] assms(1) by simp
  then show ?thesis
    using assms by (simp add: mb_new_def mb_init_def multicast_buffer.truncate_def)
qed

end
