(* ===== verification/Wal_Record.thy ===== *)
theory Wal_Record
  imports Laminar_Prelude
begin

text \<open>
  The record format of the write-ahead logs, \<^verbatim>\<open>[length: 4][crc: 4][data]\<close>, and the reader of
  \<^verbatim>\<open>crates/laminar-storage/src/per_core_wal/reader.rs\<close>. The serializer (rkyv) and the checksum (crc32c) are
  parameters, collected in a \<^verbatim>\<open>codec\<close>. A reader holds the contents of the file it opened. The loops of the
  reader end because every entry they read moves the position forward.
\<close>

section \<open>Little-endian words\<close>

definition u32_le :: "nat \<Rightarrow> bytes" where
  "u32_le n = [of_nat n, of_nat (n div 256), of_nat (n div 65536), of_nat (n div 16777216)]"

definition le_u32 :: "bytes \<Rightarrow> nat" where
  "le_u32 bs = foldr (\<lambda>b acc. unat b + 256 * acc) bs 0"

lemma length_u32_le [simp]: "length (u32_le n) = 4"
  by (simp add: u32_le_def)

lemma le_u32_le: "n < 2 ^ 32 \<Longrightarrow> le_u32 (u32_le n) = n"
proof -
  assume n: "n < 2 ^ 32"
  let ?a = "n div 256" and ?b = "n div 256 div 256" and ?c = "n div 256 div 256 div 256"
  have eqs: "n div 65536 = ?b" "n div 16777216 = ?c"
    by (simp_all add: div_mult2_eq [symmetric])
  have "?c < 256" using n by (simp add: div_mult2_eq [symmetric])
  then have "n mod 256 + 256 * (?a mod 256 + 256 * (?b mod 256 + 256 * (?c mod 256))) = n"
    by (metis mod_less mod_mult_div_eq add.commute)
  then show ?thesis
    unfolding u32_le_def le_u32_def eqs by (simp add: unat_of_nat)
qed

section \<open>Codec and errors\<close>

record 'e codec =
  cd_ser :: "'e \<Rightarrow> string + bytes"
  cd_de :: "bytes \<Rightarrow> string + 'e"
  cd_crc :: "bytes \<Rightarrow> 32 word"

text \<open>What the code relies on: what was serialized deserializes to the same entry.\<close>

definition codec_ok :: "'e codec \<Rightarrow> bool" where
  "codec_ok c \<longleftrightarrow> (\<forall>e b. cd_ser c e = Inr b \<longrightarrow> cd_de c b = Inr e)"

text \<open>The texts of the reasons, with the numbers they contain.\<close>

datatype wal_reason =
    IncompleteHeader nat
  | IncompleteData nat nat
  | LengthExceedsLimit nat

datatype wal_error =
    WalSerialization string
  | WalEntryTooLarge nat
  | WalDeserialization string
  | WalChecksumMismatch nat nat nat
  | WalTornWrite nat wal_reason
  | WalCorrupted nat wal_reason
  | InvalidCoreId nat nat
  | SegmentNotFound nat
  | WalUnexpectedEof

datatype 'e wal_read_result =
    Entry 'e
  | Eof
  | TornWrite nat wal_reason
  | ChecksumMismatch nat nat nat
  | Corrupted nat wal_reason

section \<open>Reader\<close>

definition record_header_size :: nat where "record_header_size = 8"

definition max_wal_entry_size :: nat where "max_wal_entry_size = 256 * 1024 * 1024"

record wal_reader =
  rd_core_id :: nat
  rd_data :: bytes
  rd_position :: nat
  rd_file_len :: nat

definition reader_open :: "nat \<Rightarrow> bytes \<Rightarrow> wal_reader" where
  "reader_open core data = \<lparr>rd_core_id = core, rd_data = data, rd_position = 0, rd_file_len = length data\<rparr>"

definition reader_open_from :: "nat \<Rightarrow> bytes \<Rightarrow> nat \<Rightarrow> wal_reader" where
  "reader_open_from core data start =
     \<lparr>rd_core_id = core, rd_data = data, rd_position = start, rd_file_len = length data\<rparr>"

text \<open>\<^verbatim>\<open>read_exact\<close> of \<^verbatim>\<open>n\<close> bytes at the reader's position.\<close>

definition bytes_at :: "bytes \<Rightarrow> nat \<Rightarrow> nat \<Rightarrow> bytes" where
  "bytes_at data p n = take n (drop p data)"

definition read_next :: "'e codec \<Rightarrow> wal_reader \<Rightarrow> wal_reader \<times> (wal_error + 'e wal_read_result)" where
  "read_next c r =
     (let remaining = rd_file_len r - rd_position r in
      if remaining = 0 then (r, Inr Eof)
      else if remaining < record_header_size
      then (r, Inr (TornWrite (rd_position r) (IncompleteHeader remaining)))
      else
        let record_start = rd_position r;
            len = le_u32 (bytes_at (rd_data r) record_start 4);
            expected_crc = le_u32 (bytes_at (rd_data r) (record_start + 4) 4);
            r1 = r\<lparr>rd_position := record_start + 8\<rparr> in
        if len > max_wal_entry_size then (r1, Inr (Corrupted record_start (LengthExceedsLimit len)))
        else
          let data_remaining = rd_file_len r1 - rd_position r1 in
          if data_remaining < len then (r1, Inr (TornWrite record_start (IncompleteData data_remaining len)))
          else
            let data = bytes_at (rd_data r) (rd_position r1) len;
                r2 = r1\<lparr>rd_position := rd_position r1 + len\<rparr>;
                actual_crc = unat (cd_crc c data) in
            if actual_crc \<noteq> expected_crc
            then (r2, Inr (ChecksumMismatch record_start expected_crc actual_crc))
            else
              case cd_de c data of
                Inr entry \<Rightarrow> (r2, Inr (Entry entry))
              | Inl e \<Rightarrow> (r2, Inl (WalDeserialization e)))"

lemma read_next_advances:
  assumes "read_next c r = (r', Inr (Entry e))"
  shows "rd_position r < rd_position r'" "rd_position r < rd_file_len r" "rd_file_len r' = rd_file_len r"
  using assms
  by (auto simp: read_next_def Let_def record_header_size_def split: if_splits sum.splits)

lemma read_next_measure:
  "(r', Inr (Entry e)) = read_next c r \<Longrightarrow> rd_file_len r' - rd_position r' < rd_file_len r - rd_position r"
  using read_next_advances [of c r r' e] by simp

text \<open>The loop of \<^verbatim>\<open>read_all\<close>.\<close>

function read_all_loop :: "'e codec \<Rightarrow> wal_reader \<Rightarrow> 'e list \<Rightarrow> wal_reader \<times> (wal_error + 'e list)" where
  "read_all_loop c r entries =
     (case read_next c r of
        (r', Inr (Entry e)) \<Rightarrow> read_all_loop c r' (entries @ [e])
      | (r', Inl err) \<Rightarrow> (r', Inl err)
      | (r', Inr _) \<Rightarrow> (r', Inr entries))"
  by pat_completeness auto
termination
  by (relation "measure (\<lambda>(c, r, entries). rd_file_len r - rd_position r)") (auto dest: read_next_measure)

declare read_all_loop.simps [simp del]

definition read_all :: "'e codec \<Rightarrow> wal_reader \<Rightarrow> wal_reader \<times> (wal_error + 'e list)" where
  "read_all c r = read_all_loop c r []"

text \<open>The loop of \<^verbatim>\<open>find_valid_end\<close>.\<close>

function valid_end_loop :: "'e codec \<Rightarrow> wal_reader \<Rightarrow> nat \<Rightarrow> wal_reader \<times> (wal_error + nat)" where
  "valid_end_loop c r valid_position =
     (case read_next c r of
        (r', Inr (Entry e)) \<Rightarrow> valid_end_loop c r' (rd_position r')
      | (r', Inr Eof) \<Rightarrow> (r', Inr valid_position)
      | (r', Inl err) \<Rightarrow> (r', Inl err)
      | (r', Inr _) \<Rightarrow> (r', Inr (rd_position r)))"
  by pat_completeness auto
termination
  by (relation "measure (\<lambda>(c, r, v). rd_file_len r - rd_position r)") (auto dest: read_next_measure)

declare valid_end_loop.simps [simp del]

definition find_valid_end :: "'e codec \<Rightarrow> wal_reader \<Rightarrow> wal_reader \<times> (wal_error + nat)" where
  "find_valid_end c r = valid_end_loop c r (rd_position r)"

text \<open>The loop of \<^verbatim>\<open>read_up_to_epoch\<close>; an entry of a later epoch ends it, after it was read.\<close>

function read_epoch_loop ::
  "'e codec \<Rightarrow> ('e \<Rightarrow> nat) \<Rightarrow> nat \<Rightarrow> wal_reader \<Rightarrow> 'e list \<Rightarrow> wal_reader \<times> (wal_error + 'e list)" where
  "read_epoch_loop c epoch max_epoch r entries =
     (case read_next c r of
        (r', Inr (Entry e)) \<Rightarrow>
          if epoch e > max_epoch then (r', Inr entries)
          else read_epoch_loop c epoch max_epoch r' (entries @ [e])
      | (r', Inl err) \<Rightarrow> (r', Inl err)
      | (r', Inr _) \<Rightarrow> (r', Inr entries))"
  by pat_completeness auto
termination
  by (relation "measure (\<lambda>(c, f, m, r, entries). rd_file_len r - rd_position r)") (auto dest: read_next_measure)

declare read_epoch_loop.simps [simp del]

section \<open>Writing and reading\<close>

text \<open>The record \<^verbatim>\<open>serialize_entry\<close> leaves in the write buffer.\<close>

definition frame :: "'e codec \<Rightarrow> bytes \<Rightarrow> bytes" where
  "frame c data = u32_le (length data) @ u32_le (unat (cd_crc c data)) @ data"

definition log_of :: "'e codec \<Rightarrow> bytes list \<Rightarrow> bytes" where
  "log_of c bs = concat (map (frame c) bs)"

definition encoded :: "'e codec \<Rightarrow> 'e list \<Rightarrow> bytes list \<Rightarrow> bool" where
  "encoded c = list_all2 (\<lambda>e b. cd_ser c e = Inr b \<and> length b \<le> max_wal_entry_size)"

text \<open>The number of records that lie completely within the first \<^verbatim>\<open>k\<close> bytes.\<close>

fun fits :: "bytes list \<Rightarrow> nat \<Rightarrow> nat" where
  "fits [] k = 0"
| "fits (b # bs) k = (if 8 + length b \<le> k then Suc (fits bs (k - (8 + length b))) else 0)"

lemma length_frame [simp]: "length (frame c b) = 8 + length b"
  by (simp add: frame_def)

lemma log_of_simps [simp]: "log_of c [] = []" "log_of c (b # bs) = frame c b @ log_of c bs"
  "log_of c (as @ bs) = log_of c as @ log_of c bs"
  by (simp_all add: log_of_def)

lemma fits_le: "fits bs k \<le> length bs"
  by (induction bs k rule: fits.induct) auto

lemma fits_length: "length (log_of c (take (fits bs k) bs)) \<le> k"
  by (induction bs k rule: fits.induct) auto

lemma fits_all: "length (log_of c bs) \<le> k \<Longrightarrow> fits bs k = length bs"
  by (induction bs k rule: fits.induct) auto

lemma fits_append_ge: "length (log_of c as) \<le> k \<Longrightarrow> length as \<le> fits (as @ bs) k"
  by (induction as arbitrary: k) auto

lemma take_fits_log:
  "take (length (log_of c (take (fits bs k) bs))) (take k (log_of c bs)) = log_of c (take (fits bs k) bs)"
  by (induction bs k rule: fits.induct) (auto simp: take_add)

lemma header_at:
  assumes "rd_data r = pre @ t" "8 \<le> length t" "take 8 t = u32_le a @ u32_le b"
  shows "bytes_at (rd_data r) (length pre) 4 = u32_le a" "bytes_at (rd_data r) (length pre + 4) 4 = u32_le b"
proof -
  have "take 4 (take 8 t) = u32_le a" "take 4 (drop 4 (take 8 t)) = u32_le b"
    unfolding assms(3) by simp_all
  then show "bytes_at (rd_data r) (length pre) 4 = u32_le a" "bytes_at (rd_data r) (length pre + 4) 4 = u32_le b"
    by (simp_all add: bytes_at_def assms(1) take_drop [symmetric] drop_take min_def)
qed

lemma crc_bound: "unat (x :: 32 word) < 2 ^ 32"
  using unsigned_less [of x, where ?'a = nat] by simp

lemma read_next_frame:
  assumes data: "rd_data r = pre @ frame c b @ post" "rd_position r = length pre" "rd_file_len r = length (rd_data r)"
    and b: "length b \<le> max_wal_entry_size" and de: "cd_de c b = Inr e"
  shows "read_next c r = (r\<lparr>rd_position := length pre + (8 + length b)\<rparr>, Inr (Entry e))"
proof -
  have small: "length b < 2 ^ 32"
    using b by (simp add: max_wal_entry_size_def)
  have h: "bytes_at (rd_data r) (length pre) 4 = u32_le (length b)"
    "bytes_at (rd_data r) (length pre + 4) 4 = u32_le (unat (cd_crc c b))"
    by (rule header_at [OF data(1)]; simp add: frame_def)+
  have d: "bytes_at (rd_data r) (length pre + 8) (length b) = b"
    by (simp add: bytes_at_def data(1) frame_def)
  show ?thesis
    using b de
    by (simp add: read_next_def Let_def data(2,3) h d le_u32_le [OF small] le_u32_le [OF crc_bound]
        record_header_size_def) (simp add: data(1) add.assoc)
qed

lemma read_next_torn:
  assumes data: "rd_data r = pre @ take k (frame c b)" "rd_position r = length pre" "rd_file_len r = length (rd_data r)"
    and b: "length b \<le> max_wal_entry_size" and k: "0 < k" "k < 8 + length b"
  shows "\<exists>r' q. read_next c r = (r', Inr (TornWrite (length pre) q))"
proof (cases "k < 8")
  case True
  then show ?thesis
    using k by (simp add: read_next_def Let_def data record_header_size_def)
next
  case False
  have small: "length b < 2 ^ 32"
    using b by (simp add: max_wal_entry_size_def)
  have h: "bytes_at (rd_data r) (length pre) 4 = u32_le (length b)"
    by (rule header_at(1) [OF data(1), where b = "unat (cd_crc c b)"]) (use False in \<open>simp_all add: frame_def min_def\<close>)
  have len: "rd_file_len r = length pre + k"
    using data k by simp
  have "k - 8 < length b"
    using False k by linarith
  then show ?thesis
    using False b by (simp add: read_next_def Let_def len data(2) h le_u32_le [OF small] record_header_size_def)
qed

lemma read_next_end:
  assumes "rd_position r = length (rd_data r)" "rd_file_len r = length (rd_data r)"
  shows "read_next c r = (r, Inr Eof)"
  using assms by (simp add: read_next_def)

lemma loop_entry:
  assumes "read_next c r = (r', Inr (Entry e))"
  shows "read_all_loop c r acc = read_all_loop c r' (acc @ [e])"
    and "valid_end_loop c r v = valid_end_loop c r' (rd_position r')"
  by (subst read_all_loop.simps valid_end_loop.simps, simp add: assms)+

lemma loop_eof:
  assumes "read_next c r = (r', Inr Eof)"
  shows "read_all_loop c r acc = (r', Inr acc)" and "valid_end_loop c r v = (r', Inr v)"
  by (subst read_all_loop.simps valid_end_loop.simps, simp add: assms)+

lemma loop_torn:
  assumes "read_next c r = (r', Inr (TornWrite p q))"
  shows "read_all_loop c r acc = (r', Inr acc)" and "valid_end_loop c r v = (r', Inr (rd_position r))"
  by (subst read_all_loop.simps valid_end_loop.simps, simp add: assms)+

text \<open>
  Reading a log that was cut off after \<^verbatim>\<open>k\<close> bytes returns the entries whose records survived in full, and the
  end of the last of them.
\<close>

lemma read_cut_log:
  assumes enc: "encoded c es bs" and ok: "codec_ok c"
    and data: "rd_data r = pre @ take k (log_of c bs)" "rd_position r = length pre" "rd_file_len r = length (rd_data r)"
  shows "\<exists>r'. read_all_loop c r acc = (r', Inr (acc @ take (fits bs k) es))"
    and "\<exists>r'. valid_end_loop c r (length pre) = (r', Inr (length pre + length (log_of c (take (fits bs k) bs))))"
proof -
  have "(\<exists>r'. read_all_loop c r acc = (r', Inr (acc @ take (fits bs k) es))) \<and>
    (\<exists>r'. valid_end_loop c r (length pre) = (r', Inr (length pre + length (log_of c (take (fits bs k) bs)))))"
    using enc data unfolding encoded_def
  proof (induction es bs arbitrary: r pre k acc rule: list_all2_induct)
    case Nil
    have "read_next c r = (r, Inr Eof)"
      by (rule read_next_end) (simp_all add: Nil)
    then show ?case by (simp add: loop_eof)
  next
    case (Cons e es b bs)
    then have b: "length b \<le> max_wal_entry_size" "cd_de c b = Inr e"
      using ok by (auto simp: codec_ok_def)
    show ?case
    proof (cases "8 + length b \<le> k")
      case True
      let ?r = "r\<lparr>rd_position := length pre + (8 + length b)\<rparr>"
      have split: "rd_data r = pre @ frame c b @ take (k - (8 + length b)) (log_of c bs)"
        using Cons.prems(1) True by simp
      have step: "read_next c r = (?r, Inr (Entry e))"
        using read_next_frame [OF split Cons.prems(2,3) b] .
      have "(\<exists>r'. read_all_loop c ?r (acc @ [e]) = (r', Inr ((acc @ [e]) @ take (fits bs (k - (8 + length b))) es))) \<and>
        (\<exists>r'. valid_end_loop c ?r (length (pre @ frame c b)) =
           (r', Inr (length (pre @ frame c b) + length (log_of c (take (fits bs (k - (8 + length b))) bs)))))"
        by (rule Cons.IH) (use Cons.prems split in simp_all)
      then show ?thesis
        using True by (simp add: loop_entry [OF step] add.assoc)
    next
      case False
      show ?thesis
      proof (cases "k = 0")
        case True
        then have "read_next c r = (r, Inr Eof)" using Cons.prems by (intro read_next_end) simp_all
        then show ?thesis using False by (simp add: loop_eof)
      next
        case pos: False
        have cut: "rd_data r = pre @ take k (frame c b)"
          using Cons.prems(1) False by simp
        have k: "0 < k" "k < 8 + length b"
          using pos False by simp_all
        obtain r' q where "read_next c r = (r', Inr (TornWrite (length pre) q))"
          using read_next_torn [OF cut Cons.prems(2,3) b(1) k] by blast
        then show ?thesis
          using False Cons.prems(2) by (simp add: loop_torn)
      qed
    qed
  qed
  then show "\<exists>r'. read_all_loop c r acc = (r', Inr (acc @ take (fits bs k) es))"
    and "\<exists>r'. valid_end_loop c r (length pre) = (r', Inr (length pre + length (log_of c (take (fits bs k) bs))))"
    by blast+
qed

section \<open>Arbitrary contents\<close>

text \<open>Reading from a file that was cut at \<^verbatim>\<open>v\<close> agrees with reading the whole file, up to \<^verbatim>\<open>v\<close>.\<close>

definition cut_reader :: "nat \<Rightarrow> wal_reader \<Rightarrow> wal_reader" where
  "cut_reader v r = r\<lparr>rd_data := take v (rd_data r), rd_file_len := v\<rparr>"

lemma bytes_at_take: "p + n \<le> v \<Longrightarrow> bytes_at (take v data) p n = bytes_at data p n"
  by (simp add: bytes_at_def take_drop min_def)

lemma read_next_entry_iff:
  "read_next c r = (r', Inr (Entry e)) \<longleftrightarrow>
   (let p = rd_position r; len = le_u32 (bytes_at (rd_data r) p 4); data = bytes_at (rd_data r) (p + 8) len
    in p + 8 \<le> rd_file_len r \<and> len \<le> max_wal_entry_size \<and> p + 8 + len \<le> rd_file_len r \<and>
       unat (cd_crc c data) = le_u32 (bytes_at (rd_data r) (p + 4) 4) \<and> cd_de c data = Inr e \<and>
       r' = r\<lparr>rd_position := p + 8 + len\<rparr>)"
  by (auto simp: read_next_def Let_def record_header_size_def split: sum.splits)

lemma read_next_cut:
  assumes "read_next c r = (r', Inr (Entry e))" "rd_position r' \<le> v"
  shows "read_next c (cut_reader v r) = (cut_reader v r', Inr (Entry e))"
  using assms unfolding read_next_entry_iff Let_def
  by (simp add: cut_reader_def bytes_at_take)

lemma valid_end_cut:
  assumes "valid_end_loop c r (rd_position r) = (r1, Inr v)" "rd_file_len r = length (rd_data r)"
    and "rd_position r \<le> length (rd_data r)"
  shows "rd_position r \<le> v \<and> v \<le> length (rd_data r) \<and>
    (\<exists>r4. valid_end_loop c (cut_reader v r) (rd_position r) = (r4, Inr v)) \<and>
    (\<exists>es r2 r3. read_all_loop c r acc = (r2, Inr (acc @ es)) \<and>
       read_all_loop c (cut_reader v r) acc = (r3, Inr (acc @ es)) \<and> rd_position r + 8 * length es \<le> v)"
  using assms
proof (induction c r "rd_position r" arbitrary: acc rule: valid_end_loop.induct)
  case (1 c r)
  obtain r' x where rn: "read_next c r = (r', x)" by fastforce
  show ?case
  proof (cases "\<exists>e. x = Inr (Entry e)")
    case True
    then obtain e where e: "read_next c r = (r', Inr (Entry e))" using rn by blast
    have r': "rd_data r' = rd_data r" "rd_file_len r' = rd_file_len r" "rd_position r + 8 \<le> rd_position r'"
      "rd_position r' \<le> length (rd_data r')"
      using e 1(3) unfolding read_next_entry_iff by (auto simp: Let_def)
    have "valid_end_loop c r' (rd_position r') = (r1, Inr v)"
      using 1(2) loop_entry(2) [OF e] by simp
    then have IH: "rd_position r' \<le> v \<and> v \<le> length (rd_data r') \<and>
      (\<exists>r4. valid_end_loop c (cut_reader v r') (rd_position r') = (r4, Inr v)) \<and>
      (\<exists>es r2 r3. read_all_loop c r' (acc @ [e]) = (r2, Inr ((acc @ [e]) @ es)) \<and>
         read_all_loop c (cut_reader v r') (acc @ [e]) = (r3, Inr ((acc @ [e]) @ es)) \<and>
         rd_position r' + 8 * length es \<le> v)"
      by (intro 1(1) [OF e [symmetric] refl refl]) (use r' 1(3) in simp_all)
    have cut: "read_next c (cut_reader v r) = (cut_reader v r', Inr (Entry e))"
      using read_next_cut [OF e] IH by blast
    have pos: "rd_position (cut_reader v r') = rd_position r'"
      by (simp add: cut_reader_def)
    obtain es r2 r3 where es: "read_all_loop c r' (acc @ [e]) = (r2, Inr ((acc @ [e]) @ es))"
      "read_all_loop c (cut_reader v r') (acc @ [e]) = (r3, Inr ((acc @ [e]) @ es))" "rd_position r' + 8 * length es \<le> v"
      using IH by blast
    have "\<exists>es r2 r3. read_all_loop c r acc = (r2, Inr (acc @ es)) \<and>
       read_all_loop c (cut_reader v r) acc = (r3, Inr (acc @ es)) \<and> rd_position r + 8 * length es \<le> v"
      using es r'(3) loop_entry(1) [OF e] loop_entry(1) [OF cut] by (intro exI [of _ "e # es"]) simp
    then show ?thesis
      using IH r' loop_entry(2) [OF cut] pos by auto
  next
    case False
    have "x = Inr Eof \<or> (\<exists>err. x = Inl err) \<or> (\<exists>p q. x = Inr (TornWrite p q)) \<or>
        (\<exists>p a b. x = Inr (ChecksumMismatch p a b)) \<or> (\<exists>p q. x = Inr (Corrupted p q))"
      using False by (metis sumE wal_read_result.exhaust)
    then have v: "v = rd_position r \<and> read_all_loop c r acc = (r', Inr acc)"
      using 1(2) rn by (auto simp: valid_end_loop.simps [of c r] read_all_loop.simps [of c r])
    have eof: "read_next c (cut_reader v r) = (cut_reader v r, Inr Eof)"
      by (rule read_next_end) (use v 1(4) in \<open>simp_all add: cut_reader_def\<close>)
    have "\<exists>es r2 r3. read_all_loop c r acc = (r2, Inr (acc @ es)) \<and>
       read_all_loop c (cut_reader v r) acc = (r3, Inr (acc @ es)) \<and> rd_position r + 8 * length es \<le> v"
      using v loop_eof(1) [OF eof] by (intro exI [of _ "[]"]) simp
    moreover have "\<exists>r4. valid_end_loop c (cut_reader v r) (rd_position r) = (r4, Inr v)"
      using v loop_eof(2) [OF eof] by simp
    ultimately show ?thesis
      using v 1(4) by blast
  qed
qed

text \<open>The bytes up to the end that is found are records, one for each entry that is read.\<close>

lemma u32_le_u32:
  assumes "length bs = 4"
  shows "u32_le (le_u32 bs) = bs"
proof -
  obtain a b c d where bs: "bs = [a, b, c, d]"
    using assms by (auto simp: numeral_eq_Suc length_Suc_conv)
  let ?n = "unat a + 256 * (unat b + 256 * (unat c + 256 * unat d))"
  have lt: "unat a < 256" "unat b < 256" "unat c < 256"
    using unsigned_less [of a, where 'a = nat] unsigned_less [of b, where 'a = nat] unsigned_less [of c, where 'a = nat] by simp_all
  have d: "?n div 256 = unat b + 256 * (unat c + 256 * unat d)" "?n div 256 div 256 = unat c + 256 * unat d"
    "?n div 256 div 256 div 256 = unat d"
    using lt by simp_all
  have byte: "of_nat (unat (x :: 8 word) + 256 * m) = x" for x m
  proof -
    have "(256 :: 8 word) = 0" by simp
    then show ?thesis by (simp only: of_nat_add of_nat_mult of_nat_numeral) simp
  qed
  have q: "?n div 65536 = unat c + 256 * unat d" "?n div 16777216 = unat d"
    using d(2,3) by (simp_all add: div_mult2_eq [symmetric])
  have "le_u32 bs = ?n" by (simp add: bs le_u32_def)
  then show ?thesis
    unfolding u32_le_def by (simp only: q d(1) byte bs byte [of d 0, unfolded mult_0_right add_0_right])
qed

lemma bytes_at_add: "bytes_at data p (m + n) = bytes_at data p m @ bytes_at data (p + m) n"
  by (simp add: bytes_at_def take_add add.commute)

lemma entry_frame:
  assumes "read_next c r = (r', Inr (Entry e))" "rd_file_len r = length (rd_data r)"
  shows "\<exists>b. bytes_at (rd_data r) (rd_position r) (rd_position r' - rd_position r) = frame c b \<and>
    length b \<le> max_wal_entry_size \<and> cd_de c b = Inr e \<and> rd_position r' = rd_position r + 8 + length b"
proof -
  let ?p = "rd_position r" and ?d = "rd_data r"
  define n where "n = le_u32 (bytes_at ?d ?p 4)"
  define b where "b = bytes_at ?d (?p + 8) n"
  have f: "?p + 8 + n \<le> length ?d" "n \<le> max_wal_entry_size" "rd_position r' = ?p + 8 + n"
    "unat (cd_crc c b) = le_u32 (bytes_at ?d (?p + 4) 4)" "cd_de c b = Inr e"
    using assms unfolding read_next_entry_iff by (auto simp: Let_def n_def b_def)
  have len: "length b = n" "length (bytes_at ?d ?p 4) = 4" "length (bytes_at ?d (?p + 4) 4) = 4"
    using f(1) by (simp_all add: b_def bytes_at_def)
  have "bytes_at ?d ?p (8 + n) = bytes_at ?d ?p 4 @ bytes_at ?d (?p + 4) 4 @ b"
    using bytes_at_add [of ?d ?p 4 "4 + n"] bytes_at_add [of ?d "?p + 4" 4 n] by (simp add: b_def add.assoc)
  then have "bytes_at ?d ?p (rd_position r' - ?p) = frame c b"
    unfolding frame_def len(1) f(4) n_def f(3) u32_le_u32 [OF len(2)] u32_le_u32 [OF len(3)] by simp
  then show ?thesis using f len(1) by blast
qed

lemma valid_end_records:
  assumes "valid_end_loop c r (rd_position r) = (r1, Inr v)" "rd_file_len r = length (rd_data r)"
    and "rd_position r \<le> length (rd_data r)"
  shows "\<exists>bs es r2. bytes_at (rd_data r) (rd_position r) (v - rd_position r) = log_of c bs \<and> rd_position r \<le> v \<and>
    list_all2 (\<lambda>b e. length b \<le> max_wal_entry_size \<and> cd_de c b = Inr e) bs es \<and>
    read_all_loop c r acc = (r2, Inr (acc @ es))"
  using assms
proof (induction c r "rd_position r" arbitrary: acc rule: valid_end_loop.induct)
  case (1 c r)
  obtain r' x where rn: "read_next c r = (r', x)" by fastforce
  show ?case
  proof (cases "\<exists>e. x = Inr (Entry e)")
    case True
    then obtain e where e: "read_next c r = (r', Inr (Entry e))" using rn by blast
    obtain b where b: "bytes_at (rd_data r) (rd_position r) (rd_position r' - rd_position r) = frame c b"
      "length b \<le> max_wal_entry_size" "cd_de c b = Inr e" "rd_position r' = rd_position r + 8 + length b"
      using entry_frame [OF e 1(3)] by blast
    have r': "rd_data r' = rd_data r" "rd_file_len r' = rd_file_len r" "rd_position r' \<le> length (rd_data r')"
      using e 1(3) unfolding read_next_entry_iff by (auto simp: Let_def)
    have "valid_end_loop c r' (rd_position r') = (r1, Inr v)"
      using 1(2) loop_entry(2) [OF e] by simp
    then have "\<exists>bs es r2. bytes_at (rd_data r') (rd_position r') (v - rd_position r') = log_of c bs \<and> rd_position r' \<le> v \<and>
      list_all2 (\<lambda>b e. length b \<le> max_wal_entry_size \<and> cd_de c b = Inr e) bs es \<and>
      read_all_loop c r' (acc @ [e]) = (r2, Inr ((acc @ [e]) @ es))"
      by (intro 1(1) [OF e [symmetric] refl refl]) (use r' 1(3) in simp_all)
    then obtain bs es r2 where IH: "bytes_at (rd_data r) (rd_position r') (v - rd_position r') = log_of c bs" "rd_position r' \<le> v"
      "list_all2 (\<lambda>b e. length b \<le> max_wal_entry_size \<and> cd_de c b = Inr e) bs es"
      "read_all_loop c r' (acc @ [e]) = (r2, Inr ((acc @ [e]) @ es))"
      unfolding r'(1) by blast
    have "v - rd_position r = (rd_position r' - rd_position r) + (v - rd_position r')" "rd_position r + (rd_position r' - rd_position r) = rd_position r'"
      using IH(2) b(4) by simp_all
    then have "bytes_at (rd_data r) (rd_position r) (v - rd_position r) = frame c b @ log_of c bs"
      using bytes_at_add [of "rd_data r" "rd_position r" "rd_position r' - rd_position r" "v - rd_position r'"] b(1) IH(1)
      by (simp only:)
    then show ?thesis
      using b IH loop_entry(1) [OF e] by (intro exI [of _ "b # bs"] exI [of _ "e # es"] exI [of _ r2]) (simp add: log_of_def)
  next
    case False
    have "x = Inr Eof \<or> (\<exists>err. x = Inl err) \<or> (\<exists>p q. x = Inr (TornWrite p q)) \<or>
        (\<exists>p a b. x = Inr (ChecksumMismatch p a b)) \<or> (\<exists>p q. x = Inr (Corrupted p q))"
      using False by (metis sumE wal_read_result.exhaust)
    then have "v = rd_position r \<and> read_all_loop c r acc = (r', Inr acc)"
      using 1(2) rn by (auto simp: valid_end_loop.simps [of c r] read_all_loop.simps [of c r])
    then show ?thesis by (intro exI [of _ "[]"] exI [of _ r']) (simp add: bytes_at_def log_of_def)
  qed
qed

end
