(* ===== verification/Per_Core_Wal.thy ===== *)
theory Per_Core_Wal
  imports Wal_Record "HOL-Library.Product_Lexorder" "HOL-Library.Multiset"
begin

text \<open>
  The per-core write-ahead log of \<^verbatim>\<open>crates/laminar-storage/src/per_core_wal\<close>: entries with their order, the
  writer of one segment, and the manager of all segments. A writer's \<^verbatim>\<open>ww_file\<close> is the segment as the
  operating system has it, \<^verbatim>\<open>ww_pending\<close> what its \<^verbatim>\<open>BufWriter\<close> still holds; up to \<^verbatim>\<open>ww_synced_position\<close> the
  file is durable. I/O calls succeed in the model; serialization may fail. Wall clock readings are
  arguments.
\<close>

section \<open>Entries\<close>

datatype wal_operation =
    Put bytes bytes
  | Delete bytes
  | Checkpoint nat
  | Commit "(string, nat) hashmap" "i64 option"
  | EpochBarrier nat

record wal_entry =
  we_epoch :: nat
  we_sequence :: nat
  we_core_id :: nat
  we_timestamp_ns :: i64
  we_operation :: wal_operation

definition entry_put :: "nat \<Rightarrow> nat \<Rightarrow> nat \<Rightarrow> bytes \<Rightarrow> bytes \<Rightarrow> i64 \<Rightarrow> wal_entry" where
  "entry_put core epoch sequence key val ts =
     \<lparr>we_epoch = epoch, we_sequence = sequence, we_core_id = core, we_timestamp_ns = ts,
      we_operation = Put key val\<rparr>"

definition entry_delete :: "nat \<Rightarrow> nat \<Rightarrow> nat \<Rightarrow> bytes \<Rightarrow> i64 \<Rightarrow> wal_entry" where
  "entry_delete core epoch sequence key ts =
     \<lparr>we_epoch = epoch, we_sequence = sequence, we_core_id = core, we_timestamp_ns = ts,
      we_operation = Delete key\<rparr>"

definition entry_checkpoint :: "nat \<Rightarrow> nat \<Rightarrow> nat \<Rightarrow> nat \<Rightarrow> i64 \<Rightarrow> wal_entry" where
  "entry_checkpoint core epoch sequence checkpoint_id ts =
     \<lparr>we_epoch = epoch, we_sequence = sequence, we_core_id = core, we_timestamp_ns = ts,
      we_operation = Checkpoint checkpoint_id\<rparr>"

definition entry_commit ::
  "nat \<Rightarrow> nat \<Rightarrow> nat \<Rightarrow> (string, nat) hashmap \<Rightarrow> i64 option \<Rightarrow> i64 \<Rightarrow> wal_entry" where
  "entry_commit core epoch sequence offsets watermark ts =
     \<lparr>we_epoch = epoch, we_sequence = sequence, we_core_id = core, we_timestamp_ns = ts,
      we_operation = Commit offsets watermark\<rparr>"

definition entry_epoch_barrier :: "nat \<Rightarrow> nat \<Rightarrow> nat \<Rightarrow> i64 \<Rightarrow> wal_entry" where
  "entry_epoch_barrier core epoch sequence ts =
     \<lparr>we_epoch = epoch, we_sequence = sequence, we_core_id = core, we_timestamp_ns = ts,
      we_operation = EpochBarrier epoch\<rparr>"

definition is_put :: "wal_entry \<Rightarrow> bool" where
  "is_put e = (case we_operation e of Put _ _ \<Rightarrow> True | _ \<Rightarrow> False)"

definition is_delete :: "wal_entry \<Rightarrow> bool" where
  "is_delete e = (case we_operation e of Delete _ \<Rightarrow> True | _ \<Rightarrow> False)"

definition is_checkpoint :: "wal_entry \<Rightarrow> bool" where
  "is_checkpoint e = (case we_operation e of Checkpoint _ \<Rightarrow> True | _ \<Rightarrow> False)"

definition is_state_operation :: "wal_entry \<Rightarrow> bool" where
  "is_state_operation e \<longleftrightarrow> is_put e \<or> is_delete e"

definition entry_key :: "wal_entry \<Rightarrow> bytes option" where
  "entry_key e = (case we_operation e of Put k _ \<Rightarrow> Some k | Delete k \<Rightarrow> Some k | _ \<Rightarrow> None)"

definition entry_value :: "wal_entry \<Rightarrow> bytes option" where
  "entry_value e = (case we_operation e of Put _ v \<Rightarrow> Some v | _ \<Rightarrow> None)"

definition entry_cmp :: "wal_entry \<Rightarrow> wal_entry \<Rightarrow> ordering" where
  "entry_cmp a b =
     (case cmp_ord (we_epoch a) (we_epoch b) of
        Equal \<Rightarrow>
          (case cmp_ord (we_timestamp_ns a) (we_timestamp_ns b) of
             Equal \<Rightarrow>
               (case cmp_ord (we_core_id a) (we_core_id b) of
                  Equal \<Rightarrow> cmp_ord (we_sequence a) (we_sequence b)
                | ord \<Rightarrow> ord)
           | ord \<Rightarrow> ord)
      | ord \<Rightarrow> ord)"

text \<open>The order is the lexicographic one of this key; the sort of the merge is stable.\<close>

definition sort_fields :: "wal_entry \<Rightarrow> nat \<times> i64 \<times> nat \<times> nat" where
  "sort_fields e = (we_epoch e, we_timestamp_ns e, we_core_id e, we_sequence e)"

lemma entry_cmp_sort_fields: "entry_cmp a b = cmp_ord (sort_fields a) (sort_fields b)"
  by (auto simp: entry_cmp_def sort_fields_def cmp_ord_def split: ordering.splits)

lemma state_operation_has_key: "is_state_operation e \<longleftrightarrow> entry_key e \<noteq> None"
  by (simp add: is_state_operation_def is_put_def is_delete_def entry_key_def split: wal_operation.splits)

section \<open>Writer of a segment\<close>

record wal_writer =
  ww_core_id :: nat
  ww_file :: bytes
  ww_pending :: bytes
  ww_position :: nat
  ww_synced_position :: nat
  ww_epoch :: nat
  ww_sequence :: nat
  ww_entries_since_sync :: nat

definition buf_capacity :: nat where "buf_capacity = 64 * 1024"

text \<open>\<^verbatim>\<open>write_all\<close> of a \<^verbatim>\<open>BufWriter\<close>: what reached the file and what is still buffered.\<close>

definition buf_write :: "nat \<Rightarrow> bytes \<Rightarrow> bytes \<Rightarrow> bytes \<Rightarrow> bytes \<times> bytes" where
  "buf_write cap file pending data =
     (if length data < cap - length pending then (file, pending @ data)
      else
        let (file1, pending1) =
              (if length data > cap - length pending then (file @ pending, []) else (file, pending))
        in if length data \<ge> cap then (file1 @ data, pending1) else (file1, pending1 @ data))"

text \<open>\<^verbatim>\<open>set_len\<close> of a file: cut off, or extended with zeros.\<close>

definition set_len :: "nat \<Rightarrow> bytes \<Rightarrow> bytes" where
  "set_len n file = take n file @ replicate (n - length file) 0"

definition writer_new :: "nat \<Rightarrow> bytes \<Rightarrow> wal_writer" where
  "writer_new core file =
     \<lparr>ww_core_id = core, ww_file = file, ww_pending = [], ww_position = length file,
      ww_synced_position = length file, ww_epoch = 0, ww_sequence = 0, ww_entries_since_sync = 0\<rparr>"

definition writer_open_at :: "nat \<Rightarrow> bytes \<Rightarrow> nat \<Rightarrow> wal_writer" where
  "writer_open_at core file pos =
     \<lparr>ww_core_id = core, ww_file = set_len pos file, ww_pending = [], ww_position = pos,
      ww_synced_position = pos, ww_epoch = 0, ww_sequence = 0, ww_entries_since_sync = 0\<rparr>"

definition writer_set_epoch :: "wal_writer \<Rightarrow> nat \<Rightarrow> wal_writer" where
  "writer_set_epoch w epoch = w\<lparr>ww_epoch := epoch\<rparr>"

definition serialize_entry :: "'e codec \<Rightarrow> 'e \<Rightarrow> wal_error + bytes" where
  "serialize_entry c e = (case cd_ser c e of Inl err \<Rightarrow> Inl (WalSerialization err) | Inr b \<Rightarrow> Inr (frame c b))"

definition advance_position :: "wal_writer \<Rightarrow> bytes \<Rightarrow> wal_writer" where
  "advance_position w write_buffer =
     w\<lparr>ww_position := ww_position w + (record_header_size + (length write_buffer - record_header_size)),
       ww_sequence := ww_sequence w + 1,
       ww_entries_since_sync := ww_entries_since_sync w + 1\<rparr>"

definition wal_append :: "wal_entry codec \<Rightarrow> wal_writer \<Rightarrow> wal_entry \<Rightarrow> wal_writer \<times> (wal_error + nat)" where
  "wal_append c w e =
     (let start_pos = ww_position w
      in case serialize_entry c e of
           Inl err \<Rightarrow> (w, Inl err)
         | Inr buf \<Rightarrow>
             let (file, pending) = buf_write buf_capacity (ww_file w) (ww_pending w) buf
             in (advance_position (w\<lparr>ww_file := file, ww_pending := pending\<rparr>) buf, Inr start_pos))"

definition append_put ::
  "wal_entry codec \<Rightarrow> i64 \<Rightarrow> wal_writer \<Rightarrow> bytes \<Rightarrow> bytes \<Rightarrow> wal_writer \<times> (wal_error + nat)" where
  "append_put c now w key val =
     wal_append c w (entry_put (ww_core_id w mod 2 ^ 16) (ww_epoch w) (ww_sequence w) key val now)"

definition append_delete ::
  "wal_entry codec \<Rightarrow> i64 \<Rightarrow> wal_writer \<Rightarrow> bytes \<Rightarrow> wal_writer \<times> (wal_error + nat)" where
  "append_delete c now w key =
     wal_append c w (entry_delete (ww_core_id w mod 2 ^ 16) (ww_epoch w) (ww_sequence w) key now)"

definition append_checkpoint ::
  "wal_entry codec \<Rightarrow> i64 \<Rightarrow> wal_writer \<Rightarrow> nat \<Rightarrow> wal_writer \<times> (wal_error + nat)" where
  "append_checkpoint c now w checkpoint_id =
     wal_append c w (entry_checkpoint (ww_core_id w mod 2 ^ 16) (ww_epoch w) (ww_sequence w) checkpoint_id now)"

definition append_epoch_barrier ::
  "wal_entry codec \<Rightarrow> i64 \<Rightarrow> wal_writer \<Rightarrow> wal_writer \<times> (wal_error + nat)" where
  "append_epoch_barrier c now w =
     wal_append c w (entry_epoch_barrier (ww_core_id w mod 2 ^ 16) (ww_epoch w) (ww_sequence w) now)"

definition append_commit ::
  "wal_entry codec \<Rightarrow> i64 \<Rightarrow> wal_writer \<Rightarrow> (string, nat) hashmap \<Rightarrow> i64 option \<Rightarrow> wal_writer \<times> (wal_error + nat)" where
  "append_commit c now w offsets watermark =
     wal_append c w (entry_commit (ww_core_id w mod 2 ^ 16) (ww_epoch w) (ww_sequence w) offsets watermark now)"

definition mark_synced :: "wal_writer \<Rightarrow> wal_writer" where
  "mark_synced w = w\<lparr>ww_synced_position := ww_position w, ww_entries_since_sync := 0\<rparr>"

definition wal_sync :: "wal_writer \<Rightarrow> wal_writer" where
  "wal_sync w =
     w\<lparr>ww_file := ww_file w @ ww_pending w, ww_pending := [], ww_synced_position := ww_position w,
       ww_entries_since_sync := 0\<rparr>"

definition wal_truncate :: "wal_writer \<Rightarrow> nat \<Rightarrow> wal_writer" where
  "wal_truncate w pos =
     (let w1 = wal_sync w
      in w1\<lparr>ww_file := set_len pos (ww_file w1), ww_pending := [], ww_position := pos, ww_synced_position := pos\<rparr>)"

definition wal_reset :: "wal_writer \<Rightarrow> wal_writer" where
  "wal_reset w = (wal_truncate w 0)\<lparr>ww_sequence := 0\<rparr>"

section \<open>Manager of the segments\<close>

text \<open>The segment files by core, as a restarted process finds them.\<close>

type_synonym disk = "nat \<Rightarrow> bytes option"

record wal_manager =
  pm_num_cores :: nat
  pm_writers :: "wal_writer list"
  pm_global_epoch :: nat

definition manager_new :: "nat \<Rightarrow> disk \<Rightarrow> wal_manager" where
  "manager_new num_cores d =
     \<lparr>pm_num_cores = num_cores,
      pm_writers = map (\<lambda>i. writer_new i (unwrap_or (d i) [])) [0..<num_cores],
      pm_global_epoch = 0\<rparr>"

text \<open>The single pass over a segment when it is opened: the largest epoch and the end of the valid part.\<close>

function open_scan :: "wal_entry codec \<Rightarrow> wal_reader \<Rightarrow> nat \<Rightarrow> nat \<Rightarrow> wal_error + nat \<times> nat" where
  "open_scan c r max_epoch valid_end =
     (case read_next c r of
        (r', Inr (Entry e)) \<Rightarrow> open_scan c r' (max max_epoch (we_epoch e)) (rd_position r')
      | (r', Inr Eof) \<Rightarrow> Inr (max_epoch, valid_end)
      | (r', Inl err) \<Rightarrow> Inl err
      | (r', Inr _) \<Rightarrow> Inr (max_epoch, rd_position r))"
  by pat_completeness auto
termination
  by (relation "measure (\<lambda>(c, r, m, v). rd_file_len r - rd_position r)") (auto dest: read_next_measure)

declare open_scan.simps [simp del]

fun open_cores ::
  "wal_entry codec \<Rightarrow> disk \<Rightarrow> nat list \<Rightarrow> nat \<Rightarrow> wal_writer list \<Rightarrow> wal_error + wal_writer list \<times> nat" where
  "open_cores c d [] max_epoch writers = Inr (writers, max_epoch)"
| "open_cores c d (i # is) max_epoch writers =
     (case d i of
        None \<Rightarrow> Inl (SegmentNotFound i)
      | Some file \<Rightarrow>
          (case open_scan c (reader_open i file) max_epoch 0 of
             Inl err \<Rightarrow> Inl err
           | Inr (max_epoch', valid_end) \<Rightarrow>
               open_cores c d is max_epoch' (writers @ [writer_open_at i file valid_end])))"

definition manager_open :: "wal_entry codec \<Rightarrow> nat \<Rightarrow> disk \<Rightarrow> wal_error + wal_manager" where
  "manager_open c num_cores d =
     (case open_cores c d [0..<num_cores] 0 [] of
        Inl err \<Rightarrow> Inl err
      | Inr (writers, max_epoch) \<Rightarrow>
          Inr \<lparr>pm_num_cores = num_cores, pm_writers = writers, pm_global_epoch = max_epoch\<rparr>)"

definition writer_checked :: "wal_manager \<Rightarrow> nat \<Rightarrow> wal_error + wal_writer" where
  "writer_checked m core =
     (if core \<ge> pm_num_cores m then Inl (InvalidCoreId core (usize_sub (pm_num_cores m) 1))
      else Inr (pm_writers m ! core))"

definition advance_epoch :: "wal_manager \<Rightarrow> wal_manager \<times> nat" where
  "advance_epoch m = (m\<lparr>pm_global_epoch := pm_global_epoch m + 1\<rparr>, pm_global_epoch m + 1)"

definition set_epoch_all :: "wal_manager \<Rightarrow> nat \<Rightarrow> wal_manager" where
  "set_epoch_all m epoch = m\<lparr>pm_writers := map (\<lambda>w. writer_set_epoch w epoch) (pm_writers m)\<rparr>"

definition sync_all :: "wal_manager \<Rightarrow> wal_manager" where
  "sync_all m = m\<lparr>pm_writers := map wal_sync (pm_writers m)\<rparr>"

definition positions :: "wal_manager \<Rightarrow> nat list" where
  "positions m = map ww_position (pm_writers m)"

definition synced_positions :: "wal_manager \<Rightarrow> nat list" where
  "synced_positions m = map ww_synced_position (pm_writers m)"

definition truncate_all :: "wal_manager \<Rightarrow> nat list \<Rightarrow> wal_manager \<times> wal_error option" where
  "truncate_all m ps =
     (if length ps \<noteq> pm_num_cores m
      then (m, Some (InvalidCoreId (length ps) (usize_sub (pm_num_cores m) 1)))
      else (m\<lparr>pm_writers := map (\<lambda>(w, p). wal_truncate w p) (zip (pm_writers m) ps)\<rparr>, None))"

definition reset_all :: "wal_manager \<Rightarrow> wal_manager" where
  "reset_all m = m\<lparr>pm_writers := map wal_reset (pm_writers m)\<rparr>"

text \<open>The files of a running manager: what its writers have handed to the operating system.\<close>

definition files_of :: "wal_manager \<Rightarrow> disk" where
  "files_of m i = (if i < length (pm_writers m) then Some (ww_file (pm_writers m ! i)) else None)"

fun merge_loop ::
  "(wal_reader \<Rightarrow> wal_reader \<times> (wal_error + wal_entry list)) \<Rightarrow> disk \<Rightarrow> nat list \<Rightarrow> wal_entry list \<Rightarrow>
   wal_error + wal_entry list" where
  "merge_loop rd d [] entries = Inr entries"
| "merge_loop rd d (i # is) entries =
     (case d i of
        None \<Rightarrow> merge_loop rd d is entries
      | Some file \<Rightarrow>
          (case snd (rd (reader_open i file)) of
             Inl err \<Rightarrow> Inl err
           | Inr es \<Rightarrow> merge_loop rd d is (entries @ es)))"

definition merge_segments :: "wal_entry codec \<Rightarrow> nat \<Rightarrow> disk \<Rightarrow> wal_error + wal_entry list" where
  "merge_segments c num_cores d =
     (case merge_loop (read_all c) d [0..<num_cores] [] of
        Inl err \<Rightarrow> Inl err
      | Inr entries \<Rightarrow> Inr (sort_key sort_fields entries))"

definition merge_segments_up_to_epoch :: "wal_entry codec \<Rightarrow> nat \<Rightarrow> disk \<Rightarrow> nat \<Rightarrow> wal_error + wal_entry list" where
  "merge_segments_up_to_epoch c num_cores d max_epoch =
     (case merge_loop (\<lambda>r. read_epoch_loop c we_epoch max_epoch r []) d [0..<num_cores] [] of
        Inl err \<Rightarrow> Inl err
      | Inr entries \<Rightarrow> Inr (sort_key sort_fields entries))"

text \<open>One clock reading per writer; the first failing writer ends the loop.\<close>

fun barrier_loop ::
  "wal_entry codec \<Rightarrow> (nat \<Rightarrow> i64) \<Rightarrow> nat \<Rightarrow> wal_writer list \<Rightarrow> wal_writer list \<times> wal_error option" where
  "barrier_loop c now i [] = ([], None)"
| "barrier_loop c now i (w # ws) =
     (case append_epoch_barrier c (now i) w of
        (w', Inl err) \<Rightarrow> (w' # ws, Some err)
      | (w', Inr _) \<Rightarrow> let (ws', err) = barrier_loop c now (i + 1) ws in (w' # ws', err))"

definition write_epoch_barrier_all ::
  "wal_entry codec \<Rightarrow> (nat \<Rightarrow> i64) \<Rightarrow> wal_manager \<Rightarrow> wal_manager \<times> wal_error option" where
  "write_epoch_barrier_all c now m =
     (let (ws, err) = barrier_loop c now 0 (pm_writers m) in (m\<lparr>pm_writers := ws\<rparr>, err))"

definition total_size :: "wal_manager \<Rightarrow> nat" where
  "total_size m = sum_list (map ww_position (pm_writers m))"

end
