(* ===== verification/Wal_Durability.thy ===== *)
theory Wal_Durability
  imports Per_Core_Wal
begin

text \<open>
  What the per-core log guarantees across a crash. A crash leaves of each segment file a prefix that
  contains at least the synced part. Reading the rest of it, opening it again and appending to it are
  related to the sequence of entries that were appended.
\<close>

section \<open>Runs of a writer\<close>

datatype wal_op =
    WPut bytes bytes i64
  | WDelete bytes i64
  | WCheckpoint nat i64
  | WBarrier i64
  | WCommit "(string, nat) hashmap" "i64 option" i64
  | WSync
  | WSetEpoch nat

fun appended :: "wal_writer \<Rightarrow> wal_op \<Rightarrow> wal_entry option" where
  "appended w (WPut k v now) = Some (entry_put (ww_core_id w mod 2 ^ 16) (ww_epoch w) (ww_sequence w) k v now)"
| "appended w (WDelete k now) = Some (entry_delete (ww_core_id w mod 2 ^ 16) (ww_epoch w) (ww_sequence w) k now)"
| "appended w (WCheckpoint n now) = Some (entry_checkpoint (ww_core_id w mod 2 ^ 16) (ww_epoch w) (ww_sequence w) n now)"
| "appended w (WBarrier now) = Some (entry_epoch_barrier (ww_core_id w mod 2 ^ 16) (ww_epoch w) (ww_sequence w) now)"
| "appended w (WCommit os wm now) = Some (entry_commit (ww_core_id w mod 2 ^ 16) (ww_epoch w) (ww_sequence w) os wm now)"
| "appended w WSync = None"
| "appended w (WSetEpoch n) = None"

fun wal_exec :: "wal_entry codec \<Rightarrow> wal_op \<Rightarrow> wal_writer \<Rightarrow> wal_writer \<times> (wal_error + nat)" where
  "wal_exec c (WPut k v now) w = append_put c now w k v"
| "wal_exec c (WDelete k now) w = append_delete c now w k"
| "wal_exec c (WCheckpoint n now) w = append_checkpoint c now w n"
| "wal_exec c (WBarrier now) w = append_epoch_barrier c now w"
| "wal_exec c (WCommit os wm now) w = append_commit c now w os wm"
| "wal_exec c WSync w = (wal_sync w, Inr 0)"
| "wal_exec c (WSetEpoch n) w = (writer_set_epoch w n, Inr 0)"

text \<open>A run keeps the entries whose append succeeded, and how many of them were there at the last sync.\<close>

fun wal_run :: "wal_entry codec \<Rightarrow> wal_writer \<times> wal_entry list \<times> nat \<Rightarrow> wal_op list \<Rightarrow> wal_writer \<times> wal_entry list \<times> nat" where
  "wal_run c st [] = st"
| "wal_run c (w, es, n) (op # ops) =
     (let (w', res) = wal_exec c op w;
          es' = (case (appended w op, res) of (Some e, Inr _) \<Rightarrow> es @ [e] | _ \<Rightarrow> es)
      in wal_run c (w', es', if op = WSync then length es else n) ops)"

lemma wal_exec_append: "appended w op = Some e \<Longrightarrow> wal_exec c op w = wal_append c w e"
  by (cases op) (auto simp: append_put_def append_delete_def append_checkpoint_def append_epoch_barrier_def
      append_commit_def)

text \<open>An entry whose encoding is within the limit of the reader; the writer accepts longer ones.\<close>

definition readable :: "'e codec \<Rightarrow> 'e \<Rightarrow> bool" where
  "readable c e \<longleftrightarrow> (case cd_ser c e of Inr b \<Rightarrow> length b \<le> max_wal_entry_size | Inl _ \<Rightarrow> True)"

lemma wal_run_prefix: "wal_run c (w, es, n) ops = (w', es', n') \<Longrightarrow> \<exists>zs. es' = es @ zs"
proof (induction ops arbitrary: w es n)
  case (Cons op ops)
  obtain w1 res where ex: "wal_exec c op w = (w1, res)"
    by fastforce
  let ?es = "case (appended w op, res) of (Some e, Inr _) \<Rightarrow> es @ [e] | _ \<Rightarrow> es"
  obtain zs where "es' = ?es @ zs"
    using Cons.IH [of w1 ?es] Cons.prems ex by (auto simp: Let_def)
  then show ?case by (auto split: option.splits sum.splits)
qed simp

section \<open>Invariant of a writer\<close>

lemma buf_write_contents:
  assumes "buf_write cap file pending data = (file', pending')" "length pending \<le> cap"
  shows "file' @ pending' = file @ pending @ data" "length pending' \<le> cap" "length file \<le> length file'"
proof -
  consider (fit) "length data < cap - length pending" | (over) "length data > cap - length pending"
    | (exact) "length data = cap - length pending" by linarith
  then have "file' @ pending' = file @ pending @ data \<and> length pending' \<le> cap \<and> length file \<le> length file'"
  proof cases
    case fit
    then show ?thesis using assms by (auto simp: buf_write_def)
  next
    case over
    then show ?thesis using assms by (auto simp: buf_write_def split: if_splits)
  next
    case exact
    show ?thesis
    proof (cases "cap \<le> length data")
      case True
      then have "pending = []" using exact assms(2) by (cases pending) auto
      then show ?thesis using assms exact True by (auto simp: buf_write_def)
    next
      case False
      then show ?thesis using assms exact by (auto simp: buf_write_def)
    qed
  qed
  then show "file' @ pending' = file @ pending @ data" "length pending' \<le> cap" "length file \<le> length file'"
    by simp_all
qed

definition writer_inv :: "wal_entry codec \<Rightarrow> wal_writer \<Rightarrow> wal_entry list \<Rightarrow> nat \<Rightarrow> bool" where
  "writer_inv c w es n \<longleftrightarrow>
     (\<exists>bs. encoded c es bs \<and> n \<le> length es \<and> ww_file w @ ww_pending w = log_of c bs \<and>
        length (ww_pending w) \<le> buf_capacity \<and> ww_position w = length (log_of c bs) \<and>
        ww_synced_position w = length (log_of c (take n bs)) \<and> ww_synced_position w \<le> length (ww_file w))"

lemma encoded_length: "encoded c es bs \<Longrightarrow> length bs = length es"
  by (simp add: encoded_def list_all2_lengthD)

lemma encoded_append [simp]:
  "length es = length bs \<Longrightarrow> encoded c (es @ es') (bs @ bs') \<longleftrightarrow> encoded c es bs \<and> encoded c es' bs'"
  by (simp add: encoded_def list_all2_append)

lemma encoded_take: "encoded c es bs \<Longrightarrow> encoded c (take n es) (take n bs)"
  by (simp add: encoded_def list_all2_takeI)

lemma writer_inv_new:
  assumes "encoded c es bs"
  shows "writer_inv c (writer_new core (log_of c bs)) es (length es)"
  unfolding writer_inv_def
  by (rule exI [of _ bs]) (use assms encoded_length [OF assms] in \<open>simp add: writer_new_def\<close>)

lemma wal_append_inv:
  assumes I: "writer_inv c w es n" and ap: "wal_append c w e = (w', res)"
    and bd: "\<And>p. res = Inr p \<Longrightarrow> readable c e"
  shows "writer_inv c w' (case res of Inr _ \<Rightarrow> es @ [e] | Inl _ \<Rightarrow> es) n"
proof (cases "cd_ser c e")
  case (Inl err)
  then show ?thesis using I ap by (auto simp: wal_append_def serialize_entry_def)
next
  case (Inr b)
  obtain bs where bs: "encoded c es bs" "n \<le> length es" "ww_file w @ ww_pending w = log_of c bs"
    "length (ww_pending w) \<le> buf_capacity" "ww_position w = length (log_of c bs)"
    "ww_synced_position w = length (log_of c (take n bs))" "ww_synced_position w \<le> length (ww_file w)"
    using I unfolding writer_inv_def by blast
  obtain f p where bw: "buf_write buf_capacity (ww_file w) (ww_pending w) (frame c b) = (f, p)"
    by fastforce
  note c = buf_write_contents [OF bw bs(4)]
  have w': "w' = advance_position (w\<lparr>ww_file := f, ww_pending := p\<rparr>) (frame c b)" "res = Inr (ww_position w)"
    using ap Inr bw by (auto simp: wal_append_def serialize_entry_def Let_def)
  have len: "length bs = length es"
    using bs(1) by (rule encoded_length)
  have "encoded c (es @ [e]) (bs @ [b])"
    using bs(1) Inr bd [OF w'(2)] len by (simp add: encoded_def readable_def list_all2_append)
  moreover have "f @ p = log_of c (bs @ [b])"
    using c(1) bs(3) by (simp flip: append_assoc)
  ultimately show ?thesis
    unfolding writer_inv_def w' using bs c len
    by (intro exI [of _ "bs @ [b]"]) (simp add: advance_position_def record_header_size_def)
qed

lemma wal_sync_inv:
  assumes "writer_inv c w es n"
  shows "writer_inv c (wal_sync w) es (length es)"
proof -
  obtain bs where bs: "encoded c es bs" "ww_file w @ ww_pending w = log_of c bs" "ww_position w = length (log_of c bs)"
    using assms unfolding writer_inv_def by blast
  then show ?thesis
    unfolding writer_inv_def
    by (intro exI [of _ bs]) (simp add: wal_sync_def encoded_length)
qed

lemma wal_run_inv:
  assumes "writer_inv c w es n" "wal_run c (w, es, n) ops = (w', es', n')" "list_all (readable c) es'"
  shows "writer_inv c w' es' n'"
  using assms
proof (induction ops arbitrary: w es n)
  case (Cons op ops)
  obtain w1 res where ex: "wal_exec c op w = (w1, res)"
    by fastforce
  let ?es = "case (appended w op, res) of (Some e, Inr _) \<Rightarrow> es @ [e] | _ \<Rightarrow> es"
  have rest: "wal_run c (w1, ?es, if op = WSync then length es else n) ops = (w', es', n')"
    using Cons.prems(2) ex by (simp add: Let_def)
  obtain zs where zs: "es' = ?es @ zs" using wal_run_prefix [OF rest] by blast
  have "writer_inv c w1 ?es (if op = WSync then length es else n)"
  proof (cases "appended w op")
    case (Some e)
    then have ap: "wal_append c w e = (w1, res)" "op \<noteq> WSync"
      using ex wal_exec_append [OF Some] by auto
    have "readable c e" if "res = Inr p" for p
      using Cons.prems(3) zs Some that by simp
    then show ?thesis
      using wal_append_inv [OF Cons.prems(1) ap(1)] ap(2) Some by (auto split: sum.splits)
  next
    case None
    show ?thesis
    proof (cases "op = WSync")
      case True
      then show ?thesis using ex wal_sync_inv [OF Cons.prems(1)] by (auto split: sum.splits)
    next
      case False
      then obtain m where "op = WSetEpoch m" using None by (cases op) auto
      then show ?thesis
        using ex Cons.prems(1) by (auto simp: writer_inv_def writer_set_epoch_def)
    qed
  qed
  from Cons.IH [OF this rest Cons.prems(3)] show ?case .
qed simp

section \<open>Crash and restart\<close>

lemma open_scan_step:
  shows "read_next c r = (r', Inr (Entry e)) \<Longrightarrow>
      open_scan c r m v = open_scan c r' (max m (we_epoch e)) (rd_position r')"
    and "read_next c r = (r', Inr Eof) \<Longrightarrow> open_scan c r m v = Inr (m, v)"
    and "read_next c r = (r', Inr (TornWrite p q)) \<Longrightarrow> open_scan c r m v = Inr (m, rd_position r)"
  by (subst open_scan.simps, simp)+

abbreviation max_epoch_of :: "wal_entry list \<Rightarrow> nat \<Rightarrow> nat" where
  "max_epoch_of es m \<equiv> fold (\<lambda>e x. max x (we_epoch e)) es m"

lemma open_scan_cut:
  assumes enc: "encoded c es bs" and ok: "codec_ok c"
    and data: "rd_data r = pre @ take k (log_of c bs)" "rd_position r = length pre" "rd_file_len r = length (rd_data r)"
  shows "open_scan c r m (length pre) =
    Inr (max_epoch_of (take (fits bs k) es) m, length pre + length (log_of c (take (fits bs k) bs)))"
  using enc data unfolding encoded_def
proof (induction es bs arbitrary: r pre k m rule: list_all2_induct)
  case Nil
  have "read_next c r = (r, Inr Eof)"
    by (rule read_next_end) (simp_all add: Nil)
  then show ?case by (simp add: open_scan_step)
next
  case (Cons e es b bs)
  then have b: "length b \<le> max_wal_entry_size" "cd_de c b = Inr e"
    using ok by (auto simp: codec_ok_def)
  consider (whole) "8 + length b \<le> k" | (none) "k = 0" | (torn) "0 < k" "k < 8 + length b"
    by linarith
  then show ?case
  proof cases
    case whole
    let ?r = "r\<lparr>rd_position := length pre + (8 + length b)\<rparr>"
    have split: "rd_data r = pre @ frame c b @ take (k - (8 + length b)) (log_of c bs)"
      using Cons.prems(1) whole by simp
    have step: "read_next c r = (?r, Inr (Entry e))"
      using read_next_frame [OF split Cons.prems(2,3) b] .
    have "open_scan c ?r (max m (we_epoch e)) (length (pre @ frame c b)) =
        Inr (max_epoch_of (take (fits bs (k - (8 + length b))) es) (max m (we_epoch e)),
             length (pre @ frame c b) + length (log_of c (take (fits bs (k - (8 + length b))) bs)))"
      by (rule Cons.IH) (use Cons.prems split in simp_all)
    then show ?thesis
      using whole by (simp add: open_scan_step(1) [OF step] add.assoc)
  next
    case none
    then have "read_next c r = (r, Inr Eof)" using Cons.prems by (intro read_next_end) simp_all
    then show ?thesis using none by (simp add: open_scan_step)
  next
    case torn
    have cut: "rd_data r = pre @ take k (frame c b)"
      using Cons.prems(1) torn by simp
    obtain r' q where "read_next c r = (r', Inr (TornWrite (length pre) q))"
      using read_next_torn [OF cut Cons.prems(2,3) b(1) torn] by blast
    then show ?thesis
      using torn Cons.prems(2) by (simp add: open_scan_step)
  qed
qed

lemma set_len_take [simp]: "n \<le> length f \<Longrightarrow> set_len n f = take n f"
  by (simp add: set_len_def)

lemma valid_end_le: "length (log_of c (take (fits bs k) bs)) \<le> length (take k (log_of c bs))"
proof -
  have "length (log_of c (take (fits bs k) bs)) \<le> length (log_of c (take (fits bs k) bs @ drop (fits bs k) bs))"
    unfolding log_of_simps by simp
  then show ?thesis using fits_length [of c bs k] by simp
qed

lemma writer_open_at_new:
  "v \<le> length f \<Longrightarrow> writer_open_at i f v = writer_new i (take v f)"
  by (simp add: writer_open_at_def writer_new_def)

lemma writer_open_cut:
  "writer_open_at i (take k (log_of c bs)) (length (log_of c (take (fits bs k) bs))) =
   writer_new i (log_of c (take (fits bs k) bs))"
  unfolding writer_open_at_new [OF valid_end_le] take_fits_log ..

text \<open>A segment cut off by a crash: what is read, and what opening it leaves.\<close>

lemma segment_cut:
  assumes "encoded c es bs" "codec_ok c"
  shows "snd (read_all c (reader_open i (take k (log_of c bs)))) = Inr (take (fits bs k) es)"
    and "open_scan c (reader_open i (take k (log_of c bs))) m 0 =
      Inr (max_epoch_of (take (fits bs k) es) m, length (log_of c (take (fits bs k) bs)))"
    and "ww_file (writer_open_at i (take k (log_of c bs)) (length (log_of c (take (fits bs k) bs)))) =
      log_of c (take (fits bs k) bs)"
proof -
  let ?r = "reader_open i (take k (log_of c bs))"
  have d: "rd_data ?r = [] @ take k (log_of c bs)" "rd_position ?r = length ([] :: bytes)"
    "rd_file_len ?r = length (rd_data ?r)"
    by (simp_all add: reader_open_def)
  show "snd (read_all c ?r) = Inr (take (fits bs k) es)"
    using read_cut_log(1) [OF assms d, of "[]"] by (auto simp: read_all_def)
  show "open_scan c ?r m 0 = Inr (max_epoch_of (take (fits bs k) es) m, length (log_of c (take (fits bs k) bs)))"
    using open_scan_cut [OF assms d, of m] by simp
  show "ww_file (writer_open_at i (take k (log_of c bs)) (length (log_of c (take (fits bs k) bs)))) =
      log_of c (take (fits bs k) bs)"
    unfolding writer_open_cut by (simp add: writer_new_def)
qed

text \<open>Entries logged before a run do not influence it.\<close>

lemma wal_run_shift:
  "wal_run c (w, es, n) ops = (w', es', n') \<Longrightarrow>
   \<exists>n''. wal_run c (w, xs @ es, m) ops = (w', xs @ es', n'')"
proof (induction ops arbitrary: w es n m)
  case (Cons op ops)
  obtain w1 res where ex: "wal_exec c op w = (w1, res)"
    by fastforce
  show ?case
    using Cons.prems Cons.IH [of w1] ex by (auto split: option.splits sum.splits)
qed simp

text \<open>
  (C7) Durability of a segment. After any sequence of appends, syncs and epoch changes, a crash leaves some
  prefix of the file that contains the synced part. Reading it returns the first \<^verbatim>\<open>j\<close> appended entries, and
  \<^verbatim>\<open>j\<close> is at least the number of entries at the last sync. Opening the segment finds the end of the valid
  part, and whatever is appended afterwards is read back behind these entries. All entries appended, before and
  after the crash, are assumed to encode to at most 256 MiB, the limit of the reader; the writer does not enforce it,
  and a longer entry hides everything behind it.
\<close>

theorem wal_crash_recovery:
  assumes ok: "codec_ok c"
    and run: "wal_run c (writer_new core [], [], 0) ops = (w, es, n)" and bd: "list_all (readable c) es"
    and crash: "ww_synced_position w \<le> k" "k \<le> length (ww_file w)"
  shows "\<exists>j v. n \<le> j \<and> j \<le> length es \<and>
    snd (read_all c (reader_open core (take k (ww_file w)))) = Inr (take j es) \<and>
    open_scan c (reader_open core (take k (ww_file w))) 0 0 = Inr (max_epoch_of (take j es) 0, v) \<and>
    (\<forall>ops2 w2 es2 n2. wal_run c (writer_open_at core (take k (ww_file w)) v, [], 0) ops2 = (w2, es2, n2) \<longrightarrow>
       list_all (readable c) es2 \<longrightarrow> snd (read_all c (reader_open core (ww_file (wal_sync w2)))) = Inr (take j es @ es2))"
proof -
  have "writer_inv c (writer_new core (log_of c [])) [] (length ([] :: wal_entry list))"
    by (rule writer_inv_new) (simp add: encoded_def)
  then have "writer_inv c w es n"
    using wal_run_inv [OF _ run bd] by simp
  then obtain bs where bs: "encoded c es bs" "n \<le> length es" "ww_file w @ ww_pending w = log_of c bs"
    "ww_synced_position w = length (log_of c (take n bs))"
    unfolding writer_inv_def by blast
  let ?j = "fits bs k" and ?v = "length (log_of c (take (fits bs k) bs))" and ?d = "take k (ww_file w)"
  have len: "length bs = length es"
    using bs(1) by (rule encoded_length)
  have d: "?d = take k (log_of c bs)"
    using crash(2) bs(3) [symmetric] by simp
  have "length (take n bs) \<le> fits (take n bs @ drop n bs) k"
    by (rule fits_append_ge [of c]) (use crash(1) bs(4) in simp)
  then have "n \<le> ?j" using bs(2) len by simp
  moreover have "?j \<le> length es" using fits_le [of bs k] len by simp
  moreover have "snd (read_all c (reader_open core (ww_file (wal_sync w2)))) = Inr (take ?j es @ es2)"
    if run2: "wal_run c (writer_open_at core ?d ?v, [], 0) ops2 = (w2, es2, n2)" and bd2: "list_all (readable c) es2" for ops2 w2 es2 n2
  proof -
    have w1: "writer_open_at core ?d ?v = writer_new core (log_of c (take ?j bs))"
      unfolding d by (rule writer_open_cut)
    have enc1: "encoded c (take ?j es) (take ?j bs)"
      using bs(1) by (rule encoded_take)
    obtain es3 n3 where run3: "wal_run c (writer_new core (log_of c (take ?j bs)), take ?j es, length (take ?j es)) ops2 =
        (w2, es3, n3)" "es3 = take ?j es @ es2"
      using wal_run_shift [OF run2 [unfolded w1], of "take ?j es" "length (take ?j es)"] by auto
    have "list_all (readable c) es3"
      using bd bd2 unfolding run3(2) by (auto simp: list_all_iff dest: in_set_takeD)
    then have "writer_inv c w2 es3 n3"
      by (rule wal_run_inv [OF writer_inv_new [OF enc1] run3(1)])
    then obtain bs3 where bs3: "encoded c es3 bs3" "ww_file (wal_sync w2) = log_of c bs3"
      unfolding writer_inv_def by (auto simp: wal_sync_def)
    have "snd (read_all c (reader_open core (take (length (log_of c bs3)) (log_of c bs3)))) =
        Inr (take (fits bs3 (length (log_of c bs3))) es3)"
      by (rule segment_cut(1) [OF bs3(1) ok])
    moreover have "fits bs3 (length (log_of c bs3)) = length es3"
      using fits_all [of c bs3, OF order_refl] encoded_length [OF bs3(1)] by simp
    ultimately have "snd (read_all c (reader_open core (log_of c bs3))) = Inr es3"
      by simp
    then show ?thesis
      unfolding bs3(2) run3(2) .
  qed
  ultimately show ?thesis
    using segment_cut(1,2) [OF bs(1) ok, of core k] unfolding d by blast
qed

text \<open>A codec for two entries; every other entry fails to serialize.\<close>

definition sample_entry :: "nat \<Rightarrow> wal_entry" where
  "sample_entry n = entry_put 0 0 n [1] [of_nat n] 5"

definition sample_codec :: "wal_entry codec" where
  "sample_codec =
     \<lparr>cd_ser = (\<lambda>e. if e = sample_entry 0 then Inr [7] else if e = sample_entry 1 then Inr [9] else Inl ''unsupported''),
      cd_de = (\<lambda>b. if b = [7] then Inr (sample_entry 0) else if b = [9] then Inr (sample_entry 1) else Inl ''invalid''),
      cd_crc = (\<lambda>b. of_nat (length b))\<rparr>"

lemma sample_codec_ok: "codec_ok sample_codec" "readable sample_codec e"
  by (auto simp: codec_ok_def readable_def sample_codec_def max_wal_entry_size_def split: if_splits)

text \<open>A run with one synced entry and one that is only buffered.\<close>

theorem wal_crash_recovery_witness:
  "\<exists>w es n j. wal_run sample_codec (writer_new 0 [], [], 0) [WPut [1] [0] 5, WSync, WPut [1] [1] 5] = (w, es, n) \<and>
     length es = 2 \<and> n = 1 \<and> n \<le> j \<and>
     snd (read_all sample_codec (reader_open 0 (take (ww_synced_position w) (ww_file w)))) = Inr (take j es)"
proof -
  obtain w es n where run: "wal_run sample_codec (writer_new 0 [], [], 0) [WPut [1] [0] 5, WSync, WPut [1] [1] 5] = (w, es, n)"
    by (metis prod_cases3)
  have facts: "length es = 2" "n = 1" "ww_synced_position w \<le> length (ww_file w)"
    using run by (auto simp: append_put_def wal_append_def serialize_entry_def sample_codec_def sample_entry_def
        buf_write_def buf_capacity_def writer_new_def entry_put_def wal_sync_def advance_position_def
        record_header_size_def Let_def)
  obtain j where "n \<le> j" "snd (read_all sample_codec (reader_open 0 (take (ww_synced_position w) (ww_file w)))) = Inr (take j es)"
    using wal_crash_recovery [OF sample_codec_ok(1) run _ order_refl facts(3)] sample_codec_ok(2) by (auto simp: list_all_iff)
  then show ?thesis using run facts by blast
qed

section \<open>The manager after a crash\<close>

lemma concat_single: "(i :: nat) < n \<Longrightarrow> concat (map (\<lambda>j. if j = i then xs else []) [0..<n]) = xs"
proof (induction n)
  case (Suc n)
  then show ?case
  proof (cases "i = n")
    case True
    have "concat (map (\<lambda>j. if j = n then xs else []) [0..<n]) = []"
      by simp
    then show ?thesis using True by simp
  qed simp
qed simp

lemma open_cores_cut:
  assumes ok: "codec_ok c"
    and seg: "\<And>i. i \<in> set is \<Longrightarrow> encoded c (es i) (bs i) \<and> d i = Some (take (k i) (log_of c (bs i)))"
  shows "open_cores c d is m ws =
    Inr (ws @ map (\<lambda>i. writer_new i (log_of c (take (fits (bs i) (k i)) (bs i)))) is,
         fold (\<lambda>i. max_epoch_of (take (fits (bs i) (k i)) (es i))) is m)"
  using seg
proof (induction "is" arbitrary: m ws)
  case (Cons i "is")
  have e: "encoded c (es i) (bs i)" and d: "d i = Some (take (k i) (log_of c (bs i)))"
    using Cons.prems by auto
  note cut = segment_cut(2) [OF e ok] writer_open_cut
  show ?case
    using Cons.IH Cons.prems by (simp add: d cut)
qed simp

lemma merge_loop_cut:
  assumes ok: "codec_ok c"
    and seg: "\<And>i. i \<in> set is \<Longrightarrow> encoded c (es i) (bs i) \<and> d i = Some (take (k i) (log_of c (bs i)))"
  shows "merge_loop (read_all c) d is acc =
    Inr (acc @ concat (map (\<lambda>i. take (fits (bs i) (k i)) (es i)) is))"
  using seg
proof (induction "is" arbitrary: acc)
  case (Cons i "is")
  have e: "encoded c (es i) (bs i)" and d: "d i = Some (take (k i) (log_of c (bs i)))"
    using Cons.prems by auto
  show ?case
    using Cons.IH Cons.prems by (simp add: d segment_cut(1) [OF e ok])
qed simp

text \<open>
  (C29) After a crash that cut every segment at an arbitrary point, opening the manager succeeds, every
  segment is trimmed to its complete records, the global epoch is the largest surviving one, and the merge
  of all segments is the surviving entries, sorted by epoch, timestamp, core and sequence. The entries of
  a core stay in the order of their appends if, in that order, epoch, timestamp and sequence do not decrease
  lexicographically; sequences restart at zero when a segment is opened. The entries are assumed to encode to at most
  256 MiB, the limit of the reader, which the writer does not enforce.
\<close>

theorem manager_reopens:
  assumes ok: "codec_ok c"
    and seg: "\<forall>i < n. encoded c (es i) (bs i) \<and> d i = Some (take (k i) (log_of c (bs i)))"
  shows "\<exists>m merged. manager_open c n d = Inr m \<and> merge_segments c n d = Inr merged \<and>
    (\<forall>i < n. ww_file (pm_writers m ! i) = log_of c (take (fits (bs i) (k i)) (bs i))) \<and>
    pm_global_epoch m = fold (\<lambda>i. max_epoch_of (take (fits (bs i) (k i)) (es i))) [0..<n] 0 \<and>
    mset merged = mset (concat (map (\<lambda>i. take (fits (bs i) (k i)) (es i)) [0..<n])) \<and>
    sorted (map sort_fields merged) \<and>
    (\<forall>i < n. (\<forall>j < n. \<forall>e \<in> set (es j). we_core_id e = j) \<longrightarrow> sorted (map sort_fields (es i)) \<longrightarrow>
       filter (\<lambda>e. we_core_id e = i) merged = take (fits (bs i) (k i)) (es i))"
proof -
  let ?alive = "\<lambda>i. take (fits (bs i) (k i)) (es i)"
  let ?merged = "sort_key sort_fields (concat (map ?alive [0..<n]))"
  have oc: "open_cores c d [0..<n] 0 [] =
    Inr ([] @ map (\<lambda>i. writer_new i (log_of c (take (fits (bs i) (k i)) (bs i)))) [0..<n],
         fold (\<lambda>i. max_epoch_of (?alive i)) [0..<n] 0)"
    by (rule open_cores_cut [OF ok]) (use seg in simp)
  have ml: "merge_loop (read_all c) d [0..<n] [] = Inr ([] @ concat (map ?alive [0..<n]))"
    by (rule merge_loop_cut [OF ok]) (use seg in simp)
  have op: "manager_open c n d = Inr \<lparr>pm_num_cores = n,
      pm_writers = map (\<lambda>i. writer_new i (log_of c (take (fits (bs i) (k i)) (bs i)))) [0..<n],
      pm_global_epoch = fold (\<lambda>i. max_epoch_of (?alive i)) [0..<n] 0\<rparr>"
    by (simp add: manager_open_def oc)
  have mg: "merge_segments c n d = Inr ?merged"
    by (simp add: merge_segments_def ml)
  have order: "filter (\<lambda>e. we_core_id e = i) ?merged = ?alive i"
    if i: "i < n" and own: "\<forall>j < n. \<forall>e \<in> set (es j). we_core_id e = j" and so: "sorted (map sort_fields (es i))" for i
  proof -
    have only: "filter (\<lambda>e. we_core_id e = i) (?alive j) = (if j = i then ?alive i else [])" if "j < n" for j
    proof -
      have "\<forall>e \<in> set (?alive j). we_core_id e = j" using own that by (meson in_set_takeD)
      then show ?thesis by (cases "j = i") (auto simp: filter_empty_conv filter_id_conv)
    qed
    have "filter (\<lambda>e. we_core_id e = i) (concat (map ?alive [0..<n])) =
        concat (map (\<lambda>j. if j = i then ?alive i else []) [0..<n])"
      unfolding filter_concat map_map
      by (intro arg_cong [where f = concat] map_cong refl) (simp add: only)
    also have "\<dots> = ?alive i"
      using i by (rule concat_single)
    finally have "filter (\<lambda>e. we_core_id e = i) ?merged = sort_key sort_fields (?alive i)"
      by (simp add: filter_sort)
    moreover have "sorted (map sort_fields (?alive i))"
      using so by (simp add: take_map [symmetric] sorted_wrt_take)
    ultimately show ?thesis by (simp add: sort_key_id_if_sorted)
  qed
  show ?thesis
    using op mg order by (intro exI [of _ "?merged"] exI) (auto simp: writer_new_def)
qed

text \<open>Two segments; the second one is cut inside its only record.\<close>

theorem manager_reopens_witness:
  "\<exists>m merged. manager_open sample_codec 2 (\<lambda>i. Some (take (if i = 0 then 9 else 5) (log_of sample_codec [[7]]))) = Inr m \<and>
     merge_segments sample_codec 2 (\<lambda>i. Some (take (if i = 0 then 9 else 5) (log_of sample_codec [[7]]))) = Inr merged \<and>
     mset merged = {#sample_entry 0#}"
proof -
  have enc: "encoded sample_codec [sample_entry 0] [[7]]"
    by (simp add: encoded_def sample_codec_def max_wal_entry_size_def)
  show ?thesis
    using manager_reopens [OF sample_codec_ok(1), where n = 2 and es = "\<lambda>_. [sample_entry 0]" and bs = "\<lambda>_. [[7]]"
        and k = "\<lambda>i. if i = 0 then 9 else 5" and d = "\<lambda>i. Some (take (if i = 0 then 9 else 5) (log_of sample_codec [[7]]))"]
      enc by (auto simp: numeral_2_eq_2)
qed

section \<open>Limits of the guarantees\<close>

text \<open>
  An append accepts a record longer than the limit of the reader; the reader then takes the record for
  corruption, and neither it nor anything behind it is read.
\<close>

lemma oversized_record_hides_log:
  assumes len: "max_wal_entry_size < length b" "length b < 2 ^ 32"
  shows "snd (read_all c (reader_open i (frame c b @ rest))) = Inr []"
proof -
  let ?r = "reader_open i (frame c b @ rest)"
  have "bytes_at (rd_data ?r) (length ([] :: bytes)) 4 = u32_le (length b)"
    by (rule header_at(1) [where t = "frame c b @ rest" and b = "unat (cd_crc c b)"])
      (simp_all add: reader_open_def frame_def)
  then have "read_next c ?r = (?r\<lparr>rd_position := 8\<rparr>, Inr (Corrupted 0 (LengthExceedsLimit (length b))))"
    using len by (simp add: read_next_def reader_open_def Let_def le_u32_le record_header_size_def)
  then show ?thesis
    unfolding read_all_def by (subst read_all_loop.simps) simp
qed

text \<open>
  A manager created with \<^verbatim>\<open>new\<close> appends behind whatever the file holds. Behind a torn record the appended
  entries are not read back, even after a sync.
\<close>

lemma new_appends_behind_torn_record:
  assumes b: "length b \<le> max_wal_entry_size" and k: "8 \<le> k" and fit: "k + 8 + length b2 < 8 + length b"
    and e: "cd_ser c e = Inr b2"
  shows "\<exists>w p. wal_append c (writer_new i (take k (frame c b))) e = (w, Inr p) \<and>
    snd (read_all c (reader_open i (ww_file (wal_sync w)))) = Inr []"
proof -
  let ?w = "writer_new i (take k (frame c b))"
  obtain w where w: "wal_append c ?w e = (w, Inr (ww_position ?w))"
      "ww_file w @ ww_pending w = take k (frame c b) @ frame c b2"
  proof -
    obtain f p where bw: "buf_write buf_capacity (ww_file ?w) (ww_pending ?w) (frame c b2) = (f, p)"
      by fastforce
    have "f @ p = take k (frame c b) @ frame c b2"
      using buf_write_contents(1) [OF bw] by (simp add: writer_new_def)
    then show ?thesis
      using e bw that by (simp add: wal_append_def serialize_entry_def advance_position_def)
  qed
  let ?d = "take k (frame c b) @ frame c b2" and ?r = "reader_open i (take k (frame c b) @ frame c b2)"
  have small: "length b < 2 ^ 32"
    using b by (simp add: max_wal_entry_size_def)
  have kl: "length (take k (frame c b)) = k" "take 8 ?d = take 8 (frame c b)"
    using k fit by simp_all
  have "bytes_at (rd_data ?r) (length ([] :: bytes)) 4 = u32_le (length b)"
    by (rule header_at(1) [where t = ?d and b = "unat (cd_crc c b)"])
      (use kl k in \<open>simp_all add: reader_open_def, simp add: frame_def\<close>)
  then have "\<exists>r' q. read_next c ?r = (r', Inr (TornWrite 0 q))"
    using b k fit kl(1) by (simp add: read_next_def reader_open_def Let_def le_u32_le [OF small] record_header_size_def)
  then have "snd (read_all c ?r) = Inr []"
    by (auto simp: read_all_def loop_torn)
  then show ?thesis
    using w by (simp add: wal_sync_def)
qed

text \<open>
  Entries of one epoch are replayed by wall clock time, not in the order of their appends: if the clock
  steps back, the older of two writes to a key is replayed last.
\<close>

lemma clock_step_reorders:
  "sort_key sort_fields [entry_put 0 0 0 k v1 5, entry_put 0 0 1 k v2 3] =
     [entry_put 0 0 1 k v2 3, entry_put 0 0 0 k v1 5]"
  by (simp add: sort_key_def sort_fields_def entry_put_def)

text \<open>
  Opening a segment restarts its sequence numbers. An entry appended then, in the epoch and the millisecond of an
  earlier one, is sorted before that one.
\<close>

lemma reopened_sequence_reorders:
  "ww_sequence (writer_open_at i f v) = 0"
  "sort_key sort_fields [entry_put 0 0 1 k v1 5, entry_put 0 0 0 k v2 5] =
     [entry_put 0 0 0 k v2 5, entry_put 0 0 1 k v1 5]"
  by (simp_all add: writer_open_at_def sort_key_def sort_fields_def entry_put_def)

text \<open>\<^verbatim>\<open>mark_synced\<close> reports buffered data as durable.\<close>

lemma mark_synced_overstates:
  "\<exists>w. wal_append sample_codec (writer_new 0 []) (sample_entry 0) = (w, Inr 0) \<and>
     ww_synced_position (mark_synced w) = 9 \<and> ww_file (mark_synced w) = []"
  by (simp add: wal_append_def serialize_entry_def sample_codec_def writer_new_def buf_write_def buf_capacity_def
      advance_position_def mark_synced_def record_header_size_def Let_def)

end
