(* ===== verification/Write_Ahead_Log.thy ===== *)
theory Write_Ahead_Log
  imports Wal_Durability
begin

text \<open>
  The single-file write-ahead log of \<^verbatim>\<open>crates/laminar-storage/src/wal.rs\<close>: appending with group commit, reading,
  truncation and repair. Its record format and its reader are those of \<^verbatim>\<open>Wal_Record\<close>. \<^verbatim>\<open>Instant\<close> readings are
  arguments.
\<close>

section \<open>Log\<close>

datatype wal_record =
    LogPut bytes bytes
  | LogDelete bytes
  | LogCheckpoint nat
  | LogCommit "(string, nat) hashmap" "i64 option"

record write_ahead_log =
  wl_file :: bytes
  wl_pending :: bytes
  wl_sync_interval :: nat
  wl_last_sync :: nat
  wl_position :: nat
  wl_sync_on_write :: bool

text \<open>The default capacity of a \<^verbatim>\<open>BufWriter\<close>.\<close>

definition default_buf_capacity :: nat where "default_buf_capacity = 8 * 1024"

definition wl_new :: "bytes \<Rightarrow> nat \<Rightarrow> nat \<Rightarrow> write_ahead_log" where
  "wl_new contents sync_interval now =
     \<lparr>wl_file = contents, wl_pending = [], wl_sync_interval = sync_interval, wl_last_sync = now,
      wl_position = length contents, wl_sync_on_write = False\<rparr>"

definition set_sync_on_write :: "write_ahead_log \<Rightarrow> bool \<Rightarrow> write_ahead_log" where
  "set_sync_on_write w enabled = w\<lparr>wl_sync_on_write := enabled\<rparr>"

definition wl_sync :: "nat \<Rightarrow> write_ahead_log \<Rightarrow> write_ahead_log" where
  "wl_sync now w = w\<lparr>wl_file := wl_file w @ wl_pending w, wl_pending := [], wl_last_sync := now\<rparr>"

definition wl_append ::
  "wal_record codec \<Rightarrow> nat \<Rightarrow> write_ahead_log \<Rightarrow> wal_record \<Rightarrow> write_ahead_log \<times> (wal_error + nat)" where
  "wl_append c now w entry =
     (let start_pos = wl_position w
      in case cd_ser c entry of
           Inl err \<Rightarrow> (w, Inl (WalSerialization err))
         | Inr b \<Rightarrow>
             if length b > 2 ^ 32 - 1 then (w, Inl (WalEntryTooLarge (length b)))
             else
               let (file1, pending1) = buf_write default_buf_capacity (wl_file w) (wl_pending w) (frame c b);
                   w1 = w\<lparr>wl_file := file1, wl_pending := pending1,
                          wl_position := wl_position w + (record_header_size + length b)\<rparr>
               in (if wl_sync_on_write w1 \<or> now - wl_last_sync w1 \<ge> wl_sync_interval w1 then wl_sync now w1 else w1,
                   Inr start_pos))"

definition wl_read_from :: "write_ahead_log \<Rightarrow> nat \<Rightarrow> wal_reader" where
  "wl_read_from w start = reader_open_from 0 (wl_file w) start"

text \<open>The reader of this log does what the per-core reader does.\<close>

definition wl_read_next ::
  "wal_record codec \<Rightarrow> wal_reader \<Rightarrow> wal_reader \<times> (wal_error + wal_record wal_read_result)" where
  "wl_read_next c r = read_next c r"

definition wl_truncate :: "nat \<Rightarrow> write_ahead_log \<Rightarrow> nat \<Rightarrow> write_ahead_log" where
  "wl_truncate now w pos =
     (let w1 = wl_sync now w in w1\<lparr>wl_file := set_len pos (wl_file w1), wl_pending := [], wl_position := pos\<rparr>)"

definition validate_record :: "wal_record codec \<Rightarrow> bytes \<Rightarrow> nat \<Rightarrow> nat \<Rightarrow> wal_error + nat" where
  "validate_record c data pos file_len =
     (let remaining = file_len - pos in
      if remaining < record_header_size then
        (if remaining = 0 then Inl WalUnexpectedEof
         else Inl (WalTornWrite pos (IncompleteHeader remaining)))
      else
        let len = le_u32 (bytes_at data pos 4);
            expected_crc = le_u32 (bytes_at data (pos + 4) 4) in
        if len > max_wal_entry_size then Inl (WalCorrupted pos (LengthExceedsLimit len))
        else
          let data_remaining = remaining - record_header_size in
          if data_remaining < len then Inl (WalTornWrite pos (IncompleteData data_remaining len))
          else
            let actual_crc = unat (cd_crc c (bytes_at data (pos + 8) len)) in
            if actual_crc \<noteq> expected_crc then Inl (WalChecksumMismatch pos expected_crc actual_crc)
            else Inr (record_header_size + len))"

lemma validate_record_advances:
  assumes "validate_record c data pos file_len = Inr n"
  shows "file_len - (pos + n) < file_len - pos"
proof -
  have "0 < n" "pos < file_len"
    using assms by (auto simp: validate_record_def Let_def record_header_size_def split: if_splits)
  then show ?thesis by simp
qed

text \<open>The loop of \<^verbatim>\<open>repair\<close>.\<close>

function repair_loop :: "wal_record codec \<Rightarrow> bytes \<Rightarrow> nat \<Rightarrow> nat \<Rightarrow> nat \<Rightarrow> wal_error + nat" where
  "repair_loop c data file_len valid_position current_position =
     (case validate_record c data current_position file_len of
        Inr record_len \<Rightarrow>
          repair_loop c data file_len (current_position + record_len) (current_position + record_len)
      | Inl (WalTornWrite _ _) \<Rightarrow> Inr valid_position
      | Inl (WalChecksumMismatch _ _ _) \<Rightarrow> Inr valid_position
      | Inl WalUnexpectedEof \<Rightarrow> Inr valid_position
      | Inl err \<Rightarrow> Inl err)"
  by pat_completeness auto
termination
  by (relation "measure (\<lambda>(c, data, file_len, v, p). file_len - p)") (auto dest: validate_record_advances)

declare repair_loop.simps [simp del]

definition wl_repair ::
  "wal_record codec \<Rightarrow> nat \<Rightarrow> write_ahead_log \<Rightarrow> write_ahead_log \<times> (wal_error + nat)" where
  "wl_repair c now w =
     (let w1 = wl_sync now w; file_len = length (wl_file w1)
      in case repair_loop c (wl_file w1) file_len 0 0 of
           Inl err \<Rightarrow> (w1, Inl err)
         | Inr valid_position \<Rightarrow>
             (if valid_position < file_len then wl_truncate now w1 valid_position else w1, Inr valid_position))"

section \<open>Repair\<close>

text \<open>A record is valid exactly if the reader reads it or fails to decode it.\<close>

lemma validate_frame:
  assumes "data = pre @ frame c b @ post" "pos = length pre" "length b \<le> max_wal_entry_size"
  shows "validate_record c data pos (length data) = Inr (8 + length b)"
proof -
  have small: "length b < 2 ^ 32"
    using assms(3) by (simp add: max_wal_entry_size_def)
  let ?r = "reader_open 0 data"
  have d: "rd_data ?r = pre @ (frame c b @ post)" by (simp add: reader_open_def assms(1))
  have h: "bytes_at data (length pre) 4 = u32_le (length b)" "bytes_at data (length pre + 4) 4 = u32_le (unat (cd_crc c b))"
    using header_at [OF d, of "length b" "unat (cd_crc c b)"] by (simp_all add: reader_open_def frame_def)
  have p: "bytes_at data (length pre + 8) (length b) = b"
    by (simp add: bytes_at_def assms(1) frame_def)
  have n: "length data = length pre + (8 + length b) + length post"
    by (simp add: assms(1))
  show ?thesis
    using assms(3) by (simp add: validate_record_def assms(2) Let_def h p n le_u32_le [OF small] le_u32_le [OF crc_bound]
        record_header_size_def)
qed

lemma validate_torn:
  assumes "data = pre @ take k (frame c b)" "pos = length pre" "length b \<le> max_wal_entry_size"
    and k: "0 < k" "k < 8 + length b"
  shows "\<exists>q. validate_record c data pos (length data) = Inl (WalTornWrite pos q)"
proof (cases "k < 8")
  case True
  then show ?thesis using assms by (simp add: validate_record_def Let_def record_header_size_def)
next
  case False
  have small: "length b < 2 ^ 32"
    using assms(3) by (simp add: max_wal_entry_size_def)
  let ?r = "reader_open 0 data"
  have d: "rd_data ?r = pre @ take k (frame c b)" by (simp add: reader_open_def assms(1))
  have h: "bytes_at data (length pre) 4 = u32_le (length b)"
    using header_at(1) [OF d, of "length b" "unat (cd_crc c b)"] False k
    by (simp add: reader_open_def frame_def min_def)
  have "k - 8 < length b" "length data = length pre + k"
    using False k assms(1) by simp_all
  then show ?thesis
    using False assms(2,3) by (simp add: validate_record_def Let_def h le_u32_le [OF small] record_header_size_def)
qed

lemma repair_loop_step:
  shows "validate_record c data p n = Inr m \<Longrightarrow> repair_loop c data n v p = repair_loop c data n (p + m) (p + m)"
    and "validate_record c data p n = Inl (WalTornWrite x q) \<Longrightarrow> repair_loop c data n v p = Inr v"
    and "validate_record c data p n = Inl WalUnexpectedEof \<Longrightarrow> repair_loop c data n v p = Inr v"
  by (subst repair_loop.simps, simp)+

lemma repair_loop_cut:
  assumes "\<forall>b \<in> set bs. length b \<le> max_wal_entry_size" "data = pre @ take k (log_of c bs)"
  shows "repair_loop c data (length data) (length pre) (length pre) =
    Inr (length pre + length (log_of c (take (fits bs k) bs)))"
  using assms
proof (induction bs arbitrary: pre k)
  case Nil
  then have "validate_record c data (length pre) (length data) = Inl WalUnexpectedEof"
    by (simp add: validate_record_def record_header_size_def)
  then show ?case by (simp add: repair_loop_step)
next
  case (Cons b bs)
  have b: "length b \<le> max_wal_entry_size" using Cons.prems(1) by simp
  consider (whole) "8 + length b \<le> k" | (none) "k = 0" | (torn) "0 < k" "k < 8 + length b"
    by linarith
  then show ?case
  proof cases
    case whole
    have split: "data = pre @ frame c b @ take (k - (8 + length b)) (log_of c bs)"
      using Cons.prems(2) whole by simp
    have "repair_loop c data (length data) (length (pre @ frame c b)) (length (pre @ frame c b)) =
        Inr (length (pre @ frame c b) + length (log_of c (take (fits bs (k - (8 + length b))) bs)))"
      by (rule Cons.IH) (use Cons.prems split in simp_all)
    then show ?thesis
      using whole repair_loop_step(1) [OF validate_frame [OF split refl b]] by (simp add: add.assoc)
  next
    case none
    then have "validate_record c data (length pre) (length data) = Inl WalUnexpectedEof"
      using Cons.prems(2) by (simp add: validate_record_def record_header_size_def)
    then show ?thesis using none by (simp add: repair_loop_step)
  next
    case torn
    have "data = pre @ take k (frame c b)"
      using Cons.prems(2) torn by simp
    then obtain q where "validate_record c data (length pre) (length data) = Inl (WalTornWrite (length pre) q)"
      using validate_torn [OF _ refl b torn] by blast
    then show ?thesis using torn by (simp add: repair_loop_step)
  qed
qed

lemma encoded_bounded: "encoded c es bs \<Longrightarrow> \<forall>b \<in> set bs. length b \<le> max_wal_entry_size"
  unfolding encoded_def by (induction es bs rule: list_all2_induct) auto

lemma encoded_drop: "encoded c es bs \<Longrightarrow> encoded c (drop n es) (drop n bs)"
  by (simp add: encoded_def list_all2_dropI)

text \<open>Reading a log from the end of its first \<^verbatim>\<open>p\<close> records.\<close>

lemma read_from_boundary:
  assumes enc: "encoded c es bs" and ok: "codec_ok c" and p: "p \<le> length bs"
  shows "snd (read_all c (reader_open_from i (log_of c bs) (length (log_of c (take p bs))))) = Inr (drop p es)"
proof -
  let ?r = "reader_open_from i (log_of c bs) (length (log_of c (take p bs)))"
  let ?n = "length (log_of c (drop p bs))"
  have "log_of c bs = log_of c (take p bs) @ log_of c (drop p bs)"
    by (metis append_take_drop_id log_of_simps(3))
  then have d: "rd_data ?r = log_of c (take p bs) @ take ?n (log_of c (drop p bs))"
    "rd_position ?r = length (log_of c (take p bs))" "rd_file_len ?r = length (rd_data ?r)"
    by (simp_all add: reader_open_from_def)
  have "fits (drop p bs) ?n = length (drop p es)"
    using fits_all [of c "drop p bs", OF order_refl] encoded_length [OF enc] by simp
  then show ?thesis
    using read_cut_log(1) [OF encoded_drop [OF enc] ok d, of "[]"] by (auto simp: read_all_def)
qed

lemma wl_repair_cut:
  assumes enc: "encoded c es bs" and j: "j = fits bs k" and opened: "w = wl_new (take k (log_of c bs)) iv t"
  shows "snd (wl_repair c now w) = Inr (length (log_of c (take j bs)))"
    and "wl_file (fst (wl_repair c now w)) = log_of c (take j bs)"
    and "wl_position (fst (wl_repair c now w)) = length (log_of c (take j bs))"
proof -
  define d where "d = take k (log_of c bs)"
  define v where "v = length (log_of c (take j bs))"
  have "repair_loop c d (length d) (length ([] :: bytes)) (length ([] :: bytes)) = Inr (length ([] :: bytes) + v)"
    unfolding v_def j by (rule repair_loop_cut [OF encoded_bounded [OF enc]]) (simp add: d_def)
  then have rl: "repair_loop c d (length d) 0 0 = Inr v"
    by simp
  have le: "v \<le> length d"
    unfolding v_def d_def j by (rule valid_end_le)
  have cut: "take v d = log_of c (take j bs)"
    unfolding v_def d_def j by (rule take_fits_log)
  have w: "wl_sync now w = w\<lparr>wl_last_sync := now\<rparr>" "wl_file w = d" "wl_position w = length d" "wl_pending w = []"
    using opened by (simp_all add: wl_sync_def wl_new_def d_def)
  show "snd (wl_repair c now w) = Inr (length (log_of c (take j bs)))"
    using rl by (simp add: wl_repair_def w Let_def v_def)
  have "wl_file (fst (wl_repair c now w)) = take v d \<and> wl_position (fst (wl_repair c now w)) = v"
  proof (cases "v < length d")
    case True
    then show ?thesis
      using rl le by (simp add: wl_repair_def w Let_def wl_truncate_def wl_sync_def)
  next
    case False
    then have "v = length d" using le by linarith
    then show ?thesis
      using rl False by (simp add: wl_repair_def w Let_def)
  qed
  then show "wl_file (fst (wl_repair c now w)) = log_of c (take j bs)"
    "wl_position (fst (wl_repair c now w)) = length (log_of c (take j bs))"
    using cut v_def by simp_all
qed

text \<open>
  (C28) Repairing a log that a crash cut off anywhere truncates it to the complete records and reports their
  end; from then on, reading from any record boundary returns the surviving entries behind it. The entries of the log
  are assumed to encode to at most 256 MiB, the limit of the reader; appending accepts longer ones, and repair
  fails on a complete record of that kind without truncating.
\<close>

theorem wl_repair_spec:
  assumes enc: "encoded c es bs" and ok: "codec_ok c"
    and j: "j = fits bs k" and opened: "w = wl_new (take k (log_of c bs)) iv t"
  shows "snd (wl_repair c now w) = Inr (length (log_of c (take j bs))) \<and>
    wl_file (fst (wl_repair c now w)) = log_of c (take j bs) \<and>
    wl_position (fst (wl_repair c now w)) = length (wl_file (fst (wl_repair c now w))) \<and>
    (\<forall>p \<le> j. snd (read_all c (wl_read_from (fst (wl_repair c now w)) (length (log_of c (take p bs))))) =
       Inr (drop p (take j es)))"
proof -
  note repaired = wl_repair_cut [OF enc j opened, of now]
  have "snd (read_all c (wl_read_from (fst (wl_repair c now w)) (length (log_of c (take p bs))))) = Inr (drop p (take j es))"
    if "p \<le> j" for p
    using read_from_boundary [OF encoded_take [OF enc, of j] ok, of p 0] that fits_le [of bs k]
    by (simp add: wl_read_from_def repaired(2) j min_def)
  then show ?thesis
    using repaired by simp
qed

text \<open>A codec for one record, and a log of two records cut inside the second one.\<close>

definition log_codec :: "wal_record codec" where
  "log_codec =
     \<lparr>cd_ser = (\<lambda>e. if e = LogDelete [1] then Inr [7] else Inl ''unsupported''),
      cd_de = (\<lambda>b. if b = [7] then Inr (LogDelete [1]) else Inl ''invalid''),
      cd_crc = (\<lambda>b. of_nat (length b))\<rparr>"

lemma log_codec_ok: "codec_ok log_codec"
  by (auto simp: codec_ok_def log_codec_def split: if_splits)

theorem wl_repair_spec_witness:
  "encoded log_codec [LogDelete [1], LogDelete [1]] [[7], [7]] \<and> fits [[7], [7]] 15 = 1 \<and>
   snd (wl_repair log_codec 0 (wl_new (take 15 (log_of log_codec [[7], [7]])) 1 0)) = Inr 9"
proof -
  have enc: "encoded log_codec [LogDelete [1], LogDelete [1]] [[7], [7]]"
    by (simp add: encoded_def log_codec_def max_wal_entry_size_def)
  show ?thesis
    using wl_repair_spec [OF enc log_codec_ok refl refl, of 0 15 1 0] enc by simp
qed

text \<open>
  A record whose length field exceeds the limit makes the repair fail: the log is not truncated, and nothing
  behind the record is ever read.
\<close>

lemma repair_fails_on_oversized_record:
  assumes len: "max_wal_entry_size < length b" "length b < 2 ^ 32"
    and w: "w = wl_new (frame c b @ rest) iv t"
  shows "snd (wl_repair c now w) = Inl (WalCorrupted 0 (LengthExceedsLimit (length b)))"
    and "wl_file (fst (wl_repair c now w)) = frame c b @ rest"
proof -
  let ?d = "frame c b @ rest" and ?r = "reader_open 0 (frame c b @ rest)"
  have "bytes_at (rd_data ?r) (length ([] :: bytes)) 4 = u32_le (length b)"
    by (rule header_at(1) [where t = ?d and b = "unat (cd_crc c b)"]) (simp_all add: reader_open_def frame_def)
  then have "validate_record c ?d 0 (length ?d) = Inl (WalCorrupted 0 (LengthExceedsLimit (length b)))"
    using len by (simp add: reader_open_def validate_record_def Let_def le_u32_le record_header_size_def)
  then have "repair_loop c ?d (length ?d) 0 0 = Inl (WalCorrupted 0 (LengthExceedsLimit (length b)))"
    by (subst repair_loop.simps) simp
  then show "snd (wl_repair c now w) = Inl (WalCorrupted 0 (LengthExceedsLimit (length b)))"
    "wl_file (fst (wl_repair c now w)) = frame c b @ rest"
    using w by (simp_all add: wl_repair_def Let_def wl_sync_def wl_new_def)
qed

end
