(* ===== verification/Incremental_Checkpoint.thy ===== *)
theory Incremental_Checkpoint
  imports Wal_Record "HOL-Library.Multiset"
begin

text \<open>
  The incremental checkpoint manager, \<^verbatim>\<open>crates/laminar-storage/src/incremental/manager.rs\<close>. The checkpoint
  directory is a map from the identifier in a directory name to the two files a checkpoint may have; the
  functions thread it through. JSON (serde) is a parameter; the clock, in seconds, is an argument.
\<close>

section \<open>Configuration and metadata\<close>

record checkpoint_config =
  cc_interval_ns :: nat
  cc_max_retained :: nat
  cc_truncate_wal :: bool
  cc_min_wal_size :: nat
  cc_incremental :: bool

datatype ckpt_error =
    CkInvalidConfig string
  | CkSerialization string
  | CkDeserialization string
  | CkNotFound string
  | CkCorruption string
  | CkWal wal_error

definition config_new :: checkpoint_config where
  "config_new =
     \<lparr>cc_interval_ns = 60 * 10 ^ 9, cc_max_retained = 3, cc_truncate_wal = True,
      cc_min_wal_size = 64 * 1024 * 1024, cc_incremental = True\<rparr>"

definition config_validate :: "checkpoint_config \<Rightarrow> ckpt_error option" where
  "config_validate cfg =
     (if cc_max_retained cfg = 0 then Some (CkInvalidConfig ''max_retained must be > 0'')
      else if cc_interval_ns cfg = 0 then Some (CkInvalidConfig ''interval must be > 0'')
      else None)"

record ckpt_metadata =
  mm_id :: nat
  mm_epoch :: nat
  mm_timestamp :: nat
  mm_wal_position :: nat
  mm_source_offsets :: "(string, nat) hashmap"
  mm_watermark :: "i64 option"
  mm_size_bytes :: nat
  mm_key_count :: nat
  mm_is_incremental :: bool
  mm_parent_id :: "nat option"
  mm_sst_files :: "string list"

definition metadata_new :: "nat \<Rightarrow> nat \<Rightarrow> nat \<Rightarrow> ckpt_metadata" where
  "metadata_new now n epoch =
     \<lparr>mm_id = n, mm_epoch = epoch, mm_timestamp = now, mm_wal_position = 0, mm_source_offsets = [],
      mm_watermark = None, mm_size_bytes = 0, mm_key_count = 0, mm_is_incremental = True,
      mm_parent_id = None, mm_sst_files = []\<rparr>"

text \<open>The JSON texts are an opaque type.\<close>

record 'j json_codec =
  js_to :: "ckpt_metadata \<Rightarrow> string + 'j"
  js_from :: "'j \<Rightarrow> string + ckpt_metadata"

definition to_json :: "'j json_codec \<Rightarrow> ckpt_metadata \<Rightarrow> ckpt_error + 'j" where
  "to_json js m = (case js_to js m of Inl e \<Rightarrow> Inl (CkSerialization e) | Inr s \<Rightarrow> Inr s)"

definition from_json :: "'j json_codec \<Rightarrow> 'j \<Rightarrow> ckpt_error + ckpt_metadata" where
  "from_json js s = (case js_from js s of Inl e \<Rightarrow> Inl (CkDeserialization e) | Inr m \<Rightarrow> Inr m)"

text \<open>What the code relies on: metadata can be written, and is read back as it was written.\<close>

definition json_ok :: "'j json_codec \<Rightarrow> bool" where
  "json_ok js \<longleftrightarrow> (\<forall>m. \<exists>s. js_to js m = Inr s \<and> js_from js s = Inr m)"

section \<open>Checkpoint directory\<close>

record 'j ckpt_dir =
  dir_metadata :: "'j option"
  dir_state :: "bytes option"

type_synonym 'j ckpt_fs = "(nat, 'j ckpt_dir) hashmap"

definition create_dir :: "nat \<Rightarrow> 'j ckpt_fs \<Rightarrow> 'j ckpt_fs" where
  "create_dir n fs = (if contains_key fs n then fs else AList.update n \<lparr>dir_metadata = None, dir_state = None\<rparr> fs)"

definition write_metadata :: "nat \<Rightarrow> 'j \<Rightarrow> 'j ckpt_fs \<Rightarrow> 'j ckpt_fs" where
  "write_metadata n s fs =
     (case map_of fs n of
        Some d \<Rightarrow> AList.update n (d\<lparr>dir_metadata := Some s\<rparr>) fs
      | None \<Rightarrow> fs)"

definition write_state :: "nat \<Rightarrow> bytes \<Rightarrow> 'j ckpt_fs \<Rightarrow> 'j ckpt_fs" where
  "write_state n b fs =
     (case map_of fs n of
        Some d \<Rightarrow> AList.update n (d\<lparr>dir_state := Some b\<rparr>) fs
      | None \<Rightarrow> fs)"

fun scan_loop :: "'j ckpt_fs \<Rightarrow> nat \<Rightarrow> nat option \<Rightarrow> nat \<times> nat option" where
  "scan_loop [] max_dir_id latest = (max_dir_id + 1, latest)"
| "scan_loop ((n, d) # fs) max_dir_id latest =
     scan_loop fs (if n \<ge> max_dir_id then n else max_dir_id)
       (if dir_metadata d = None then latest
        else if (case latest of None \<Rightarrow> True | Some prev \<Rightarrow> n \<ge> prev) then Some n
        else latest)"

definition scan_checkpoints :: "'j ckpt_fs \<Rightarrow> nat \<times> nat option" where
  "scan_checkpoints fs = scan_loop fs 0 None"

section \<open>Manager\<close>

record ckpt_manager =
  im_config :: checkpoint_config
  im_next_id :: nat
  im_current_epoch :: nat
  im_last_checkpoint_time :: nat
  im_latest_checkpoint_id :: "nat option"
  im_state :: "(bytes, bytes) hashmap"
  im_source_offsets :: "(string, nat) hashmap"
  im_watermark :: "i64 option"

definition ckpt_new :: "checkpoint_config \<Rightarrow> 'j ckpt_fs \<Rightarrow> ckpt_error + ckpt_manager" where
  "ckpt_new cfg fs =
     (case config_validate cfg of
        Some e \<Rightarrow> Inl e
      | None \<Rightarrow>
          let (next_id, latest_id) = scan_checkpoints fs
          in Inr \<lparr>im_config = cfg, im_next_id = next_id, im_current_epoch = 0, im_last_checkpoint_time = 0,
                  im_latest_checkpoint_id = latest_id, im_state = [], im_source_offsets = [], im_watermark = None\<rparr>)"

definition ckpt_set_epoch :: "ckpt_manager \<Rightarrow> nat \<Rightarrow> ckpt_manager" where
  "ckpt_set_epoch m epoch = m\<lparr>im_current_epoch := epoch\<rparr>"

definition ckpt_put :: "ckpt_manager \<Rightarrow> bytes \<Rightarrow> bytes \<Rightarrow> ckpt_manager" where
  "ckpt_put m key val = m\<lparr>im_state := AList.update key val (im_state m)\<rparr>"

definition ckpt_delete :: "ckpt_manager \<Rightarrow> bytes \<Rightarrow> ckpt_manager" where
  "ckpt_delete m key = m\<lparr>im_state := AList.delete key (im_state m)\<rparr>"

definition set_source_offset :: "ckpt_manager \<Rightarrow> string \<Rightarrow> nat \<Rightarrow> ckpt_manager" where
  "set_source_offset m src off = m\<lparr>im_source_offsets := AList.update src off (im_source_offsets m)\<rparr>"

definition ckpt_set_watermark :: "ckpt_manager \<Rightarrow> i64 \<Rightarrow> ckpt_manager" where
  "ckpt_set_watermark m wm = m\<lparr>im_watermark := Some wm\<rparr>"

definition should_checkpoint :: "nat \<Rightarrow> ckpt_manager \<Rightarrow> bool" where
  "should_checkpoint now m \<longleftrightarrow> now - im_last_checkpoint_time m \<ge> cc_interval_ns (im_config m) div 10 ^ 9"

definition load_checkpoint_metadata :: "'j json_codec \<Rightarrow> 'j ckpt_fs \<Rightarrow> nat \<Rightarrow> ckpt_error + ckpt_metadata option" where
  "load_checkpoint_metadata js fs n =
     (case map_of fs n of
        None \<Rightarrow> Inr None
      | Some d \<Rightarrow>
          (case dir_metadata d of
             None \<Rightarrow> Inr None
           | Some s \<Rightarrow> (case from_json js s of Inl e \<Rightarrow> Inl e | Inr m \<Rightarrow> Inr (Some m))))"

definition load_checkpoint_state :: "'j ckpt_fs \<Rightarrow> nat \<Rightarrow> ckpt_error + bytes" where
  "load_checkpoint_state fs n =
     (case map_of fs n of
        Some d \<Rightarrow>
          (case dir_state d of
             Some b \<Rightarrow> Inr b
           | None \<Rightarrow> Inl (CkNotFound (''State file not found for checkpoint '' @ dec_nat n)))
      | None \<Rightarrow> Inl (CkNotFound (''State file not found for checkpoint '' @ dec_nat n)))"

definition find_latest_checkpoint :: "'j json_codec \<Rightarrow> ckpt_manager \<Rightarrow> 'j ckpt_fs \<Rightarrow> ckpt_error + ckpt_metadata option" where
  "find_latest_checkpoint js m fs =
     (case im_latest_checkpoint_id m of
        None \<Rightarrow> Inr None
      | Some n \<Rightarrow> load_checkpoint_metadata js fs n)"

text \<open>Directories whose metadata is missing or unreadable are skipped; the sort is stable.\<close>

definition list_checkpoints :: "'j json_codec \<Rightarrow> 'j ckpt_fs \<Rightarrow> ckpt_metadata list" where
  "list_checkpoints js fs =
     sort_key (\<lambda>m. - int (mm_id m))
       (List.map_filter (\<lambda>(n, d). case load_checkpoint_metadata js fs n of Inr r \<Rightarrow> r | Inl _ \<Rightarrow> None) fs)"

definition cleanup_keep :: "'j json_codec \<Rightarrow> 'j ckpt_fs \<Rightarrow> nat \<Rightarrow> 'j ckpt_fs" where
  "cleanup_keep js fs keep_count =
     (let checkpoints = list_checkpoints js fs
      in if length checkpoints \<le> keep_count then fs
         else fold (\<lambda>m. AList.delete (mm_id m)) (drop keep_count checkpoints) fs)"

definition cleanup_old_checkpoints :: "'j json_codec \<Rightarrow> ckpt_manager \<Rightarrow> 'j ckpt_fs \<Rightarrow> 'j ckpt_fs" where
  "cleanup_old_checkpoints js m fs = cleanup_keep js fs (cc_max_retained (im_config m))"

definition create_checkpoint ::
  "'j json_codec \<Rightarrow> nat \<Rightarrow> ckpt_manager \<Rightarrow> 'j ckpt_fs \<Rightarrow> nat \<Rightarrow> (ckpt_manager \<times> 'j ckpt_fs) \<times> (ckpt_error + ckpt_metadata)" where
  "create_checkpoint js now m fs wal_position =
     (let n = im_next_id m;
          m1 = m\<lparr>im_next_id := n + 1\<rparr>;
          metadata = (metadata_new now n (im_current_epoch m))
            \<lparr>mm_wal_position := wal_position, mm_parent_id := im_latest_checkpoint_id m,
             mm_is_incremental := cc_incremental (im_config m) \<and> im_latest_checkpoint_id m \<noteq> None\<rparr>;
          fs1 = create_dir n fs
      in case to_json js metadata of
           Inl e \<Rightarrow> ((m1, fs1), Inl e)
         | Inr s \<Rightarrow>
             let m2 = m1\<lparr>im_latest_checkpoint_id := Some n, im_last_checkpoint_time := now\<rparr>
             in ((m2, cleanup_old_checkpoints js m2 (write_metadata n s fs1)), Inr metadata))"

definition create_checkpoint_with_state ::
  "'j json_codec \<Rightarrow> nat \<Rightarrow> ckpt_manager \<Rightarrow> 'j ckpt_fs \<Rightarrow> nat \<Rightarrow> (string, nat) hashmap \<Rightarrow> i64 option \<Rightarrow> bytes \<Rightarrow>
   (ckpt_manager \<times> 'j ckpt_fs) \<times> (ckpt_error + ckpt_metadata)" where
  "create_checkpoint_with_state js now m fs wal_position offsets watermark state_data =
     (let n = im_next_id m;
          m1 = m\<lparr>im_next_id := n + 1\<rparr>;
          metadata = (metadata_new now n (im_current_epoch m))
            \<lparr>mm_wal_position := wal_position, mm_source_offsets := offsets, mm_watermark := watermark,
             mm_parent_id := im_latest_checkpoint_id m,
             mm_is_incremental := cc_incremental (im_config m) \<and> im_latest_checkpoint_id m \<noteq> None,
             mm_size_bytes := length state_data\<rparr>;
          fs1 = write_state n state_data (create_dir n fs)
      in case to_json js metadata of
           Inl e \<Rightarrow> ((m1, fs1), Inl e)
         | Inr s \<Rightarrow>
             let m2 = m1\<lparr>im_latest_checkpoint_id := Some n, im_last_checkpoint_time := now\<rparr>
             in ((m2, cleanup_old_checkpoints js m2 (write_metadata n s fs1)), Inr metadata))"

definition delete_checkpoint ::
  "'j json_codec \<Rightarrow> ckpt_manager \<Rightarrow> 'j ckpt_fs \<Rightarrow> nat \<Rightarrow> (ckpt_manager \<times> 'j ckpt_fs) \<times> ckpt_error option" where
  "delete_checkpoint js m fs n =
     (if \<not> contains_key fs n then ((m, fs), Some (CkNotFound (''Checkpoint '' @ dec_nat n @ '' not found'')))
      else
        let fs1 = AList.delete n fs
        in ((if im_latest_checkpoint_id m = Some n
             then m\<lparr>im_latest_checkpoint_id :=
                      (case list_checkpoints js fs1 of [] \<Rightarrow> None | x # _ \<Rightarrow> Some (mm_id x))\<rparr>
             else m, fs1), None))"

section \<open>Directory invariant\<close>

definition loaded :: "'j json_codec \<Rightarrow> 'j ckpt_fs \<Rightarrow> ckpt_metadata list" where
  "loaded js fs = List.map_filter (\<lambda>(n, d). case load_checkpoint_metadata js fs n of Inr r \<Rightarrow> r | Inl _ \<Rightarrow> None) fs"

definition fs_ok :: "'j json_codec \<Rightarrow> 'j ckpt_fs \<Rightarrow> bool" where
  "fs_ok js fs \<longleftrightarrow> wf_map fs \<and>
     (\<forall>n d s. map_of fs n = Some d \<longrightarrow> dir_metadata d = Some s \<longrightarrow> (\<exists>m. js_from js s = Inr m \<and> mm_id m = n))"

lemma loaded_set:
  assumes "fs_ok js fs"
  shows "m \<in> set (loaded js fs) \<longleftrightarrow>
    (\<exists>d s. map_of fs (mm_id m) = Some d \<and> dir_metadata d = Some s \<and> js_from js s = Inr m)"
proof
  assume "m \<in> set (loaded js fs)"
  then obtain n d where nd: "(n, d) \<in> set fs" "(case load_checkpoint_metadata js fs n of Inr r \<Rightarrow> r | Inl _ \<Rightarrow> None) = Some m"
    by (auto simp: loaded_def List.map_filter_def split: sum.splits)
  have "map_of fs n = Some d"
    using nd(1) assms by (simp add: fs_ok_def wf_map_def)
  then obtain s where s: "dir_metadata d = Some s" "js_from js s = Inr m"
    using nd(2) by (auto simp: load_checkpoint_metadata_def from_json_def split: option.splits sum.splits)
  then have "mm_id m = n"
    using assms \<open>map_of fs n = Some d\<close> unfolding fs_ok_def by fastforce
  then show "\<exists>d s. map_of fs (mm_id m) = Some d \<and> dir_metadata d = Some s \<and> js_from js s = Inr m"
    using s \<open>map_of fs n = Some d\<close> by blast
next
  assume "\<exists>d s. map_of fs (mm_id m) = Some d \<and> dir_metadata d = Some s \<and> js_from js s = Inr m"
  then obtain d s where ds: "map_of fs (mm_id m) = Some d" "dir_metadata d = Some s" "js_from js s = Inr m"
    by blast
  have "load_checkpoint_metadata js fs (mm_id m) = Inr (Some m)"
    using ds by (simp add: load_checkpoint_metadata_def from_json_def)
  then show "m \<in> set (loaded js fs)"
    using map_of_SomeD [OF ds(1)] by (force simp: loaded_def List.map_filter_def)
qed

lemma loaded_distinct:
  assumes "fs_ok js fs"
  shows "distinct (loaded js fs)"
proof -
  let ?f = "\<lambda>(n, d). case load_checkpoint_metadata js fs n of Inr r \<Rightarrow> r | Inl _ \<Rightarrow> None"
  have id: "mm_id m = n" if nd: "(n, d) \<in> set fs" "?f (n, d) = Some m" for n d m
  proof -
    have d: "map_of fs n = Some d"
      using nd(1) assms by (simp add: fs_ok_def wf_map_def)
    moreover obtain s where "dir_metadata d = Some s" "js_from js s = Inr m"
      using nd(2) d by (auto simp: load_checkpoint_metadata_def from_json_def split: option.splits sum.splits)
    ultimately show ?thesis using assms unfolding fs_ok_def by fastforce
  qed
  have "distinct (List.map_filter ?f xs)" if "set xs \<subseteq> set fs" "distinct (map fst xs)" for xs
    using that
  proof (induction xs)
    case (Cons x xs)
    obtain n d where x: "x = (n, d)" by fastforce
    have "m \<notin> set (List.map_filter ?f xs)" if "?f x = Some m" for m
    proof
      assume "m \<in> set (List.map_filter ?f xs)"
      then obtain y where y: "y \<in> set xs" "?f y = Some m"
        by (auto simp: List.map_filter_def)
      obtain n' d' where y': "y = (n', d')" by fastforce
      have "mm_id m = n" "mm_id m = n'"
        using id Cons.prems(1) x y' y \<open>?f x = Some m\<close> by auto
      then show False using Cons.prems(2) x y' y(1) by force
    qed
    then show ?case using Cons by (auto simp: List.map_filter_simps split: option.split)
  qed (simp add: List.map_filter_simps)
  then show ?thesis
    using assms by (simp add: loaded_def fs_ok_def wf_map_def)
qed

lemma list_checkpoints_eq:
  assumes ok: "fs_ok js fs" and set: "set (loaded js fs) = set ms" and desc: "sorted_wrt (\<lambda>a b. mm_id a > mm_id b) ms"
  shows "list_checkpoints js fs = ms"
proof -
  have "distinct (map mm_id ms)"
    using desc
  proof (induction ms)
    case (Cons m ms)
    have "mm_id m \<notin> set (map mm_id ms)"
    proof
      assume "mm_id m \<in> set (map mm_id ms)"
      then obtain x where "x \<in> set ms" "mm_id x = mm_id m" by auto
      then show False using Cons.prems by auto
    qed
    then show ?case using Cons by simp
  qed simp
  then have dm: "distinct ms" "inj_on mm_id (set ms)"
    by (simp_all add: distinct_map)
  have "mset (loaded js fs) = mset ms"
    using set loaded_distinct [OF ok] dm(1) set_eq_iff_mset_eq_distinct by blast
  moreover have "inj_on (\<lambda>m. - int (mm_id m)) (set (loaded js fs))"
    using dm(2) unfolding set inj_on_def by simp
  moreover have "sorted (map (\<lambda>m. - int (mm_id m)) ms)"
    using desc by (induction ms) (simp_all add: less_imp_le)
  ultimately show ?thesis
    unfolding list_checkpoints_def loaded_def [symmetric] by (rule sort_key_inj_key_eq)
qed

lemma map_of_delete_fold:
  "map_of (fold (\<lambda>m. AList.delete (mm_id m)) ms fs) n = (if n \<in> mm_id ` set ms then None else map_of fs n)"
  by (induction ms arbitrary: fs) (auto simp: AList.delete_conv')

lemma wf_delete_fold: "wf_map fs \<Longrightarrow> wf_map (fold (\<lambda>m. AList.delete (mm_id m)) ms fs)"
  by (induction ms arbitrary: fs) (auto simp: wf_map_def AList.distinct_delete)

section \<open>Retention\<close>

datatype ckpt_op =
    CkCreate nat nat
  | CkCreateState nat nat "(string, nat) hashmap" "i64 option" bytes
  | CkEpoch nat

text \<open>Running operations collects the checkpoints created, newest first, with the state that was written.\<close>

fun ckpt_run ::
  "'j json_codec \<Rightarrow> ckpt_op list \<Rightarrow> ckpt_manager \<times> 'j ckpt_fs \<Rightarrow> (ckpt_metadata \<times> bytes option) list \<Rightarrow>
   (ckpt_manager \<times> 'j ckpt_fs) \<times> (ckpt_metadata \<times> bytes option) list" where
  "ckpt_run js [] st hist = (st, hist)"
| "ckpt_run js (CkCreate now pos # ops) (m, fs) hist =
     (case create_checkpoint js now m fs pos of
        (st, Inr mm) \<Rightarrow> ckpt_run js ops st ((mm, None) # hist)
      | (st, Inl _) \<Rightarrow> ckpt_run js ops st hist)"
| "ckpt_run js (CkCreateState now pos offs wm data # ops) (m, fs) hist =
     (case create_checkpoint_with_state js now m fs pos offs wm data of
        (st, Inr mm) \<Rightarrow> ckpt_run js ops st ((mm, Some data) # hist)
      | (st, Inl _) \<Rightarrow> ckpt_run js ops st hist)"
| "ckpt_run js (CkEpoch e # ops) (m, fs) hist = ckpt_run js ops (ckpt_set_epoch m e, fs) hist"

definition latest_of :: "(ckpt_metadata \<times> bytes option) list \<Rightarrow> nat option" where
  "latest_of hist = (case hist of [] \<Rightarrow> None | (mm, st) # _ \<Rightarrow> Some (mm_id mm))"

text \<open>The directory holds exactly the given checkpoints.\<close>

definition holds :: "'j json_codec \<Rightarrow> 'j ckpt_fs \<Rightarrow> (ckpt_metadata \<times> bytes option) list \<Rightarrow> bool" where
  "holds js fs h \<longleftrightarrow> wf_map fs \<and>
     (\<forall>n d. map_of fs n = Some d \<longleftrightarrow>
        (\<exists>mm st s. (mm, st) \<in> set h \<and> mm_id mm = n \<and> js_to js mm = Inr s \<and>
           d = \<lparr>dir_metadata = Some s, dir_state = st\<rparr>))"

definition newest_first :: "(ckpt_metadata \<times> bytes option) list \<Rightarrow> bool" where
  "newest_first h \<longleftrightarrow> sorted_wrt (\<lambda>a b. mm_id a > mm_id b) (map fst h)"

definition ck_inv ::
  "'j json_codec \<Rightarrow> ckpt_manager \<Rightarrow> 'j ckpt_fs \<Rightarrow> (ckpt_metadata \<times> bytes option) list \<Rightarrow> bool" where
  "ck_inv js m fs hist \<longleftrightarrow>
     im_next_id m = Suc (length hist) \<and> map (mm_id \<circ> fst) hist = rev [1..<Suc (length hist)] \<and>
     (\<forall>i < length hist. mm_parent_id (fst (hist ! i)) = latest_of (drop (Suc i) hist)) \<and>
     im_latest_checkpoint_id m = latest_of hist \<and> holds js fs (take (cc_max_retained (im_config m)) hist)"

lemma json_read: "json_ok js \<Longrightarrow> js_to js mm = Inr s \<Longrightarrow> js_from js s = Inr mm"
  unfolding json_ok_def by (metis sum.inject(2))

lemma newest_first_distinct: "newest_first h \<Longrightarrow> distinct (map (mm_id \<circ> fst) h)"
  unfolding newest_first_def by (induction h) (auto simp: image_iff)

lemma newest_first_take: "newest_first h \<Longrightarrow> newest_first (take n h)"
  by (simp add: newest_first_def take_map [symmetric] sorted_wrt_take)

lemma holds_list:
  assumes h: "holds js fs h" and js: "json_ok js" and desc: "newest_first h"
  shows "fs_ok js fs" "list_checkpoints js fs = map fst h"
proof -
  have dir: "map_of fs n = Some d \<longleftrightarrow> (\<exists>mm st s. (mm, st) \<in> set h \<and> mm_id mm = n \<and> js_to js mm = Inr s \<and>
      d = \<lparr>dir_metadata = Some s, dir_state = st\<rparr>)" for n d
    using h unfolding holds_def by blast
  show ok: "fs_ok js fs"
    unfolding fs_ok_def using h json_read [OF js] by (fastforce simp: dir holds_def)
  have "set (loaded js fs) = set (map fst h)"
  proof (rule set_eqI, rule iffI)
    fix mm assume "mm \<in> set (loaded js fs)"
    then obtain d s where ds: "map_of fs (mm_id mm) = Some d" "dir_metadata d = Some s" "js_from js s = Inr mm"
      unfolding loaded_set [OF ok] by blast
    then obtain mm' st s' where m': "(mm', st) \<in> set h" "js_to js mm' = Inr s'" "d = \<lparr>dir_metadata = Some s', dir_state = st\<rparr>"
      unfolding dir by blast
    then have "mm' = mm" using json_read [OF js m'(2)] ds by simp
    then show "mm \<in> set (map fst h)" using m'(1) by force
  next
    fix mm assume "mm \<in> set (map fst h)"
    then obtain st where st: "(mm, st) \<in> set h" by auto
    obtain s where s: "js_to js mm = Inr s" "js_from js s = Inr mm" using js unfolding json_ok_def by blast
    then have "map_of fs (mm_id mm) = Some \<lparr>dir_metadata = Some s, dir_state = st\<rparr>"
      using st dir by blast
    then show "mm \<in> set (loaded js fs)"
      unfolding loaded_set [OF ok] using s by force
  qed
  then show "list_checkpoints js fs = map fst h"
    using list_checkpoints_eq [OF ok] desc unfolding newest_first_def by blast
qed

lemma kept_iff:
  assumes "distinct (map f (xs @ ys))"
  shows "x \<in> set xs \<longleftrightarrow> x \<in> set (xs @ ys) \<and> f x \<notin> f ` set ys"
proof -
  have "f ` set xs \<inter> f ` set ys = {}" using assms by simp
  then show ?thesis by auto
qed

lemma holds_cleanup:
  assumes h: "holds js fs h" and js: "json_ok js" and desc: "newest_first h"
  shows "holds js (cleanup_keep js fs k) (take k h)"
proof (cases "length h \<le> k")
  case True
  then show ?thesis using h holds_list(2) [OF assms] by (simp add: cleanup_keep_def)
next
  case False
  let ?old = "drop k (map fst h)"
  have fs: "cleanup_keep js fs k = fold (\<lambda>m. AList.delete (mm_id m)) ?old fs"
    using False holds_list(2) [OF assms] by (simp add: cleanup_keep_def)
  have dir: "map_of fs n = Some d \<longleftrightarrow> (\<exists>mm st s. (mm, st) \<in> set h \<and> mm_id mm = n \<and> js_to js mm = Inr s \<and>
      d = \<lparr>dir_metadata = Some s, dir_state = st\<rparr>)" for n d
    using h unfolding holds_def by blast
  have "distinct (map (mm_id \<circ> fst) (take k h @ drop k h))"
    using newest_first_distinct [OF desc] by simp
  note kept = kept_iff [OF this, unfolded append_take_drop_id]
  have old: "mm_id ` set ?old = (mm_id \<circ> fst) ` set (drop k h)"
    by (simp add: drop_map image_image)
  have "map_of (cleanup_keep js fs k) n = Some d \<longleftrightarrow>
      (\<exists>mm st s. (mm, st) \<in> set (take k h) \<and> mm_id mm = n \<and> js_to js mm = Inr s \<and>
         d = \<lparr>dir_metadata = Some s, dir_state = st\<rparr>)" for n d
    unfolding fs map_of_delete_fold old
    by (cases "n \<in> (mm_id \<circ> fst) ` set (drop k h)") (use dir [of n d] kept in auto)
  then show ?thesis
    unfolding holds_def using h by (simp add: fs wf_delete_fold holds_def)
qed

lemma ck_inv_newest_first:
  assumes "ck_inv js m fs hist"
  shows "newest_first hist" "\<And>x y. (x, y) \<in> set hist \<Longrightarrow> mm_id x < im_next_id m"
proof -
  have ids: "map (mm_id \<circ> fst) hist = rev [1..<Suc (length hist)]" and n: "im_next_id m = Suc (length hist)"
    using assms by (simp_all add: ck_inv_def)
  have "sorted_wrt (>) (map (mm_id \<circ> fst) hist)"
    unfolding ids by (simp add: sorted_wrt_rev del: upt_Suc)
  then show "newest_first hist"
    by (simp add: newest_first_def sorted_wrt_map)
  show "mm_id x < im_next_id m" if "(x, y) \<in> set hist" for x y
  proof -
    have "mm_id x \<in> set (map (mm_id \<circ> fst) hist)" using that by force
    then show ?thesis unfolding ids n by auto
  qed
qed

lemma ck_inv_commit:
  assumes I: "ck_inv js m fs hist" and js: "json_ok js" and K: "0 < cc_max_retained (im_config m)"
    and mm: "mm_id mm = im_next_id m" "mm_parent_id mm = im_latest_checkpoint_id m" "js_to js mm = Inr s"
    and fs2: "map_of fs2 = (map_of fs)(im_next_id m \<mapsto> \<lparr>dir_metadata = Some s, dir_state = st\<rparr>)" "wf_map fs2"
    and m2: "im_next_id m2 = Suc (im_next_id m)" "im_latest_checkpoint_id m2 = Some (im_next_id m)" "im_config m2 = im_config m"
  shows "ck_inv js m2 (cleanup_old_checkpoints js m2 fs2) ((mm, st) # hist)"
proof -
  let ?K = "cc_max_retained (im_config m)" and ?n = "im_next_id m"
  let ?h = "take ?K hist"
  note nf = ck_inv_newest_first(1) [OF I] and old = ck_inv_newest_first(2) [OF I]
  have dir: "map_of fs k = Some d \<longleftrightarrow> (\<exists>x y s'. (x, y) \<in> set ?h \<and> mm_id x = k \<and> js_to js x = Inr s' \<and>
      d = \<lparr>dir_metadata = Some s', dir_state = y\<rparr>)" for k d
    using I unfolding ck_inv_def holds_def by blast
  have "map_of fs2 k = Some d \<longleftrightarrow> (\<exists>x y s'. (x, y) \<in> set ((mm, st) # ?h) \<and> mm_id x = k \<and> js_to js x = Inr s' \<and>
      d = \<lparr>dir_metadata = Some s', dir_state = y\<rparr>)" for k d
  proof (cases "k = ?n")
    case True
    have "\<not> (\<exists>x y. (x, y) \<in> set ?h \<and> mm_id x = k)"
      using old True by (fastforce dest: in_set_takeD)
    then show ?thesis using True mm fs2(1) by auto
  next
    case False
    then show ?thesis using mm fs2(1) dir [of k d] by auto
  qed
  then have h2: "holds js fs2 ((mm, st) # ?h)"
    unfolding holds_def using fs2(2) by blast
  have nf2: "newest_first ((mm, st) # ?h)"
    using newest_first_take [OF nf] old mm(1) by (auto simp: newest_first_def dest!: in_set_takeD)
  have "take ?K ((mm, st) # ?h) = take ?K ((mm, st) # hist)"
    using K by (cases ?K) simp_all
  then have "holds js (cleanup_old_checkpoints js m2 fs2) (take ?K ((mm, st) # hist))"
    using holds_cleanup [OF h2 js nf2, of ?K] by (simp add: cleanup_old_checkpoints_def m2)
  moreover have "map (mm_id \<circ> fst) ((mm, st) # hist) = rev [1..<Suc (length ((mm, st) # hist))]"
    using I mm(1) by (simp add: ck_inv_def)
  moreover have "\<forall>i < length ((mm, st) # hist). mm_parent_id (fst (((mm, st) # hist) ! i)) = latest_of (drop (Suc i) ((mm, st) # hist))"
    using I mm(2) by (auto simp: ck_inv_def nth_Cons split: nat.split)
  ultimately show ?thesis
    unfolding ck_inv_def using I mm m2 by (simp add: ck_inv_def latest_of_def)
qed

lemma write_new_dir:
  assumes "map_of fs n = None" "wf_map fs"
  shows "map_of (write_metadata n s (create_dir n fs)) = (map_of fs)(n \<mapsto> \<lparr>dir_metadata = Some s, dir_state = None\<rparr>)"
    and "wf_map (write_metadata n s (create_dir n fs))"
    and "map_of (write_metadata n s (write_state n b (create_dir n fs))) =
      (map_of fs)(n \<mapsto> \<lparr>dir_metadata = Some s, dir_state = Some b\<rparr>)"
    and "wf_map (write_metadata n s (write_state n b (create_dir n fs)))"
  using assms
  by (simp_all add: write_metadata_def write_state_def create_dir_def contains_key_def update_conv')

lemma ckpt_run_inv:
  assumes js: "json_ok js"
  shows "ck_inv js m fs hist \<Longrightarrow> 0 < cc_max_retained (im_config m) \<Longrightarrow> ckpt_run js ops (m, fs) hist = ((m', fs'), hist') \<Longrightarrow>
    ck_inv js m' fs' hist' \<and> im_config m' = im_config m"
proof (induction ops arbitrary: m fs hist)
  case (Cons op ops)
  let ?n = "im_next_id m"
  have fresh: "map_of fs ?n = None" "wf_map fs"
  proof -
    show "wf_map fs" using Cons.prems(1) by (simp add: ck_inv_def holds_def)
    show "map_of fs ?n = None"
    proof (rule ccontr)
      assume "map_of fs ?n \<noteq> None"
      then obtain d where "map_of fs ?n = Some d" by blast
      then obtain x y where "(x, y) \<in> set (take (cc_max_retained (im_config m)) hist)" "mm_id x = ?n"
        using Cons.prems(1) unfolding ck_inv_def holds_def by blast
      then show False
        using ck_inv_newest_first(2) [OF Cons.prems(1)] by (fastforce dest: in_set_takeD)
    qed
  qed
  note wr = write_new_dir [OF fresh]
  show ?case
  proof (cases op)
    case (CkCreate now pos)
    define mm where "mm = (metadata_new now ?n (im_current_epoch m))
      \<lparr>mm_wal_position := pos, mm_parent_id := im_latest_checkpoint_id m,
       mm_is_incremental := cc_incremental (im_config m) \<and> im_latest_checkpoint_id m \<noteq> None\<rparr>"
    define m2 where "m2 = m\<lparr>im_next_id := ?n + 1, im_latest_checkpoint_id := Some ?n, im_last_checkpoint_time := now\<rparr>"
    obtain s where s: "js_to js mm = Inr s" using js unfolding json_ok_def by blast
    have cr: "create_checkpoint js now m fs pos =
        ((m2, cleanup_old_checkpoints js m2 (write_metadata ?n s (create_dir ?n fs))), Inr mm)"
      using s by (simp add: create_checkpoint_def to_json_def Let_def mm_def m2_def)
    have "ck_inv js m2 (cleanup_old_checkpoints js m2 (write_metadata ?n s (create_dir ?n fs))) ((mm, None) # hist)"
      by (rule ck_inv_commit [OF Cons.prems(1) js Cons.prems(2) _ _ s wr(1,2)])
        (simp_all add: mm_def metadata_new_def m2_def)
    from Cons.IH [OF this] show ?thesis
      using Cons.prems(2,3) CkCreate cr by (simp add: m2_def)
  next
    case (CkCreateState now pos offs wm data)
    define mm where "mm = (metadata_new now ?n (im_current_epoch m))
      \<lparr>mm_wal_position := pos, mm_source_offsets := offs, mm_watermark := wm,
       mm_parent_id := im_latest_checkpoint_id m,
       mm_is_incremental := cc_incremental (im_config m) \<and> im_latest_checkpoint_id m \<noteq> None,
       mm_size_bytes := length data\<rparr>"
    define m2 where "m2 = m\<lparr>im_next_id := ?n + 1, im_latest_checkpoint_id := Some ?n, im_last_checkpoint_time := now\<rparr>"
    obtain s where s: "js_to js mm = Inr s" using js unfolding json_ok_def by blast
    have cr: "create_checkpoint_with_state js now m fs pos offs wm data =
        ((m2, cleanup_old_checkpoints js m2 (write_metadata ?n s (write_state ?n data (create_dir ?n fs)))), Inr mm)"
      using s by (simp add: create_checkpoint_with_state_def to_json_def Let_def mm_def m2_def)
    have "ck_inv js m2 (cleanup_old_checkpoints js m2 (write_metadata ?n s (write_state ?n data (create_dir ?n fs))))
        ((mm, Some data) # hist)"
      by (rule ck_inv_commit [OF Cons.prems(1) js Cons.prems(2) _ _ s wr(3,4)])
        (simp_all add: mm_def metadata_new_def m2_def)
    from Cons.IH [OF this] show ?thesis
      using Cons.prems(2,3) CkCreateState cr by (simp add: m2_def)
  next
    case (CkEpoch e)
    have "ck_inv js (ckpt_set_epoch m e) fs hist"
      using Cons.prems(1) by (simp add: ck_inv_def ckpt_set_epoch_def)
    from Cons.IH [OF this] show ?thesis
      using Cons.prems(2,3) CkEpoch by (simp add: ckpt_set_epoch_def)
  qed
qed simp

lemma scan_loop_spec:
  "scan_loop fs a l = (nxt, latest) \<Longrightarrow>
   a < nxt \<and> (\<forall>(n, d) \<in> set fs. n < nxt) \<and> (nxt = Suc a \<or> nxt - 1 \<in> fst ` set fs) \<and>
   (latest = l \<or> (\<exists>n d. latest = Some n \<and> (n, d) \<in> set fs \<and> dir_metadata d \<noteq> None)) \<and>
   (\<forall>k. l = Some k \<longrightarrow> (\<exists>n. latest = Some n \<and> k \<le> n)) \<and>
   (\<forall>(n, d) \<in> set fs. dir_metadata d \<noteq> None \<longrightarrow> (\<exists>k. latest = Some k \<and> n \<le> k))"
proof (induction fs a l rule: scan_loop.induct)
  case (2 n d fs a l)
  let ?a = "if n \<ge> a then n else a"
  let ?l = "if dir_metadata d = None then l else if (case l of None \<Rightarrow> True | Some prev \<Rightarrow> n \<ge> prev) then Some n else l"
  have IH: "?a < nxt" "\<forall>(n, d) \<in> set fs. n < nxt" "nxt = Suc ?a \<or> nxt - 1 \<in> fst ` set fs"
    "latest = ?l \<or> (\<exists>n d. latest = Some n \<and> (n, d) \<in> set fs \<and> dir_metadata d \<noteq> None)"
    "\<And>k. ?l = Some k \<Longrightarrow> \<exists>n. latest = Some n \<and> k \<le> n"
    "\<forall>(n, d) \<in> set fs. dir_metadata d \<noteq> None \<longrightarrow> (\<exists>k. latest = Some k \<and> n \<le> k)"
    using 2 by auto
  have "a < nxt" "n < nxt" using IH(1) by (auto split: if_splits)
  moreover have "nxt = Suc a \<or> nxt - 1 \<in> fst ` set ((n, d) # fs)"
    using IH(3) by (auto split: if_splits)
  moreover have "latest = l \<or> (\<exists>n' d'. latest = Some n' \<and> (n', d') \<in> set ((n, d) # fs) \<and> dir_metadata d' \<noteq> None)"
    using IH(4) by (auto split: if_splits)
  moreover have "\<exists>n'. latest = Some n' \<and> k \<le> n'" if "l = Some k" for k
    using IH(5) [of "max k n"] IH(5) [of k] that by (fastforce split: if_splits)
  moreover have "\<exists>k. latest = Some k \<and> n \<le> k" if "dir_metadata d \<noteq> None"
    using IH(5) [of n] IH(5) that by (fastforce split: if_splits option.splits)
  ultimately show ?case using IH(2,6) by auto
qed auto

lemma ck_inv_restart:
  assumes I: "ck_inv js m fs hist" and js: "json_ok js" and K: "0 < cc_max_retained (im_config m)"
  shows "scan_checkpoints fs = (Suc (length hist), latest_of hist)"
proof -
  let ?h = "take (cc_max_retained (im_config m)) hist"
  have h: "holds js fs ?h" and n: "im_next_id m = Suc (length hist)"
    using I by (simp_all add: ck_inv_def)
  have dir: "map_of fs n = Some d \<longleftrightarrow> (\<exists>mm st s. (mm, st) \<in> set ?h \<and> mm_id mm = n \<and> js_to js mm = Inr s \<and>
      d = \<lparr>dir_metadata = Some s, dir_state = st\<rparr>)" for n d
    using h unfolding holds_def by blast
  obtain nxt latest where scan: "scan_checkpoints fs = (nxt, latest)" by fastforce
  note sc = scan_loop_spec [OF scan [unfolded scan_checkpoints_def]]
  have "nxt = Suc (length hist) \<and> latest = latest_of hist"
  proof (cases hist)
    case Nil
    then have "fs = []" using dir by (cases fs) (auto, metis)
    then show ?thesis using scan Nil by (simp add: scan_checkpoints_def latest_of_def)
  next
    case (Cons x rest)
    obtain mm st where x: "x = (mm, st)" by fastforce
    have id: "mm_id mm = length hist"
      using I Cons x by (simp add: ck_inv_def)
    obtain s where s: "js_to js mm = Inr s" using js unfolding json_ok_def by blast
    have "(mm, st) \<in> set ?h" using K Cons x by (cases "cc_max_retained (im_config m)") simp_all
    then have top: "(length hist, \<lparr>dir_metadata = Some s, dir_state = st\<rparr>) \<in> set fs"
      using dir s id by (metis map_of_SomeD)
    have below: "k \<le> length hist" if "(k, d) \<in> set fs" for k d
    proof -
      have "map_of fs k = Some d" using that h by (simp add: holds_def wf_map_def)
      then obtain x y where "(x, y) \<in> set ?h" "mm_id x = k" using dir by blast
      then show ?thesis using ck_inv_newest_first(2) [OF I] n by (fastforce dest: in_set_takeD)
    qed
    have "length hist < nxt" using sc top by fastforce
    moreover have "nxt \<le> Suc (length hist)"
      using sc below Cons by fastforce
    moreover obtain k where k: "latest = Some k" "length hist \<le> k" using sc top by fastforce
    moreover have "k \<le> length hist"
    proof -
      obtain d where "(k, d) \<in> set fs" using sc k by auto
      then show ?thesis by (rule below)
    qed
    ultimately show ?thesis using id x Cons by (simp add: latest_of_def)
  qed
  then show ?thesis using scan by simp
qed

lemma ckpt_run_ck_inv:
  assumes js: "json_ok (js :: 'j json_codec)" and new: "ckpt_new cfg ([] :: 'j ckpt_fs) = Inr m0"
    and run: "ckpt_run js ops (m0, []) [] = ((m, fs), hist)"
  shows "ck_inv js m fs hist" and "0 < cc_max_retained (im_config m)" and "im_config m = cfg"
proof -
  have cfg: "config_validate cfg = None" and m0: "im_config m0 = cfg" "im_next_id m0 = 1" "im_latest_checkpoint_id m0 = None"
    using new by (auto simp: ckpt_new_def scan_checkpoints_def split: option.splits)
  have K: "0 < cc_max_retained cfg"
    using cfg by (auto simp: config_validate_def split: if_splits)
  have "ck_inv js m0 [] []"
    by (simp add: ck_inv_def holds_def latest_of_def m0)
  then show "ck_inv js m fs hist" "0 < cc_max_retained (im_config m)" "im_config m = cfg"
    using ckpt_run_inv [OF js _ _ run] K m0 by auto
qed

text \<open>
  (C19) For every sequence of checkpoint creations on an empty directory: identifiers increase by one and each
  checkpoint names its predecessor as parent; the directory holds exactly the most recent checkpoints up to
  the retention limit, newest first, each with the state written for it; and a manager started on the
  directory resumes with the same latest checkpoint and the same next identifier.
\<close>

theorem checkpoint_retention:
  assumes js: "json_ok (js :: 'j json_codec)" and new: "ckpt_new cfg ([] :: 'j ckpt_fs) = Inr m0"
    and run: "ckpt_run js ops (m0, []) [] = ((m, fs), hist)"
  shows "map (mm_id \<circ> fst) hist = rev [1..<Suc (length hist)] \<and>
    (\<forall>i < length hist. mm_parent_id (fst (hist ! i)) = latest_of (drop (Suc i) hist)) \<and>
    list_checkpoints js fs = map fst (take (cc_max_retained cfg) hist) \<and>
    (\<forall>(mm, st) \<in> set (take (cc_max_retained cfg) hist). \<forall>b. st = Some b \<longrightarrow> load_checkpoint_state fs (mm_id mm) = Inr b) \<and>
    (\<exists>m'. ckpt_new cfg fs = Inr m' \<and> im_latest_checkpoint_id m' = im_latest_checkpoint_id m \<and>
       im_next_id m' = im_next_id m)"
proof -
  have cfg: "config_validate cfg = None"
    using new by (auto simp: ckpt_new_def split: option.splits)
  note I = ckpt_run_ck_inv(1,3) [OF js new run]
  have K: "0 < cc_max_retained cfg"
    using ckpt_run_ck_inv(2) [OF js new run] I(2) by simp
  let ?h = "take (cc_max_retained cfg) hist"
  have h: "holds js fs ?h" and n: "im_next_id m = Suc (length hist)" and lt: "im_latest_checkpoint_id m = latest_of hist"
    using I by (simp_all add: ck_inv_def)
  have dir: "map_of fs n = Some d \<longleftrightarrow> (\<exists>mm st s. (mm, st) \<in> set ?h \<and> mm_id mm = n \<and> js_to js mm = Inr s \<and>
      d = \<lparr>dir_metadata = Some s, dir_state = st\<rparr>)" for n d
    using h unfolding holds_def by blast
  have nf: "newest_first ?h"
    using newest_first_take ck_inv_newest_first(1) [OF I(1)] by blast
  have st: "load_checkpoint_state fs (mm_id mm) = Inr b" if "(mm, Some b) \<in> set ?h" for mm b
  proof -
    obtain s where "js_to js mm = Inr s" using js unfolding json_ok_def by blast
    then have "map_of fs (mm_id mm) = Some \<lparr>dir_metadata = Some s, dir_state = Some b\<rparr>"
      using that dir by blast
    then show ?thesis by (simp add: load_checkpoint_state_def)
  qed
  have "ckpt_new cfg fs = Inr \<lparr>im_config = cfg, im_next_id = Suc (length hist), im_current_epoch = 0,
      im_last_checkpoint_time = 0, im_latest_checkpoint_id = latest_of hist, im_state = [], im_source_offsets = [],
      im_watermark = None\<rparr>"
    using cfg ck_inv_restart [OF I(1) js] I(2) K by (simp add: ckpt_new_def)
  then show ?thesis
    using I(1) holds_list(2) [OF h js nf] st n lt by (auto simp: ck_inv_def)
qed

text \<open>Metadata stored as it is.\<close>

definition plain_json :: "ckpt_metadata json_codec" where
  "plain_json = \<lparr>js_to = Inr, js_from = Inr\<rparr>"

lemma plain_json_ok: "json_ok plain_json"
  by (simp add: json_ok_def plain_json_def)

theorem checkpoint_retention_witness:
  "\<exists>m0 m fs hist. ckpt_new (config_new\<lparr>cc_max_retained := 1\<rparr>) ([] :: ckpt_metadata ckpt_fs) = Inr m0 \<and>
     ckpt_run plain_json [CkCreate 5 10, CkCreateState 6 20 [] None [1]] (m0, []) [] = ((m, fs), hist) \<and>
     list_checkpoints plain_json fs = map fst (take 1 hist) \<and> length hist = 2"
proof -
  let ?cfg = "config_new\<lparr>cc_max_retained := 1\<rparr>"
  obtain m0 where m0: "ckpt_new ?cfg ([] :: ckpt_metadata ckpt_fs) = Inr m0"
    by (simp add: ckpt_new_def config_validate_def config_new_def scan_checkpoints_def)
  obtain m fs hist where run: "ckpt_run plain_json [CkCreate 5 10, CkCreateState 6 20 [] None [1]] (m0, []) [] = ((m, fs), hist)"
    by (metis prod.collapse)
  have "list_checkpoints plain_json fs = map fst (take 1 hist)"
    using checkpoint_retention [OF plain_json_ok m0 run] by simp
  moreover have "length hist = 2"
    using run by (auto simp: create_checkpoint_def create_checkpoint_with_state_def to_json_def plain_json_def Let_def)
  ultimately show ?thesis using m0 run by blast
qed

end
