(* ===== verification/State_Store.thy ===== *)
theory State_Store
  imports Laminar_Prelude "HOL-Library.List_Lexorder" "HOL-Library.Sublist"
begin

text \<open>
  The state stores of \<^verbatim>\<open>crates/laminar-core/src/state\<close>: the trait \<^verbatim>\<open>StateStore\<close> as a record of operations, its
  contract as a locale over the sorted list of entries, and the in-memory stores \<^verbatim>\<open>InMemoryStore\<close> (\<^verbatim>\<open>mod.rs\<close>) and
  \<^verbatim>\<open>AHashMapStore\<close> (\<^verbatim>\<open>ahash_store.rs\<close>). Byte strings are ordered lexicographically, as slices are in Rust. A
  \<^verbatim>\<open>BTreeMap\<close> is the list of its entries in key order. A panic is \<^verbatim>\<open>None\<close>.
\<close>

section \<open>Ordered maps\<close>

fun bt_insert :: "'k::linorder \<Rightarrow> 'v \<Rightarrow> ('k \<times> 'v) list \<Rightarrow> ('k \<times> 'v) list" where
  "bt_insert k v [] = [(k, v)]"
| "bt_insert k v ((k', v') # m) =
     (if k < k' then (k, v) # (k', v') # m else if k = k' then (k, v) # m else (k', v') # bt_insert k v m)"

definition bt_remove :: "'k \<Rightarrow> ('k \<times> 'v) list \<Rightarrow> ('k \<times> 'v) list" where
  "bt_remove k m = filter (\<lambda>e. fst e \<noteq> k) m"

text \<open>
  \<^verbatim>\<open>range((Included(lo), Excluded(hi)))\<close>, which panics if the start is behind the end, and the range without an end.
\<close>

definition bt_range :: "'k::linorder \<Rightarrow> 'k \<Rightarrow> ('k \<times> 'v) list \<Rightarrow> ('k \<times> 'v) list option" where
  "bt_range lo hi m = (if lo > hi then None else Some (filter (\<lambda>e. lo \<le> fst e \<and> fst e < hi) m))"

definition bt_from :: "'k::linorder \<Rightarrow> ('k \<times> 'v) list \<Rightarrow> ('k \<times> 'v) list" where
  "bt_from lo m = filter (\<lambda>e. lo \<le> fst e) m"

definition bt_ok :: "('k::linorder \<times> 'v) list \<Rightarrow> bool" where
  "bt_ok m \<longleftrightarrow> sorted_wrt (<) (map fst m)"

definition bt_set_insert :: "'k::linorder \<Rightarrow> 'k list \<Rightarrow> 'k list" where
  "bt_set_insert k ks = map fst (bt_insert k () (map (\<lambda>k. (k, ())) ks))"

lemma set_bt_insert: "bt_ok m \<Longrightarrow> set (bt_insert k v m) = insert (k, v) {e \<in> set m. fst e \<noteq> k}"
  by (induction k v m rule: bt_insert.induct) (auto simp: bt_ok_def)

lemma map_of_bt_insert: "map_of (bt_insert k v m) x = (if x = k then Some v else map_of m x)"
  by (induction k v m rule: bt_insert.induct) auto

lemma bt_ok_insert: "bt_ok m \<Longrightarrow> bt_ok (bt_insert k v m)"
proof (induction k v m rule: bt_insert.induct)
  case (2 k v k' v' m)
  then show ?case using set_bt_insert [of m k v] by (auto simp: bt_ok_def)
qed (simp add: bt_ok_def)

lemma map_fst_bt_insert: "map fst (bt_insert k v m) = bt_set_insert k (map fst m)"
  unfolding bt_set_insert_def by (induction k v m rule: bt_insert.induct) auto

lemma bt_ok_filter: "bt_ok m \<Longrightarrow> bt_ok (filter P m)"
  by (induction m) (auto simp: bt_ok_def)

lemma bt_ok_remove: "bt_ok m \<Longrightarrow> bt_ok (bt_remove k m)"
  by (simp add: bt_remove_def bt_ok_filter)

lemma bt_ok_distinct: "bt_ok m \<Longrightarrow> distinct (map fst m)"
  using strict_sorted_iff by (auto simp: bt_ok_def)

lemma map_of_bt_remove: "map_of (bt_remove k m) x = (if x = k then None else map_of m x)"
  by (induction m) (auto simp: bt_remove_def)

text \<open>A sorted list of entries is determined by the map it represents.\<close>

lemma bt_entries: "bt_ok m \<Longrightarrow> map (\<lambda>k. (k, the (map_of m k))) (map fst m) = m"
  unfolding map_map comp_def
  by (rule map_idI) (auto dest: map_of_is_SomeI [OF bt_ok_distinct])

lemma bt_eqI:
  assumes "bt_ok m" "bt_ok n" "map_of m = map_of n"
  shows "m = n"
proof -
  have "set (map fst m) = set (map fst n)"
    using assms(3) by (metis dom_map_of_conv_image_fst list.set_map)
  then have "map fst m = map fst n"
    using strict_sorted_equal [of "map fst m" "map fst n"] assms(1,2) by (simp add: bt_ok_def)
  then show ?thesis using bt_entries [OF assms(1)] bt_entries [OF assms(2)] assms(3) by metis
qed

section \<open>Prefixes\<close>

text \<open>The loop of \<^verbatim>\<open>prefix_successor\<close> works on the end of the prefix, here on the reversed list.\<close>

fun successor_loop :: "bytes \<Rightarrow> bytes option" where
  "successor_loop [] = None"
| "successor_loop (lst # successor) = (if lst < 0xFF then Some (rev ((lst + 1) # successor)) else successor_loop successor)"

definition prefix_successor :: "bytes \<Rightarrow> bytes option" where
  "prefix_successor pre = (if pre = [] then None else successor_loop (rev pre))"

lemma successor_loop_snoc:
  "successor_loop (xs @ [b]) =
     (case successor_loop xs of Some e \<Rightarrow> Some (b # e) | None \<Rightarrow> if b < 0xFF then Some [b + 1] else None)"
  by (induction xs) simp_all

lemma prefix_iff_range:
  "prefix p k \<longleftrightarrow> p \<le> k \<and> (case successor_loop (rev p) of Some e \<Rightarrow> k < e | None \<Rightarrow> True)" for p k :: bytes
proof (induction p arbitrary: k)
  case (Cons b p)
  show ?case
  proof (cases k)
    case (Cons c k')
    have w: "c < b + 1 \<longleftrightarrow> c \<le> b" if "b < 0xFF"
      using that by (simp add: word_less_nat_alt word_le_nat_alt unat_word_ariths less_Suc_eq_le)
    have m: "\<not> b < c" if "\<not> b < 0xFF"
      using that unsigned_less [of c, where 'a = nat] by (simp add: word_less_nat_alt)
    show ?thesis
      using Cons.IH [of k'] w m
      by (auto simp: Cons successor_loop_snoc not_less split: option.splits)
  qed simp
qed simp

section \<open>Interface\<close>

datatype state_error = StIo string | StSerialization string | StDeserialization string | StCorruption string

record state_snapshot =
  ss_data :: "(bytes \<times> bytes) list"
  ss_timestamp_ns :: nat
  ss_version :: nat

definition snapshot_new :: "nat \<Rightarrow> (bytes \<times> bytes) list \<Rightarrow> state_snapshot" where
  "snapshot_new now data = \<lparr>ss_data = data, ss_timestamp_ns = now mod 2 ^ 64, ss_version = 1\<rparr>"

definition snapshot_size_bytes :: "state_snapshot \<Rightarrow> nat" where
  "snapshot_size_bytes s = (\<Sum>(k, v)\<leftarrow>ss_data s. length k + length v)"

record 's store_ops =
  so_get :: "'s \<Rightarrow> bytes \<Rightarrow> bytes option"
  so_put :: "'s \<Rightarrow> bytes \<Rightarrow> bytes \<Rightarrow> 's \<times> state_error option"
  so_delete :: "'s \<Rightarrow> bytes \<Rightarrow> 's"
  so_prefix_scan :: "'s \<Rightarrow> bytes \<Rightarrow> (bytes \<times> bytes) list option"
  so_range_scan :: "'s \<Rightarrow> bytes \<Rightarrow> bytes \<Rightarrow> (bytes \<times> bytes) list option"
  so_contains :: "'s \<Rightarrow> bytes \<Rightarrow> bool"
  so_size_bytes :: "'s \<Rightarrow> nat"
  so_len :: "'s \<Rightarrow> nat"
  so_snapshot :: "'s \<Rightarrow> nat \<Rightarrow> state_snapshot option"
  so_restore :: "'s \<Rightarrow> state_snapshot \<Rightarrow> 's option"
  so_clear :: "'s \<Rightarrow> 's"

text \<open>The size of the keys and values of some entries, and the entries a snapshot restores.\<close>

definition entries_size :: "(bytes \<times> bytes) list \<Rightarrow> nat" where
  "entries_size m = (\<Sum>(k, v)\<leftarrow>m. length k + length v)"

definition restored :: "(bytes \<times> bytes) list \<Rightarrow> (bytes \<times> bytes) list" where
  "restored data = foldl (\<lambda>m (k, v). bt_insert k v m) [] data"

section \<open>In-memory store\<close>

record in_memory_store =
  im_data :: "(bytes \<times> bytes) list"
  im_size_bytes :: nat

definition im_new :: in_memory_store where
  "im_new = \<lparr>im_data = [], im_size_bytes = 0\<rparr>"

definition im_get :: "in_memory_store \<Rightarrow> bytes \<Rightarrow> bytes option" where
  "im_get st key = map_of (im_data st) key"

definition im_put :: "in_memory_store \<Rightarrow> bytes \<Rightarrow> bytes \<Rightarrow> in_memory_store \<times> state_error option" where
  "im_put st key val =
     ((case map_of (im_data st) key of
         Some existing \<Rightarrow>
           \<lparr>im_data = bt_insert key val (im_data st), im_size_bytes = im_size_bytes st - length existing + length val\<rparr>
       | None \<Rightarrow>
           \<lparr>im_data = bt_insert key val (im_data st), im_size_bytes = im_size_bytes st + (length key + length val)\<rparr>),
      None)"

definition im_delete :: "in_memory_store \<Rightarrow> bytes \<Rightarrow> in_memory_store" where
  "im_delete st key =
     (case map_of (im_data st) key of
        Some old_value \<Rightarrow>
          \<lparr>im_data = bt_remove key (im_data st), im_size_bytes = im_size_bytes st - (length key + length old_value)\<rparr>
      | None \<Rightarrow> st)"

definition im_prefix_scan :: "in_memory_store \<Rightarrow> bytes \<Rightarrow> (bytes \<times> bytes) list option" where
  "im_prefix_scan st pre =
     (if pre = [] then Some (im_data st)
      else case prefix_successor pre of
             Some e \<Rightarrow> bt_range pre e (im_data st)
           | None \<Rightarrow> Some (bt_from pre (im_data st)))"

definition im_range_scan :: "in_memory_store \<Rightarrow> bytes \<Rightarrow> bytes \<Rightarrow> (bytes \<times> bytes) list option" where
  "im_range_scan st lo hi = bt_range lo hi (im_data st)"

definition im_contains :: "in_memory_store \<Rightarrow> bytes \<Rightarrow> bool" where
  "im_contains st key \<longleftrightarrow> map_of (im_data st) key \<noteq> None"

definition im_snapshot :: "in_memory_store \<Rightarrow> nat \<Rightarrow> state_snapshot option" where
  "im_snapshot st now = Some (snapshot_new now (im_data st))"

definition im_restore :: "in_memory_store \<Rightarrow> state_snapshot \<Rightarrow> in_memory_store option" where
  "im_restore st snapshot =
     Some (foldl (\<lambda>st (key, val).
        \<lparr>im_data = bt_insert key val (im_data st), im_size_bytes = im_size_bytes st + (length key + length val)\<rparr>)
       \<lparr>im_data = [], im_size_bytes = 0\<rparr> (ss_data snapshot))"

definition im_clear :: "in_memory_store \<Rightarrow> in_memory_store" where
  "im_clear st = \<lparr>im_data = [], im_size_bytes = 0\<rparr>"

definition in_memory_ops :: "in_memory_store store_ops" where
  "in_memory_ops =
     \<lparr>so_get = im_get, so_put = im_put, so_delete = im_delete, so_prefix_scan = im_prefix_scan,
      so_range_scan = im_range_scan, so_contains = im_contains, so_size_bytes = im_size_bytes,
      so_len = (\<lambda>st. length (im_data st)), so_snapshot = im_snapshot, so_restore = im_restore, so_clear = im_clear\<rparr>"

section \<open>Hash-map store\<close>

record ahash_store =
  ah_data :: "(bytes, bytes) hashmap"
  ah_index :: "bytes list"
  ah_size_bytes :: nat

definition ah_new :: ahash_store where
  "ah_new = \<lparr>ah_data = [], ah_index = [], ah_size_bytes = 0\<rparr>"

definition ah_get :: "ahash_store \<Rightarrow> bytes \<Rightarrow> bytes option" where
  "ah_get st key = map_of (ah_data st) key"

definition ah_put :: "ahash_store \<Rightarrow> bytes \<Rightarrow> bytes \<Rightarrow> ahash_store \<times> state_error option" where
  "ah_put st key val =
     ((case map_of (ah_data st) key of
         Some old_value \<Rightarrow>
           st\<lparr>ah_data := AList.update key val (ah_data st), ah_size_bytes := ah_size_bytes st - length old_value + length val\<rparr>
       | None \<Rightarrow>
           \<lparr>ah_data = AList.update key val (ah_data st), ah_index = bt_set_insert key (ah_index st),
            ah_size_bytes = ah_size_bytes st + (length key + length val)\<rparr>),
      None)"

definition ah_delete :: "ahash_store \<Rightarrow> bytes \<Rightarrow> ahash_store" where
  "ah_delete st key =
     (case map_of (ah_data st) key of
        Some old_value \<Rightarrow>
          \<lparr>ah_data = AList.delete key (ah_data st), ah_index = filter (\<lambda>k. k \<noteq> key) (ah_index st),
           ah_size_bytes = ah_size_bytes st - (length key + length old_value)\<rparr>
      | None \<Rightarrow> st)"

text \<open>The entries of some keys of the index; \<^verbatim>\<open>self.data[k]\<close> panics if the key is missing.\<close>

definition ah_entries :: "ahash_store \<Rightarrow> bytes list \<Rightarrow> (bytes \<times> bytes) list option" where
  "ah_entries st ks = those (map (\<lambda>k. map_option (Pair k) (map_of (ah_data st) k)) ks)"

definition ah_prefix_scan :: "ahash_store \<Rightarrow> bytes \<Rightarrow> (bytes \<times> bytes) list option" where
  "ah_prefix_scan st pre =
     (if pre = [] then ah_entries st (ah_index st)
      else case prefix_successor pre of
             Some e \<Rightarrow> if pre > e then None else ah_entries st (filter (\<lambda>k. pre \<le> k \<and> k < e) (ah_index st))
           | None \<Rightarrow> ah_entries st (filter (\<lambda>k. pre \<le> k) (ah_index st)))"

definition ah_range_scan :: "ahash_store \<Rightarrow> bytes \<Rightarrow> bytes \<Rightarrow> (bytes \<times> bytes) list option" where
  "ah_range_scan st lo hi = (if lo > hi then None else ah_entries st (filter (\<lambda>k. lo \<le> k \<and> k < hi) (ah_index st)))"

definition ah_contains :: "ahash_store \<Rightarrow> bytes \<Rightarrow> bool" where
  "ah_contains st key \<longleftrightarrow> map_of (ah_data st) key \<noteq> None"

definition ah_snapshot :: "ahash_store \<Rightarrow> nat \<Rightarrow> state_snapshot option" where
  "ah_snapshot st now = map_option (snapshot_new now) (ah_entries st (ah_index st))"

definition ah_restore :: "ahash_store \<Rightarrow> state_snapshot \<Rightarrow> ahash_store option" where
  "ah_restore st snapshot =
     Some (foldl (\<lambda>st (key, val).
        \<lparr>ah_data = AList.update key val (ah_data st), ah_index = bt_set_insert key (ah_index st),
         ah_size_bytes = ah_size_bytes st + (length key + length val)\<rparr>)
       \<lparr>ah_data = [], ah_index = [], ah_size_bytes = 0\<rparr> (ss_data snapshot))"

definition ah_clear :: "ahash_store \<Rightarrow> ahash_store" where
  "ah_clear st = \<lparr>ah_data = [], ah_index = [], ah_size_bytes = 0\<rparr>"

definition ahash_ops :: "ahash_store store_ops" where
  "ahash_ops =
     \<lparr>so_get = ah_get, so_put = ah_put, so_delete = ah_delete, so_prefix_scan = ah_prefix_scan,
      so_range_scan = ah_range_scan, so_contains = ah_contains, so_size_bytes = ah_size_bytes,
      so_len = (\<lambda>st. length (ah_data st)), so_snapshot = ah_snapshot, so_restore = ah_restore, so_clear = ah_clear\<rparr>"

section \<open>Contract\<close>

text \<open>
  What every store promises in terms of its entries in key order. An operation that reports an error leaves the
  entries alone.
\<close>

locale state_store =
  fixes ops :: "'s store_ops"
    and ok :: "'s \<Rightarrow> bool"
    and entries :: "'s \<Rightarrow> (bytes \<times> bytes) list"
  assumes entries_ok: "ok st \<Longrightarrow> bt_ok (entries st)"
    and get_spec: "ok st \<Longrightarrow> so_get ops st k = map_of (entries st) k"
    and put_spec: "ok st \<Longrightarrow> so_put ops st k v = (st', None) \<Longrightarrow> ok st' \<and> entries st' = bt_insert k v (entries st)"
    and put_error: "ok st \<Longrightarrow> so_put ops st k v = (st', Some e) \<Longrightarrow> ok st' \<and> entries st' = entries st"
    and delete_spec: "ok st \<Longrightarrow> ok (so_delete ops st k) \<and> entries (so_delete ops st k) = bt_remove k (entries st)"
    and prefix_scan_spec: "ok st \<Longrightarrow> so_prefix_scan ops st p = Some (filter (\<lambda>e. prefix p (fst e)) (entries st))"
    and range_scan_spec: "ok st \<Longrightarrow> so_range_scan ops st lo hi = bt_range lo hi (entries st)"
    and contains_spec: "ok st \<Longrightarrow> so_contains ops st k \<longleftrightarrow> map_of (entries st) k \<noteq> None"
    and size_spec: "ok st \<Longrightarrow> so_size_bytes ops st = entries_size (entries st)"
    and len_spec: "ok st \<Longrightarrow> so_len ops st = length (entries st)"
    and snapshot_spec: "ok st \<Longrightarrow> so_snapshot ops st now = Some (snapshot_new now (entries st))"
    and restore_spec: "ok st \<Longrightarrow> distinct (map fst (ss_data snap)) \<Longrightarrow> so_restore ops st snap = Some st' \<Longrightarrow>
      ok st' \<and> entries st' = restored (ss_data snap)"
    and clear_spec: "ok st \<Longrightarrow> ok (so_clear ops st) \<and> entries (so_clear ops st) = []"

text \<open>A store whose writes cannot fail.\<close>

locale reliable_store = state_store +
  assumes put_reliable: "ok st \<Longrightarrow> snd (so_put ops st k v) = None"
    and restore_reliable: "ok st \<Longrightarrow> so_restore ops st snap \<noteq> None"

text \<open>Sequences of calls and what a client observes. A panic ends the sequence.\<close>

datatype store_op =
    SoPut bytes bytes | SoDelete bytes | SoGet bytes | SoContains bytes | SoPrefixScan bytes | SoRangeScan bytes bytes
  | SoSize | SoLen | SoSnapshot nat | SoRestore state_snapshot | SoClear

datatype store_obs =
    ObUnit | ObError state_error | ObValue "bytes option" | ObBool bool | ObEntries "(bytes \<times> bytes) list" | ObNat nat
  | ObSnapshot state_snapshot | ObPanic

fun store_step :: "'s store_ops \<Rightarrow> store_op \<Rightarrow> 's \<Rightarrow> 's \<times> store_obs" where
  "store_step ops (SoPut k v) st =
     (let (st', e) = so_put ops st k v in (st', case e of None \<Rightarrow> ObUnit | Some e \<Rightarrow> ObError e))"
| "store_step ops (SoDelete k) st = (so_delete ops st k, ObUnit)"
| "store_step ops (SoGet k) st = (st, ObValue (so_get ops st k))"
| "store_step ops (SoContains k) st = (st, ObBool (so_contains ops st k))"
| "store_step ops (SoPrefixScan p) st = (st, case so_prefix_scan ops st p of None \<Rightarrow> ObPanic | Some es \<Rightarrow> ObEntries es)"
| "store_step ops (SoRangeScan lo hi) st = (st, case so_range_scan ops st lo hi of None \<Rightarrow> ObPanic | Some es \<Rightarrow> ObEntries es)"
| "store_step ops SoSize st = (st, ObNat (so_size_bytes ops st))"
| "store_step ops SoLen st = (st, ObNat (so_len ops st))"
| "store_step ops (SoSnapshot now) st = (st, case so_snapshot ops st now of None \<Rightarrow> ObPanic | Some s \<Rightarrow> ObSnapshot s)"
| "store_step ops (SoRestore snap) st = (case so_restore ops st snap of None \<Rightarrow> (st, ObPanic) | Some st' \<Rightarrow> (st', ObUnit))"
| "store_step ops SoClear st = (so_clear ops st, ObUnit)"

fun store_run :: "'s store_ops \<Rightarrow> store_op list \<Rightarrow> 's \<Rightarrow> store_obs list" where
  "store_run ops [] st = []"
| "store_run ops (x # xs) st =
     (let (st', ob) = store_step ops x st in ob # (if ob = ObPanic then [] else store_run ops xs st'))"

text \<open>Snapshots come from stores and have one entry per key.\<close>

fun op_ok :: "store_op \<Rightarrow> bool" where
  "op_ok (SoRestore snap) = distinct (map fst (ss_data snap))"
| "op_ok _ = True"

text \<open>The store that is just its entries.\<close>

definition spec_ops :: "(bytes \<times> bytes) list store_ops" where
  "spec_ops =
     \<lparr>so_get = map_of, so_put = (\<lambda>m k v. (bt_insert k v m, None)), so_delete = (\<lambda>m k. bt_remove k m),
      so_prefix_scan = (\<lambda>m p. Some (filter (\<lambda>e. prefix p (fst e)) m)), so_range_scan = (\<lambda>m lo hi. bt_range lo hi m),
      so_contains = (\<lambda>m k. map_of m k \<noteq> None), so_size_bytes = entries_size, so_len = length,
      so_snapshot = (\<lambda>m now. Some (snapshot_new now m)), so_restore = (\<lambda>m snap. Some (restored (ss_data snap))),
      so_clear = (\<lambda>m. [])\<rparr>"

context reliable_store
begin

lemma step_refines:
  assumes "ok st" "op_ok x"
  shows "ok (fst (store_step ops x st)) \<and> entries (fst (store_step ops x st)) = fst (store_step spec_ops x (entries st)) \<and>
    snd (store_step ops x st) = snd (store_step spec_ops x (entries st))"
proof (cases x)
  case (SoPut k v)
  obtain st' where "so_put ops st k v = (st', None)" using put_reliable [OF assms(1), of k v] by (metis prod.collapse)
  then show ?thesis using put_spec [OF assms(1), of k v] SoPut by (simp add: spec_ops_def)
next
  case (SoRestore snap)
  obtain st' where "so_restore ops st snap = Some st'" using restore_reliable [OF assms(1), of snap] by auto
  then show ?thesis using restore_spec [OF assms(1), of snap] assms(2) SoRestore by (simp add: spec_ops_def)
qed (use assms(1) in \<open>simp_all add: spec_ops_def delete_spec get_spec contains_spec prefix_scan_spec range_scan_spec
  size_spec len_spec snapshot_spec clear_spec\<close>)

lemma run_refines: "ok st \<Longrightarrow> list_all op_ok xs \<Longrightarrow> store_run ops xs st = store_run spec_ops xs (entries st)"
proof (induction xs arbitrary: st)
  case (Cons x xs)
  then have "ok st" "op_ok x" "list_all op_ok xs" by simp_all
  with Cons.IH [of "fst (store_step ops x st)"] step_refines [of st x]
  show ?case by (simp add: case_prod_unfold Let_def)
qed simp

end

section \<open>Both stores meet the contract\<close>

lemma entries_size_insert:
  "bt_ok m \<Longrightarrow> entries_size (bt_insert k v m) + (case map_of m k of Some old \<Rightarrow> length k + length old | None \<Rightarrow> 0) =
    entries_size m + (length k + length v)"
proof (induction k v m rule: bt_insert.induct)
  case (2 k v k' v' m)
  have "map_of m k = None" if "k < k'"
    using 2(2) that by (auto simp: bt_ok_def map_of_eq_None_iff)
  then show ?case using 2 by (auto simp: bt_ok_def entries_size_def split: option.splits)
qed (simp add: entries_size_def)

lemma entries_size_insert_cases:
  assumes "bt_ok m"
  shows "map_of m k = None \<Longrightarrow> entries_size (bt_insert k v m) = entries_size m + (length k + length v)"
    and "map_of m k = Some old \<Longrightarrow> entries_size (bt_insert k v m) = entries_size m - length old + length v"
  using entries_size_insert [OF assms, of k v] entries_size_insert [OF assms, of k "[]"] by auto

lemma entries_size_remove:
  "bt_ok m \<Longrightarrow> map_of m k = Some old \<Longrightarrow> entries_size (bt_remove k m) = entries_size m - (length k + length old)"
proof (induction m)
  case (Cons e m)
  have "filter (\<lambda>e. fst e \<noteq> k) m = m" if "fst e = k"
    using Cons.prems(1) that by (intro filter_True) (auto simp: bt_ok_def)
  moreover have "length k + length old \<le> entries_size m" if "fst e \<noteq> k"
  proof -
    have "(k, old) \<in> set m" using Cons.prems(2) that by (cases e) (auto dest: map_of_SomeD)
    then show ?thesis unfolding entries_size_def by (force intro: member_le_sum_list)
  qed
  ultimately show ?case using Cons by (cases e) (auto simp: bt_ok_def bt_remove_def entries_size_def)
qed simp

lemma bt_remove_absent: "map_of m k = None \<Longrightarrow> bt_remove k m = m"
  by (auto simp: bt_remove_def map_of_eq_None_iff intro!: filter_True)

lemma restored_snoc: "restored (data @ [(k, v)]) = bt_insert k v (restored data)"
  by (simp add: restored_def)

lemma bt_ok_restored: "bt_ok (restored data)"
proof (induction data rule: rev_induct)
  case (snoc e data)
  then show ?case by (cases e) (simp add: restored_snoc bt_ok_insert)
qed (simp add: restored_def bt_ok_def)

lemma map_of_restored: "distinct (map fst data) \<Longrightarrow> map_of (restored data) = map_of data"
proof (induction data rule: rev_induct)
  case (snoc e data)
  obtain k v where e: "e = (k, v)" by (cases e)
  have "map_of data k = None" using snoc.prems by (simp add: e map_of_eq_None_iff)
  then show ?case
    using snoc by (auto simp: e restored_snoc map_of_bt_insert fun_eq_iff map_add_def split: option.split)
qed (simp add: restored_def)

lemma entries_size_restored: "distinct (map fst data) \<Longrightarrow> entries_size (restored data) = entries_size data"
proof (induction data rule: rev_induct)
  case (snoc e data)
  obtain k v where e: "e = (k, v)" by (cases e)
  have "map_of (restored data) k = None" using snoc.prems by (simp add: e map_of_restored map_of_eq_None_iff)
  then show ?case
    using snoc entries_size_insert_cases(1) [OF bt_ok_restored, of data k v] by (simp add: e restored_snoc entries_size_def)
qed (simp add: restored_def)

text \<open>A snapshot of sorted entries restores exactly these.\<close>

lemma restored_sorted: "bt_ok m \<Longrightarrow> restored m = m"
  by (rule bt_eqI) (simp_all add: bt_ok_restored map_of_restored bt_ok_distinct)

lemma successor_behind: "prefix_successor p = Some e \<Longrightarrow> p < e"
  using prefix_iff_range [of p p] by (auto simp: prefix_successor_def split: if_splits option.splits)

lemma prefix_range:
  "p \<noteq> [] \<Longrightarrow> prefix p k \<longleftrightarrow> p \<le> k \<and> (case prefix_successor p of Some e \<Rightarrow> k < e | None \<Rightarrow> True)"
  using prefix_iff_range [of p k] by (simp add: prefix_successor_def)

lemma im_restore_fold:
  "foldl (\<lambda>st (key, val).
     \<lparr>im_data = bt_insert key val (im_data st), im_size_bytes = im_size_bytes st + (length key + length val)\<rparr>)
    \<lparr>im_data = [], im_size_bytes = 0\<rparr> data = \<lparr>im_data = restored data, im_size_bytes = entries_size data\<rparr>"
  by (induction data rule: rev_induct) (auto simp: restored_snoc restored_def entries_size_def)

definition im_ok :: "in_memory_store \<Rightarrow> bool" where
  "im_ok st \<longleftrightarrow> bt_ok (im_data st) \<and> im_size_bytes st = entries_size (im_data st)"

interpretation in_memory: reliable_store in_memory_ops im_ok im_data
proof (unfold_locales, goal_cases)
  case (3 st k v st')
  then show ?case
    by (auto simp: im_ok_def in_memory_ops_def im_put_def bt_ok_insert entries_size_insert_cases split: option.splits)
next
  case (5 st k)
  then show ?case
    by (auto simp: im_ok_def in_memory_ops_def im_delete_def bt_ok_remove entries_size_remove bt_remove_absent split: option.splits)
next
  case (6 st p)
  then show ?case
    using successor_behind [of p]
    by (auto simp: in_memory_ops_def im_prefix_scan_def bt_range_def bt_from_def prefix_range split: option.splits intro!: filter_cong)
next
  case (12 st snap st')
  then show ?case
    by (auto simp: im_ok_def in_memory_ops_def im_restore_def im_restore_fold bt_ok_restored entries_size_restored)
qed (auto simp: im_ok_def in_memory_ops_def im_get_def im_put_def im_range_scan_def im_contains_def im_snapshot_def
  im_restore_def im_clear_def bt_ok_def entries_size_def split: option.splits)

text \<open>The entries of the hash-map store, and its invariant: the index holds exactly the keys, in order.\<close>

definition ah_all :: "ahash_store \<Rightarrow> (bytes \<times> bytes) list" where
  "ah_all st = map (\<lambda>k. (k, the (map_of (ah_data st) k))) (ah_index st)"

definition ah_ok :: "ahash_store \<Rightarrow> bool" where
  "ah_ok st \<longleftrightarrow> wf_map (ah_data st) \<and> sorted_wrt (<) (ah_index st) \<and> set (ah_index st) = dom (map_of (ah_data st)) \<and>
     ah_size_bytes st = entries_size (ah_all st)"

lemma ah_all_index: "map fst (ah_all st) = ah_index st"
  by (simp add: ah_all_def comp_def)

lemma bt_ok_ah_all: "sorted_wrt (<) (ah_index st) \<Longrightarrow> bt_ok (ah_all st)"
  by (simp add: bt_ok_def ah_all_index)

lemma map_of_ah_all: "set (ah_index st) = dom (map_of (ah_data st)) \<Longrightarrow> map_of (ah_all st) = map_of (ah_data st)"
  by (rule ext) (auto simp: ah_all_def map_of_map_keys restrict_map_def dom_def map_of_map_restrict)

lemma ah_entries_eq:
  "set ks \<subseteq> dom (map_of (ah_data st)) \<Longrightarrow> ah_entries st ks = Some (map (\<lambda>k. (k, the (map_of (ah_data st) k))) ks)"
  by (induction ks) (auto simp: ah_entries_def)

lemma ah_entries_filter:
  assumes "set (ah_index st) = dom (map_of (ah_data st))"
  shows "ah_entries st (filter P (ah_index st)) = Some (filter (\<lambda>e. P (fst e)) (ah_all st))"
  using assms by (subst ah_entries_eq) (auto simp: ah_all_def filter_map comp_def)

lemma sorted_set_insert:
  assumes "sorted_wrt (<) ks"
  shows "sorted_wrt (<) (bt_set_insert k ks)" "set (bt_set_insert k ks) = insert k (set ks)"
proof -
  have "bt_ok (map (\<lambda>k. (k, ())) ks)" using assms by (simp add: bt_ok_def comp_def)
  from bt_ok_insert [OF this, of k "()"] set_bt_insert [OF this, of k "()"]
  show "sorted_wrt (<) (bt_set_insert k ks)" "set (bt_set_insert k ks) = insert k (set ks)"
    by (auto simp: bt_set_insert_def bt_ok_def image_iff)
qed

text \<open>Two well-formed stores with the same map have the same entries.\<close>

lemma ah_all_eqI:
  assumes "sorted_wrt (<) (ah_index st)" "set (ah_index st) = dom (map_of (ah_data st))" "bt_ok m" "map_of (ah_data st) = map_of m"
  shows "ah_all st = m"
  by (rule bt_eqI) (use assms in \<open>simp_all add: bt_ok_ah_all map_of_ah_all\<close>)

lemma ah_put_ok:
  assumes "ah_ok st" "ah_put st k v = (st', e)"
  shows "e = None" "ah_ok st'" "ah_all st' = bt_insert k v (ah_all st)"
proof -
  have st: "wf_map (ah_data st)" "sorted_wrt (<) (ah_index st)" "set (ah_index st) = dom (map_of (ah_data st))"
    "ah_size_bytes st = entries_size (ah_all st)" using assms(1) by (simp_all add: ah_ok_def)
  show "e = None" using assms(2) by (simp add: ah_put_def)
  have data: "ah_data st' = AList.update k v (ah_data st)" "map_of (ah_data st') = (map_of (ah_data st))(k \<mapsto> v)"
    using assms(2) by (auto simp: ah_put_def update_conv' split: option.splits)
  have idx: "sorted_wrt (<) (ah_index st')" "set (ah_index st') = dom (map_of (ah_data st'))"
    using assms(2) st sorted_set_insert [OF st(2), of k] unfolding data(2)
    by (auto simp: ah_put_def dom_def split: option.splits)
  show all: "ah_all st' = bt_insert k v (ah_all st)"
    by (rule ah_all_eqI [OF idx])
      (simp_all add: bt_ok_insert bt_ok_ah_all st(2) map_of_bt_insert map_of_ah_all [OF st(3)] data(2) fun_eq_iff)
  have "ah_size_bytes st' = entries_size (ah_all st')"
    using assms(2) entries_size_insert_cases [OF bt_ok_ah_all [OF st(2)], where k = k and v = v] st(4)
    unfolding all map_of_ah_all [OF st(3)] by (auto simp: ah_put_def split: option.splits)
  then show "ah_ok st'" using idx st(1) by (simp add: ah_ok_def data(1))
qed

lemma ah_delete_ok:
  assumes "ah_ok st"
  shows "ah_ok (ah_delete st k)" "ah_all (ah_delete st k) = bt_remove k (ah_all st)"
proof -
  have st: "wf_map (ah_data st)" "sorted_wrt (<) (ah_index st)" "set (ah_index st) = dom (map_of (ah_data st))"
    "ah_size_bytes st = entries_size (ah_all st)" using assms by (simp_all add: ah_ok_def)
  have "ah_ok (ah_delete st k) \<and> ah_all (ah_delete st k) = bt_remove k (ah_all st)"
  proof (cases "map_of (ah_data st) k")
    case None
    then show ?thesis using assms by (simp add: ah_delete_def bt_remove_absent map_of_ah_all [OF st(3)])
  next
    case (Some old)
    have data: "wf_map (ah_data (ah_delete st k))" "map_of (ah_data (ah_delete st k)) = (map_of (ah_data st))(k := None)"
      using Some st(1) by (simp_all add: ah_delete_def delete_conv')
    have idx: "sorted_wrt (<) (ah_index (ah_delete st k))" "set (ah_index (ah_delete st k)) = dom (map_of (ah_data (ah_delete st k)))"
      using Some st(2,3) unfolding data(2) by (auto simp: ah_delete_def sorted_wrt_filter)
    have all: "ah_all (ah_delete st k) = bt_remove k (ah_all st)"
      by (rule ah_all_eqI [OF idx])
        (simp_all add: bt_ok_remove bt_ok_ah_all st(2) map_of_bt_remove map_of_ah_all [OF st(3)] data(2) fun_eq_iff)
    have "ah_size_bytes (ah_delete st k) = entries_size (ah_all (ah_delete st k))"
      unfolding all using entries_size_remove [OF bt_ok_ah_all [OF st(2)], of k old] Some st(4) map_of_ah_all [OF st(3)]
      by (simp add: ah_delete_def)
    then show ?thesis using idx data(1) all by (simp add: ah_ok_def)
  qed
  then show "ah_ok (ah_delete st k)" "ah_all (ah_delete st k) = bt_remove k (ah_all st)" by simp_all
qed

lemma ah_restore_fold:
  assumes "distinct (map fst data)"
  defines "st \<equiv> foldl (\<lambda>st (key, val).
        \<lparr>ah_data = AList.update key val (ah_data st), ah_index = bt_set_insert key (ah_index st),
         ah_size_bytes = ah_size_bytes st + (length key + length val)\<rparr>)
       \<lparr>ah_data = [], ah_index = [], ah_size_bytes = 0\<rparr> data"
  shows "ah_ok st" "ah_all st = restored data"
proof -
  have "ah_ok st \<and> ah_all st = restored data"
    using assms(1) unfolding st_def
  proof (induction data rule: rev_induct)
    case (snoc e data)
    obtain k v where e: "e = (k, v)" by (cases e)
    define s where "s = foldl (\<lambda>st (key, val).
        \<lparr>ah_data = AList.update key val (ah_data st), ah_index = bt_set_insert key (ah_index st),
         ah_size_bytes = ah_size_bytes st + (length key + length val)\<rparr>)
       \<lparr>ah_data = [], ah_index = [], ah_size_bytes = 0\<rparr> data"
    have IH: "ah_ok s" "ah_all s = restored data" using snoc by (simp_all add: s_def)
    have "map_of (ah_data s) = map_of (restored data)" using IH map_of_ah_all [of s] by (simp add: ah_ok_def)
    moreover have "map_of (restored data) k = None" using snoc.prems by (simp add: e map_of_restored map_of_eq_None_iff)
    ultimately show ?case
      using ah_put_ok(2,3) [OF IH(1), of k v _ None] IH(2) by (simp add: e ah_put_def restored_snoc s_def [symmetric])
  qed (simp add: ah_ok_def ah_all_def restored_def entries_size_def)
  then show "ah_ok st" "ah_all st = restored data" by simp_all
qed

interpretation ahash: reliable_store ahash_ops ah_ok ah_all
proof (unfold_locales, goal_cases)
  case (3 st k v st')
  then show ?case using ah_put_ok [of st k v st' None] by (simp add: ahash_ops_def)
next
  case (4 st k v st' e)
  then show ?case using ah_put_ok(1) [of st k v st' "Some e"] by (simp add: ahash_ops_def)
next
  case (5 st k)
  then show ?case by (simp add: ahash_ops_def ah_delete_ok)
next
  case (6 st p)
  then show ?case
    using successor_behind [of p] ah_entries_filter [of st] ah_entries_filter [of st "\<lambda>k. True"]
    by (auto simp: ah_ok_def ahash_ops_def ah_prefix_scan_def prefix_range split: option.splits intro!: filter_cong)
next
  case (7 st lo hi)
  then show ?case using ah_entries_filter [of st] by (simp add: ah_ok_def ahash_ops_def ah_range_scan_def bt_range_def)
next
  case (10 st)
  then have "length (map fst (ah_data st)) = length (ah_index st)"
    by (metis ah_ok_def distinct_card dom_map_of_conv_image_fst list.set_map strict_sorted_iff wf_map_def)
  then show ?case by (simp add: ahash_ops_def ah_all_def)
next
  case (11 st now)
  then show ?case using ah_entries_filter [of st "\<lambda>k. True"] by (simp add: ah_ok_def ahash_ops_def ah_snapshot_def)
next
  case (12 st snap st')
  then show ?case using ah_restore_fold [of "ss_data snap"] by (auto simp: ahash_ops_def ah_restore_def)
next
  case (13 st)
  then show ?case by (simp add: ah_ok_def ahash_ops_def ah_clear_def ah_all_def entries_size_def)
qed (auto simp: ah_ok_def ahash_ops_def ah_get_def ah_put_def ah_contains_def ah_restore_def bt_ok_ah_all map_of_ah_all)

end
