(* ===== verification/Wal_Recovery.thy ===== *)
theory Wal_Recovery
  imports Write_Ahead_Log Incremental_Checkpoint State_Store
begin

text \<open>
  Recovery from a checkpoint and a log. \<^verbatim>\<open>recover\<close> is the recovery of
  \<^verbatim>\<open>crates/laminar-storage/src/incremental/recovery.rs\<close> over the single-file log; the operations with the prefix
  \<^verbatim>\<open>pc\<close> are the checkpoint coordinator and the recovery manager of the per-core log,
  \<^verbatim>\<open>per_core_wal/coordinator.rs\<close> and \<^verbatim>\<open>per_core_wal/recovery.rs\<close>. Decoding a state snapshot (rkyv) is a parameter.
\<close>

section \<open>Recovery from a checkpoint and the log\<close>

record recovered_state =
  rs_epoch :: nat
  rs_state_snapshot :: "state_snapshot option"
  rs_wal_position :: nat
  rs_wal_entries_replayed :: nat
  rs_source_offsets :: "(string, nat) hashmap"
  rs_watermark :: "i64 option"
  rs_checkpoint_id :: "nat option"
  rs_state_changes :: "(bytes \<times> bytes option) list"

definition recovered_empty :: recovered_state where
  "recovered_empty =
     \<lparr>rs_epoch = 0, rs_state_snapshot = None, rs_wal_position = 0, rs_wal_entries_replayed = 0,
      rs_source_offsets = [], rs_watermark = None, rs_checkpoint_id = None, rs_state_changes = []\<rparr>"

definition has_state :: "recovered_state \<Rightarrow> bool" where
  "has_state s \<longleftrightarrow> rs_state_snapshot s \<noteq> None \<or> rs_state_changes s \<noteq> []"

text \<open>The log files, by path: the segments of the per-core log, and others.\<close>

datatype wal_path = SegmentPath nat | OtherPath string

type_synonym files = "wal_path \<Rightarrow> bytes option"

record recovery_config =
  rc_wal_path :: wal_path
  rc_repair_wal :: bool
  rc_collect_state_changes :: bool
  rc_max_wal_entries :: nat

definition recovery_config_new :: "wal_path \<Rightarrow> recovery_config" where
  "recovery_config_new path =
     \<lparr>rc_wal_path = path, rc_repair_wal = True, rc_collect_state_changes = False, rc_max_wal_entries = 0\<rparr>"

definition load_checkpoint :: "(bytes \<Rightarrow> string + state_snapshot) \<Rightarrow> 'j ckpt_fs \<Rightarrow> ckpt_metadata \<Rightarrow> recovered_state" where
  "load_checkpoint sd fs mm =
     (let result = recovered_empty
            \<lparr>rs_checkpoint_id := Some (mm_id mm), rs_epoch := mm_epoch mm, rs_wal_position := mm_wal_position mm,
             rs_source_offsets := mm_source_offsets mm, rs_watermark := mm_watermark mm\<rparr>
      in case load_checkpoint_state fs (mm_id mm) of
           Inr data \<Rightarrow>
             (case sd data of
                Inr snapshot \<Rightarrow> result\<lparr>rs_state_snapshot := Some snapshot\<rparr>
              | Inl _ \<Rightarrow> result)
         | Inl _ \<Rightarrow> result)"

record wal_replay_result =
  wr_entries_replayed :: nat
  wr_final_position :: nat
  wr_source_offsets :: "(string, nat) hashmap"
  wr_watermark :: "i64 option"
  wr_state_changes :: "(bytes \<times> bytes option) list"

definition insert_offsets :: "(string, nat) hashmap \<Rightarrow> (string, nat) hashmap \<Rightarrow> (string, nat) hashmap" where
  "insert_offsets offsets m = fold (\<lambda>(s, n). AList.update s n) offsets m"

fun replay_entry :: "bool \<Rightarrow> wal_record \<Rightarrow> wal_replay_result \<Rightarrow> wal_replay_result" where
  "replay_entry collect (LogPut k v) res =
     (if collect then res\<lparr>wr_state_changes := wr_state_changes res @ [(k, Some v)]\<rparr> else res)"
| "replay_entry collect (LogDelete k) res =
     (if collect then res\<lparr>wr_state_changes := wr_state_changes res @ [(k, None)]\<rparr> else res)"
| "replay_entry collect (LogCommit offsets wm) res =
     res\<lparr>wr_source_offsets := insert_offsets offsets (wr_source_offsets res),
         wr_watermark := (if wm \<noteq> None then wm else wr_watermark res)\<rparr>"
| "replay_entry collect (LogCheckpoint n) res = res"

function replay_loop ::
  "wal_record codec \<Rightarrow> bool \<Rightarrow> nat \<Rightarrow> wal_reader \<Rightarrow> wal_replay_result \<Rightarrow> wal_error + wal_replay_result" where
  "replay_loop c collect max_entries r res =
     (if wr_entries_replayed res \<ge> max_entries then Inr res
      else
        case wl_read_next c r of
          (r', Inr (Entry e)) \<Rightarrow>
            replay_loop c collect max_entries r'
              (replay_entry collect e
                (res\<lparr>wr_final_position := rd_position r', wr_entries_replayed := wr_entries_replayed res + 1\<rparr>))
        | (r', Inl err) \<Rightarrow> Inl err
        | (r', Inr _) \<Rightarrow> Inr res)"
  by pat_completeness auto
termination
  by (relation "measure (\<lambda>(c, b, m, r, res). rd_file_len r - rd_position r)")
    (auto simp: wl_read_next_def dest: read_next_measure)

declare replay_loop.simps [simp del]

text \<open>The log is opened, repaired if configured (a failed repair is ignored), and read from the position.\<close>

definition replay_wal ::
  "wal_record codec \<Rightarrow> recovery_config \<Rightarrow> nat \<Rightarrow> bytes \<Rightarrow> nat \<Rightarrow> bytes \<times> (ckpt_error + wal_replay_result)" where
  "replay_wal c cfg now contents start_position =
     (let wal = wl_new contents (100 * 10 ^ 6) now;
          wal1 = (if rc_repair_wal cfg then fst (wl_repair c now wal) else wal);
          res = \<lparr>wr_entries_replayed = 0, wr_final_position = start_position, wr_source_offsets = [],
                 wr_watermark = None, wr_state_changes = []\<rparr>;
          max_entries = (if rc_max_wal_entries cfg > 0 then rc_max_wal_entries cfg else 2 ^ 64 - 1)
      in (wl_file wal1,
          case replay_loop c (rc_collect_state_changes cfg) max_entries (wl_read_from wal1 start_position) res of
            Inl err \<Rightarrow> Inl (CkWal err)
          | Inr res' \<Rightarrow> Inr res'))"

text \<open>The result is the log files afterwards and the outcome.\<close>

definition recover ::
  "'j json_codec \<Rightarrow> (bytes \<Rightarrow> string + state_snapshot) \<Rightarrow> wal_record codec \<Rightarrow> recovery_config \<Rightarrow> nat \<Rightarrow>
   'j ckpt_fs \<Rightarrow> files \<Rightarrow> files \<times> (ckpt_error + recovered_state)" where
  "recover js sd c cfg now fs wal =
     (case ckpt_new config_new fs of
        Inl e \<Rightarrow> (wal, Inl e)
      | Inr manager \<Rightarrow>
          (case find_latest_checkpoint js manager fs of
             Inl e \<Rightarrow> (wal, Inl e)
           | Inr latest \<Rightarrow>
               let result = (case latest of Some mm \<Rightarrow> load_checkpoint sd fs mm | None \<Rightarrow> recovered_empty)
               in case wal (rc_wal_path cfg) of
                    None \<Rightarrow> (wal, Inr result)
                  | Some contents \<Rightarrow>
                      (case replay_wal c cfg now contents (rs_wal_position result) of
                         (contents', Inl e) \<Rightarrow> (wal(rc_wal_path cfg \<mapsto> contents'), Inl e)
                       | (contents', Inr res) \<Rightarrow>
                           (wal(rc_wal_path cfg \<mapsto> contents'),
                            Inr (result
                              \<lparr>rs_wal_entries_replayed := wr_entries_replayed res,
                               rs_wal_position := wr_final_position res,
                               rs_source_offsets := insert_offsets (wr_source_offsets res) (rs_source_offsets result),
                               rs_watermark := (if wr_watermark res \<noteq> None then wr_watermark res else rs_watermark result),
                               rs_state_changes :=
                                 (if rc_collect_state_changes cfg then wr_state_changes res else rs_state_changes result)\<rparr>)))))"

definition recover_simple ::
  "'j json_codec \<Rightarrow> (bytes \<Rightarrow> string + state_snapshot) \<Rightarrow> wal_record codec \<Rightarrow> nat \<Rightarrow> 'j ckpt_fs \<Rightarrow> files \<Rightarrow> wal_path \<Rightarrow>
   files \<times> (ckpt_error + recovered_state)" where
  "recover_simple js sd c now fs wal path = recover js sd c (recovery_config_new path) now fs wal"

definition recover_with_changes ::
  "'j json_codec \<Rightarrow> (bytes \<Rightarrow> string + state_snapshot) \<Rightarrow> wal_record codec \<Rightarrow> nat \<Rightarrow> 'j ckpt_fs \<Rightarrow> files \<Rightarrow> wal_path \<Rightarrow>
   files \<times> (ckpt_error + recovered_state)" where
  "recover_with_changes js sd c now fs wal path =
     recover js sd c ((recovery_config_new path)\<lparr>rc_collect_state_changes := True\<rparr>) now fs wal"

definition validate_checkpoint ::
  "'j json_codec \<Rightarrow> (bytes \<Rightarrow> string + state_snapshot) \<Rightarrow> 'j ckpt_dir \<Rightarrow> ckpt_error + ckpt_metadata" where
  "validate_checkpoint js sd d =
     (case dir_metadata d of
        None \<Rightarrow> Inl (CkNotFound ''metadata.json not found'')
      | Some s \<Rightarrow>
          (case from_json js s of
             Inl e \<Rightarrow> Inl e
           | Inr mm \<Rightarrow>
               (case dir_state d of
                  None \<Rightarrow> Inr mm
                | Some data \<Rightarrow> (case sd data of Inl e \<Rightarrow> Inl (CkCorruption e) | Inr _ \<Rightarrow> Inr mm))))"

definition wal_size :: "files \<Rightarrow> wal_path \<Rightarrow> nat" where
  "wal_size wal path = (case wal path of None \<Rightarrow> 0 | Some b \<Rightarrow> length b)"

section \<open>Coordinator of the per-core log\<close>

datatype pc_error = PcWal wal_error | PcCheckpoint ckpt_error

record pc_coordinator =
  pc_wal :: wal_manager
  pc_ckpt :: ckpt_manager

record pc_metadata =
  pcm_checkpoint :: ckpt_metadata
  pcm_wal_positions :: "nat list"
  pcm_entries_merged :: nat

definition pc_new :: "wal_manager \<Rightarrow> checkpoint_config \<Rightarrow> 'j ckpt_fs \<Rightarrow> pc_error + pc_coordinator" where
  "pc_new w cfg fs =
     (case ckpt_new cfg fs of Inl e \<Rightarrow> Inl (PcCheckpoint e) | Inr m \<Rightarrow> Inr \<lparr>pc_wal = w, pc_ckpt = m\<rparr>)"

fun apply_operation :: "wal_operation \<Rightarrow> ckpt_manager \<Rightarrow> ckpt_manager" where
  "apply_operation (Put k v) m = ckpt_put m k v"
| "apply_operation (Delete k) m = ckpt_delete m k"
| "apply_operation (Commit offsets wm) m =
     (let m1 = fold (\<lambda>(s, n) m. set_source_offset m s n) offsets m
      in case wm of Some w \<Rightarrow> ckpt_set_watermark m1 w | None \<Rightarrow> m1)"
| "apply_operation (Checkpoint _) m = m"
| "apply_operation (EpochBarrier _) m = m"

definition apply_entries_to_checkpoint :: "wal_entry list \<Rightarrow> ckpt_manager \<Rightarrow> ckpt_manager" where
  "apply_entries_to_checkpoint entries m = fold (\<lambda>e. apply_operation (we_operation e)) entries m"

definition pc_create_checkpoint ::
  "wal_entry codec \<Rightarrow> 'j json_codec \<Rightarrow> (nat \<Rightarrow> i64) \<Rightarrow> nat \<Rightarrow> pc_coordinator \<Rightarrow> 'j ckpt_fs \<Rightarrow> nat \<Rightarrow>
   (pc_coordinator \<times> 'j ckpt_fs) \<times> (pc_error + pc_metadata)" where
  "pc_create_checkpoint c js clocks now co fs checkpoint_id =
     (let (w1, epoch) = advance_epoch (pc_wal co);
          (w2, err) = write_epoch_barrier_all c clocks (set_epoch_all w1 epoch)
      in case err of
           Some e \<Rightarrow> ((co\<lparr>pc_wal := w2\<rparr>, fs), Inl (PcWal e))
         | None \<Rightarrow>
             let w3 = sync_all w2; wal_positions = positions w3
             in case merge_segments c (pm_num_cores w3) (files_of w3) of
                  Inl e \<Rightarrow> ((co\<lparr>pc_wal := w3\<rparr>, fs), Inl (PcWal e))
                | Inr merged \<Rightarrow>
                    (case create_checkpoint js now (apply_entries_to_checkpoint merged (pc_ckpt co)) fs checkpoint_id of
                       ((ck, fs'), Inl e) \<Rightarrow> ((\<lparr>pc_wal = w3, pc_ckpt = ck\<rparr>, fs'), Inl (PcCheckpoint e))
                     | ((ck, fs'), Inr mm) \<Rightarrow>
                         ((\<lparr>pc_wal = reset_all w3, pc_ckpt = ck\<rparr>, fs'),
                          Inr \<lparr>pcm_checkpoint = mm, pcm_wal_positions = wal_positions,
                               pcm_entries_merged = length merged\<rparr>)))"

definition pc_create_checkpoint_no_truncate ::
  "wal_entry codec \<Rightarrow> 'j json_codec \<Rightarrow> (nat \<Rightarrow> i64) \<Rightarrow> nat \<Rightarrow> pc_coordinator \<Rightarrow> 'j ckpt_fs \<Rightarrow> nat \<Rightarrow>
   (pc_coordinator \<times> 'j ckpt_fs) \<times> (pc_error + pc_metadata)" where
  "pc_create_checkpoint_no_truncate c js clocks now co fs checkpoint_id =
     (let (w1, epoch) = advance_epoch (pc_wal co);
          (w2, err) = write_epoch_barrier_all c clocks (set_epoch_all w1 epoch)
      in case err of
           Some e \<Rightarrow> ((co\<lparr>pc_wal := w2\<rparr>, fs), Inl (PcWal e))
         | None \<Rightarrow>
             let w3 = sync_all w2; wal_positions = positions w3
             in case merge_segments c (pm_num_cores w3) (files_of w3) of
                  Inl e \<Rightarrow> ((co\<lparr>pc_wal := w3\<rparr>, fs), Inl (PcWal e))
                | Inr merged \<Rightarrow>
                    (case create_checkpoint js now (apply_entries_to_checkpoint merged (pc_ckpt co)) fs checkpoint_id of
                       ((ck, fs'), Inl e) \<Rightarrow> ((\<lparr>pc_wal = w3, pc_ckpt = ck\<rparr>, fs'), Inl (PcCheckpoint e))
                     | ((ck, fs'), Inr mm) \<Rightarrow>
                         ((\<lparr>pc_wal = w3, pc_ckpt = ck\<rparr>, fs'),
                          Inr \<lparr>pcm_checkpoint = mm, pcm_wal_positions = wal_positions,
                               pcm_entries_merged = length merged\<rparr>)))"

definition pc_flush :: "pc_coordinator \<Rightarrow> pc_coordinator" where
  "pc_flush co = co\<lparr>pc_wal := sync_all (pc_wal co)\<rparr>"

section \<open>Recovery from the segments\<close>

record state_change =
  sc_key :: bytes
  sc_value :: "bytes option"
  sc_epoch :: nat
  sc_core_id :: nat

record pc_recovered =
  pr_base_state :: recovered_state
  pr_state_changes :: "state_change list"
  pr_wal_positions :: "nat list"
  pr_entries_replayed :: nat
  pr_final_epoch :: nat

fun read_segments_loop ::
  "wal_entry codec \<Rightarrow> files \<Rightarrow> nat list \<Rightarrow> nat list \<Rightarrow> wal_entry list \<Rightarrow> nat list \<Rightarrow>
   wal_error + wal_entry list \<times> nat list" where
  "read_segments_loop c d starts [] entries final = Inr (entries, final)"
| "read_segments_loop c d starts (i # is) entries final =
     (case d (SegmentPath i) of
        None \<Rightarrow> read_segments_loop c d starts is entries (final @ [0])
      | Some contents \<Rightarrow>
          (case read_all c (reader_open_from i contents (if i < length starts then starts ! i else 0)) of
             (r, Inl err) \<Rightarrow> Inl err
           | (r, Inr es) \<Rightarrow> read_segments_loop c d starts is (entries @ es) (final @ [rd_position r])))"

definition read_all_segments ::
  "wal_entry codec \<Rightarrow> nat \<Rightarrow> files \<Rightarrow> nat list \<Rightarrow> wal_error + wal_entry list \<times> nat list" where
  "read_all_segments c num_cores d starting_positions =
     (case read_segments_loop c d starting_positions [0..<num_cores] [] [] of
        Inl err \<Rightarrow> Inl err
      | Inr (all_entries, final_positions) \<Rightarrow> Inr (sort_key sort_fields all_entries, final_positions))"

definition state_changes_of :: "wal_entry list \<Rightarrow> state_change list" where
  "state_changes_of entries =
     List.map_filter (\<lambda>e. case we_operation e of
         Put k v \<Rightarrow> Some \<lparr>sc_key = k, sc_value = Some v, sc_epoch = we_epoch e, sc_core_id = we_core_id e\<rparr>
       | Delete k \<Rightarrow> Some \<lparr>sc_key = k, sc_value = None, sc_epoch = we_epoch e, sc_core_id = we_core_id e\<rparr>
       | _ \<Rightarrow> None) entries"

definition recover_from_positions ::
  "'j json_codec \<Rightarrow> (bytes \<Rightarrow> string + state_snapshot) \<Rightarrow> wal_record codec \<Rightarrow> wal_entry codec \<Rightarrow> nat \<Rightarrow> recovery_config \<Rightarrow>
   nat \<Rightarrow> 'j ckpt_fs \<Rightarrow> files \<Rightarrow> nat list \<Rightarrow> files \<times> (pc_error + pc_recovered)" where
  "recover_from_positions js sd lc c num_cores cfg now fs wal ps =
     (case recover js sd lc cfg now fs wal of
        (wal1, Inl e) \<Rightarrow> (wal1, Inl (PcCheckpoint e))
      | (wal1, Inr base_state) \<Rightarrow>
          (wal1,
           let starting_positions = (if length ps = num_cores then ps else replicate num_cores 0)
           in case read_all_segments c num_cores wal1 starting_positions of
                Inl err \<Rightarrow> Inl (PcWal err)
              | Inr (entries, wal_positions) \<Rightarrow>
                  Inr \<lparr>pr_base_state = base_state, pr_state_changes = state_changes_of entries,
                       pr_wal_positions = wal_positions, pr_entries_replayed = length entries,
                       pr_final_epoch = fold (\<lambda>e m. max m (we_epoch e)) entries (rs_epoch base_state)\<rparr>))"

definition pc_recover ::
  "'j json_codec \<Rightarrow> (bytes \<Rightarrow> string + state_snapshot) \<Rightarrow> wal_record codec \<Rightarrow> wal_entry codec \<Rightarrow> nat \<Rightarrow> recovery_config \<Rightarrow>
   nat \<Rightarrow> 'j ckpt_fs \<Rightarrow> files \<Rightarrow> files \<times> (pc_error + pc_recovered)" where
  "pc_recover js sd lc c num_cores cfg now fs wal = recover_from_positions js sd lc c num_cores cfg now fs wal []"

definition recover_wal_only :: "wal_entry codec \<Rightarrow> nat \<Rightarrow> files \<Rightarrow> wal_error + wal_entry list" where
  "recover_wal_only c num_cores d =
     (case read_all_segments c num_cores d (replicate num_cores 0) of
        Inl err \<Rightarrow> Inl err
      | Inr (entries, _) \<Rightarrow> Inr entries)"

fun repair_segments_loop ::
  "wal_entry codec \<Rightarrow> nat list \<Rightarrow> files \<Rightarrow> nat list \<Rightarrow> files \<times> (wal_error + nat list)" where
  "repair_segments_loop c [] d valid = (d, Inr valid)"
| "repair_segments_loop c (i # is) d valid =
     (case d (SegmentPath i) of
        None \<Rightarrow> repair_segments_loop c is d (valid @ [0])
      | Some contents \<Rightarrow>
          (case find_valid_end c (reader_open i contents) of
             (r, Inl err) \<Rightarrow> (d, Inl err)
           | (r, Inr valid_end) \<Rightarrow>
               repair_segments_loop c is
                 (if valid_end < rd_file_len r then d(SegmentPath i \<mapsto> set_len valid_end contents) else d)
                 (valid @ [valid_end])))"

definition repair_all_segments :: "wal_entry codec \<Rightarrow> nat \<Rightarrow> files \<Rightarrow> files \<times> (wal_error + nat list)" where
  "repair_all_segments c num_cores d = repair_segments_loop c [0..<num_cores] d []"

record segment_stats =
  st_core_id :: nat
  st_file_size :: nat
  st_entry_count :: nat
  st_min_epoch :: nat
  st_max_epoch :: nat

fun stats_loop :: "wal_entry codec \<Rightarrow> files \<Rightarrow> nat list \<Rightarrow> segment_stats list \<Rightarrow> wal_error + segment_stats list" where
  "stats_loop c d [] stats = Inr stats"
| "stats_loop c d (i # is) stats =
     (case d (SegmentPath i) of
        None \<Rightarrow>
          stats_loop c d is (stats @ [\<lparr>st_core_id = i, st_file_size = 0, st_entry_count = 0, st_min_epoch = 0, st_max_epoch = 0\<rparr>])
      | Some contents \<Rightarrow>
          (case read_all c (reader_open i contents) of
             (r, Inl err) \<Rightarrow> Inl err
           | (r, Inr entries) \<Rightarrow>
               let epochs = map we_epoch entries
               in stats_loop c d is
                    (stats @ [\<lparr>st_core_id = i, st_file_size = rd_file_len r, st_entry_count = length entries,
                               st_min_epoch = (if epochs = [] then 0 else Min (set epochs)),
                               st_max_epoch = (if epochs = [] then 0 else Max (set epochs))\<rparr>])))"

definition segment_stats_all :: "wal_entry codec \<Rightarrow> nat \<Rightarrow> files \<Rightarrow> wal_error + segment_stats list" where
  "segment_stats_all c num_cores d = stats_loop c d [0..<num_cores] []"

section \<open>What recovery restores\<close>

text \<open>The effect of a log: the keyed state, the source offsets and the watermark.\<close>

type_synonym log_state = "(bytes \<rightharpoonup> bytes) \<times> (string \<rightharpoonup> nat) \<times> i64 option"

definition set_offsets :: "(string, nat) hashmap \<Rightarrow> (string \<rightharpoonup> nat) \<Rightarrow> (string \<rightharpoonup> nat)" where
  "set_offsets offsets m = fold (\<lambda>(s, n) m. m(s \<mapsto> n)) offsets m"

fun apply_record :: "wal_record \<Rightarrow> log_state \<Rightarrow> log_state" where
  "apply_record (LogPut k v) (st, off, wm) = (st(k \<mapsto> v), off, wm)"
| "apply_record (LogDelete k) (st, off, wm) = (st(k := None), off, wm)"
| "apply_record (LogCommit offsets w) (st, off, wm) = (st, set_offsets offsets off, if w \<noteq> None then w else wm)"
| "apply_record (LogCheckpoint n) s = s"

definition log_effect :: "wal_record list \<Rightarrow> log_state" where
  "log_effect es = fold apply_record es (Map.empty, Map.empty, None)"

text \<open>The state a recovery result stands for: the snapshot with the collected changes applied in order.\<close>

definition apply_changes :: "(bytes \<times> bytes option) list \<Rightarrow> (bytes \<rightharpoonup> bytes) \<Rightarrow> (bytes \<rightharpoonup> bytes)" where
  "apply_changes cs st = fold (\<lambda>(k, v) st. st(k := v)) cs st"

definition recovered :: "recovered_state \<Rightarrow> log_state" where
  "recovered rs =
     (apply_changes (rs_state_changes rs)
        (case rs_state_snapshot rs of Some snap \<Rightarrow> map_of (ss_data snap) | None \<Rightarrow> Map.empty),
      map_of (rs_source_offsets rs), rs_watermark rs)"

lemma map_of_insert_offsets: "map_of (insert_offsets os m) = set_offsets os (map_of m)"
  unfolding insert_offsets_def set_offsets_def
  by (induction os arbitrary: m) (auto simp: update_conv')

lemma set_offsets_add: "set_offsets os (a ++ b) = a ++ set_offsets os b"
  unfolding set_offsets_def by (induction os arbitrary: b) (auto simp flip: map_add_upd)

lemma set_offsets_distinct: "distinct (map fst os) \<Longrightarrow> set_offsets os m = m ++ map_of os"
proof (induction os arbitrary: m)
  case (Cons x os)
  obtain s n where x: "x = (s, n)" by fastforce
  have "s \<notin> dom (map_of os)" using Cons.prems x by (auto simp: dom_map_of_conv_image_fst)
  have "set_offsets (x # os) m = set_offsets os (m(s \<mapsto> n))"
    by (simp add: set_offsets_def x)
  also have "\<dots> = m(s \<mapsto> n) ++ map_of os"
    using Cons by simp
  also have "\<dots> = m ++ map_of (x # os)"
    using \<open>s \<notin> dom (map_of os)\<close> by (auto simp: x map_add_def split: option.split)
  finally show ?case .
qed (simp add: set_offsets_def)

lemma insert_offsets_distinct: "distinct (map fst m) \<Longrightarrow> distinct (map fst (insert_offsets os m))"
  unfolding insert_offsets_def by (induction os arbitrary: m) (auto simp: distinct_update)

text \<open>Replaying records collects what they do to any earlier state.\<close>

lemma replay_entries:
  fixes res es
  defines "r \<equiv> fold (replay_entry True) es res"
  assumes "wr_source_offsets res = []" "wr_watermark res = None" "wr_state_changes res = []"
  shows "fold apply_record es (st, off, wm) =
      (apply_changes (wr_state_changes r) st, off ++ map_of (wr_source_offsets r),
       if wr_watermark r \<noteq> None then wr_watermark r else wm)"
    and "distinct (map fst (wr_source_offsets r))"
proof -
  have "fold apply_record es (st, off, wm) =
      (apply_changes (wr_state_changes r) st, off ++ map_of (wr_source_offsets r),
       if wr_watermark r \<noteq> None then wr_watermark r else wm) \<and> distinct (map fst (wr_source_offsets r))"
    unfolding r_def
  proof (induction es rule: rev_induct)
    case (snoc e es)
    then show ?case
      by (cases e) (auto simp: apply_changes_def map_of_insert_offsets set_offsets_add insert_offsets_distinct)
  qed (simp add: assms apply_changes_def)
  then show "fold apply_record es (st, off, wm) =
      (apply_changes (wr_state_changes r) st, off ++ map_of (wr_source_offsets r),
       if wr_watermark r \<noteq> None then wr_watermark r else wm)"
    and "distinct (map fst (wr_source_offsets r))"
    by blast+
qed

lemma replay_entry_frame:
  "replay_entry b e (res\<lparr>wr_final_position := p, wr_entries_replayed := n\<rparr>) =
   (replay_entry b e res)\<lparr>wr_final_position := p, wr_entries_replayed := n\<rparr>"
  "wr_entries_replayed (replay_entry b e res) = wr_entries_replayed res"
  "wr_final_position (replay_entry b e res) = wr_final_position res"
  by (cases e; simp)+

lemma replay_without_changes:
  "wr_state_changes res = [] \<Longrightarrow>
   fold (replay_entry False) es res = (fold (replay_entry True) es res)\<lparr>wr_state_changes := []\<rparr>"
proof (induction es rule: rev_induct)
  case (snoc e es)
  then show ?case by (cases e) simp_all
qed simp

lemma replay_fold_frame:
  "fold (replay_entry b) es (res\<lparr>wr_final_position := p, wr_entries_replayed := n\<rparr>) =
   (fold (replay_entry b) es res)\<lparr>wr_final_position := p, wr_entries_replayed := n\<rparr>"
  by (induction es arbitrary: res) (simp_all add: replay_entry_frame)

lemma replay_loop_step:
  shows "n < m \<Longrightarrow> wr_entries_replayed res = n \<Longrightarrow> read_next c r = (r', Inr (Entry e)) \<Longrightarrow>
      replay_loop c b m r res =
      replay_loop c b m r' (replay_entry b e (res\<lparr>wr_final_position := rd_position r', wr_entries_replayed := n + 1\<rparr>))"
    and "read_next c r = (r', Inr Eof) \<Longrightarrow> replay_loop c b m r res = Inr res"
    and "read_next c r = (r', Inr (TornWrite p q)) \<Longrightarrow> replay_loop c b m r res = Inr res"
  by (subst replay_loop.simps, simp add: wl_read_next_def)+

lemma replay_cut:
  assumes enc: "encoded c es bs" and ok: "codec_ok c"
    and "rd_data r = pre @ take k (log_of c bs)" "rd_position r = length pre" "rd_file_len r = length (rd_data r)"
    and "wr_final_position res = length pre" "wr_entries_replayed res + length es < m"
  shows "replay_loop c b m r res =
    Inr ((fold (replay_entry b) (take (fits bs k) es) res)
      \<lparr>wr_final_position := length pre + length (log_of c (take (fits bs k) bs)),
       wr_entries_replayed := wr_entries_replayed res + fits bs k\<rparr>)"
  using assms(1,3-) unfolding encoded_def
proof (induction es bs arbitrary: r pre k res rule: list_all2_induct)
  case Nil
  have "read_next c r = (r, Inr Eof)"
    by (rule read_next_end) (simp_all add: Nil)
  then show ?case using Nil by (simp add: replay_loop_step(2))
next
  case (Cons e es b1 bs)
  then have b: "length b1 \<le> max_wal_entry_size" "cd_de c b1 = Inr e"
    using ok by (auto simp: codec_ok_def)
  consider (whole) "8 + length b1 \<le> k" | (none) "k = 0" | (torn) "0 < k" "k < 8 + length b1"
    by linarith
  then show ?case
  proof cases
    case whole
    let ?r = "r\<lparr>rd_position := length pre + (8 + length b1)\<rparr>"
    let ?res = "replay_entry b e (res\<lparr>wr_final_position := rd_position ?r, wr_entries_replayed := wr_entries_replayed res + 1\<rparr>)"
    have split: "rd_data r = pre @ frame c b1 @ take (k - (8 + length b1)) (log_of c bs)"
      using Cons.prems(1) whole by simp
    have "read_next c r = (?r, Inr (Entry e))"
      using read_next_frame [OF split Cons.prems(2,3) b] .
    then have "replay_loop c b m r res = replay_loop c b m ?r ?res"
      using Cons.prems(5) by (intro replay_loop_step(1)) simp_all
    moreover have "replay_loop c b m ?r ?res =
      Inr ((fold (replay_entry b) (take (fits bs (k - (8 + length b1))) es) ?res)
        \<lparr>wr_final_position := length (pre @ frame c b1) + length (log_of c (take (fits bs (k - (8 + length b1))) bs)),
         wr_entries_replayed := wr_entries_replayed ?res + fits bs (k - (8 + length b1))\<rparr>)"
      by (rule Cons.IH) (use Cons.prems split in \<open>simp_all add: replay_entry_frame\<close>)
    ultimately show ?thesis
      using whole by (simp add: replay_entry_frame replay_fold_frame add.assoc)
  next
    case none
    then have "read_next c r = (r, Inr Eof)" using Cons.prems by (intro read_next_end) simp_all
    then show ?thesis using none Cons.prems by (simp add: replay_loop_step(2))
  next
    case torn
    have "rd_data r = pre @ take k (frame c b1)" using Cons.prems(1) torn by simp
    then obtain r' q where "read_next c r = (r', Inr (TornWrite (length pre) q))"
      using read_next_torn [OF _ Cons.prems(2,3) b(1) torn] by blast
    then show ?thesis using torn Cons.prems by (simp add: replay_loop_step(3))
  qed
qed

lemma replay_wal_cut:
  assumes enc: "encoded c es bs" and ok: "codec_ok c" and p: "p \<le> j" and j: "j = fits bs k"
    and cfg: "rc_repair_wal cfg" "rc_max_wal_entries cfg = 0" and len: "length es < 2 ^ 64 - 1"
    and start: "start = length (log_of c (take p bs))"
  shows "replay_wal c cfg now (take k (log_of c bs)) start =
    (log_of c (take j bs),
     Inr ((fold (replay_entry (rc_collect_state_changes cfg)) (drop p (take j es))
             \<lparr>wr_entries_replayed = 0, wr_final_position = start, wr_source_offsets = [], wr_watermark = None, wr_state_changes = []\<rparr>)
        \<lparr>wr_final_position := length (log_of c (take j bs)), wr_entries_replayed := j - p\<rparr>))"
proof -
  let ?bs = "drop p (take j bs)" and ?es = "drop p (take j es)"
  have pj: "take p (take j bs) = take p bs" using p by (simp add: min_def)
  have split: "log_of c (take j bs) = log_of c (take p bs) @ log_of c ?bs"
    by (metis append_take_drop_id log_of_simps(3) pj)
  have enc': "encoded c ?es ?bs"
    by (rule encoded_drop [OF encoded_take [OF enc]])
  have all: "fits ?bs (length (log_of c ?bs)) = length ?bs"
    by (rule fits_all [OF order_refl])
  have n: "length ?bs = j - p" "length ?es = j - p"
    using fits_le [of bs k] j encoded_length [OF enc] by simp_all
  have "length ?es \<le> length es" by simp
  then have small: "length ?es < 2 ^ 64 - 1" using len by linarith
  let ?res = "\<lparr>wr_entries_replayed = 0, wr_final_position = start, wr_source_offsets = [], wr_watermark = None, wr_state_changes = []\<rparr>"
  let ?r = "reader_open_from 0 (log_of c (take j bs)) start"
  have "replay_loop c (rc_collect_state_changes cfg) (2 ^ 64 - 1) ?r ?res =
    Inr ((fold (replay_entry (rc_collect_state_changes cfg)) (take (fits ?bs (length (log_of c ?bs))) ?es) ?res)
      \<lparr>wr_final_position := length (log_of c (take p bs)) + length (log_of c (take (fits ?bs (length (log_of c ?bs))) ?bs)),
       wr_entries_replayed := wr_entries_replayed ?res + fits ?bs (length (log_of c ?bs))\<rparr>)"
    by (rule replay_cut [OF enc' ok]) (use small in \<open>simp_all add: reader_open_from_def split start\<close>)
  then have "replay_loop c (rc_collect_state_changes cfg) (2 ^ 64 - 1) ?r ?res =
    Inr ((fold (replay_entry (rc_collect_state_changes cfg)) ?es ?res)
      \<lparr>wr_final_position := length (log_of c (take j bs)), wr_entries_replayed := j - p\<rparr>)"
    unfolding all using n split by simp
  then show ?thesis
    using wl_repair_cut(2) [OF enc j refl] cfg
    by (simp add: replay_wal_def Let_def wl_read_from_def)
qed

text \<open>The latest checkpoint holds the effect of the first \<^verbatim>\<open>p\<close> records of the log; without one, \<^verbatim>\<open>p\<close> is zero.\<close>

definition captures ::
  "(bytes \<Rightarrow> string + state_snapshot) \<Rightarrow> wal_record codec \<Rightarrow> wal_record list \<Rightarrow> bytes list \<Rightarrow>
   (ckpt_metadata \<times> bytes option) list \<Rightarrow> nat \<Rightarrow> bool" where
  "captures sd c es bs hist p \<longleftrightarrow>
     (case hist of
        [] \<Rightarrow> p = 0
      | (mm, st) # _ \<Rightarrow>
          \<exists>b snap. st = Some b \<and> sd b = Inr snap \<and> mm_wal_position mm = length (log_of c (take p bs)) \<and>
            log_effect (take p es) = (map_of (ss_data snap), map_of (mm_source_offsets mm), mm_watermark mm))"

lemma latest_loaded:
  assumes js: "json_ok js" and I: "ck_inv js m fs hist" "0 < cc_max_retained (im_config m)"
  shows "\<exists>mg. ckpt_new config_new fs = Inr mg \<and>
      find_latest_checkpoint js mg fs = Inr (case hist of [] \<Rightarrow> None | (mm, st) # _ \<Rightarrow> Some mm)"
    and "hist = (mm, st) # h \<Longrightarrow> load_checkpoint_state fs (mm_id mm) =
      (case st of Some b \<Rightarrow> Inr b | None \<Rightarrow> Inl (CkNotFound (''State file not found for checkpoint '' @ dec_nat (mm_id mm))))"
proof -
  have scan: "scan_checkpoints fs = (Suc (length hist), latest_of hist)"
    by (rule ck_inv_restart [OF I(1) js I(2)])
  have top: "\<exists>s. js_from js s = Inr mm \<and> map_of fs (mm_id mm) = Some \<lparr>dir_metadata = Some s, dir_state = st\<rparr>"
    if "hist = (mm, st) # h" for mm st h
  proof -
    obtain s where s: "js_to js mm = Inr s" "js_from js s = Inr mm"
      using js unfolding json_ok_def by blast
    have "(mm, st) \<in> set (take (cc_max_retained (im_config m)) hist)"
      using that I(2) by (cases "cc_max_retained (im_config m)") simp_all
    moreover have "holds js fs (take (cc_max_retained (im_config m)) hist)"
      using I(1) by (simp add: ck_inv_def)
    ultimately show ?thesis using s unfolding holds_def by blast
  qed
  show "\<exists>mg. ckpt_new config_new fs = Inr mg \<and>
      find_latest_checkpoint js mg fs = Inr (case hist of [] \<Rightarrow> None | (mm, st) # _ \<Rightarrow> Some mm)"
  proof (cases hist)
    case Nil
    then show ?thesis
      by (simp add: ckpt_new_def scan latest_of_def find_latest_checkpoint_def config_validate_def config_new_def)
  next
    case (Cons x h)
    obtain mm st where x: "x = (mm, st)" by fastforce
    obtain s where "js_from js s = Inr mm" "map_of fs (mm_id mm) = Some \<lparr>dir_metadata = Some s, dir_state = st\<rparr>"
      using top Cons x by blast
    then show ?thesis
      by (simp add: ckpt_new_def scan latest_of_def find_latest_checkpoint_def config_validate_def config_new_def
          load_checkpoint_metadata_def from_json_def Cons x)
  qed
  show "load_checkpoint_state fs (mm_id mm) =
      (case st of Some b \<Rightarrow> Inr b | None \<Rightarrow> Inl (CkNotFound (''State file not found for checkpoint '' @ dec_nat (mm_id mm))))"
    if "hist = (mm, st) # h"
    using top [OF that] by (auto simp: load_checkpoint_state_def)
qed

text \<open>
  (C4) Crash recovery is exact: if the latest checkpoint holds the effect of the first \<^verbatim>\<open>p\<close> records and the log
  file was cut off at any byte behind them, recovery restores exactly the state, the source offsets and the
  watermark that result from all records that survived in full, and leaves the log truncated to them. This is
  \<^verbatim>\<open>recover_with_changes\<close>; \<^verbatim>\<open>recover_simple\<close> returns the same but for the changes of the state behind the checkpoint,
  which it leaves out. The records are assumed to encode to at most 256 MiB, the limit of the reader that appending
  does not enforce, and to be fewer than 2 to the 64.
\<close>

theorem recover_spec:
  assumes js: "json_ok (js :: 'j json_codec)" and ok: "codec_ok c" and enc: "encoded c es bs"
    and len: "length es < 2 ^ 64 - 1"
    and new: "ckpt_new cfg ([] :: 'j ckpt_fs) = Inr m0"
    and run: "ckpt_run js ops (m0, []) [] = ((m, fs), hist)"
    and cap: "captures sd c es bs hist p" and p: "p \<le> fits bs k"
    and crash: "wal path = Some (take k (log_of c bs))"
  shows "\<exists>wal' rs. recover_with_changes js sd c now fs wal path = (wal', Inr rs) \<and>
    recovered rs = log_effect (take (fits bs k) es) \<and>
    rs_wal_position rs = length (log_of c (take (fits bs k) bs)) \<and>
    rs_checkpoint_id rs = latest_of hist \<and>
    wal' = wal(path \<mapsto> log_of c (take (fits bs k) bs)) \<and>
    recover_simple js sd c now fs wal path = (wal', Inr (rs\<lparr>rs_state_changes := []\<rparr>))"
proof -
  define j where "j = fits bs k"
  note I = ckpt_run_ck_inv(1,2) [OF js new run]
  let ?cfg = "(recovery_config_new path)\<lparr>rc_collect_state_changes := True\<rparr>"
  obtain mg where mg: "ckpt_new config_new fs = Inr mg"
    "find_latest_checkpoint js mg fs = Inr (case hist of [] \<Rightarrow> None | (mm, st) # _ \<Rightarrow> Some mm)"
    using latest_loaded(1) [OF js I] by blast
  obtain base where base: "base = (case (case hist of [] \<Rightarrow> None | (mm, st) # _ \<Rightarrow> Some mm) of
      Some mm \<Rightarrow> load_checkpoint sd fs mm | None \<Rightarrow> recovered_empty)" by blast
  have b: "recovered base = log_effect (take p es)" "rs_wal_position base = length (log_of c (take p bs))"
    "rs_checkpoint_id base = latest_of hist" "rs_state_changes base = []"
  proof -
    have "recovered base = log_effect (take p es) \<and> rs_wal_position base = length (log_of c (take p bs)) \<and>
      rs_checkpoint_id base = latest_of hist \<and> rs_state_changes base = []"
    proof (cases hist)
      case Nil
      then show ?thesis
        using base cap by (simp add: captures_def recovered_empty_def latest_of_def log_effect_def recovered_def apply_changes_def)
    next
      case (Cons x h)
      obtain mm st where x: "x = (mm, st)" by fastforce
      then show ?thesis
        using base cap Cons latest_loaded(2) [OF js I, of mm st h]
        by (auto simp: captures_def load_checkpoint_def recovered_empty_def latest_of_def recovered_def apply_changes_def)
    qed
    then show "recovered base = log_effect (take p es)" "rs_wal_position base = length (log_of c (take p bs))"
      "rs_checkpoint_id base = latest_of hist" "rs_state_changes base = []" by blast+
  qed
  let ?init = "\<lparr>wr_entries_replayed = 0, wr_final_position = rs_wal_position base, wr_source_offsets = [],
    wr_watermark = None, wr_state_changes = []\<rparr>"
  define r where "r = fold (replay_entry True) (drop p (take j es)) ?init"
  have pj: "p \<le> j" using p j_def by simp
  have "rc_repair_wal ?cfg" "rc_max_wal_entries ?cfg = 0" "rc_collect_state_changes ?cfg" "rc_wal_path ?cfg = path"
    by (simp_all add: recovery_config_new_def)
  then have rw: "replay_wal c ?cfg now (take k (log_of c bs)) (rs_wal_position base) =
     (log_of c (take j bs), Inr (r\<lparr>wr_final_position := length (log_of c (take j bs)), wr_entries_replayed := j - p\<rparr>))"
    using replay_wal_cut [OF enc ok pj j_def _ _ len b(2), of ?cfg now] by (simp add: r_def)
  obtain st off wm where sw: "recovered base = (st, off, wm)" by (metis prod_cases3)
  have rf: "fold apply_record (drop p (take j es)) (st, off, wm) =
      (apply_changes (wr_state_changes r) st, off ++ map_of (wr_source_offsets r),
       if wr_watermark r \<noteq> None then wr_watermark r else wm)" "distinct (map fst (wr_source_offsets r))"
    unfolding r_def by (rule replay_entries; simp)+
  have split: "take j es = take p es @ drop p (take j es)"
    using pj by (metis append_take_drop_id min.absorb1 take_take)
  have "log_effect (take j es) = fold apply_record (drop p (take j es)) (log_effect (take p es))"
    by (subst split) (simp add: log_effect_def)
  then have eff: "log_effect (take j es) =
      (apply_changes (wr_state_changes r) st, off ++ map_of (wr_source_offsets r),
       if wr_watermark r \<noteq> None then wr_watermark r else wm)"
    using rf(1) b(1) sw by simp
  define rs where "rs = base
    \<lparr>rs_wal_entries_replayed := j - p, rs_wal_position := length (log_of c (take j bs)),
     rs_source_offsets := insert_offsets (wr_source_offsets r) (rs_source_offsets base),
     rs_watermark := (if wr_watermark r \<noteq> None then wr_watermark r else rs_watermark base),
     rs_state_changes := wr_state_changes r\<rparr>"
  have "recover_with_changes js sd c now fs wal path = (wal(path \<mapsto> log_of c (take j bs)), Inr rs)"
    using mg rw crash
    by (simp add: recover_with_changes_def recover_def base [symmetric] rs_def recovery_config_new_def)
  moreover have "recover_simple js sd c now fs wal path = (wal(path \<mapsto> log_of c (take j bs)), Inr (rs\<lparr>rs_state_changes := []\<rparr>))"
  proof -
    have cfg: "rc_repair_wal (recovery_config_new path)" "rc_max_wal_entries (recovery_config_new path) = 0"
      "\<not> rc_collect_state_changes (recovery_config_new path)"
      by (simp_all add: recovery_config_new_def)
    have "replay_wal c (recovery_config_new path) now (take k (log_of c bs)) (rs_wal_position base) =
       (log_of c (take j bs), Inr (r\<lparr>wr_final_position := length (log_of c (take j bs)), wr_entries_replayed := j - p, wr_state_changes := []\<rparr>))"
      using replay_wal_cut [OF enc ok pj j_def cfg(1,2) len b(2), of now] cfg(3) replay_without_changes [of ?init "drop p (take j es)"]
      by (simp add: r_def)
    then show ?thesis
      using mg crash b(4)
      by (simp add: recover_simple_def recover_def base [symmetric] rs_def recovery_config_new_def)
  qed
  moreover have "recovered rs = log_effect (take j es)"
    using eff sw b(4) rf(2)
    by (simp add: rs_def recovered_def map_of_insert_offsets set_offsets_distinct apply_changes_def)
  moreover have "rs_wal_position rs = length (log_of c (take j bs))" "rs_checkpoint_id rs = latest_of hist"
    using b(3) by (simp_all add: rs_def)
  ultimately show ?thesis unfolding j_def by blast
qed

text \<open>A put that the checkpoint holds, a commit behind it, and a third record that the crash cut off.\<close>

definition two_codec :: "wal_record codec" where
  "two_codec =
     \<lparr>cd_ser = (\<lambda>e. if e = LogPut [1] [2] then Inr [7] else if e = LogCommit [(''s'', 5)] (Some 9) then Inr [8]
                   else Inl ''unsupported''),
      cd_de = (\<lambda>b. if b = [7] then Inr (LogPut [1] [2])
                  else if b = [8] then Inr (LogCommit [(''s'', 5)] (Some 9)) else Inl ''invalid''),
      cd_crc = (\<lambda>b. of_nat (length b))\<rparr>"

lemma two_codec_ok: "codec_ok two_codec"
  by (auto simp: codec_ok_def two_codec_def split: if_splits)

theorem recover_spec_witness:
  "\<exists>m0 m fs hist wal' rs.
     ckpt_new config_new ([] :: ckpt_metadata ckpt_fs) = Inr m0 \<and>
     ckpt_run plain_json [CkCreateState 5 9 [] None [3]] (m0, []) [] = ((m, fs), hist) \<and>
     recover_with_changes plain_json (\<lambda>b. Inr \<lparr>ss_data = [([1], [2])], ss_timestamp_ns = 0, ss_version = 1\<rparr>) two_codec 0 fs
       [OtherPath ''wal'' \<mapsto> take 20 (log_of two_codec [[7], [8], [7]])] (OtherPath ''wal'') = (wal', Inr rs) \<and>
     recovered rs = ([[1] \<mapsto> [2]], [''s'' \<mapsto> 5], Some 9)"
proof -
  let ?es = "[LogPut [1] [2], LogCommit [(''s'', 5)] (Some 9), LogPut [1] [2]]" and ?bs = "[[7], [8], [7]] :: bytes list"
  let ?sd = "\<lambda>b :: bytes. Inr \<lparr>ss_data = [([1], [2])], ss_timestamp_ns = 0, ss_version = 1\<rparr> :: string + state_snapshot"
  let ?wal = "[OtherPath ''wal'' \<mapsto> take 20 (log_of two_codec ?bs)]"
  obtain m0 where m0: "ckpt_new config_new ([] :: ckpt_metadata ckpt_fs) = Inr m0"
    by (simp add: ckpt_new_def config_validate_def config_new_def scan_checkpoints_def)
  obtain m fs hist where run: "ckpt_run plain_json [CkCreateState 5 9 [] None [3]] (m0, []) [] = ((m, fs), hist)"
    by (metis prod.collapse)
  have enc: "encoded two_codec ?es ?bs"
    by (simp add: encoded_def two_codec_def max_wal_entry_size_def)
  have cap: "captures ?sd two_codec ?es ?bs hist 1"
    using run by (auto simp: captures_def create_checkpoint_with_state_def to_json_def plain_json_def Let_def log_effect_def
        metadata_new_def)
  have "\<exists>wal' rs. recover_with_changes plain_json ?sd two_codec 0 fs ?wal (OtherPath ''wal'') = (wal', Inr rs) \<and>
     recovered rs = log_effect (take (fits ?bs 20) ?es) \<and>
     rs_wal_position rs = length (log_of two_codec (take (fits ?bs 20) ?bs)) \<and>
     rs_checkpoint_id rs = latest_of hist \<and>
     wal' = ?wal(OtherPath ''wal'' \<mapsto> log_of two_codec (take (fits ?bs 20) ?bs)) \<and>
     recover_simple plain_json ?sd two_codec 0 fs ?wal (OtherPath ''wal'') = (wal', Inr (rs\<lparr>rs_state_changes := []\<rparr>))"
    by (rule recover_spec [OF plain_json_ok two_codec_ok enc _ m0 run cap]) simp_all
  moreover have "log_effect (take (fits ?bs 20) ?es) = ([[1] \<mapsto> [2]], [''s'' \<mapsto> 5], Some 9)"
    by (simp add: log_effect_def set_offsets_def)
  ultimately show ?thesis using m0 run by metis
qed

section \<open>Checkpoints of the per-core log\<close>

lemma reset_all_files: "map ww_file (pm_writers (reset_all w)) = map (\<lambda>_. []) (pm_writers w)"
  by (simp add: reset_all_def wal_reset_def wal_truncate_def Let_def set_len_def wal_sync_def)

lemma read_all_empty: "read_all c (reader_open_from i [] 0) = (reader_open_from i [] 0, Inr [])"
  unfolding read_all_def by (rule loop_eof) (simp add: read_next_def reader_open_from_def)

lemma read_segments_empty:
  assumes "\<forall>i \<in> set is. d (SegmentPath i) = Some [] \<or> d (SegmentPath i) = None" "\<forall>x \<in> set starts. x = 0"
  shows "read_segments_loop c d starts is es ps = Inr (es, ps @ replicate (length is) 0)"
proof -
  have z: "(if i < length starts then starts ! i else 0) = 0" for i using assms(2) by simp
  show ?thesis
    using assms(1)
  proof (induction "is" arbitrary: es ps)
    case (Cons i "is")
    have "rd_position (reader_open_from i [] 0) = 0" by (simp add: reader_open_from_def)
    then have "read_segments_loop c d starts (i # is) es ps = read_segments_loop c d starts is es (ps @ [0])"
      using Cons.prems by (cases "d (SegmentPath i)") (simp_all add: z read_all_empty del: if_split)
    then show ?case using Cons by simp
  qed simp
qed

definition segment_files :: "wal_manager \<Rightarrow> files" where
  "segment_files w path = (case path of SegmentPath i \<Rightarrow> files_of w i | OtherPath _ \<Rightarrow> None)"

lemma replay_empty:
  "replay_wal c cfg now [] start =
   ([], Inr \<lparr>wr_entries_replayed = 0, wr_final_position = start, wr_source_offsets = [], wr_watermark = None,
             wr_state_changes = []\<rparr>)"
proof -
  have "validate_record c [] 0 0 = Inl WalUnexpectedEof"
    by (simp add: validate_record_def record_header_size_def)
  then have "repair_loop c [] 0 0 0 = Inr 0" by (rule repair_loop_step(3))
  then have f: "wl_file (fst (wl_repair c now (wl_new [] t now))) = []" for t
    by (simp add: wl_repair_def wl_new_def wl_sync_def)
  have "read_next c (reader_open_from 0 [] start) = (reader_open_from 0 [] start, Inr Eof)"
    by (simp add: read_next_def reader_open_from_def)
  note loop = replay_loop_step(2) [OF this]
  show ?thesis
    by (simp add: replay_wal_def Let_def wl_read_from_def f loop) (simp add: wl_new_def loop)
qed

lemma apply_entries_frame:
  "im_next_id (apply_entries_to_checkpoint es m) = im_next_id m"
  "im_latest_checkpoint_id (apply_entries_to_checkpoint es m) = im_latest_checkpoint_id m"
  "im_config (apply_entries_to_checkpoint es m) = im_config m"
proof -
  let ?f = "\<lambda>m. (im_next_id m, im_latest_checkpoint_id m, im_config m)"
  have "?f (fold (\<lambda>(s, n) m. set_source_offset m s n) os m) = ?f m" for os :: "(string, nat) hashmap" and m
    by (induction os arbitrary: m) (auto simp: set_source_offset_def)
  then have "?f (apply_operation op m) = ?f m" for op m
    by (cases op) (auto simp: ckpt_put_def ckpt_delete_def ckpt_set_watermark_def Let_def split: option.split)
  then have "?f (apply_entries_to_checkpoint es m) = ?f m"
    unfolding apply_entries_to_checkpoint_def by (induction es arbitrary: m) simp_all
  then show "im_next_id (apply_entries_to_checkpoint es m) = im_next_id m"
    "im_latest_checkpoint_id (apply_entries_to_checkpoint es m) = im_latest_checkpoint_id m"
    "im_config (apply_entries_to_checkpoint es m) = im_config m"
    by simp_all
qed

lemma pc_create_checkpoint_cases:
  assumes "pc_create_checkpoint c js clocks now co fs cid = ((co', fs'), Inr r)"
  obtains w merged ck mm where "merge_segments c (pm_num_cores w) (files_of w) = Inr merged"
    "create_checkpoint js now (apply_entries_to_checkpoint merged (pc_ckpt co)) fs cid = ((ck, fs'), Inr mm)"
    "co' = \<lparr>pc_wal = reset_all w, pc_ckpt = ck\<rparr>" "pcm_checkpoint r = mm" "pcm_entries_merged r = length merged"
  using assms unfolding pc_create_checkpoint_def
  by (auto simp: Let_def split: prod.splits option.splits sum.splits)

text \<open>
  The first checkpoint of the per-core log on an empty directory keeps nothing of what it merged: the directory
  receives metadata only and the segments are emptied, so that a restart recovers no state, no offsets and no
  watermark, whatever the segments held.
\<close>

theorem percore_checkpoint_discards_state:
  assumes js: "json_ok (js :: 'j json_codec)"
    and new: "pc_new w cfg ([] :: 'j ckpt_fs) = Inr co"
    and created: "pc_create_checkpoint c js clocks now co [] cid = ((co', fs'), Inr r)"
  shows "\<exists>wal' pr.
    pc_recover js sd lc c n (recovery_config_new path) t fs' (segment_files (pc_wal co')) = (wal', Inr pr) \<and>
    rs_checkpoint_id (pr_base_state pr) = Some 1 \<and> \<not> has_state (pr_base_state pr) \<and> pr_state_changes pr = [] \<and>
    rs_source_offsets (pr_base_state pr) = [] \<and> rs_watermark (pr_base_state pr) = None"
proof -
  obtain w' merged ck mm where
    ck: "create_checkpoint js now (apply_entries_to_checkpoint merged (pc_ckpt co)) [] cid = ((ck, fs'), Inr mm)"
    and co': "co' = \<lparr>pc_wal = reset_all w', pc_ckpt = ck\<rparr>"
    using created by (rule pc_create_checkpoint_cases)
  let ?m = "apply_entries_to_checkpoint merged (pc_ckpt co)"
  have cfg: "config_validate cfg = None" and m0: "im_config (pc_ckpt co) = cfg" "im_next_id (pc_ckpt co) = 1"
    "im_latest_checkpoint_id (pc_ckpt co) = None"
    using new by (auto simp: pc_new_def ckpt_new_def scan_checkpoints_def split: option.splits sum.splits)
  have "ck_inv js ?m [] []" "0 < cc_max_retained (im_config ?m)"
    using m0 cfg by (auto simp: ck_inv_def holds_def latest_of_def apply_entries_frame config_validate_def split: if_splits)
  then have I: "ck_inv js ck fs' [(mm, None)]" "0 < cc_max_retained (im_config ck)"
    using ckpt_run_inv [OF js, of ?m "[]" "[]" "[CkCreate now cid]" ck fs' "[(mm, None)]"] ck by auto
  have mm: "mm_id mm = 1" "mm_source_offsets mm = []" "mm_watermark mm = None"
    using ck m0 by (auto simp: create_checkpoint_def Let_def metadata_new_def apply_entries_frame split: sum.splits)
  obtain mg where mg: "ckpt_new config_new fs' = Inr mg" "find_latest_checkpoint js mg fs' = Inr (Some mm)"
    using latest_loaded(1) [OF js I] by auto
  have base: "load_checkpoint sd fs' mm = recovered_empty
      \<lparr>rs_checkpoint_id := Some 1, rs_epoch := mm_epoch mm, rs_wal_position := mm_wal_position mm\<rparr>"
    using latest_loaded(2) [OF js I refl] mm by (simp add: load_checkpoint_def recovered_empty_def)
  let ?d = "segment_files (pc_wal co')"
  have empty: "?d q = None \<or> ?d q = Some []" for q
  proof -
    have "ww_file (pm_writers (reset_all w') ! i) = []" if "i < length (pm_writers (reset_all w'))" for i
      using reset_all_files [of w'] that by (metis length_map nth_map)
    then show ?thesis
      by (simp add: segment_files_def files_of_def co' split: wal_path.split)
  qed
  define rs where "rs = (load_checkpoint sd fs' mm)\<lparr>rs_state_changes := []\<rparr>"
  have rec: "\<exists>wal'. recover js sd lc (recovery_config_new path) t fs' ?d = (wal', Inr rs) \<and> (\<forall>q. wal' q = None \<or> wal' q = Some [])"
  proof (cases "?d path")
    case None
    then show ?thesis using mg empty base by (simp add: recover_def recovery_config_new_def rs_def recovered_empty_def)
  next
    case (Some x)
    then have "?d path = Some []" using empty [of path] by simp
    then show ?thesis
      using mg empty base
      by (simp add: recover_def recovery_config_new_def rs_def recovered_empty_def replay_empty insert_offsets_def)
  qed
  then obtain wal' where wal': "recover js sd lc (recovery_config_new path) t fs' ?d = (wal', Inr rs)"
    "\<And>q. wal' q = None \<or> wal' q = Some []" by blast
  define starts where "starts = (if length ([] :: nat list) = n then [] else replicate n (0 :: nat))"
  have "read_segments_loop c wal' starts [0..<n] [] [] = Inr ([], [] @ replicate (length [0..<n]) 0)"
  proof (rule read_segments_empty)
    show "\<forall>i \<in> set [0..<n]. wal' (SegmentPath i) = Some [] \<or> wal' (SegmentPath i) = None"
    proof
      fix i
      show "wal' (SegmentPath i) = Some [] \<or> wal' (SegmentPath i) = None"
        using wal'(2) [of "SegmentPath i"] by (rule disj_commute [THEN iffD1])
    qed
  qed (simp add: starts_def)
  then have "read_all_segments c n wal' starts = Inr ([], replicate n 0)"
    by (simp add: read_all_segments_def)
  then have "pc_recover js sd lc c n (recovery_config_new path) t fs' ?d =
      (wal', Inr \<lparr>pr_base_state = rs, pr_state_changes = [], pr_wal_positions = replicate n 0, pr_entries_replayed = 0,
                  pr_final_epoch = rs_epoch rs\<rparr>)"
    using wal'(1)
    by (simp add: pc_recover_def recover_from_positions_def Let_def starts_def state_changes_of_def List.map_filter_simps)
  then show ?thesis
    using base by (simp add: rs_def recovered_empty_def has_state_def)
qed

text \<open>A segment with one put; the checkpoint merges it and the barrier, and a restart finds neither.\<close>

definition barrier_codec :: "wal_entry codec" where
  "barrier_codec =
     \<lparr>cd_ser = (\<lambda>e. if e = sample_entry 0 then Inr [7] else if e = entry_epoch_barrier 0 1 0 6 then Inr [8]
                   else Inl ''unsupported''),
      cd_de = (\<lambda>b. if b = [7] then Inr (sample_entry 0) else if b = [8] then Inr (entry_epoch_barrier 0 1 0 6)
                  else Inl ''invalid''),
      cd_crc = (\<lambda>b. of_nat (length b))\<rparr>"

theorem percore_checkpoint_discards_state_witness:
  "\<exists>co co' fs' r pr wal'.
     pc_new (manager_new 1 (\<lambda>_. Some (log_of barrier_codec [[7]]))) config_new ([] :: ckpt_metadata ckpt_fs) = Inr co \<and>
     pc_create_checkpoint barrier_codec plain_json (\<lambda>_. 6) 5 co [] 1 = ((co', fs'), Inr r) \<and> pcm_entries_merged r = 2 \<and>
     pc_recover plain_json (\<lambda>_. Inl ''invalid'') two_codec barrier_codec 1 (recovery_config_new (SegmentPath 0)) 0 fs'
       (segment_files (pc_wal co')) = (wal', Inr pr) \<and>
     \<not> has_state (pr_base_state pr) \<and> pr_state_changes pr = []"
proof -
  let ?w = "manager_new 1 (\<lambda>_. Some (log_of barrier_codec [[7]]))"
  let ?f = "log_of barrier_codec [[7], [8]]" and ?es = "[sample_entry 0, entry_epoch_barrier 0 1 0 6]"
  obtain co where co: "pc_new ?w config_new ([] :: ckpt_metadata ckpt_fs) = Inr co"
    by (simp add: pc_new_def ckpt_new_def config_validate_def config_new_def scan_checkpoints_def)
  have ok: "codec_ok barrier_codec"
    by (auto simp: codec_ok_def barrier_codec_def split: if_splits)
  have ne: "entry_epoch_barrier 0 1 0 6 \<noteq> sample_entry 0"
    by (simp add: sample_entry_def entry_put_def entry_epoch_barrier_def)
  have "encoded barrier_codec ?es [[7], [8]]"
    using ne by (simp add: encoded_def barrier_codec_def max_wal_entry_size_def)
  then have rd: "snd (read_all barrier_codec (reader_open 0 ?f)) = Inr ?es"
    using read_from_boundary [OF _ ok, of ?es "[[7], [8]]" 0 0] by (simp add: reader_open_def reader_open_from_def)
  let ?w1 = "set_epoch_all (fst (advance_epoch (pc_wal co))) 1"
  have wal: "pc_wal co = ?w" using co by (auto simp: pc_new_def split: sum.splits)
  obtain w2 where w2: "write_epoch_barrier_all barrier_codec (\<lambda>_. 6) ?w1 = (w2, None)"
    "files_of (sync_all w2) 0 = Some ?f" "pm_num_cores w2 = 1"
    using wal ne
    by (simp add: write_epoch_barrier_all_def manager_new_def writer_new_def set_epoch_all_def advance_epoch_def
        writer_set_epoch_def append_epoch_barrier_def wal_append_def serialize_entry_def barrier_codec_def buf_write_def
        buf_capacity_def advance_position_def record_header_size_def frame_def log_of_def sync_all_def wal_sync_def
        files_of_def)
  have "merge_segments barrier_codec (pm_num_cores (sync_all w2)) (files_of (sync_all w2)) = Inr (sort_key sort_fields ?es)"
    using w2(2,3) rd by (simp add: merge_segments_def sync_all_def)
  moreover obtain ck fs' mm where
    "create_checkpoint plain_json 5 (apply_entries_to_checkpoint (sort_key sort_fields ?es) (pc_ckpt co)) [] 1 = ((ck, fs'), Inr mm)"
    by (simp add: create_checkpoint_def to_json_def plain_json_def Let_def)
  ultimately have "\<exists>co' fs' r. pc_create_checkpoint barrier_codec plain_json (\<lambda>_. 6) 5 co [] 1 = ((co', fs'), Inr r) \<and>
      pcm_entries_merged r = 2"
    using w2(1) wal by (simp add: pc_create_checkpoint_def Let_def advance_epoch_def manager_new_def del: sort_key_simps)
  then obtain co' fs' r where cr: "pc_create_checkpoint barrier_codec plain_json (\<lambda>_. 6) 5 co [] 1 = ((co', fs'), Inr r)"
    "pcm_entries_merged r = 2" by blast
  show ?thesis
    using percore_checkpoint_discards_state [OF plain_json_ok co cr(1), of "\<lambda>_. Inl ''invalid''" two_codec 1 "SegmentPath 0" 0]
      co cr by blast
qed

section \<open>Repair of the segments\<close>

lemma read_next_file_len: "read_next c r = (r', x) \<Longrightarrow> rd_file_len r' = rd_file_len r"
  by (auto simp: read_next_def Let_def split: if_splits sum.splits)

lemma valid_end_file_len: "valid_end_loop c r v = (r', x) \<Longrightarrow> rd_file_len r' = rd_file_len r"
proof (induction c r v rule: valid_end_loop.induct)
  case (1 c r v)
  obtain r1 y where y: "read_next c r = (r1, y)" by fastforce
  note len = read_next_file_len [OF y]
  show ?case
  proof (cases "\<exists>e. y = Inr (Entry e)")
    case True
    then obtain e where e: "read_next c r = (r1, Inr (Entry e))" using y by blast
    then show ?thesis using 1(1) [OF e [symmetric] refl refl] 1(2) len loop_entry(2) [OF e] by simp
  next
    case False
    then have "r' = r1"
      using 1(2) y by (auto simp: valid_end_loop.simps [of c r] split: sum.splits wal_read_result.splits)
    then show ?thesis using len by simp
  qed
qed

text \<open>Bytes that are the records of some entries and nothing else.\<close>

definition records_of :: "'e codec \<Rightarrow> bytes \<Rightarrow> 'e list \<Rightarrow> bool" where
  "records_of c f es \<longleftrightarrow>
     (\<exists>bs. f = log_of c bs \<and> list_all2 (\<lambda>b e. length b \<le> max_wal_entry_size \<and> cd_de c b = Inr e) bs es)"

text \<open>Segment \<^verbatim>\<open>i\<close> was cut at \<^verbatim>\<open>v\<close>, and holds the entries \<^verbatim>\<open>es\<close> before and after.\<close>

definition segment_repaired :: "wal_entry codec \<Rightarrow> files \<Rightarrow> files \<Rightarrow> nat \<Rightarrow> nat \<Rightarrow> wal_entry list \<Rightarrow> bool" where
  "segment_repaired c d d' i v es \<longleftrightarrow>
     (case d (SegmentPath i) of
        None \<Rightarrow> d' (SegmentPath i) = None \<and> v = 0 \<and> es = []
      | Some f \<Rightarrow> v \<le> length f \<and> d' (SegmentPath i) = Some (take v f) \<and> 8 * length es \<le> v \<and>
          records_of c (take v f) es \<and> snd (find_valid_end c (reader_open i (take v f))) = Inr v \<and>
          snd (read_all c (reader_open i f)) = Inr es \<and> snd (read_all c (reader_open i (take v f))) = Inr es)"

lemma find_valid_end_segment:
  assumes "find_valid_end c (reader_open i f) = (r, Inr v)" "d (SegmentPath i) = Some f" "d' (SegmentPath i) = Some (take v f)"
  shows "\<exists>es. segment_repaired c d d' i v es" and "rd_file_len r = length f" and "v \<le> length f"
proof -
  let ?r = "reader_open i f"
  have "valid_end_loop c ?r (rd_position ?r) = (r, Inr v)"
    using assms(1) by (simp add: find_valid_end_def)
  note cut = valid_end_cut [OF this, of "[]"] and len = valid_end_file_len [OF this] and recs = valid_end_records [OF this, of "[]"]
  show "rd_file_len r = length f" "v \<le> length f"
    using cut len by (simp_all add: reader_open_def)
  then have "cut_reader v ?r = reader_open i (take v f)"
    by (simp add: cut_reader_def reader_open_def)
  then show "\<exists>es. segment_repaired c d d' i v es"
    using cut recs assms(2,3)
    by (auto simp: segment_repaired_def find_valid_end_def read_all_def reader_open_def records_of_def bytes_at_def)
qed

lemma repair_segments:
  assumes "repair_segments_loop c is d valid = (d', Inr vs)" "distinct is"
  shows "\<exists>us. vs = valid @ us \<and> list_all2 (\<lambda>i v. \<exists>es. segment_repaired c d d' i v es) is us \<and>
    (\<forall>q. q \<notin> SegmentPath ` set is \<longrightarrow> d' q = d q)"
  using assms
proof (induction "is" arbitrary: d valid)
  case (Cons i "is")
  have shift: "list_all2 (\<lambda>i v. \<exists>es. segment_repaired c d d' i v es) is us"
    if "list_all2 (\<lambda>i v. \<exists>es. segment_repaired c d1 d' i v es) is us" "\<forall>j \<in> set is. d1 (SegmentPath j) = d (SegmentPath j)"
    for d1 us
    using that by (auto simp: list_all2_conv_all_nth segment_repaired_def)
  show ?case
  proof (cases "d (SegmentPath i)")
    case None
    then have "repair_segments_loop c is d (valid @ [0]) = (d', Inr vs)" using Cons.prems by simp
    then obtain us where us: "vs = (valid @ [0]) @ us" "list_all2 (\<lambda>i v. \<exists>es. segment_repaired c d d' i v es) is us"
      "\<forall>q. q \<notin> SegmentPath ` set is \<longrightarrow> d' q = d q"
      using Cons.IH Cons.prems(2) by fastforce
    have "d' (SegmentPath i) = None" using us(3) Cons.prems(2) None by (auto simp: image_iff)
    then show ?thesis using us None by (intro exI [of _ "0 # us"]) (simp add: segment_repaired_def)
  next
    case (Some f)
    obtain r x where fv: "find_valid_end c (reader_open i f) = (r, x)" by fastforce
    obtain v where v: "x = Inr v"
      using Cons.prems(1) Some fv by (cases x) simp_all
    define d1 where "d1 = (if v < rd_file_len r then d(SegmentPath i \<mapsto> set_len v f) else d)"
    have step: "repair_segments_loop c is d1 (valid @ [v]) = (d', Inr vs)"
      using Cons.prems(1) Some fv v by (simp add: d1_def)
    have dist: "distinct is" using Cons.prems(2) by simp
    obtain us where us: "vs = (valid @ [v]) @ us" "list_all2 (\<lambda>i v. \<exists>es. segment_repaired c d1 d' i v es) is us"
      "\<forall>q. q \<notin> SegmentPath ` set is \<longrightarrow> d' q = d1 q"
      using Cons.IH [OF step dist] by blast
    note le = find_valid_end_segment(2,3) [of c i f r v "d(SegmentPath i \<mapsto> f)" "d(SegmentPath i \<mapsto> take v f)", OF fv [unfolded v]]
    have len: "rd_file_len r = length f" "v \<le> length f" using le by simp_all
    have "SegmentPath i \<notin> SegmentPath ` set is" using Cons.prems(2) by auto
    then have "d' (SegmentPath i) = d1 (SegmentPath i)" using us(3) by blast
    then have "d' (SegmentPath i) = Some (take v f)" using len Some by (simp add: d1_def)
    then have "\<exists>es. segment_repaired c d d' i v es"
      using find_valid_end_segment(1) [OF fv [unfolded v], of d d'] Some by blast
    moreover have "list_all2 (\<lambda>i v. \<exists>es. segment_repaired c d d' i v es) is us"
      by (rule shift [OF us(2)]) (use Cons.prems(2) in \<open>auto simp: d1_def\<close>)
    ultimately show ?thesis
      using us(1,3) by (intro exI [of _ "v # us"]) (auto simp: d1_def)
  qed
qed simp

lemma repair_segments_again:
  assumes "list_all2 (\<lambda>i v. \<exists>es. segment_repaired c d d' i v es) is us"
  shows "repair_segments_loop c is d' valid = (d', Inr (valid @ us))"
  using assms
proof (induction "is" us arbitrary: valid rule: list_all2_induct)
  case (Cons i "is" v us)
  then obtain es where es: "segment_repaired c d d' i v es" by blast
  show ?case
  proof (cases "d (SegmentPath i)")
    case None
    then show ?thesis using es Cons.IH by (simp add: segment_repaired_def)
  next
    case (Some f)
    then have f: "d' (SegmentPath i) = Some (take v f)" "v \<le> length f"
      "snd (find_valid_end c (reader_open i (take v f))) = Inr v"
      using es by (simp_all add: segment_repaired_def)
    then obtain r where r: "find_valid_end c (reader_open i (take v f)) = (r, Inr v)"
      by (metis prod.collapse)
    have "rd_file_len r = length (take v f)"
      using valid_end_file_len [OF r [unfolded find_valid_end_def]] by (simp add: reader_open_def)
    then show ?thesis using f r Cons.IH by simp
  qed
qed simp

lemma read_repaired_segments:
  assumes "list_all2 (\<lambda>i v. \<exists>es. segment_repaired c d d' i v es) is us" "\<forall>x \<in> set starts. x = 0"
  shows "\<exists>es ps1 ps2. read_segments_loop c d starts is acc ps = Inr (acc @ es, ps1) \<and>
    read_segments_loop c d' starts is acc qs = Inr (acc @ es, ps2) \<and> 8 * length es \<le> sum_list us"
proof -
  have z: "(if i < length starts then starts ! i else 0) = 0" for i using assms(2) by simp
  have o: "reader_open_from i f 0 = reader_open i f" for i f
    by (simp add: reader_open_from_def reader_open_def)
  show ?thesis
    using assms(1)
  proof (induction "is" us arbitrary: acc ps qs rule: list_all2_induct)
    case (Cons i "is" v us)
    then obtain es where es: "segment_repaired c d d' i v es" by blast
    have "\<exists>p q. read_segments_loop c d starts (i # is) acc ps = read_segments_loop c d starts is (acc @ es) p \<and>
      read_segments_loop c d' starts (i # is) acc qs = read_segments_loop c d' starts is (acc @ es) q \<and> 8 * length es \<le> v"
    proof (cases "d (SegmentPath i)")
      case (Some f)
      obtain r1 where "read_all c (reader_open i f) = (r1, Inr es)"
        using es Some by (metis (mono_tags, lifting) option.simps(5) prod.collapse segment_repaired_def)
      moreover obtain r2 where "read_all c (reader_open i (take v f)) = (r2, Inr es)"
        using es Some by (metis (mono_tags, lifting) option.simps(5) prod.collapse segment_repaired_def)
      ultimately show ?thesis
        using es Some by (auto simp: segment_repaired_def z o simp del: if_split)
    qed (use es in \<open>auto simp: segment_repaired_def\<close>)
    then show ?case
      using Cons.IH [of "acc @ es"] by (metis (no_types, lifting) add_mono append.assoc length_append distrib_left sum_list.Cons)
  qed simp
qed

text \<open>
  (C23) Whatever bytes the segment files hold, a repair that succeeds leaves of each file exactly the complete, valid
  records that are read from it: the file is cut at the reported position, every byte left belongs to one of these
  records, and nothing that recovery reads is lost. Running the repair again changes nothing.
\<close>

theorem segment_repair_exact:
  assumes rep: "repair_all_segments c n d = (d', Inr vs)"
  shows "length vs = n \<and>
    (\<forall>i < n. case d (SegmentPath i) of
        None \<Rightarrow> d' (SegmentPath i) = None \<and> vs ! i = 0
      | Some f \<Rightarrow> vs ! i \<le> length f \<and> d' (SegmentPath i) = Some (take (vs ! i) f) \<and>
          (\<exists>es. records_of c (take (vs ! i) f) es \<and> snd (read_all c (reader_open i f)) = Inr es)) \<and>
    (\<exists>es. recover_wal_only c n d = Inr es \<and> recover_wal_only c n d' = Inr es) \<and>
    repair_all_segments c n d' = (d', Inr vs)"
proof -
  have seg: "list_all2 (\<lambda>i v. \<exists>es. segment_repaired c d d' i v es) [0..<n] vs"
    using repair_segments [OF rep [unfolded repair_all_segments_def]] by auto
  then have len: "length vs = n" by (auto dest: list_all2_lengthD)
  have each: "case d (SegmentPath i) of
        None \<Rightarrow> d' (SegmentPath i) = None \<and> vs ! i = 0
      | Some f \<Rightarrow> vs ! i \<le> length f \<and> d' (SegmentPath i) = Some (take (vs ! i) f) \<and>
          (\<exists>es. records_of c (take (vs ! i) f) es \<and> snd (read_all c (reader_open i f)) = Inr es)" if "i < n" for i
    using list_all2_nthD [OF seg, of i] that
    by (auto simp: segment_repaired_def split: option.splits)
  obtain es ps1 ps2 where es: "read_segments_loop c d (replicate n 0) [0..<n] [] [] = Inr ([] @ es, ps1)"
    "read_segments_loop c d' (replicate n 0) [0..<n] [] [] = Inr ([] @ es, ps2)"
    using read_repaired_segments [OF seg, of "replicate n 0" "[]" "[]" "[]"] by auto
  then have "\<exists>es. recover_wal_only c n d = Inr es \<and> recover_wal_only c n d' = Inr es"
    by (simp add: recover_wal_only_def read_all_segments_def)
  then show ?thesis
    using len each repair_segments_again [OF seg, of "[]"] by (simp add: repair_all_segments_def)
qed

text \<open>A torn record and a missing segment.\<close>

theorem segment_repair_exact_witness:
  "\<exists>d' vs. repair_all_segments sample_codec 2 [SegmentPath 0 \<mapsto> take 12 (log_of sample_codec [[7], [9]])] = (d', Inr vs) \<and>
     vs ! 0 = 9 \<and> d' (SegmentPath 0) = Some (log_of sample_codec [[7]]) \<and> repair_all_segments sample_codec 2 d' = (d', Inr vs)"
proof -
  let ?f = "take 12 (log_of sample_codec [[7], [9]])"
  let ?d = "[SegmentPath 0 \<mapsto> ?f]"
  have enc: "encoded sample_codec [sample_entry 0, sample_entry 1] [[7], [9]]"
    by (simp add: encoded_def sample_codec_def max_wal_entry_size_def sample_entry_def entry_put_def)
  obtain r where "find_valid_end sample_codec (reader_open 0 ?f) = (r, Inr (length (log_of sample_codec [[7]])))"
    using read_cut_log(2) [OF enc sample_codec_ok(1), of "reader_open 0 ?f" "[]" 12]
    by (auto simp: find_valid_end_def reader_open_def)
  then have "\<exists>d' vs. repair_all_segments sample_codec 2 ?d = (d', Inr vs) \<and> vs ! 0 = 9"
    by (simp add: repair_all_segments_def numeral_2_eq_2)
  then obtain d' vs where rep: "repair_all_segments sample_codec 2 ?d = (d', Inr vs)" "vs ! 0 = 9" by blast
  have "d' (SegmentPath 0) = Some (take 9 ?f)" "repair_all_segments sample_codec 2 d' = (d', Inr vs)"
    using segment_repair_exact [OF rep(1)] rep(2) by (auto dest!: spec [of _ 0])
  moreover have "take 9 ?f = log_of sample_codec [[7]]" by (simp add: log_of_def frame_def u32_le_def)
  ultimately show ?thesis using rep by auto
qed

end
