(* ===== verification/Window_Assign.thy ===== *)
theory Window_Assign
  imports Operator_Types
begin

text \<open>
  Window identifiers with their byte keys and the assignment of timestamps to windows:
  \<^verbatim>\<open>WindowId\<close>, \<^verbatim>\<open>WindowAssigner\<close> and \<^verbatim>\<open>TumblingWindowAssigner\<close> of
  \<^verbatim>\<open>crates/laminar-core/src/operator/window.rs\<close>, \<^verbatim>\<open>SlidingWindowAssigner\<close> of
  \<^verbatim>\<open>crates/laminar-core/src/operator/sliding_window.rs\<close>. A constructor that panics returns \<^verbatim>\<open>None\<close>;
  a \<^verbatim>\<open>Duration\<close> is a number of nanoseconds.
\<close>

unbundle bit_operations_syntax

section \<open>Window identifiers\<close>

record window_id =
  wi_start :: i64
  wi_end :: i64

definition window_id_new :: "i64 \<Rightarrow> i64 \<Rightarrow> window_id" where
  "window_id_new start end' = \<lparr>wi_start = start, wi_end = end'\<rparr>"

definition duration_ms :: "window_id \<Rightarrow> i64" where
  "duration_ms w = wrap64 (wi_end w - wi_start w)"

text \<open>\<^verbatim>\<open>to_be_bytes\<close> and \<^verbatim>\<open>from_be_bytes\<close>.\<close>

fun be_bytes :: "nat \<Rightarrow> int \<Rightarrow> bytes" where
  "be_bytes 0 x = []"
| "be_bytes (Suc n) x = be_bytes n (x div 256) @ [word_of_int x]"

definition be_val :: "bytes \<Rightarrow> int" where
  "be_val bs = foldl (\<lambda>a b. a * 256 + uint b) 0 bs"

definition i64_of_be :: "bytes \<Rightarrow> i64" where
  "i64_of_be bs = wrap64 (be_val bs)"

definition to_key_inline :: "window_id \<Rightarrow> bytes" where
  "to_key_inline w = be_bytes 8 (wi_start w) @ be_bytes 8 (wi_end w)"

definition to_key :: "window_id \<Rightarrow> bytes" where
  "to_key w = to_key_inline w"

definition from_key :: "bytes \<Rightarrow> window_id option" where
  "from_key key =
     (if length key \<noteq> 16 then None
      else Some \<lparr>wi_start = i64_of_be (take 8 key), wi_end = i64_of_be (drop 8 key)\<rparr>)"

lemma length_be_bytes [simp]: "length (be_bytes n x) = n"
  by (induction n arbitrary: x) simp_all

lemma be_val_snoc [simp]: "be_val [] = 0" "be_val (bs @ [b]) = be_val bs * 256 + uint b"
  by (simp_all add: be_val_def)

lemma be_val_bytes: "be_val (be_bytes n x) = x mod 256 ^ n"
proof (induction n arbitrary: x)
  case (Suc n)
  have "x mod 256 ^ Suc n = 256 * (x div 256 mod 256 ^ n) + x mod 256"
    by (simp add: zmod_zmult2_eq)
  then show ?case using Suc by (simp add: uint_word_of_int)
qed simp

lemma i64_of_be_bytes [simp]: "in_i64 x \<Longrightarrow> i64_of_be (be_bytes 8 x) = x"
proof -
  assume x: "in_i64 x"
  have "wrap64 (x mod 2 ^ 64) = wrap64 x"
    unfolding wrap64_def by (simp add: mod_add_left_eq)
  then show ?thesis using x by (simp add: i64_of_be_def be_val_bytes)
qed

definition wid_ok :: "window_id \<Rightarrow> bool" where
  "wid_ok w \<longleftrightarrow> in_i64 (wi_start w) \<and> in_i64 (wi_end w)"

lemma length_to_key [simp]: "length (to_key w) = 16"
  by (simp add: to_key_def to_key_inline_def)

lemma from_to_key [simp]: "wid_ok w \<Longrightarrow> from_key (to_key w) = Some w"
  by (simp add: from_key_def to_key_def to_key_inline_def wid_ok_def)

lemma to_key_inject: "wid_ok v \<Longrightarrow> wid_ok w \<Longrightarrow> to_key v = to_key w \<longleftrightarrow> v = w"
  using from_to_key by (metis option.inject)

text \<open>The sign of the start is the high bit of the first byte of the key.\<close>

lemma hd_be_bytes: "0 < n \<Longrightarrow> hd (be_bytes n x) = word_of_int (x div 256 ^ (n - 1))"
proof (induction n arbitrary: x)
  case (Suc n)
  show ?case
  proof (cases n)
    case 0
    then show ?thesis by simp
  next
    case (Suc m)
    have "hd (be_bytes (Suc n) x) = hd (be_bytes n (x div 256))"
      using Suc by (metis be_bytes.simps(2) hd_append length_0_conv length_be_bytes nat.distinct(1))
    then show ?thesis using Suc.IH [of "x div 256"] Suc by (simp add: zdiv_zmult2_eq)
  qed
qed simp

lemma high_bit: "(b :: 8 word) AND 0x80 \<noteq> 0 \<longleftrightarrow> 128 \<le> uint b"
proof -
  have "b AND 0x80 = (if bit b 7 then 0x80 else 0)"
    by (rule bit_word_eqI) (auto simp: bit_simps bit_numeral_rec less_Suc_eq numeral_eq_Suc)
  moreover have "bit b 7 \<longleftrightarrow> odd (uint b div 128)"
  proof -
    have "bit b 7 = bit (uint b) 7" by (simp add: bit_uint_iff)
    then show ?thesis by (simp add: bit_iff_odd)
  qed
  moreover have "0 \<le> uint b" "uint b < 256" using uint_lt2p [of b] by simp_all
  moreover from this have "uint b div 128 = (if 128 \<le> uint b then 1 else 0)" by auto
  ultimately show ?thesis by (simp split: if_splits)
qed

lemma key_high_bit:
  assumes "in_i64 (wi_start w)"
  shows "hd (to_key w) AND 0x80 \<noteq> 0 \<longleftrightarrow> wi_start w < 0"
proof -
  let ?s = "wi_start w"
  have "be_bytes 8 ?s \<noteq> []"
    by (metis length_be_bytes list.size(3) zero_neq_numeral)
  then have "hd (to_key w) = hd (be_bytes 8 ?s)"
    by (simp add: to_key_def to_key_inline_def)
  also have "\<dots> = word_of_int (?s div 256 ^ (8 - 1))"
    by (rule hd_be_bytes) simp
  finally have "hd (to_key w) = word_of_int (?s div 256 ^ 7)" by simp
  then have u: "uint (hd (to_key w)) = ?s div 256 ^ 7 mod 256"
    by (simp add: uint_word_of_int)
  show ?thesis
  proof (cases "?s < 0")
    case True
    have "- 128 \<le> ?s div 256 ^ 7" "?s div 256 ^ 7 < 0"
      using assms True by (simp_all add: i64_simps div_int_pos_iff)
    then have "?s div 256 ^ 7 mod 256 = ?s div 256 ^ 7 + 256"
      using mod_pos_pos_trivial [of "?s div 256 ^ 7 + 256" 256] by simp
    then show ?thesis using True u \<open>- 128 \<le> _\<close> by (simp add: high_bit)
  next
    case False
    have "0 \<le> ?s div 256 ^ 7" "?s div 256 ^ 7 < 128"
      using assms False by (simp_all add: i64_simps pos_imp_zdiv_nonneg_iff)
    then show ?thesis using False u by (simp add: high_bit)
  qed
qed

section \<open>Tumbling windows\<close>

text \<open>A panicking constructor returns \<^verbatim>\<open>None\<close>.\<close>

definition millis_i64 :: "nat \<Rightarrow> i64 option" where
  "millis_i64 d = (if int (d div 10 ^ 6) \<le> i64_max then Some (int (d div 10 ^ 6)) else None)"

record tumbling_assigner =
  ta_size_ms :: i64
  ta_offset_ms :: i64

definition tumbling_from_millis :: "i64 \<Rightarrow> tumbling_assigner option" where
  "tumbling_from_millis size_ms =
     (if size_ms > 0 then Some \<lparr>ta_size_ms = size_ms, ta_offset_ms = 0\<rparr> else None)"

definition tumbling_new :: "nat \<Rightarrow> tumbling_assigner option" where
  "tumbling_new sz =
     (case millis_i64 sz of
        None \<Rightarrow> None
      | Some size_ms \<Rightarrow> if size_ms > 0 then Some \<lparr>ta_size_ms = size_ms, ta_offset_ms = 0\<rparr> else None)"

definition tumbling_with_offset_ms :: "tumbling_assigner \<Rightarrow> i64 \<Rightarrow> tumbling_assigner" where
  "tumbling_with_offset_ms a offset_ms = a\<lparr>ta_offset_ms := offset_ms\<rparr>"

definition tumbling_assign :: "tumbling_assigner \<Rightarrow> i64 \<Rightarrow> window_id" where
  "tumbling_assign a timestamp =
     (let adjusted = wrap64 (timestamp - ta_offset_ms a);
          window_start =
            (if adjusted \<ge> 0 then wrap64 ((adjusted sdiv ta_size_ms a) * ta_size_ms a)
             else wrap64 ((wrap64 (wrap64 (adjusted - ta_size_ms a) + 1) sdiv ta_size_ms a) * ta_size_ms a));
          window_start1 = wrap64 (window_start + ta_offset_ms a);
          window_end = wrap64 (window_start1 + ta_size_ms a)
      in window_id_new window_start1 window_end)"

definition tumbling_assign_windows :: "tumbling_assigner \<Rightarrow> i64 \<Rightarrow> window_id list" where
  "tumbling_assign_windows a timestamp = [tumbling_assign a timestamp]"

definition max_timestamp :: "i64 \<Rightarrow> i64" where
  "max_timestamp window_end = wrap64 (window_end - 1)"

section \<open>Sliding windows\<close>

record sliding_assigner =
  sa_size_ms :: i64
  sa_slide_ms :: i64
  sa_windows_per_event :: nat
  sa_offset_ms :: i64

definition sliding_from_millis :: "i64 \<Rightarrow> i64 \<Rightarrow> sliding_assigner option" where
  "sliding_from_millis size_ms slide_ms =
     (if size_ms > 0 \<and> slide_ms > 0 \<and> slide_ms \<le> size_ms then
        let q = wrap64 (wrap64 (size_ms + slide_ms) - 1) sdiv slide_ms
        in Some \<lparr>sa_size_ms = size_ms, sa_slide_ms = slide_ms,
                 sa_windows_per_event = (if q \<ge> 0 then nat q else 2 ^ 64 - 1), sa_offset_ms = 0\<rparr>
      else None)"

definition sliding_new :: "nat \<Rightarrow> nat \<Rightarrow> sliding_assigner option" where
  "sliding_new sz slide =
     (case (millis_i64 sz, millis_i64 slide) of
        (Some size_ms, Some slide_ms) \<Rightarrow>
          if size_ms > 0 \<and> slide_ms > 0 \<and> slide_ms \<le> size_ms then
            let q = wrap64 (wrap64 (size_ms + slide_ms) - 1) sdiv slide_ms
            in if q \<ge> 0
               then Some \<lparr>sa_size_ms = size_ms, sa_slide_ms = slide_ms, sa_windows_per_event = nat q, sa_offset_ms = 0\<rparr>
               else None
          else None
      | _ \<Rightarrow> None)"

definition sliding_with_offset_ms :: "sliding_assigner \<Rightarrow> i64 \<Rightarrow> sliding_assigner" where
  "sliding_with_offset_ms a offset_ms = a\<lparr>sa_offset_ms := offset_ms\<rparr>"

definition last_window_start :: "sliding_assigner \<Rightarrow> i64 \<Rightarrow> i64" where
  "last_window_start a timestamp =
     (let adjusted = wrap64 (timestamp - sa_offset_ms a);
          base =
            (if adjusted \<ge> 0 then wrap64 ((adjusted sdiv sa_slide_ms a) * sa_slide_ms a)
             else wrap64 ((saturating_add (saturating_sub adjusted (sa_slide_ms a)) 1 sdiv sa_slide_ms a) * sa_slide_ms a))
      in wrap64 (base + sa_offset_ms a))"

text \<open>The loop walks backwards; it ends when the start no longer moves.\<close>

partial_function (option) sliding_loop ::
  "sliding_assigner \<Rightarrow> i64 \<Rightarrow> i64 \<Rightarrow> window_id list \<Rightarrow> window_id list option" where
  "sliding_loop a timestamp window_start windows =
     (if wrap64 (window_start + sa_size_ms a) > timestamp then
        let window_end = wrap64 (window_start + sa_size_ms a);
            windows1 = windows @ [window_id_new window_start window_end];
            prev = window_start;
            window_start1 = saturating_sub window_start (sa_slide_ms a)
        in if window_start1 = prev then Some windows1
           else sliding_loop a timestamp window_start1 windows1
      else Some windows)"

declare sliding_loop.simps [code]

definition sliding_assign_windows :: "sliding_assigner \<Rightarrow> i64 \<Rightarrow> window_id list option" where
  "sliding_assign_windows a timestamp =
     (case sliding_loop a timestamp (last_window_start a timestamp) [] of
        None \<Rightarrow> None
      | Some windows \<Rightarrow> Some (rev windows))"

section \<open>Assignment\<close>

text \<open>Timestamps for which no intermediate result leaves the range of 64 bits.\<close>

definition assignable :: "i64 \<Rightarrow> i64 \<Rightarrow> i64 \<Rightarrow> bool" where
  "assignable sz offset ts \<longleftrightarrow>
     i64_min + sz \<le> ts - offset \<and> ts - offset \<le> i64_max \<and> i64_min + sz \<le> ts \<and> ts + sz \<le> i64_max"

lemma floor_start:
  fixes s a :: int
  assumes "0 < s"
  shows "a - s < a div s * s" "a div s * s \<le> a"
proof -
  have "a div s * s = a - a mod s" by (simp add: minus_mod_eq_div_mult)
  then show "a - s < a div s * s" "a div s * s \<le> a"
    using pos_mod_sign [of s a] pos_mod_bound [of s a] assms by linarith+
qed

lemma floor_start_eq:
  assumes "0 < s" "i64_min + s \<le> a" "a \<le> i64_max"
  shows "(if a \<ge> 0 then wrap64 ((a sdiv s) * s) else wrap64 ((wrap64 (wrap64 (a - s) + 1) sdiv s) * s)) = a div s * s"
    and "(if a \<ge> 0 then wrap64 ((a sdiv s) * s)
          else wrap64 ((saturating_add (saturating_sub a s) 1 sdiv s) * s)) = a div s * s"
proof -
  note f = floor_start [OF assms(1), of a]
  have r: "in_i64 (a div s * s)"
  proof (cases "0 \<le> a")
    case True
    then have "0 \<le> a div s * s" using assms(1) by (simp add: pos_imp_zdiv_nonneg_iff)
    then show ?thesis using f(2) assms(3) by (simp add: i64_simps)
  next
    case False
    then show ?thesis using f assms by (simp add: i64_simps)
  qed
  have n: "in_i64 (a - s)" "in_i64 (a - s + 1)" if "a < 0"
    using assms that by (simp_all add: i64_simps)
  show "(if a \<ge> 0 then wrap64 ((a sdiv s) * s) else wrap64 ((wrap64 (wrap64 (a - s) + 1) sdiv s) * s)) = a div s * s"
    "(if a \<ge> 0 then wrap64 ((a sdiv s) * s)
      else wrap64 ((saturating_add (saturating_sub a s) 1 sdiv s) * s)) = a div s * s"
    using r n assms(1)
    by (auto simp: sdiv_nonneg sdiv_floor_idiom not_le saturating_sub_exact saturating_add_exact)
qed

lemma tumbling_assign_eq:
  assumes "0 < ta_size_ms a" "assignable (ta_size_ms a) (ta_offset_ms a) ts"
  shows "tumbling_assign a ts =
    (let start = (ts - ta_offset_ms a) div ta_size_ms a * ta_size_ms a + ta_offset_ms a
     in \<lparr>wi_start = start, wi_end = start + ta_size_ms a\<rparr>)"
proof -
  let ?s = "ta_size_ms a" and ?a = "ts - ta_offset_ms a"
  have r: "i64_min + ?s \<le> ?a" "?a \<le> i64_max" "i64_min + ?s \<le> ts" "ts + ?s \<le> i64_max"
    using assms(2) by (simp_all add: assignable_def)
  have w: "wrap64 ?a = ?a" using r assms(1) by (simp add: i64_simps)
  note f = floor_start [OF assms(1), of ?a]
  have "in_i64 (?a div ?s * ?s + ta_offset_ms a)" "in_i64 (?a div ?s * ?s + ta_offset_ms a + ?s)"
    using f r assms(1) by (simp_all add: in_i64_def)
  then show ?thesis
    unfolding tumbling_assign_def Let_def w floor_start_eq(1) [OF assms(1) r(1,2)]
    by (simp add: window_id_new_def)
qed

text \<open>The only aligned window of the given size around a timestamp.\<close>

lemma aligned_unique:
  fixes s u v t :: int
  assumes "0 < s" "s dvd u - off" "s dvd v - off" "u \<le> t" "t < u + s" "v \<le> t" "t < v + s"
  shows "u = v"
proof -
  have "s dvd u - v" using dvd_diff [OF assms(2,3)] by simp
  moreover have "\<bar>u - v\<bar> < s" using assms by linarith
  ultimately show ?thesis
    using zdvd_imp_le [of s "\<bar>u - v\<bar>"] by fastforce
qed

lemma tumbling_assign_props:
  assumes "0 < ta_size_ms a" "assignable (ta_size_ms a) (ta_offset_ms a) ts" "w = tumbling_assign a ts"
  shows "wi_start w \<le> ts" "ts < wi_end w" "wi_end w = wi_start w + ta_size_ms a"
    "ta_size_ms a dvd wi_start w - ta_offset_ms a" "wid_ok w"
  using floor_start [OF assms(1), of "ts - ta_offset_ms a"] assms
  by (auto simp: tumbling_assign_eq Let_def assignable_def wid_ok_def in_i64_def)

text \<open>
  (C24) Tumbling windows partition time: as long as no computation leaves the 64-bit range, a timestamp is
  assigned the one window that is aligned to the offset, has the configured size and contains it.
\<close>

theorem tumbling_partition:
  assumes "0 < ta_size_ms a" "assignable (ta_size_ms a) (ta_offset_ms a) ts"
  shows "tumbling_assign_windows a ts = [w] \<longleftrightarrow>
    wi_end w = wi_start w + ta_size_ms a \<and> ta_size_ms a dvd wi_start w - ta_offset_ms a \<and> wi_start w \<le> ts \<and> ts < wi_end w"
proof
  assume "tumbling_assign_windows a ts = [w]"
  then show "wi_end w = wi_start w + ta_size_ms a \<and> ta_size_ms a dvd wi_start w - ta_offset_ms a \<and> wi_start w \<le> ts \<and> ts < wi_end w"
    using tumbling_assign_props [OF assms] by (simp add: tumbling_assign_windows_def)
next
  assume w: "wi_end w = wi_start w + ta_size_ms a \<and> ta_size_ms a dvd wi_start w - ta_offset_ms a \<and> wi_start w \<le> ts \<and> ts < wi_end w"
  let ?v = "tumbling_assign a ts"
  note v = tumbling_assign_props [OF assms refl]
  have "wi_start ?v = wi_start w"
    by (rule aligned_unique [OF assms(1) v(4)]) (use v w in auto)
  then show "tumbling_assign_windows a ts = [w]"
    using v(3) w by (simp add: tumbling_assign_windows_def)
qed

theorem tumbling_partition_witness:
  "assignable 1000 200 (-1) \<and> tumbling_assign_windows \<lparr>ta_size_ms = 1000, ta_offset_ms = 200\<rparr> (-1) =
     [\<lparr>wi_start = -800, wi_end = 200\<rparr>]"
  using tumbling_partition [of "\<lparr>ta_size_ms = 1000, ta_offset_ms = 200\<rparr>" "-1" "\<lparr>wi_start = -800, wi_end = 200\<rparr>"]
  by (simp add: assignable_def i64_simps)

text \<open>The windows a sliding assigner returns.\<close>

definition windows_from :: "i64 \<Rightarrow> i64 \<Rightarrow> i64 \<Rightarrow> nat \<Rightarrow> window_id list" where
  "windows_from sz slide s n = map (\<lambda>i. \<lparr>wi_start = s - int i * slide, wi_end = s - int i * slide + sz\<rparr>) [0..<n]"

lemma windows_from_Suc:
  "windows_from sz slide s (Suc n) = \<lparr>wi_start = s, wi_end = s + sz\<rparr> # windows_from sz slide (s - slide) n"
  by (simp add: windows_from_def upt_conv_Cons map_Suc_upt [symmetric] algebra_simps comp_def del: upt_Suc)

lemma sliding_loop_eq:
  assumes "0 < sa_slide_ms a" "sa_slide_ms a \<le> sa_size_ms a"
    and r: "i64_min + sa_size_ms a + sa_slide_ms a \<le> ts" "ts + sa_size_ms a \<le> i64_max"
    and "s \<le> ts" "(int n - 1) * sa_slide_ms a < s + sa_size_ms a - ts" "s + sa_size_ms a - ts \<le> int n * sa_slide_ms a"
    and "i64_min \<le> s + sa_size_ms a"
  shows "sliding_loop a ts s ws = Some (ws @ windows_from (sa_size_ms a) (sa_slide_ms a) s n)"
  using assms(5-)
proof (induction n arbitrary: s ws)
  case 0
  then have "wrap64 (s + sa_size_ms a) \<le> ts" using r assms(1,2) by (simp add: in_i64_def)
  then show ?case by (simp add: sliding_loop.simps windows_from_def)
next
  case (Suc n)
  have "0 \<le> int n * sa_slide_ms a" using assms(1) by simp
  then have pos: "ts < s + sa_size_ms a" using Suc.prems(2) by simp
  have w: "wrap64 (s + sa_size_ms a) = s + sa_size_ms a"
    using pos r Suc.prems(1) assms(1,2) by (intro wrap64_id) (simp add: in_i64_def)
  have s: "saturating_sub s (sa_slide_ms a) = s - sa_slide_ms a"
    using pos r Suc.prems(1) assms(1,2) by (intro saturating_sub_exact) (simp add: in_i64_def)
  have "sliding_loop a ts (s - sa_slide_ms a) (ws @ [\<lparr>wi_start = s, wi_end = s + sa_size_ms a\<rparr>]) =
      Some ((ws @ [\<lparr>wi_start = s, wi_end = s + sa_size_ms a\<rparr>]) @
        windows_from (sa_size_ms a) (sa_slide_ms a) (s - sa_slide_ms a) n)"
    by (rule Suc.IH) (use Suc.prems pos r assms(1,2) in \<open>simp_all add: algebra_simps\<close>)
  then show ?case
    using pos w s assms(1) by (simp add: sliding_loop.simps [of a ts s] Let_def window_id_new_def windows_from_Suc)
qed

lemma last_window_start_eq:
  assumes "0 < sa_slide_ms a" "assignable (sa_slide_ms a) (sa_offset_ms a) ts"
  shows "last_window_start a ts = (ts - sa_offset_ms a) div sa_slide_ms a * sa_slide_ms a + sa_offset_ms a"
proof -
  let ?s = "sa_slide_ms a" and ?a = "ts - sa_offset_ms a"
  have r: "i64_min + ?s \<le> ?a" "?a \<le> i64_max" "i64_min + ?s \<le> ts" "ts + ?s \<le> i64_max"
    using assms(2) by (simp_all add: assignable_def)
  have w: "wrap64 ?a = ?a" using r assms(1) by (simp add: i64_simps)
  have "in_i64 (?a div ?s * ?s + sa_offset_ms a)"
    using floor_start [OF assms(1), of ?a] r assms(1) by (simp add: in_i64_def)
  then show ?thesis
    unfolding last_window_start_def Let_def w floor_start_eq(2) [OF assms(1) r(1,2)] by simp
qed

lemma ceiling_count:
  fixes d s :: int
  assumes "0 < s" "0 < d"
  obtains n :: nat where "(int n - 1) * s < d" "d \<le> int n * s" "0 < n"
proof
  let ?q = "(d - 1) div s"
  have q: "0 \<le> ?q" using assms by (simp add: pos_imp_zdiv_nonneg_iff)
  note f = floor_start [OF assms(1), of "d - 1"]
  show "(int (nat (?q + 1)) - 1) * s < d" using q f by simp
  show "d \<le> int (nat (?q + 1)) * s" using q f by (simp add: distrib_right)
  show "0 < nat (?q + 1)" using q by simp
qed

lemma sliding_windows:
  assumes a: "0 < sa_slide_ms a" "sa_slide_ms a \<le> sa_size_ms a"
    and ts: "assignable (sa_slide_ms a) (sa_offset_ms a) ts"
      "i64_min + sa_size_ms a + sa_slide_ms a \<le> ts" "ts + sa_size_ms a \<le> i64_max"
  shows "\<exists>ws. sliding_assign_windows a ts = Some ws \<and> sorted_wrt (\<lambda>v w. wi_start v < wi_start w) ws \<and>
    (\<forall>w. w \<in> set ws \<longleftrightarrow>
       wi_end w = wi_start w + sa_size_ms a \<and> sa_slide_ms a dvd wi_start w - sa_offset_ms a \<and> wi_start w \<le> ts \<and> ts < wi_end w)"
proof -
  let ?s = "sa_slide_ms a" and ?sz = "sa_size_ms a"
  define s0 where "s0 = (ts - sa_offset_ms a) div ?s * ?s + sa_offset_ms a"
  have s0: "last_window_start a ts = s0" "s0 \<le> ts" "ts < s0 + ?s" "?s dvd s0 - sa_offset_ms a"
    using last_window_start_eq [OF a(1) ts(1)] floor_start [OF a(1), of "ts - sa_offset_ms a"]
    by (simp_all add: s0_def)
  have d: "0 < s0 + ?sz - ts" using s0 a by linarith
  obtain n :: nat where n: "(int n - 1) * ?s < s0 + ?sz - ts" "s0 + ?sz - ts \<le> int n * ?s" "0 < n"
    using ceiling_count [OF a(1) d] .
  define ws where "ws = windows_from ?sz ?s s0 n"
  have "i64_min \<le> s0 + ?sz" using d ts(2) a by linarith
  then have loop: "sliding_loop a ts s0 [] = Some ([] @ ws)"
    unfolding ws_def using sliding_loop_eq [OF a ts(2,3) s0(2) n(1,2)] by blast
  have "sorted_wrt (\<lambda>v w. wi_start v < wi_start w) (rev ws)"
    unfolding ws_def windows_from_def sorted_wrt_rev sorted_wrt_map
    using a(1) by (auto simp: sorted_wrt_iff_nth_less)
  moreover have "w \<in> set ws \<longleftrightarrow>
     wi_end w = wi_start w + ?sz \<and> ?s dvd wi_start w - sa_offset_ms a \<and> wi_start w \<le> ts \<and> ts < wi_end w" for w
  proof
    assume "w \<in> set ws"
    then obtain i where i: "i < n" "w = \<lparr>wi_start = s0 - int i * ?s, wi_end = s0 - int i * ?s + ?sz\<rparr>"
      unfolding ws_def windows_from_def by auto
    have "int i * ?s \<le> (int n - 1) * ?s" using i(1) a(1) by (intro mult_right_mono) simp_all
    moreover have "0 \<le> int i * ?s" using a(1) by simp
    ultimately have le: "s0 - int i * ?s \<le> ts" "ts < s0 - int i * ?s + ?sz" using n(1) s0(2) by linarith+
    have "?s dvd (s0 - sa_offset_ms a) - int i * ?s"
      by (rule dvd_diff [OF s0(4)]) simp
    then have "?s dvd (s0 - int i * ?s) - sa_offset_ms a" by (simp only: diff_diff_eq add.commute)
    then show "wi_end w = wi_start w + ?sz \<and> ?s dvd wi_start w - sa_offset_ms a \<and> wi_start w \<le> ts \<and> ts < wi_end w"
      using le unfolding i(2) window_id.simps by blast
  next
    assume w: "wi_end w = wi_start w + ?sz \<and> ?s dvd wi_start w - sa_offset_ms a \<and> wi_start w \<le> ts \<and> ts < wi_end w"
    have "?s dvd s0 - wi_start w" using dvd_diff [OF s0(4), of "wi_start w - sa_offset_ms a"] w by simp
    then obtain k where k: "s0 - wi_start w = k * ?s" by (metis dvd_def mult.commute)
    have "(- 1) * ?s < k * ?s" using k w s0(3) by linarith
    then have "- 1 < k" using a(1) unfolding mult_less_cancel_right by linarith
    then have k0: "0 \<le> k" by simp
    have "k * ?s < int n * ?s" using k w n(2) by linarith
    then have "k < int n" using a(1) unfolding mult_less_cancel_right by linarith
    then have kn: "nat k < n" using k0 by linarith
    have "w = \<lparr>wi_start = s0 - int (nat k) * ?s, wi_end = s0 - int (nat k) * ?s + ?sz\<rparr>"
      using k k0 w by (cases w) simp
    then show "w \<in> set ws" using kn unfolding ws_def windows_from_def set_map by (intro image_eqI) simp_all
  qed
  ultimately show ?thesis
    using loop s0(1) by (simp add: sliding_assign_windows_def)
qed

text \<open>
  (C26) As long as no computation leaves the 64-bit range, the assignment to sliding windows terminates and returns, in chronological order, exactly the windows of
  the configured size that are aligned to the slide and contain the timestamp.
\<close>

theorem sliding_assign_spec:
  assumes a: "0 < sa_slide_ms a" "sa_slide_ms a \<le> sa_size_ms a"
    and ts: "assignable (sa_slide_ms a) (sa_offset_ms a) ts"
      "i64_min + sa_size_ms a + sa_slide_ms a \<le> ts" "ts + sa_size_ms a \<le> i64_max"
  shows "\<exists>ws. sliding_assign_windows a ts = Some ws \<and> sorted_wrt (\<lambda>v w. wi_start v < wi_start w) ws \<and>
    (\<forall>w. w \<in> set ws \<longleftrightarrow>
       wi_end w = wi_start w + sa_size_ms a \<and> sa_slide_ms a dvd wi_start w - sa_offset_ms a \<and> wi_start w \<le> ts \<and> ts < wi_end w)"
  by (rule sliding_windows [OF assms])

theorem sliding_assign_spec_witness:
  "\<exists>ws. sliding_assign_windows \<lparr>sa_size_ms = 60, sa_slide_ms = 20, sa_windows_per_event = 3, sa_offset_ms = 0\<rparr> 50 = Some ws \<and>
     \<lparr>wi_start = 20, wi_end = 80\<rparr> \<in> set ws \<and> \<lparr>wi_start = 60, wi_end = 120\<rparr> \<notin> set ws"
proof -
  let ?a = "\<lparr>sa_size_ms = 60, sa_slide_ms = 20, sa_windows_per_event = 3, sa_offset_ms = 0\<rparr>"
  have "\<exists>ws. sliding_assign_windows ?a 50 = Some ws \<and> sorted_wrt (\<lambda>v w. wi_start v < wi_start w) ws \<and>
    (\<forall>w. w \<in> set ws \<longleftrightarrow>
       wi_end w = wi_start w + sa_size_ms ?a \<and> sa_slide_ms ?a dvd wi_start w - sa_offset_ms ?a \<and> wi_start w \<le> 50 \<and> 50 < wi_end w)"
    by (rule sliding_assign_spec) (simp_all add: assignable_def i64_simps)
  then show ?thesis by auto
qed

text \<open>
  The number of windows per event that the assigner reports is not the number it assigns when the slide does
  not divide the size.
\<close>

lemma windows_per_event_overstates:
  "\<exists>a ws. sliding_from_millis 10 4 = Some a \<and> sa_windows_per_event a = 3 \<and> sliding_assign_windows a 3 = Some ws \<and> length ws = 2"
proof -
  let ?a = "\<lparr>sa_size_ms = 10, sa_slide_ms = 4, sa_windows_per_event = 3, sa_offset_ms = 0\<rparr>"
  have "sliding_from_millis 10 4 = Some ?a" by code_simp
  moreover have "last_window_start ?a 3 = 0" by code_simp
  moreover have "sliding_loop ?a 3 0 [] = Some ([] @ windows_from 10 4 0 2)"
    using sliding_loop_eq [of ?a 3 0 2 "[]"] by (simp add: i64_simps)
  ultimately show ?thesis by (simp add: sliding_assign_windows_def windows_from_def)
qed

section \<open>The assigner interface\<close>

text \<open>
  What a window operator relies on: an event lies in every window it is assigned to, hence before the
  timestamp at which such a window can be triggered.
\<close>

locale window_assigner =
  fixes assign :: "i64 \<Rightarrow> window_id list"
    and ok :: "i64 \<Rightarrow> bool"
  assumes contains: "ok ts \<Longrightarrow> w \<in> set (assign ts) \<Longrightarrow> wi_start w \<le> ts \<and> ts < wi_end w"
    and in_range: "ok ts \<Longrightarrow> w \<in> set (assign ts) \<Longrightarrow> wid_ok w"
begin

lemma assigned_before_trigger:
  assumes "ok ts" "w \<in> set (assign ts)"
  shows "ts \<le> max_timestamp (wi_end w)"
proof -
  have "ts < wi_end w" "in_i64 (wi_start w)" "wi_start w \<le> ts" "in_i64 (wi_end w)"
    using contains [OF assms] in_range [OF assms] by (simp_all add: wid_ok_def)
  then have "in_i64 (wi_end w - 1)" by (simp add: in_i64_def)
  then show ?thesis using \<open>ts < wi_end w\<close> by (simp add: max_timestamp_def)
qed

lemma assigned_key:
  assumes "ok ts" "w \<in> set (assign ts)"
  shows "from_key (to_key w) = Some w"
  by (rule from_to_key [OF in_range [OF assms]])

end

definition tumbling_ok :: "tumbling_assigner \<Rightarrow> i64 \<Rightarrow> bool" where
  "tumbling_ok a ts \<longleftrightarrow> 0 < ta_size_ms a \<and> assignable (ta_size_ms a) (ta_offset_ms a) ts"

definition sliding_ok :: "sliding_assigner \<Rightarrow> i64 \<Rightarrow> bool" where
  "sliding_ok a ts \<longleftrightarrow> 0 < sa_slide_ms a \<and> sa_slide_ms a \<le> sa_size_ms a \<and>
     assignable (sa_slide_ms a) (sa_offset_ms a) ts \<and> i64_min + sa_size_ms a + sa_slide_ms a \<le> ts \<and> ts + sa_size_ms a \<le> i64_max"

interpretation tumbling: window_assigner "tumbling_assign_windows a" "tumbling_ok a" for a
proof
  fix ts w
  assume ts: "tumbling_ok a ts" and w: "w \<in> set (tumbling_assign_windows a ts)"
  have "w = tumbling_assign a ts" using w by (simp add: tumbling_assign_windows_def)
  note props = tumbling_assign_props [OF conjunct1 conjunct2, OF ts [unfolded tumbling_ok_def] ts [unfolded tumbling_ok_def] this]
  show "wi_start w \<le> ts \<and> ts < wi_end w" "wid_ok w"
    using props by blast+
qed

interpretation sliding: window_assigner "\<lambda>ts. unwrap_or (sliding_assign_windows a ts) []" "sliding_ok a" for a
proof
  fix ts w
  assume ts: "sliding_ok a ts" and w: "w \<in> set (unwrap_or (sliding_assign_windows a ts) [])"
  have ok: "0 < sa_slide_ms a" "sa_slide_ms a \<le> sa_size_ms a" "assignable (sa_slide_ms a) (sa_offset_ms a) ts"
    "i64_min + sa_size_ms a + sa_slide_ms a \<le> ts" "ts + sa_size_ms a \<le> i64_max"
    using ts by (simp_all add: sliding_ok_def)
  obtain ws where "sliding_assign_windows a ts = Some ws" "\<forall>w. w \<in> set ws \<longleftrightarrow>
      wi_end w = wi_start w + sa_size_ms a \<and> sa_slide_ms a dvd wi_start w - sa_offset_ms a \<and> wi_start w \<le> ts \<and> ts < wi_end w"
    using sliding_windows [OF ok] by blast
  then have props: "wi_end w = wi_start w + sa_size_ms a" "wi_start w \<le> ts" "ts < wi_end w"
    using w by (simp_all add: unwrap_or_def)
  then show "wi_start w \<le> ts \<and> ts < wi_end w" by blast
  show "wid_ok w"
    using props ok by (simp add: wid_ok_def in_i64_def)
qed

end
