(* ===== verification/Window_Aggregates.thy ===== *)
theory Window_Aggregates
  imports Operator_Types
begin

text \<open>
  The window aggregates of \<^verbatim>\<open>crates/laminar-core/src/operator/window.rs\<close>: accumulators with \<^verbatim>\<open>add\<close>,
  \<^verbatim>\<open>merge\<close>, \<^verbatim>\<open>result\<close> and \<^verbatim>\<open>is_empty\<close>, and what each aggregator extracts from an event. Access to a column of a
  record batch (Arrow) is a parameter, \<^verbatim>\<open>col\<close>: the values of a column, or \<^verbatim>\<open>None\<close> if there is no such column or
  it has another type. Sums wrap as in the release profile. Floating-point numbers are a type \<^verbatim>\<open>'f\<close> with the
  operations the code applies to them as parameters.
\<close>

section \<open>Results\<close>

definition u64_to_i64 :: "nat \<Rightarrow> i64" where
  "u64_to_i64 v = (if int v \<le> i64_max then int v else i64_max)"

definition opt_to_i64 :: "i64 option \<Rightarrow> i64" where
  "opt_to_i64 v = unwrap_or v 0"

section \<open>Count\<close>

record count_acc =
  ca_count :: nat

definition count_default :: count_acc where "count_default = \<lparr>ca_count = 0\<rparr>"

definition count_add :: "count_acc \<Rightarrow> unit \<Rightarrow> count_acc" where
  "count_add a v = a\<lparr>ca_count := ca_count a + 1\<rparr>"

definition count_merge :: "count_acc \<Rightarrow> count_acc \<Rightarrow> count_acc" where
  "count_merge a b = a\<lparr>ca_count := ca_count a + ca_count b\<rparr>"

definition count_result :: "count_acc \<Rightarrow> nat" where
  "count_result a = ca_count a"

definition count_is_empty :: "count_acc \<Rightarrow> bool" where
  "count_is_empty a \<longleftrightarrow> ca_count a = 0"

definition count_extract :: "'d event \<Rightarrow> unit option" where
  "count_extract e = Some ()"

section \<open>Sum\<close>

record sum_acc =
  sm_sum :: i64
  sm_count :: nat

definition sum_default :: sum_acc where "sum_default = \<lparr>sm_sum = 0, sm_count = 0\<rparr>"

definition sum_add :: "sum_acc \<Rightarrow> i64 \<Rightarrow> sum_acc" where
  "sum_add a v = \<lparr>sm_sum = wrap64 (sm_sum a + v), sm_count = sm_count a + 1\<rparr>"

definition sum_merge :: "sum_acc \<Rightarrow> sum_acc \<Rightarrow> sum_acc" where
  "sum_merge a b = \<lparr>sm_sum = wrap64 (sm_sum a + sm_sum b), sm_count = sm_count a + sm_count b\<rparr>"

definition sum_result :: "sum_acc \<Rightarrow> i64" where
  "sum_result a = sm_sum a"

definition sum_is_empty :: "sum_acc \<Rightarrow> bool" where
  "sum_is_empty a \<longleftrightarrow> sm_count a = 0"

text \<open>\<^verbatim>\<open>array.iter().flatten()\<close>: the values that are not null.\<close>

definition non_null :: "'v option list \<Rightarrow> 'v list" where
  "non_null xs = List.map_filter id xs"

definition sum_extract :: "('d \<Rightarrow> nat \<Rightarrow> i64 option list option) \<Rightarrow> nat \<Rightarrow> 'd event \<Rightarrow> i64 option" where
  "sum_extract col column_index e =
     (case col (ev_data e) column_index of
        None \<Rightarrow> None
      | Some array \<Rightarrow> Some (foldl (\<lambda>a v. wrap64 (a + v)) 0 (non_null array)))"

section \<open>Minimum and maximum\<close>

record min_acc =
  mi_min :: "i64 option"

definition min_default :: min_acc where "min_default = \<lparr>mi_min = None\<rparr>"

definition min_add :: "min_acc \<Rightarrow> i64 \<Rightarrow> min_acc" where
  "min_add a v = a\<lparr>mi_min := Some (case mi_min a of None \<Rightarrow> v | Some m \<Rightarrow> min m v)\<rparr>"

definition min_merge :: "min_acc \<Rightarrow> min_acc \<Rightarrow> min_acc" where
  "min_merge a b = (case mi_min b of Some other_min \<Rightarrow> min_add a other_min | None \<Rightarrow> a)"

definition min_result :: "min_acc \<Rightarrow> i64 option" where
  "min_result a = mi_min a"

definition min_is_empty :: "min_acc \<Rightarrow> bool" where
  "min_is_empty a \<longleftrightarrow> mi_min a = None"

definition min_extract :: "('d \<Rightarrow> nat \<Rightarrow> i64 option list option) \<Rightarrow> nat \<Rightarrow> 'd event \<Rightarrow> i64 option" where
  "min_extract col column_index e =
     (case col (ev_data e) column_index of None \<Rightarrow> None | Some array \<Rightarrow> list_min (non_null array))"

record max_acc =
  ma_max :: "i64 option"

definition max_default :: max_acc where "max_default = \<lparr>ma_max = None\<rparr>"

definition max_add :: "max_acc \<Rightarrow> i64 \<Rightarrow> max_acc" where
  "max_add a v = a\<lparr>ma_max := Some (case ma_max a of None \<Rightarrow> v | Some m \<Rightarrow> max m v)\<rparr>"

definition max_merge :: "max_acc \<Rightarrow> max_acc \<Rightarrow> max_acc" where
  "max_merge a b = (case ma_max b of Some other_max \<Rightarrow> max_add a other_max | None \<Rightarrow> a)"

definition max_result :: "max_acc \<Rightarrow> i64 option" where
  "max_result a = ma_max a"

definition max_is_empty :: "max_acc \<Rightarrow> bool" where
  "max_is_empty a \<longleftrightarrow> ma_max a = None"

definition max_extract :: "('d \<Rightarrow> nat \<Rightarrow> i64 option list option) \<Rightarrow> nat \<Rightarrow> 'd event \<Rightarrow> i64 option" where
  "max_extract col column_index e =
     (case col (ev_data e) column_index of None \<Rightarrow> None | Some array \<Rightarrow> list_max (non_null array))"

section \<open>Average\<close>

text \<open>\<^verbatim>\<open>quot s n\<close> is the floating-point quotient of the two numbers.\<close>

record avg_acc =
  av_sum :: i64
  av_count :: nat

definition avg_default :: avg_acc where "avg_default = \<lparr>av_sum = 0, av_count = 0\<rparr>"

definition avg_add :: "avg_acc \<Rightarrow> i64 \<Rightarrow> avg_acc" where
  "avg_add a v = \<lparr>av_sum = wrap64 (av_sum a + v), av_count = av_count a + 1\<rparr>"

definition avg_merge :: "avg_acc \<Rightarrow> avg_acc \<Rightarrow> avg_acc" where
  "avg_merge a b = \<lparr>av_sum = wrap64 (av_sum a + av_sum b), av_count = av_count a + av_count b\<rparr>"

definition avg_result :: "(i64 \<Rightarrow> nat \<Rightarrow> 'f) \<Rightarrow> avg_acc \<Rightarrow> 'f option" where
  "avg_result quot a = (if av_count a = 0 then None else Some (quot (av_sum a) (av_count a)))"

definition avg_is_empty :: "avg_acc \<Rightarrow> bool" where
  "avg_is_empty a \<longleftrightarrow> av_count a = 0"

definition avg_extract :: "('d \<Rightarrow> nat \<Rightarrow> i64 option list option) \<Rightarrow> nat \<Rightarrow> 'd event \<Rightarrow> i64 option" where
  "avg_extract col column_index e =
     (case col (ev_data e) column_index of
        None \<Rightarrow> None
      | Some array \<Rightarrow> (case non_null array of [] \<Rightarrow> None | v # _ \<Rightarrow> Some v))"

definition avg_extract_batch :: "('d \<Rightarrow> nat \<Rightarrow> i64 option list option) \<Rightarrow> nat \<Rightarrow> 'd event \<Rightarrow> i64 list" where
  "avg_extract_batch col column_index e =
     (case col (ev_data e) column_index of None \<Rightarrow> [] | Some array \<Rightarrow> non_null array)"

text \<open>The default \<^verbatim>\<open>extract_batch\<close>.\<close>

definition extract_batch :: "('d event \<Rightarrow> 'i option) \<Rightarrow> 'd event \<Rightarrow> 'i list" where
  "extract_batch extract e = (case extract e of Some v \<Rightarrow> [v] | None \<Rightarrow> [])"

section \<open>First and last value\<close>

record first_acc =
  fi_value :: "i64 option"
  fi_timestamp :: "i64 option"

definition first_default :: first_acc where "first_default = \<lparr>fi_value = None, fi_timestamp = None\<rparr>"

definition first_add :: "first_acc \<Rightarrow> i64 \<times> i64 \<Rightarrow> first_acc" where
  "first_add a vt =
     (let (v, ts) = vt
      in case fi_timestamp a of
           None \<Rightarrow> \<lparr>fi_value = Some v, fi_timestamp = Some ts\<rparr>
         | Some existing_ts \<Rightarrow>
             if ts < existing_ts then \<lparr>fi_value = Some v, fi_timestamp = Some ts\<rparr> else a)"

definition first_merge :: "first_acc \<Rightarrow> first_acc \<Rightarrow> first_acc" where
  "first_merge a b =
     (case (fi_timestamp a, fi_timestamp b) of
        (None, Some _) \<Rightarrow> \<lparr>fi_value = fi_value b, fi_timestamp = fi_timestamp b\<rparr>
      | (Some self_ts, Some other_ts) \<Rightarrow>
          if other_ts < self_ts then \<lparr>fi_value = fi_value b, fi_timestamp = fi_timestamp b\<rparr> else a
      | _ \<Rightarrow> a)"

definition first_result :: "first_acc \<Rightarrow> i64 option" where
  "first_result a = fi_value a"

definition first_is_empty :: "first_acc \<Rightarrow> bool" where
  "first_is_empty a \<longleftrightarrow> fi_value a = None"

definition first_extract ::
  "('d \<Rightarrow> nat \<Rightarrow> i64 option list option) \<Rightarrow> nat \<Rightarrow> nat \<Rightarrow> 'd event \<Rightarrow> (i64 \<times> i64) option" where
  "first_extract col value_column ts_column e =
     (case (col (ev_data e) value_column, col (ev_data e) ts_column) of
        (Some vs, Some tss) \<Rightarrow>
          (case (non_null vs, non_null tss) of (v # _, ts # _) \<Rightarrow> Some (v, ts) | _ \<Rightarrow> None)
      | _ \<Rightarrow> None)"

record last_acc =
  la_value :: "i64 option"
  la_timestamp :: "i64 option"

definition last_default :: last_acc where "last_default = \<lparr>la_value = None, la_timestamp = None\<rparr>"

definition last_add :: "last_acc \<Rightarrow> i64 \<times> i64 \<Rightarrow> last_acc" where
  "last_add a vt =
     (let (v, ts) = vt
      in case la_timestamp a of
           None \<Rightarrow> \<lparr>la_value = Some v, la_timestamp = Some ts\<rparr>
         | Some existing_ts \<Rightarrow>
             if ts > existing_ts then \<lparr>la_value = Some v, la_timestamp = Some ts\<rparr>
             else if ts = existing_ts then a\<lparr>la_value := Some v\<rparr>
             else a)"

definition last_merge :: "last_acc \<Rightarrow> last_acc \<Rightarrow> last_acc" where
  "last_merge a b =
     (case (la_timestamp a, la_timestamp b) of
        (None, Some _) \<Rightarrow> \<lparr>la_value = la_value b, la_timestamp = la_timestamp b\<rparr>
      | (Some self_ts, Some other_ts) \<Rightarrow>
          if other_ts > self_ts then \<lparr>la_value = la_value b, la_timestamp = la_timestamp b\<rparr>
          else if other_ts = self_ts then a\<lparr>la_value := la_value b\<rparr>
          else a
      | _ \<Rightarrow> a)"

definition last_result :: "last_acc \<Rightarrow> i64 option" where
  "last_result a = la_value a"

definition last_is_empty :: "last_acc \<Rightarrow> bool" where
  "last_is_empty a \<longleftrightarrow> la_value a = None"

definition last_extract ::
  "('d \<Rightarrow> nat \<Rightarrow> i64 option list option) \<Rightarrow> nat \<Rightarrow> nat \<Rightarrow> 'd event \<Rightarrow> (i64 \<times> i64) option" where
  "last_extract col value_column ts_column e =
     (case (col (ev_data e) value_column, col (ev_data e) ts_column) of
        (Some vs, Some tss) \<Rightarrow>
          (case (non_null vs, non_null tss) of (v # _, ts # _) \<Rightarrow> Some (v, ts) | _ \<Rightarrow> None)
      | _ \<Rightarrow> None)"

section \<open>First and last value of floating-point columns\<close>

text \<open>A floating-point number is its bit pattern; the accumulators store it as a signed integer.\<close>

record first_f64_acc =
  ff_value :: "i64 option"
  ff_timestamp :: "i64 option"

definition first_f64_default :: first_f64_acc where "first_f64_default = \<lparr>ff_value = None, ff_timestamp = None\<rparr>"

definition first_f64_add :: "first_f64_acc \<Rightarrow> 64 word \<times> i64 \<Rightarrow> first_f64_acc" where
  "first_f64_add a vt =
     (let (v, ts) = vt; value_bits = sint v
      in case ff_timestamp a of
           None \<Rightarrow> \<lparr>ff_value = Some value_bits, ff_timestamp = Some ts\<rparr>
         | Some existing_ts \<Rightarrow>
             if ts < existing_ts then \<lparr>ff_value = Some value_bits, ff_timestamp = Some ts\<rparr> else a)"

definition first_f64_merge :: "first_f64_acc \<Rightarrow> first_f64_acc \<Rightarrow> first_f64_acc" where
  "first_f64_merge a b =
     (case (ff_timestamp a, ff_timestamp b) of
        (None, Some _) \<Rightarrow> \<lparr>ff_value = ff_value b, ff_timestamp = ff_timestamp b\<rparr>
      | (Some self_ts, Some other_ts) \<Rightarrow>
          if other_ts < self_ts then \<lparr>ff_value = ff_value b, ff_timestamp = ff_timestamp b\<rparr> else a
      | _ \<Rightarrow> a)"

definition first_f64_result :: "first_f64_acc \<Rightarrow> 64 word option" where
  "first_f64_result a = map_option word_of_int (ff_value a)"

definition first_f64_is_empty :: "first_f64_acc \<Rightarrow> bool" where
  "first_f64_is_empty a \<longleftrightarrow> ff_value a = None"

definition first_f64_extract ::
  "('d \<Rightarrow> nat \<Rightarrow> 64 word option list option) \<Rightarrow> ('d \<Rightarrow> nat \<Rightarrow> i64 option list option) \<Rightarrow> nat \<Rightarrow> nat \<Rightarrow> 'd event \<Rightarrow>
   (64 word \<times> i64) option" where
  "first_f64_extract fcol col value_column ts_column e =
     (case (fcol (ev_data e) value_column, col (ev_data e) ts_column) of
        (Some vs, Some tss) \<Rightarrow>
          (case (non_null vs, non_null tss) of (v # _, ts # _) \<Rightarrow> Some (v, ts) | _ \<Rightarrow> None)
      | _ \<Rightarrow> None)"

record last_f64_acc =
  lf_value :: "i64 option"
  lf_timestamp :: "i64 option"

definition last_f64_default :: last_f64_acc where "last_f64_default = \<lparr>lf_value = None, lf_timestamp = None\<rparr>"

definition last_f64_add :: "last_f64_acc \<Rightarrow> 64 word \<times> i64 \<Rightarrow> last_f64_acc" where
  "last_f64_add a vt =
     (let (v, ts) = vt; value_bits = sint v
      in case lf_timestamp a of
           None \<Rightarrow> \<lparr>lf_value = Some value_bits, lf_timestamp = Some ts\<rparr>
         | Some existing_ts \<Rightarrow>
             if ts > existing_ts then \<lparr>lf_value = Some value_bits, lf_timestamp = Some ts\<rparr>
             else if ts = existing_ts then a\<lparr>lf_value := Some value_bits\<rparr>
             else a)"

definition last_f64_merge :: "last_f64_acc \<Rightarrow> last_f64_acc \<Rightarrow> last_f64_acc" where
  "last_f64_merge a b =
     (case (lf_timestamp a, lf_timestamp b) of
        (None, Some _) \<Rightarrow> \<lparr>lf_value = lf_value b, lf_timestamp = lf_timestamp b\<rparr>
      | (Some self_ts, Some other_ts) \<Rightarrow>
          if other_ts > self_ts then \<lparr>lf_value = lf_value b, lf_timestamp = lf_timestamp b\<rparr>
          else if other_ts = self_ts then a\<lparr>lf_value := lf_value b\<rparr>
          else a
      | _ \<Rightarrow> a)"

definition last_f64_result :: "last_f64_acc \<Rightarrow> 64 word option" where
  "last_f64_result a = map_option word_of_int (lf_value a)"

definition last_f64_is_empty :: "last_f64_acc \<Rightarrow> bool" where
  "last_f64_is_empty a \<longleftrightarrow> lf_value a = None"

definition last_f64_extract ::
  "('d \<Rightarrow> nat \<Rightarrow> 64 word option list option) \<Rightarrow> ('d \<Rightarrow> nat \<Rightarrow> i64 option list option) \<Rightarrow> nat \<Rightarrow> nat \<Rightarrow> 'd event \<Rightarrow>
   (64 word \<times> i64) option" where
  "last_f64_extract fcol col value_column ts_column e =
     (case (fcol (ev_data e) value_column, col (ev_data e) ts_column) of
        (Some vs, Some tss) \<Rightarrow>
          (case (non_null vs, non_null tss) of (v # _, ts # _) \<Rightarrow> Some (v, ts) | _ \<Rightarrow> None)
      | _ \<Rightarrow> None)"

section \<open>The accumulator interface\<close>

text \<open>
  What the window operators rely on: merging two partial aggregates is aggregating the values of both in
  order, and only an accumulator without values is empty.
\<close>

locale accumulator =
  fixes default :: 'a
    and add :: "'a \<Rightarrow> 'i \<Rightarrow> 'a"
    and merge :: "'a \<Rightarrow> 'a \<Rightarrow> 'a"
    and is_empty :: "'a \<Rightarrow> bool"
  assumes merge_default: "merge (foldl add default xs) default = foldl add default xs"
    and merge_add: "merge (foldl add default xs) (add (foldl add default ys) y) = add (merge (foldl add default xs) (foldl add default ys)) y"
    and empty_default: "is_empty default"
    and not_empty_add: "\<not> is_empty (add (foldl add default xs) y)"
begin

lemma merge_folds: "merge (foldl add default xs) (foldl add default ys) = foldl add default (xs @ ys)"
  by (induction ys rule: rev_induct) (simp_all add: merge_default merge_add)

lemma merge_default_left: "merge default (foldl add default ys) = foldl add default ys"
  using merge_folds [of "[]" ys] by simp

lemma empty_iff: "is_empty (foldl add default xs) \<longleftrightarrow> xs = []"
  by (cases xs rule: rev_cases) (simp_all add: empty_default not_empty_add)

lemma merge_chunks: "foldl merge default (map (foldl add default) xss) = foldl add default (concat xss)"
  by (induction xss rule: rev_induct) (simp_all add: merge_folds)

lemma merge_assoc:
  "merge (merge (foldl add default xs) (foldl add default ys)) (foldl add default zs) =
   merge (foldl add default xs) (merge (foldl add default ys) (foldl add default zs))"
  by (simp add: merge_folds del: foldl_append)

end

lemma wrap64_add_left: "wrap64 (wrap64 a + b) = wrap64 (a + b)"
proof -
  have "wrap64 a + b + 2 ^ 63 = (a + 2 ^ 63) mod 2 ^ 64 + b"
    by (simp add: wrap64_def)
  also have "\<dots> mod 2 ^ 64 = (a + 2 ^ 63 + b) mod 2 ^ 64"
    by (rule mod_add_left_eq)
  also have "a + 2 ^ 63 + b = a + b + 2 ^ 63" by simp
  finally show ?thesis unfolding wrap64_def [of "wrap64 a + b"] wrap64_def [of "a + b"] by simp
qed

lemma wrap64_add_right: "wrap64 (a + wrap64 b) = wrap64 (a + b)"
  using wrap64_add_left [of b a] by (simp add: add.commute)

interpretation count: accumulator count_default count_add count_merge count_is_empty
  by unfold_locales (simp_all add: count_default_def count_add_def count_merge_def count_is_empty_def)

lemma in_i64_zero [simp]: "in_i64 0"
  by (simp add: i64_simps)

lemma sum_reachable: "in_i64 (sm_sum (foldl sum_add sum_default xs))"
  by (induction xs rule: rev_induct) (simp_all add: sum_default_def sum_add_def)

interpretation sum: accumulator sum_default sum_add sum_merge sum_is_empty
proof
  show "sum_merge (foldl sum_add sum_default xs) sum_default = foldl sum_add sum_default xs" for xs
    using sum_reachable [of xs] by (simp add: sum_merge_def sum_default_def)
qed (simp_all add: sum_default_def sum_add_def sum_merge_def sum_is_empty_def wrap64_add_left wrap64_add_right add.assoc)

interpretation minimum: accumulator min_default min_add min_merge min_is_empty
  by unfold_locales (auto simp: min_default_def min_add_def min_merge_def min_is_empty_def min.assoc split: option.splits)

interpretation maximum: accumulator max_default max_add max_merge max_is_empty
  by unfold_locales (auto simp: max_default_def max_add_def max_merge_def max_is_empty_def max.assoc split: option.splits)

lemma avg_reachable: "in_i64 (av_sum (foldl avg_add avg_default xs))"
  by (induction xs rule: rev_induct) (simp_all add: avg_default_def avg_add_def)

interpretation average: accumulator avg_default avg_add avg_merge avg_is_empty
proof
  show "avg_merge (foldl avg_add avg_default xs) avg_default = foldl avg_add avg_default xs" for xs
    using avg_reachable [of xs] by (simp add: avg_merge_def avg_default_def)
qed (simp_all add: avg_default_def avg_add_def avg_merge_def avg_is_empty_def wrap64_add_left wrap64_add_right add.assoc)

lemma first_reachable: "fi_timestamp (foldl first_add first_default xs) = None \<longleftrightarrow> fi_value (foldl first_add first_default xs) = None"
proof (induction xs rule: rev_induct)
  case (snoc x xs)
  then show ?case
    by (auto simp: first_add_def [of "foldl first_add first_default xs" x] Let_def split: option.splits prod.splits)
qed (simp add: first_default_def)

lemma first_merge_default: "first_merge a first_default = a"
  by (auto simp: first_merge_def first_default_def split: option.splits)

lemma first_merge_add:
  assumes "fi_timestamp b = None \<longleftrightarrow> fi_value b = None"
  shows "first_merge a (first_add b y) = first_add (first_merge a b) y"
proof -
  obtain v ts where y: "y = (v, ts)" by fastforce
  show ?thesis
    using assms by (cases "fi_timestamp a"; cases "fi_timestamp b") (auto simp: first_merge_def first_add_def y Let_def)
qed

interpretation first: accumulator first_default first_add first_merge first_is_empty
proof
  show "\<not> first_is_empty (first_add (foldl first_add first_default xs) y)" for xs y
    using first_reachable [of "xs @ [y]"] first_reachable [of xs]
    by (auto simp: first_is_empty_def first_add_def [of "foldl first_add first_default xs" y] Let_def split: option.splits prod.splits if_splits)
qed (simp_all add: first_merge_default first_merge_add [OF first_reachable], simp add: first_is_empty_def first_default_def)

lemma last_reachable: "la_timestamp (foldl last_add last_default xs) = None \<longleftrightarrow> la_value (foldl last_add last_default xs) = None"
proof (induction xs rule: rev_induct)
  case (snoc x xs)
  then show ?case
    by (auto simp: last_add_def [of "foldl last_add last_default xs" x] Let_def split: option.splits prod.splits)
qed (simp add: last_default_def)

lemma last_merge_default: "last_merge a last_default = a"
  by (auto simp: last_merge_def last_default_def split: option.splits)

lemma last_merge_add:
  assumes "la_timestamp b = None \<longleftrightarrow> la_value b = None"
  shows "last_merge a (last_add b y) = last_add (last_merge a b) y"
proof -
  obtain v ts where y: "y = (v, ts)" by fastforce
  show ?thesis
    using assms by (cases "la_timestamp a"; cases "la_timestamp b") (auto simp: last_merge_def last_add_def y Let_def)
qed

interpretation last: accumulator last_default last_add last_merge last_is_empty
proof
  show "\<not> last_is_empty (last_add (foldl last_add last_default xs) y)" for xs y
    using last_reachable [of "xs @ [y]"] last_reachable [of xs]
    by (auto simp: last_is_empty_def last_add_def [of "foldl last_add last_default xs" y] Let_def split: option.splits prod.splits if_splits)
qed (simp_all add: last_merge_default last_merge_add [OF last_reachable], simp add: last_is_empty_def last_default_def)

lemma first_f64_reachable: "ff_timestamp (foldl first_f64_add first_f64_default xs) = None \<longleftrightarrow> ff_value (foldl first_f64_add first_f64_default xs) = None"
proof (induction xs rule: rev_induct)
  case (snoc x xs)
  then show ?case
    by (auto simp: first_f64_add_def [of "foldl first_f64_add first_f64_default xs" x] Let_def split: option.splits prod.splits)
qed (simp add: first_f64_default_def)

lemma first_f64_merge_default: "first_f64_merge a first_f64_default = a"
  by (auto simp: first_f64_merge_def first_f64_default_def split: option.splits)

lemma first_f64_merge_add:
  assumes "ff_timestamp b = None \<longleftrightarrow> ff_value b = None"
  shows "first_f64_merge a (first_f64_add b y) = first_f64_add (first_f64_merge a b) y"
proof -
  obtain v ts where y: "y = (v, ts)" by fastforce
  show ?thesis
    using assms by (cases "ff_timestamp a"; cases "ff_timestamp b") (auto simp: first_f64_merge_def first_f64_add_def y Let_def)
qed

interpretation first_f64: accumulator first_f64_default first_f64_add first_f64_merge first_f64_is_empty
proof
  show "\<not> first_f64_is_empty (first_f64_add (foldl first_f64_add first_f64_default xs) y)" for xs y
    using first_f64_reachable [of "xs @ [y]"] first_f64_reachable [of xs]
    by (auto simp: first_f64_is_empty_def first_f64_add_def [of "foldl first_f64_add first_f64_default xs" y] Let_def split: option.splits prod.splits if_splits)
qed (simp_all add: first_f64_merge_default first_f64_merge_add [OF first_f64_reachable], simp add: first_f64_is_empty_def first_f64_default_def)

lemma last_f64_reachable: "lf_timestamp (foldl last_f64_add last_f64_default xs) = None \<longleftrightarrow> lf_value (foldl last_f64_add last_f64_default xs) = None"
proof (induction xs rule: rev_induct)
  case (snoc x xs)
  then show ?case
    by (auto simp: last_f64_add_def [of "foldl last_f64_add last_f64_default xs" x] Let_def split: option.splits prod.splits)
qed (simp add: last_f64_default_def)

lemma last_f64_merge_default: "last_f64_merge a last_f64_default = a"
  by (auto simp: last_f64_merge_def last_f64_default_def split: option.splits)

lemma last_f64_merge_add:
  assumes "lf_timestamp b = None \<longleftrightarrow> lf_value b = None"
  shows "last_f64_merge a (last_f64_add b y) = last_f64_add (last_f64_merge a b) y"
proof -
  obtain v ts where y: "y = (v, ts)" by fastforce
  show ?thesis
    using assms by (cases "lf_timestamp a"; cases "lf_timestamp b") (auto simp: last_f64_merge_def last_f64_add_def y Let_def)
qed

interpretation last_f64: accumulator last_f64_default last_f64_add last_f64_merge last_f64_is_empty
proof
  show "\<not> last_f64_is_empty (last_f64_add (foldl last_f64_add last_f64_default xs) y)" for xs y
    using last_f64_reachable [of "xs @ [y]"] last_f64_reachable [of xs]
    by (auto simp: last_f64_is_empty_def last_f64_add_def [of "foldl last_f64_add last_f64_default xs" y] Let_def split: option.splits prod.splits if_splits)
qed (simp_all add: last_f64_merge_default last_f64_merge_add [OF last_f64_reachable], simp add: last_f64_is_empty_def last_f64_default_def)

section \<open>What the aggregates compute\<close>

lemma count_fold: "ca_count (foldl count_add count_default xs) = length xs"
  by (induction xs rule: rev_induct) (simp_all add: count_default_def count_add_def)

lemma sum_fold: "sm_sum (foldl sum_add sum_default xs) = wrap64 (sum_list xs)"
  by (induction xs rule: rev_induct) (simp_all add: sum_default_def sum_add_def wrap64_add_left)

lemma avg_fold: "av_sum (foldl avg_add avg_default xs) = wrap64 (sum_list xs)" "av_count (foldl avg_add avg_default xs) = length xs"
  by (induction xs rule: rev_induct) (simp_all add: avg_default_def avg_add_def wrap64_add_left)

lemma min_fold: "mi_min (foldl min_add min_default xs) = (if xs = [] then None else Some (Min (set xs)))"
proof (induction xs rule: rev_induct)
  case (snoc x xs)
  then show ?case by (cases "xs = []") (simp_all add: min_add_def min.commute)
qed (simp add: min_default_def)

lemma max_fold: "ma_max (foldl max_add max_default xs) = (if xs = [] then None else Some (Max (set xs)))"
proof (induction xs rule: rev_induct)
  case (snoc x xs)
  then show ?case by (cases "xs = []") (simp_all add: max_add_def max.commute)
qed (simp add: max_default_def)

text \<open>\<^verbatim>\<open>min_by_key\<close> at the end of a list.\<close>

lemma min_by_key_snoc:
  "min_by_key f (xs @ [x]) = (case min_by_key f xs of None \<Rightarrow> Some x | Some y \<Rightarrow> Some (if f x < f y then x else y))"
  by (induction xs) (auto split: option.splits)

lemma first_fold:
  "first_result (foldl first_add first_default xs) = map_option fst (min_by_key snd xs) \<and>
   fi_timestamp (foldl first_add first_default xs) = map_option snd (min_by_key snd xs)"
proof (induction xs rule: rev_induct)
  case (snoc x xs)
  then show ?case
    by (cases x; cases "min_by_key snd xs")
      (auto simp: min_by_key_snoc first_result_def first_add_def)
qed (simp add: first_result_def first_default_def)

lemma last_fold:
  "last_result (foldl last_add last_default xs) = map_option fst (min_by_key (\<lambda>p. - snd p) (rev xs)) \<and>
   la_timestamp (foldl last_add last_default xs) = map_option snd (min_by_key (\<lambda>p. - snd p) (rev xs))"
proof (induction xs rule: rev_induct)
  case (snoc x xs)
  then show ?case
    by (cases x; cases "min_by_key (\<lambda>p. - snd p) (rev xs)")
      (auto simp: last_result_def last_add_def)
qed (simp add: last_result_def last_default_def)

text \<open>
  (C27) What the aggregates compute: the number of values, their sum wrapped to 64 bits, their minimum and maximum,
  and the value with the earliest (first arrival) and with the latest timestamp (last arrival). The average is the
  quotient of the wrapped sum by the number of values, so it is the mean of the values only when their sum
  fits in 64 bits. Builds with overflow checks panic where the sum wraps.
\<close>

theorem aggregates_spec:
  "count_result (foldl count_add count_default us) = length us \<and>
   sum_result (foldl sum_add sum_default xs) = wrap64 (sum_list xs) \<and>
   min_result (foldl min_add min_default xs) = (if xs = [] then None else Some (Min (set xs))) \<and>
   max_result (foldl max_add max_default xs) = (if xs = [] then None else Some (Max (set xs))) \<and>
   avg_result quot (foldl avg_add avg_default xs) = (if xs = [] then None else Some (quot (wrap64 (sum_list xs)) (length xs))) \<and>
   first_result (foldl first_add first_default vts) = map_option fst (min_by_key snd vts) \<and>
   last_result (foldl last_add last_default vts) = map_option fst (min_by_key (\<lambda>p. - snd p) (rev vts))"
  using first_fold [of vts] last_fold [of vts]
  by (simp add: count_result_def count_fold sum_result_def sum_fold min_result_def min_fold max_result_def max_fold
      avg_result_def avg_fold)

text \<open>
  (C25) Partial aggregates combine: splitting the values into chunks in any way, aggregating each and merging
  the accumulators in order gives the accumulator of all values.
\<close>

theorem aggregates_merge:
  "foldl count_merge count_default (map (foldl count_add count_default) uss) = foldl count_add count_default (concat uss) \<and>
   foldl sum_merge sum_default (map (foldl sum_add sum_default) xss) = foldl sum_add sum_default (concat xss) \<and>
   foldl min_merge min_default (map (foldl min_add min_default) xss) = foldl min_add min_default (concat xss) \<and>
   foldl max_merge max_default (map (foldl max_add max_default) xss) = foldl max_add max_default (concat xss) \<and>
   foldl avg_merge avg_default (map (foldl avg_add avg_default) xss) = foldl avg_add avg_default (concat xss) \<and>
   foldl first_merge first_default (map (foldl first_add first_default) vss) = foldl first_add first_default (concat vss) \<and>
   foldl last_merge last_default (map (foldl last_add last_default) vss) = foldl last_add last_default (concat vss) \<and>
   foldl first_f64_merge first_f64_default (map (foldl first_f64_add first_f64_default) wss) =
     foldl first_f64_add first_f64_default (concat wss) \<and>
   foldl last_f64_merge last_f64_default (map (foldl last_f64_add last_f64_default) wss) =
     foldl last_f64_add last_f64_default (concat wss)"
  by (intro conjI count.merge_chunks sum.merge_chunks minimum.merge_chunks maximum.merge_chunks average.merge_chunks
      first.merge_chunks last.merge_chunks first_f64.merge_chunks last_f64.merge_chunks)

text \<open>A sum beyond the 64-bit range wraps; a panic occurs only in builds with overflow checks.\<close>

lemma sum_overflow_wraps: "sum_result (foldl sum_add sum_default [i64_max, 1]) = i64_min"
  by (simp add: sum_result_def sum_add_def sum_default_def wrap64_def i64_simps)

text \<open>The average of two positive values is then the quotient of a negative sum.\<close>

lemma avg_overflow_wraps: "avg_result quot (foldl avg_add avg_default [i64_max, 1]) = Some (quot i64_min 2)"
  by (simp add: avg_result_def avg_add_def avg_default_def wrap64_def i64_simps numeral_2_eq_2)

end
