(* ===== verification/Tumbling_Window.thy ===== *)
theory Tumbling_Window
  imports Window_Assign Window_Aggregates Dag_Executor
begin

text \<open>
  The tumbling window operator of \<^verbatim>\<open>crates/laminar-core/src/operator/window.rs\<close> with its treatment of late
  events and its metrics. The operator runs in the node runtime of the executor: timers, state store and
  watermark generator. The state store is a map from byte keys to byte values; the serialization of an
  accumulator (rkyv) and the construction of an output batch (Arrow) are parameters. A panic is \<^verbatim>\<open>None\<close>.
\<close>

section \<open>Late data and close metrics\<close>

record late_data_config =
  ld_side_output :: "string option"

definition late_drop :: late_data_config where "late_drop = \<lparr>ld_side_output = None\<rparr>"

definition late_with_side_output :: "string \<Rightarrow> late_data_config" where
  "late_with_side_output name = \<lparr>ld_side_output = Some name\<rparr>"

definition should_drop :: "late_data_config \<Rightarrow> bool" where
  "should_drop c \<longleftrightarrow> ld_side_output c = None"

record late_data_metrics =
  lm_late_events_total :: nat
  lm_late_events_dropped :: nat
  lm_late_events_side_output :: nat

definition late_metrics_new :: late_data_metrics where
  "late_metrics_new = \<lparr>lm_late_events_total = 0, lm_late_events_dropped = 0, lm_late_events_side_output = 0\<rparr>"

definition record_dropped :: "late_data_metrics \<Rightarrow> late_data_metrics" where
  "record_dropped m =
     m\<lparr>lm_late_events_total := lm_late_events_total m + 1, lm_late_events_dropped := lm_late_events_dropped m + 1\<rparr>"

definition record_side_output :: "late_data_metrics \<Rightarrow> late_data_metrics" where
  "record_side_output m =
     m\<lparr>lm_late_events_total := lm_late_events_total m + 1, lm_late_events_side_output := lm_late_events_side_output m + 1\<rparr>"

record window_close_metrics =
  wc_windows_closed_total :: nat
  wc_close_latency_sum_ms :: i64
  wc_close_latency_max_ms :: i64

definition close_metrics_new :: window_close_metrics where
  "close_metrics_new = \<lparr>wc_windows_closed_total = 0, wc_close_latency_sum_ms = 0, wc_close_latency_max_ms = 0\<rparr>"

definition avg_close_latency_ms :: "window_close_metrics \<Rightarrow> i64" where
  "avg_close_latency_ms m =
     (if wc_windows_closed_total m = 0 then 0
      else wc_close_latency_sum_ms m sdiv u64_to_i64 (wc_windows_closed_total m))"

definition record_close :: "window_close_metrics \<Rightarrow> i64 \<Rightarrow> i64 \<Rightarrow> window_close_metrics" where
  "record_close m window_end processing_time =
     (let latency = max (saturating_sub processing_time window_end) 0
      in m\<lparr>wc_windows_closed_total := wc_windows_closed_total m + 1,
           wc_close_latency_sum_ms := wrap64 (wc_close_latency_sum_ms m + latency),
           wc_close_latency_max_ms :=
             (if latency > wc_close_latency_max_ms m then latency else wc_close_latency_max_ms m)\<rparr>)"

section \<open>Operator\<close>

record ('d, 'i, 'a, 'r) aggregator =
  ag_create_accumulator :: 'a
  ag_extract_batch :: "'d event \<Rightarrow> 'i list"
  ag_add :: "'a \<Rightarrow> 'i \<Rightarrow> 'a"
  ag_result :: "'a \<Rightarrow> 'r"
  ag_is_empty :: "'a \<Rightarrow> bool"
  ag_try_new :: "window_id \<Rightarrow> 'r \<Rightarrow> 'd option"
  ag_ser :: "'a \<Rightarrow> bytes option"
  ag_de :: "bytes \<Rightarrow> 'a option"

type_synonym store = "(bytes, bytes) hashmap"

record 'd tumbling_window =
  tw_assigner :: tumbling_assigner
  tw_allowed_lateness_ms :: i64
  tw_registered_windows :: "window_id list"
  tw_periodic_timer_windows :: "window_id list"
  tw_emit_strategy :: emit_strategy
  tw_late_data_config :: late_data_config
  tw_late_data_metrics :: late_data_metrics
  tw_window_close_metrics :: window_close_metrics
  tw_operator_id :: string
  tw_last_emitted :: "(window_id, 'd event) hashmap"
  tw_side_output_arc :: "string option"

definition tw_with_id :: "tumbling_assigner \<Rightarrow> nat \<Rightarrow> string \<Rightarrow> 'd tumbling_window option" where
  "tw_with_id assigner allowed_lateness operator_id =
     (case millis_i64 allowed_lateness of
        None \<Rightarrow> None
      | Some lateness \<Rightarrow>
          Some \<lparr>tw_assigner = assigner, tw_allowed_lateness_ms = lateness, tw_registered_windows = [],
                tw_periodic_timer_windows = [], tw_emit_strategy = OnWatermark, tw_late_data_config = late_drop,
                tw_late_data_metrics = late_metrics_new, tw_window_close_metrics = close_metrics_new,
                tw_operator_id = operator_id, tw_last_emitted = [], tw_side_output_arc = None\<rparr>)"

definition tw_new :: "nat \<Rightarrow> tumbling_assigner \<Rightarrow> nat \<Rightarrow> 'd tumbling_window option" where
  "tw_new operator_num assigner allowed_lateness =
     tw_with_id assigner allowed_lateness (''tumbling_window_'' @ dec_nat operator_num)"

definition tw_set_emit_strategy :: "'d tumbling_window \<Rightarrow> emit_strategy \<Rightarrow> 'd tumbling_window" where
  "tw_set_emit_strategy op strategy = op\<lparr>tw_emit_strategy := strategy\<rparr>"

definition tw_set_late_data_config :: "'d tumbling_window \<Rightarrow> late_data_config \<Rightarrow> 'd tumbling_window" where
  "tw_set_late_data_config op config = op\<lparr>tw_late_data_config := config\<rparr>"

definition tw_reset_late_data_metrics :: "'d tumbling_window \<Rightarrow> 'd tumbling_window" where
  "tw_reset_late_data_metrics op = op\<lparr>tw_late_data_metrics := late_metrics_new\<rparr>"

definition tw_reset_window_close_metrics :: "'d tumbling_window \<Rightarrow> 'd tumbling_window" where
  "tw_reset_window_close_metrics op = op\<lparr>tw_window_close_metrics := close_metrics_new\<rparr>"

definition active_windows_count :: "'d tumbling_window \<Rightarrow> nat" where
  "active_windows_count op = length (tw_registered_windows op)"

definition tw_state_key :: "window_id \<Rightarrow> bytes" where
  "tw_state_key w = [0x77, 0x69, 0x6E, 0x3A] @ to_key_inline w"

definition get_accumulator :: "('d, 'i, 'a, 'r) aggregator \<Rightarrow> window_id \<Rightarrow> store \<Rightarrow> 'a" where
  "get_accumulator ag w st =
     (case map_of st (tw_state_key w) of
        None \<Rightarrow> ag_create_accumulator ag
      | Some b \<Rightarrow> unwrap_or (ag_de ag b) (ag_create_accumulator ag))"

text \<open>A write fails only when the accumulator cannot be encoded: the node's store is the in-memory one, whose puts succeed.\<close>

definition put_accumulator :: "('d, 'i, 'a, 'r) aggregator \<Rightarrow> window_id \<Rightarrow> 'a \<Rightarrow> store \<Rightarrow> store option" where
  "put_accumulator ag w acc st =
     (case ag_ser ag acc of None \<Rightarrow> None | Some b \<Rightarrow> Some (AList.update (tw_state_key w) b st))"

definition delete_accumulator :: "window_id \<Rightarrow> store \<Rightarrow> store" where
  "delete_accumulator w st = AList.delete (tw_state_key w) st"

definition tw_is_late :: "'d tumbling_window \<Rightarrow> i64 \<Rightarrow> i64 \<Rightarrow> bool" where
  "tw_is_late op event_time watermark =
     (let w = tumbling_assign (tw_assigner op) event_time;
          cleanup_time = wrap64 (wi_end w + tw_allowed_lateness_ms op)
      in watermark \<ge> cleanup_time)"

definition maybe_register_timer ::
  "'d tumbling_window \<Rightarrow> window_id \<Rightarrow> nat \<Rightarrow> 's node_runtime \<Rightarrow> 'd tumbling_window \<times> 's node_runtime" where
  "maybe_register_timer op w op_index rt =
     (if w \<notin> set (tw_registered_windows op) then
        let trigger_time = wrap64 (wi_end w + tw_allowed_lateness_ms op)
        in (op\<lparr>tw_registered_windows := w # tw_registered_windows op\<rparr>,
            rt\<lparr>nr_timer_service :=
                 fst (register_timer (nr_timer_service rt) trigger_time (Some (to_key w)) (Some op_index))\<rparr>)
      else (op, rt))"

definition periodic_timer_key :: "window_id \<Rightarrow> bytes" where
  "periodic_timer_key w = (case to_key w of [] \<Rightarrow> [] | b # bs \<Rightarrow> (b OR 0x80) # bs)"

definition is_periodic_timer_key :: "bytes \<Rightarrow> bool" where
  "is_periodic_timer_key key \<longleftrightarrow> key \<noteq> [] \<and> hd key AND 0x80 \<noteq> 0"

definition window_id_from_periodic_key :: "bytes \<Rightarrow> window_id option" where
  "window_id_from_periodic_key key =
     (if length key \<noteq> 16 then None else from_key ((hd key AND 0x7F) # tl key))"

definition maybe_register_periodic_timer ::
  "'d tumbling_window \<Rightarrow> window_id \<Rightarrow> i64 \<Rightarrow> nat \<Rightarrow> 's node_runtime \<Rightarrow> ('d tumbling_window \<times> 's node_runtime) option" where
  "maybe_register_periodic_timer op w processing_time op_index rt =
     (case tw_emit_strategy op of
        emit_strategy.Periodic interval \<Rightarrow>
          if w \<notin> set (tw_periodic_timer_windows op) then
            (case millis_i64 interval of
               None \<Rightarrow> None
             | Some interval_ms \<Rightarrow>
                 Some (op\<lparr>tw_periodic_timer_windows := w # tw_periodic_timer_windows op\<rparr>,
                       rt\<lparr>nr_timer_service :=
                            fst (register_timer (nr_timer_service rt) (wrap64 (processing_time + interval_ms))
                                   (Some (periodic_timer_key w)) (Some op_index))\<rparr>))
          else Some (op, rt)
      | _ \<Rightarrow> Some (op, rt))"

definition create_intermediate_result :: "('d, 'i, 'a, 'r) aggregator \<Rightarrow> window_id \<Rightarrow> store \<Rightarrow> 'd event option" where
  "create_intermediate_result ag w st =
     (let acc = get_accumulator ag w st
      in if ag_is_empty ag acc then None
         else map_option (\<lambda>batch. \<lparr>ev_timestamp = wi_end w, ev_data = batch\<rparr>) (ag_try_new ag w (ag_result ag acc)))"

definition handle_periodic_timer ::
  "('d, 'i, 'a, 'r) aggregator \<Rightarrow> 'd tumbling_window \<Rightarrow> window_id \<Rightarrow> i64 \<Rightarrow> nat \<Rightarrow> store node_runtime \<Rightarrow>
   ('d tumbling_window \<times> store node_runtime \<times> 'd op_output list) option" where
  "handle_periodic_timer ag op w processing_time op_index rt =
     (if w \<notin> set (tw_registered_windows op)
      then Some (op\<lparr>tw_periodic_timer_windows := removeAll w (tw_periodic_timer_windows op)\<rparr>, rt, [])
      else
        let output = (case create_intermediate_result ag w (nr_state_store rt) of Some e \<Rightarrow> [OutEvent e] | None \<Rightarrow> [])
        in case tw_emit_strategy op of
             emit_strategy.Periodic interval \<Rightarrow>
               (case millis_i64 interval of
                  None \<Rightarrow> None
                | Some interval_ms \<Rightarrow>
                    let next_trigger = wrap64 (processing_time + interval_ms);
                        window_close_time = wrap64 (wi_end w + tw_allowed_lateness_ms op)
                    in Some (op,
                         if next_trigger < window_close_time
                         then rt\<lparr>nr_timer_service :=
                                fst (register_timer (nr_timer_service rt) next_trigger (Some (periodic_timer_key w))
                                       (Some op_index))\<rparr>
                         else rt,
                         output))
           | _ \<Rightarrow> Some (op, rt, output))"

definition tw_handle_late ::
  "'d tumbling_window \<Rightarrow> 'd event \<Rightarrow> 'd tumbling_window \<times> 'd op_output list" where
  "tw_handle_late op event =
     (if drops_late_data (tw_emit_strategy op)
      then (op\<lparr>tw_late_data_metrics := record_dropped (tw_late_data_metrics op)\<rparr>, [])
      else case ld_side_output (tw_late_data_config op) of
             Some side_output_name \<Rightarrow>
               let name_arc = unwrap_or (tw_side_output_arc op) side_output_name
               in (op\<lparr>tw_late_data_metrics := record_side_output (tw_late_data_metrics op),
                     tw_side_output_arc := Some name_arc\<rparr>, [OutSideOutput name_arc event])
           | None \<Rightarrow>
               (op\<lparr>tw_late_data_metrics := record_dropped (tw_late_data_metrics op)\<rparr>, [OutLateEvent event]))"

text \<open>The emission after an update: results for \<^verbatim>\<open>OnUpdate\<close>, a retraction and an insertion for \<^verbatim>\<open>Changelog\<close>.\<close>

definition tw_emit_update ::
  "('d, 'i, 'a, 'r) aggregator \<Rightarrow> 'd tumbling_window \<Rightarrow> window_id \<Rightarrow> i64 \<Rightarrow> store \<Rightarrow> 'd tumbling_window \<times> 'd op_output list" where
  "tw_emit_update ag op w processing_time st =
     (case tw_emit_strategy op of
        OnUpdate \<Rightarrow>
          (op, case create_intermediate_result ag w st of Some e \<Rightarrow> [OutEvent e] | None \<Rightarrow> [])
      | Changelog \<Rightarrow>
          (case create_intermediate_result ag w st of
             None \<Rightarrow> (op, [])
           | Some new_event \<Rightarrow>
               (op\<lparr>tw_last_emitted := AList.update w new_event (tw_last_emitted op)\<rparr>,
                (case map_of (tw_last_emitted op) w of
                   Some old_event \<Rightarrow> [OutChangelog (changelog_delete old_event processing_time)]
                 | None \<Rightarrow> []) @
                [OutChangelog (changelog_insert new_event processing_time)]))
      | _ \<Rightarrow> (op, []))"

definition tw_process ::
  "('d, 'i, 'a, 'r) aggregator \<Rightarrow> 'd tumbling_window \<Rightarrow> 'd event \<Rightarrow> i64 \<Rightarrow> nat \<Rightarrow> store node_runtime \<Rightarrow>
   ('d tumbling_window \<times> store node_runtime \<times> 'd op_output list) option" where
  "tw_process ag op event processing_time op_index rt =
     (let event_time = ev_timestamp event;
          (g, emitted_watermark) = bounded_on_event (nr_watermark_generator rt) event_time;
          rt1 = rt\<lparr>nr_watermark_generator := g\<rparr>;
          current_wm = bg_current_watermark g
      in if current_wm > i64_min \<and> tw_is_late op event_time current_wm
         then let (op', outs) = tw_handle_late op event in Some (op', rt1, outs)
         else
           let w = tumbling_assign (tw_assigner op) event_time;
               values = ag_extract_batch ag event;
               (st, state_updated) =
                 (if values \<noteq> [] then
                    (case put_accumulator ag w (foldl (ag_add ag) (get_accumulator ag w (nr_state_store rt1)) values)
                            (nr_state_store rt1) of
                       None \<Rightarrow> (nr_state_store rt1, False)
                     | Some st' \<Rightarrow> (st', True))
                  else (nr_state_store rt1, False));
               (op1, rt2) = maybe_register_timer op w op_index (rt1\<lparr>nr_state_store := st\<rparr>)
           in case (if \<not> suppresses_intermediate (tw_emit_strategy op1)
                    then maybe_register_periodic_timer op1 w processing_time op_index rt2 else Some (op1, rt2)) of
                None \<Rightarrow> None
              | Some (op2, rt3) \<Rightarrow>
                  let wm_out = (case emitted_watermark of Some wm \<Rightarrow> [OutWatermark wm] | None \<Rightarrow> []);
                      (op3, outs) =
                        (if state_updated then tw_emit_update ag op2 w processing_time (nr_state_store rt3) else (op2, []))
                  in Some (op3, rt3, wm_out @ outs))"

definition tw_forget :: "window_id \<Rightarrow> 'd tumbling_window \<Rightarrow> 'd tumbling_window" where
  "tw_forget w op =
     op\<lparr>tw_registered_windows := removeAll w (tw_registered_windows op),
        tw_periodic_timer_windows := removeAll w (tw_periodic_timer_windows op),
        tw_last_emitted := AList.delete w (tw_last_emitted op)\<rparr>"

definition tw_on_timer ::
  "('d, 'i, 'a, 'r) aggregator \<Rightarrow> 'd tumbling_window \<Rightarrow> bytes \<times> i64 \<Rightarrow> i64 \<Rightarrow> nat \<Rightarrow> store node_runtime \<Rightarrow>
   ('d tumbling_window \<times> store node_runtime \<times> 'd op_output list) option" where
  "tw_on_timer ag op tm processing_time op_index rt =
     (let key = fst tm in
      if is_periodic_timer_key key then
        (if suppresses_intermediate (tw_emit_strategy op) then
           Some ((case window_id_from_periodic_key key of
                    Some w \<Rightarrow> op\<lparr>tw_periodic_timer_windows := removeAll w (tw_periodic_timer_windows op)\<rparr>
                  | None \<Rightarrow> op), rt, [])
         else case window_id_from_periodic_key key of
                Some w \<Rightarrow> handle_periodic_timer ag op w processing_time op_index rt
              | None \<Rightarrow> Some (op, rt, []))
      else case from_key key of
             None \<Rightarrow> Some (op, rt, [])
           | Some w \<Rightarrow>
               let acc = get_accumulator ag w (nr_state_store rt);
                   rt1 = rt\<lparr>nr_state_store := delete_accumulator w (nr_state_store rt)\<rparr>;
                   op1 = tw_forget w op
               in if ag_is_empty ag acc then Some (op1, rt1, [])
                  else case ag_try_new ag w (ag_result ag acc) of
                         None \<Rightarrow> Some (op1, rt1, [])
                       | Some data \<Rightarrow>
                           let event = \<lparr>ev_timestamp = wi_end w, ev_data = data\<rparr>;
                               op2 = op1\<lparr>tw_window_close_metrics :=
                                 record_close (tw_window_close_metrics op1) (wi_end w) processing_time\<rparr>
                           in Some (op2, rt1,
                                case tw_emit_strategy op2 of
                                  Changelog \<Rightarrow> [OutChangelog (changelog_insert event processing_time)]
                                | _ \<Rightarrow> [OutEvent event]))"

text \<open>The serialization of the two window lists, and the older format with one list.\<close>

record windows_codec =
  kc_ser :: "window_id list \<times> window_id list \<Rightarrow> bytes option"
  kc_de :: "bytes \<Rightarrow> (window_id list \<times> window_id list) option"
  kc_de_old :: "bytes \<Rightarrow> string + window_id list"

definition tw_checkpoint :: "windows_codec \<Rightarrow> 'd tumbling_window \<Rightarrow> operator_state" where
  "tw_checkpoint kc op =
     \<lparr>os_operator_id = tw_operator_id op, os_version = 1,
      os_data = unwrap_or (kc_ser kc (tw_registered_windows op, tw_periodic_timer_windows op)) []\<rparr>"

definition tw_restore ::
  "windows_codec \<Rightarrow> 'd tumbling_window \<Rightarrow> operator_state \<Rightarrow> 'd tumbling_window \<times> operator_error option" where
  "tw_restore kc op state =
     (if os_operator_id state \<noteq> tw_operator_id op
      then (op, Some (StateAccessFailed (''Operator ID mismatch: expected '' @ tw_operator_id op @ '', got '' @ os_operator_id state)))
      else case kc_de kc (os_data state) of
             Some (windows, periodic_windows) \<Rightarrow>
               (op\<lparr>tw_registered_windows := remdups windows, tw_periodic_timer_windows := remdups periodic_windows\<rparr>, None)
           | None \<Rightarrow>
               (case kc_de_old kc (os_data state) of
                  Inl e \<Rightarrow> (op, Some (SerializationFailed e))
                | Inr windows \<Rightarrow>
                    (op\<lparr>tw_registered_windows := remdups windows, tw_periodic_timer_windows := []\<rparr>, None)))"

section \<open>Runs\<close>

text \<open>
  An event is processed; a watermark advances the node's generator and fires the timers that are due, as the
  executor does. A run collects the outputs and the events that were not late.
\<close>

datatype 'd tw_input = TwEvent "'d event" i64 | TwWatermark i64

fun tw_fire ::
  "('d, 'i, 'a, 'r) aggregator \<Rightarrow> i64 \<Rightarrow> nat \<Rightarrow> timer list \<Rightarrow> 'd tumbling_window \<Rightarrow> store node_runtime \<Rightarrow>
   ('d tumbling_window \<times> store node_runtime \<times> 'd op_output list) option" where
  "tw_fire ag now i [] op rt = Some (op, rt, [])"
| "tw_fire ag now i (reg # fired) op rt =
     (case tw_on_timer ag op (unwrap_or (tr_key reg) [], tr_timestamp reg) now i rt of
        None \<Rightarrow> None
      | Some (op1, rt1, outs1) \<Rightarrow>
          (case tw_fire ag now i fired op1 rt1 of
             None \<Rightarrow> None
           | Some (op2, rt2, outs2) \<Rightarrow> Some (op2, rt2, outs1 @ outs2)))"

definition tw_accepts :: "'d tumbling_window \<Rightarrow> store node_runtime \<Rightarrow> 'd event \<Rightarrow> bool" where
  "tw_accepts op rt e \<longleftrightarrow>
     (let wm = bg_current_watermark (fst (bounded_on_event (nr_watermark_generator rt) (ev_timestamp e)))
      in \<not> (wm > i64_min \<and> tw_is_late op (ev_timestamp e) wm))"

fun tw_step ::
  "('d, 'i, 'a, 'r) aggregator \<Rightarrow> nat \<Rightarrow> 'd tw_input \<Rightarrow> 'd tumbling_window \<Rightarrow> store node_runtime \<Rightarrow>
   ('d tumbling_window \<times> store node_runtime \<times> 'd op_output list) option" where
  "tw_step ag i (TwEvent e now) op rt = tw_process ag op e now i rt"
| "tw_step ag i (TwWatermark t) op rt =
     (let (ts, fired) = poll_timers (nr_timer_service rt) t
      in tw_fire ag t i fired op
           (rt\<lparr>nr_watermark_generator := fst (bounded_advance_watermark (nr_watermark_generator rt) t),
               nr_timer_service := ts\<rparr>))"

fun accepted_by :: "'d tw_input \<Rightarrow> 'd tumbling_window \<Rightarrow> store node_runtime \<Rightarrow> 'd event list" where
  "accepted_by (TwEvent e now) op rt = (if tw_accepts op rt e then [e] else [])"
| "accepted_by (TwWatermark t) op rt = []"

fun tw_run ::
  "('d, 'i, 'a, 'r) aggregator \<Rightarrow> nat \<Rightarrow> 'd tw_input list \<Rightarrow> 'd tumbling_window \<Rightarrow> store node_runtime \<Rightarrow>
   ('d tumbling_window \<times> store node_runtime \<times> 'd op_output list \<times> 'd event list) option" where
  "tw_run ag i [] op rt = Some (op, rt, [], [])"
| "tw_run ag i (x # xs) op rt =
     (case tw_step ag i x op rt of
        None \<Rightarrow> None
      | Some (op1, rt1, outs1) \<Rightarrow>
          (case tw_run ag i xs op1 rt1 of
             None \<Rightarrow> None
           | Some (op2, rt2, outs2, log) \<Rightarrow> Some (op2, rt2, outs1 @ outs2, accepted_by x op rt @ log)))"

fun high_watermark :: "'d tw_input list \<Rightarrow> i64 \<Rightarrow> i64" where
  "high_watermark [] m = m"
| "high_watermark (TwEvent e now # xs) m = high_watermark xs m"
| "high_watermark (TwWatermark t # xs) m = high_watermark xs (max m t)"

definition win :: "tumbling_assigner \<Rightarrow> 'd event \<Rightarrow> window_id" where
  "win a e = tumbling_assign a (ev_timestamp e)"

text \<open>The values of a window among the events of a log, and the result emitted for them.\<close>

definition window_values :: "('d, 'i, 'a, 'r) aggregator \<Rightarrow> tumbling_assigner \<Rightarrow> 'd event list \<Rightarrow> window_id \<Rightarrow> 'i list" where
  "window_values ag a log w = concat (map (ag_extract_batch ag) (filter (\<lambda>e. win a e = w) log))"

definition closing :: "('d, 'i, 'a, 'r) aggregator \<Rightarrow> window_id \<times> 'i list \<Rightarrow> 'd event list" where
  "closing ag c =
     (case ag_try_new ag (fst c) (ag_result ag (foldl (ag_add ag) (ag_create_accumulator ag) (snd c))) of
        None \<Rightarrow> []
      | Some data \<Rightarrow> [\<lparr>ev_timestamp = wi_end (fst c), ev_data = data\<rparr>])"

definition emitted_events :: "'d op_output list \<Rightarrow> 'd event list" where
  "emitted_events outs = List.map_filter (\<lambda>x. case x of OutEvent e \<Rightarrow> Some e | _ \<Rightarrow> None) outs"

text \<open>
  What the operator relies on: only an accumulator without values is empty, and a stored accumulator is read
  back as it was written.
\<close>

definition agg_ok :: "('d, 'i, 'a, 'r) aggregator \<Rightarrow> bool" where
  "agg_ok ag \<longleftrightarrow>
     (\<forall>vs. ag_is_empty ag (foldl (ag_add ag) (ag_create_accumulator ag) vs) \<longleftrightarrow> vs = []) \<and>
     (\<forall>acc. \<exists>b. ag_ser ag acc = Some b \<and> ag_de ag b = Some acc)"

text \<open>Windows whose computations stay within 64 bits and that start at or after the epoch.\<close>

definition win_ok :: "i64 \<Rightarrow> window_id \<Rightarrow> bool" where
  "win_ok L w \<longleftrightarrow> wid_ok w \<and> 0 \<le> wi_start w \<and> 0 \<le> wi_end w + L \<and> wi_end w + L \<le> i64_max"

definition event_ok :: "tumbling_assigner \<Rightarrow> i64 \<Rightarrow> 'd event \<Rightarrow> bool" where
  "event_ok a L e \<longleftrightarrow> in_i64 (ev_timestamp e) \<and> win_ok L (win a e)"

fun step_ok :: "tumbling_assigner \<Rightarrow> i64 \<Rightarrow> 'd tw_input \<Rightarrow> bool" where
  "step_ok a L (TwEvent e now) = event_ok a L e"
| "step_ok a L (TwWatermark t) = in_i64 t"

definition timer_key :: "timer \<Rightarrow> i64 \<times> bytes option" where
  "timer_key t = (tr_timestamp t, tr_key t)"

definition window_key :: "i64 \<Rightarrow> window_id \<Rightarrow> i64 \<times> bytes option" where
  "window_key L w = (wi_end w + L, Some (to_key w))"

text \<open>
  The invariant of a run. \<^verbatim>\<open>fs\<close> are timers that were polled and not yet handled, \<^verbatim>\<open>cl\<close> the windows closed so
  far with their values, \<^verbatim>\<open>hw\<close> the highest watermark delivered.
\<close>

definition tw_inv ::
  "('d, 'i, 'a, 'r) aggregator \<Rightarrow> tumbling_assigner \<Rightarrow> i64 \<Rightarrow> emit_strategy \<Rightarrow> 'd tumbling_window \<Rightarrow> store node_runtime \<Rightarrow>
   timer list \<Rightarrow> 'd event list \<Rightarrow> (window_id \<times> 'i list) list \<Rightarrow> i64 \<Rightarrow> bool" where
  "tw_inv ag a L s op rt fs log cl hw \<longleftrightarrow>
     tw_assigner op = a \<and> tw_allowed_lateness_ms op = L \<and> tw_emit_strategy op = s \<and>
     distinct (tw_registered_windows op) \<and>
     image_mset timer_key (mset (ts_timers (nr_timer_service rt)) + mset fs) = image_mset (window_key L) (mset (tw_registered_windows op)) \<and>
     (\<forall>t \<in> set (ts_timers (nr_timer_service rt)). hw < tr_timestamp t) \<and> (\<forall>t \<in> set fs. tr_timestamp t \<le> hw) \<and>
     (\<forall>w \<in> set (tw_registered_windows op). win_ok L w) \<and> (\<forall>e \<in> set log. win_ok L (win a e)) \<and>
     (\<forall>e \<in> set log. win a e \<in> set (tw_registered_windows op) \<or> wi_end (win a e) + L \<le> hw) \<and>
     (\<forall>w. win_ok L w \<longrightarrow> map_of (nr_state_store rt) (tw_state_key w) =
        (if w \<in> set (tw_registered_windows op) \<and> window_values ag a log w \<noteq> []
         then ag_ser ag (foldl (ag_add ag) (ag_create_accumulator ag) (window_values ag a log w)) else None)) \<and>
     distinct (map fst cl) \<and>
     (\<forall>w vs. (w, vs) \<in> set cl \<longleftrightarrow>
        vs = window_values ag a log w \<and> vs \<noteq> [] \<and> w \<notin> set (tw_registered_windows op)) \<and>
     hw \<le> bg_current_watermark (nr_watermark_generator rt)"

lemma state_key_inject: "wid_ok v \<Longrightarrow> wid_ok w \<Longrightarrow> tw_state_key v = tw_state_key w \<longleftrightarrow> v = w"
  using to_key_inject [of v w] by (simp add: tw_state_key_def to_key_def)

lemma periodic_key_iff: "wid_ok w \<Longrightarrow> is_periodic_timer_key (to_key w) \<longleftrightarrow> wi_start w < 0"
  using key_high_bit [of w] length_to_key [of w] by (cases "to_key w") (simp_all add: is_periodic_timer_key_def wid_ok_def)

lemma not_periodic_key: "win_ok L w \<Longrightarrow> \<not> is_periodic_timer_key (to_key w)"
  using periodic_key_iff [of w] by (simp add: win_ok_def)

lemma window_key_inject: "win_ok L v \<Longrightarrow> win_ok L w \<Longrightarrow> window_key L v = window_key L w \<longleftrightarrow> v = w"
  using to_key_inject [of v w] by (auto simp: window_key_def win_ok_def)

lemma get_accumulator_inv:
  assumes "agg_ok ag" "tw_inv ag a L s op rt fs log cl hw" "win_ok L w"
  shows "get_accumulator ag w (nr_state_store rt) =
    foldl (ag_add ag) (ag_create_accumulator ag) (if w \<in> set (tw_registered_windows op) then window_values ag a log w else [])"
proof -
  obtain b where "ag_ser ag (foldl (ag_add ag) (ag_create_accumulator ag) (window_values ag a log w)) = Some b"
    "ag_de ag b = Some (foldl (ag_add ag) (ag_create_accumulator ag) (window_values ag a log w))"
    using assms(1) unfolding agg_ok_def by blast
  then show ?thesis
    using assms(2,3) by (auto simp: tw_inv_def get_accumulator_def)
qed

lemma emitted_events_simps [simp]:
  "emitted_events [] = []" "emitted_events (xs @ ys) = emitted_events xs @ emitted_events ys"
  "emitted_events [OutEvent e] = [e]" "emitted_events [OutWatermark t] = []"
  "emitted_events [OutLateEvent e] = []" "emitted_events [OutSideOutput n e] = []"
  by (simp_all add: emitted_events_def List.map_filter_def)

text \<open>The facts of the invariant, by name.\<close>

lemma tw_invD:
  assumes "tw_inv ag a L s op rt fs log cl hw"
  shows "tw_assigner op = a" "tw_allowed_lateness_ms op = L" "tw_emit_strategy op = s" "distinct (tw_registered_windows op)"
    and "image_mset timer_key (mset (ts_timers (nr_timer_service rt)) + mset fs) = image_mset (window_key L) (mset (tw_registered_windows op))"
    and "t \<in> set (ts_timers (nr_timer_service rt)) \<Longrightarrow> hw < tr_timestamp t" "t \<in> set fs \<Longrightarrow> tr_timestamp t \<le> hw"
    and "w \<in> set (tw_registered_windows op) \<Longrightarrow> win_ok L w" "e \<in> set log \<Longrightarrow> win_ok L (win a e)"
    and "e \<in> set log \<Longrightarrow> win a e \<in> set (tw_registered_windows op) \<or> wi_end (win a e) + L \<le> hw"
    and "win_ok L w \<Longrightarrow> map_of (nr_state_store rt) (tw_state_key w) =
        (if w \<in> set (tw_registered_windows op) \<and> window_values ag a log w \<noteq> []
         then ag_ser ag (foldl (ag_add ag) (ag_create_accumulator ag) (window_values ag a log w)) else None)"
    and "distinct (map fst cl)"
    and "(w, vs) \<in> set cl \<longleftrightarrow> vs = window_values ag a log w \<and> vs \<noteq> [] \<and> w \<notin> set (tw_registered_windows op)"
    and "hw \<le> bg_current_watermark (nr_watermark_generator rt)"
proof -
  note I = assms [unfolded tw_inv_def]
  show "tw_assigner op = a" "tw_allowed_lateness_ms op = L" "tw_emit_strategy op = s" "distinct (tw_registered_windows op)"
    "image_mset timer_key (mset (ts_timers (nr_timer_service rt)) + mset fs) = image_mset (window_key L) (mset (tw_registered_windows op))"
    "distinct (map fst cl)" "hw \<le> bg_current_watermark (nr_watermark_generator rt)"
    using I by - (elim conjE, assumption)+
  have Q: "\<forall>t \<in> set (ts_timers (nr_timer_service rt)). hw < tr_timestamp t" "\<forall>t \<in> set fs. tr_timestamp t \<le> hw"
    "\<forall>w \<in> set (tw_registered_windows op). win_ok L w" "\<forall>e \<in> set log. win_ok L (win a e)"
    "\<forall>e \<in> set log. win a e \<in> set (tw_registered_windows op) \<or> wi_end (win a e) + L \<le> hw"
    using I by - (elim conjE, assumption)+
  show "t \<in> set (ts_timers (nr_timer_service rt)) \<Longrightarrow> hw < tr_timestamp t" by (rule bspec [OF Q(1)])
  show "t \<in> set fs \<Longrightarrow> tr_timestamp t \<le> hw" by (rule bspec [OF Q(2)])
  show "w \<in> set (tw_registered_windows op) \<Longrightarrow> win_ok L w" by (rule bspec [OF Q(3)])
  show "e \<in> set log \<Longrightarrow> win_ok L (win a e)" by (rule bspec [OF Q(4)])
  show "e \<in> set log \<Longrightarrow> win a e \<in> set (tw_registered_windows op) \<or> wi_end (win a e) + L \<le> hw" by (rule bspec [OF Q(5)])
  show "win_ok L w \<Longrightarrow> map_of (nr_state_store rt) (tw_state_key w) =
        (if w \<in> set (tw_registered_windows op) \<and> window_values ag a log w \<noteq> []
         then ag_ser ag (foldl (ag_add ag) (ag_create_accumulator ag) (window_values ag a log w)) else None)"
    using I by (elim conjE) (erule allE, erule (1) mp)
  show "(w, vs) \<in> set cl \<longleftrightarrow> vs = window_values ag a log w \<and> vs \<noteq> [] \<and> w \<notin> set (tw_registered_windows op)"
    using I by (elim conjE) (erule allE, erule allE, assumption)
qed

lemma tw_invI:
  assumes "tw_assigner op = a" "tw_allowed_lateness_ms op = L" "tw_emit_strategy op = s" "distinct (tw_registered_windows op)"
    and "image_mset timer_key (mset (ts_timers (nr_timer_service rt)) + mset fs) = image_mset (window_key L) (mset (tw_registered_windows op))"
    and "\<And>t. t \<in> set (ts_timers (nr_timer_service rt)) \<Longrightarrow> hw < tr_timestamp t" "\<And>t. t \<in> set fs \<Longrightarrow> tr_timestamp t \<le> hw"
    and "\<And>w. w \<in> set (tw_registered_windows op) \<Longrightarrow> win_ok L w" "\<And>e. e \<in> set log \<Longrightarrow> win_ok L (win a e)"
    and "\<And>e. e \<in> set log \<Longrightarrow> win a e \<in> set (tw_registered_windows op) \<or> wi_end (win a e) + L \<le> hw"
    and "\<And>w. win_ok L w \<Longrightarrow> map_of (nr_state_store rt) (tw_state_key w) =
        (if w \<in> set (tw_registered_windows op) \<and> window_values ag a log w \<noteq> []
         then ag_ser ag (foldl (ag_add ag) (ag_create_accumulator ag) (window_values ag a log w)) else None)"
    and "distinct (map fst cl)"
    and "\<And>w vs. (w, vs) \<in> set cl \<longleftrightarrow> vs = window_values ag a log w \<and> vs \<noteq> [] \<and> w \<notin> set (tw_registered_windows op)"
    and "hw \<le> bg_current_watermark (nr_watermark_generator rt)"
  shows "tw_inv ag a L s op rt fs log cl hw"
  unfolding tw_inv_def by (intro conjI ballI allI impI; (rule assms)?; assumption?)

lemma on_timer_inv:
  assumes ok: "agg_ok ag" and I: "tw_inv ag a L s op rt (f # fs) log cl hw" and s: "s \<in> {OnWatermark, OnWindowClose, Final}"
  shows "\<exists>op' rt' outs cl'. tw_on_timer ag op (unwrap_or (tr_key f) [], tr_timestamp f) now i rt = Some (op', rt', outs) \<and>
    tw_inv ag a L s op' rt' fs log (cl @ cl') hw \<and> emitted_events outs = concat (map (closing ag) cl')"
proof -
  let ?R = "tw_registered_windows op"
  have "timer_key f \<in># image_mset timer_key (mset (ts_timers (nr_timer_service rt)) + mset (f # fs))" by simp
  then have "timer_key f \<in># image_mset (window_key L) (mset ?R)" unfolding tw_invD(5) [OF I] .
  then obtain w where w: "w \<in> set ?R" "timer_key f = window_key L w" by auto
  have wok: "win_ok L w" by (rule tw_invD(8) [OF I w(1)])
  have key: "tr_key f = Some (to_key w)" "tr_timestamp f = wi_end w + L"
    using w(2) by (simp_all add: timer_key_def window_key_def)
  have due: "wi_end w + L \<le> hw" using tw_invD(7) [OF I, of f] key(2) by simp
  define vs where "vs = window_values ag a log w"
  have acc: "get_accumulator ag w (nr_state_store rt) = foldl (ag_add ag) (ag_create_accumulator ag) vs"
    using get_accumulator_inv [OF ok I wok] w(1) by (simp add: vs_def)
  have emp: "ag_is_empty ag (get_accumulator ag w (nr_state_store rt)) \<longleftrightarrow> vs = []"
    using ok unfolding acc agg_ok_def by blast
  have ms: "mset ?R = add_mset w (mset (removeAll w ?R))"
    using w(1) tw_invD(4) [OF I] by (simp add: distinct_remove1_removeAll [symmetric])
  have timers: "image_mset timer_key (mset (ts_timers (nr_timer_service rt)) + mset fs) = image_mset (window_key L) (mset (removeAll w ?R))"
    using tw_invD(5) [OF I] w(2) unfolding ms by simp
  define cl' where "cl' = (if vs = [] then [] else [(w, vs)])"
  have inv: "tw_inv ag a L s op' rt' fs log (cl @ cl') hw"
    if op': "tw_assigner op' = a" "tw_allowed_lateness_ms op' = L" "tw_emit_strategy op' = s"
      "tw_registered_windows op' = removeAll w ?R"
    and rt': "nr_timer_service rt' = nr_timer_service rt" "nr_watermark_generator rt' = nr_watermark_generator rt"
      "nr_state_store rt' = delete_accumulator w (nr_state_store rt)" for op' rt'
  proof -
    show ?thesis
    proof (rule tw_invI, unfold op' rt')
      show "distinct (removeAll w ?R)" using tw_invD(4) [OF I] by (simp add: distinct_removeAll)
      show "image_mset timer_key (mset (ts_timers (nr_timer_service rt)) + mset fs) = image_mset (window_key L) (mset (removeAll w ?R))"
        by (rule timers)
      show "hw < tr_timestamp t" if "t \<in> set (ts_timers (nr_timer_service rt))" for t by (rule tw_invD(6) [OF I that])
      show "tr_timestamp t \<le> hw" if "t \<in> set fs" for t using tw_invD(7) [OF I, of t] that by simp
      show "win_ok L v" if "v \<in> set (removeAll w ?R)" for v using tw_invD(8) [OF I, of v] that by simp
      show "win_ok L (win a e)" if "e \<in> set log" for e by (rule tw_invD(9) [OF I that])
      show "win a e \<in> set (removeAll w ?R) \<or> wi_end (win a e) + L \<le> hw" if "e \<in> set log" for e
        using tw_invD(10) [OF I that] due by auto
      show "map_of (delete_accumulator w (nr_state_store rt)) (tw_state_key v) =
          (if v \<in> set (removeAll w ?R) \<and> window_values ag a log v \<noteq> []
           then ag_ser ag (foldl (ag_add ag) (ag_create_accumulator ag) (window_values ag a log v)) else None)" if "win_ok L v" for v
        using tw_invD(11) [OF I that] state_key_inject [of v w] that wok
        by (auto simp: delete_accumulator_def delete_conv' win_ok_def)
      show "distinct (map fst (cl @ cl'))"
        using tw_invD(12) [OF I] tw_invD(13) [OF I] w(1) by (auto simp: cl'_def)
      show "(v, us) \<in> set (cl @ cl') \<longleftrightarrow> us = window_values ag a log v \<and> us \<noteq> [] \<and> v \<notin> set (removeAll w ?R)" for v us
        using tw_invD(13) [OF I, of v us] w(1) by (auto simp: cl'_def vs_def)
      show "hw \<le> bg_current_watermark (nr_watermark_generator rt)" by (rule tw_invD(14) [OF I])
    qed simp_all
  qed
  have np: "\<not> is_periodic_timer_key (to_key w)" by (rule not_periodic_key [OF wok])
  have fk: "from_key (to_key w) = Some w" using wok by (simp add: win_ok_def)
  have fin: "tw_emit_strategy op \<noteq> Changelog" using s tw_invD(3) [OF I] by auto
  let ?rt = "rt\<lparr>nr_state_store := delete_accumulator w (nr_state_store rt)\<rparr>"
  consider (empty) "vs = []" | (fail) "vs \<noteq> []" "ag_try_new ag w (ag_result ag (foldl (ag_add ag) (ag_create_accumulator ag) vs)) = None"
    | (emit) data where "vs \<noteq> []" "ag_try_new ag w (ag_result ag (foldl (ag_add ag) (ag_create_accumulator ag) vs)) = Some data"
    by blast
  then show ?thesis
  proof cases
    case empty
    then have H: "tw_on_timer ag op (unwrap_or (tr_key f) [], tr_timestamp f) now i rt = Some (tw_forget w op, ?rt, [])"
      using np fk emp by (simp add: tw_on_timer_def key)
    have J: "tw_inv ag a L s (tw_forget w op) ?rt fs log (cl @ cl') hw"
      by (rule inv) (use tw_invD(1-3) [OF I] in \<open>simp_all add: tw_forget_def\<close>)
    show ?thesis by (intro exI conjI, rule H, rule J) (simp add: cl'_def empty)
  next
    case fail
    then have H: "tw_on_timer ag op (unwrap_or (tr_key f) [], tr_timestamp f) now i rt = Some (tw_forget w op, ?rt, [])"
      using np fk emp acc by (simp add: tw_on_timer_def key)
    have J: "tw_inv ag a L s (tw_forget w op) ?rt fs log (cl @ cl') hw"
      by (rule inv) (use tw_invD(1-3) [OF I] in \<open>simp_all add: tw_forget_def\<close>)
    show ?thesis by (intro exI conjI, rule H, rule J) (simp add: cl'_def closing_def fail)
  next
    case emit
    let ?op = "(tw_forget w op)\<lparr>tw_window_close_metrics := record_close (tw_window_close_metrics (tw_forget w op)) (wi_end w) now\<rparr>"
    have H: "tw_on_timer ag op (unwrap_or (tr_key f) [], tr_timestamp f) now i rt =
        Some (?op, ?rt, [OutEvent \<lparr>ev_timestamp = wi_end w, ev_data = data\<rparr>])"
      using np fk emp acc emit fin by (simp add: tw_on_timer_def key Let_def tw_forget_def split: emit_strategy.split)
    have J: "tw_inv ag a L s ?op ?rt fs log (cl @ cl') hw"
      by (rule inv) (use tw_invD(1-3) [OF I] in \<open>simp_all add: tw_forget_def\<close>)
    show ?thesis by (intro exI conjI, rule H, rule J) (simp add: cl'_def closing_def emit)
  qed
qed

lemma fire_inv:
  assumes "agg_ok ag" "s \<in> {OnWatermark, OnWindowClose, Final}" "tw_inv ag a L s op rt fs log cl hw"
  shows "\<exists>op' rt' outs cl'. tw_fire ag now i fs op rt = Some (op', rt', outs) \<and>
    tw_inv ag a L s op' rt' [] log (cl @ cl') hw \<and> emitted_events outs = concat (map (closing ag) cl')"
  using assms(3)
proof (induction fs arbitrary: op rt cl)
  case Nil
  then show ?case by (intro exI [of _ op] exI [of _ rt] exI [of _ "[]"]) simp
next
  case (Cons f fs)
  obtain op1 rt1 outs1 cl1 where 1: "tw_on_timer ag op (unwrap_or (tr_key f) [], tr_timestamp f) now i rt = Some (op1, rt1, outs1)"
    "tw_inv ag a L s op1 rt1 fs log (cl @ cl1) hw" "emitted_events outs1 = concat (map (closing ag) cl1)"
    using on_timer_inv [OF assms(1) Cons.prems assms(2)] by blast
  obtain op2 rt2 outs2 cl2 where 2: "tw_fire ag now i fs op1 rt1 = Some (op2, rt2, outs2)"
    "tw_inv ag a L s op2 rt2 [] log ((cl @ cl1) @ cl2) hw" "emitted_events outs2 = concat (map (closing ag) cl2)"
    using Cons.IH [OF 1(2)] by blast
  have "tw_fire ag now i (f # fs) op rt = Some (op2, rt2, outs1 @ outs2)" by (simp add: 1(1) 2(1))
  then show ?case
    using 1(3) 2(2,3) by (intro exI [of _ op2] exI [of _ rt2] exI [of _ "outs1 @ outs2"] exI [of _ "cl1 @ cl2"]) simp
qed

lemma watermark_inv:
  assumes "agg_ok ag" "s \<in> {OnWatermark, OnWindowClose, Final}" and I: "tw_inv ag a L s op rt [] log cl hw"
  shows "\<exists>op' rt' outs cl'. tw_step ag i (TwWatermark t) op rt = Some (op', rt', outs) \<and>
    tw_inv ag a L s op' rt' [] log (cl @ cl') (max hw t) \<and> emitted_events outs = concat (map (closing ag) cl')"
proof -
  obtain ts fired where p: "poll_timers (nr_timer_service rt) t = (ts, fired)" by fastforce
  have m: "mset fired = filter_mset (\<lambda>x. tr_timestamp x \<le> t) (mset (ts_timers (nr_timer_service rt)))"
    "mset (ts_timers ts) = filter_mset (\<lambda>x. t < tr_timestamp x) (mset (ts_timers (nr_timer_service rt)))"
    using poll_loop_spec [of t "[]" "ts_timers (nr_timer_service rt)", OF prod.collapse [symmetric]] p
    by (auto simp: poll_timers_def case_prod_unfold Let_def)
  have sub: "set fired = {x \<in> set (ts_timers (nr_timer_service rt)). tr_timestamp x \<le> t}"
    "set (ts_timers ts) = {x \<in> set (ts_timers (nr_timer_service rt)). t < tr_timestamp x}"
    using m [THEN arg_cong, of set_mset] by simp_all
  let ?g = "fst (bounded_advance_watermark (nr_watermark_generator rt) t)"
  let ?rt = "rt\<lparr>nr_watermark_generator := ?g, nr_timer_service := ts\<rparr>"
  have "tw_inv ag a L s op ?rt fired log cl (max hw t)"
  proof (rule tw_invI)
    have "mset (ts_timers ts) + mset fired = mset (ts_timers (nr_timer_service rt))"
      using poll_timers_mset(1) [OF p] by (simp add: union_commute)
    then show "image_mset timer_key (mset (ts_timers (nr_timer_service ?rt)) + mset fired) =
        image_mset (window_key L) (mset (tw_registered_windows op))"
      using tw_invD(5) [OF I] by simp
    show "max hw t < tr_timestamp x" if "x \<in> set (ts_timers (nr_timer_service ?rt))" for x
      using that tw_invD(6) [OF I, of x] by (simp add: sub)
    show "tr_timestamp x \<le> max hw t" if "x \<in> set fired" for x using that by (simp add: sub le_max_iff_disj)
    show "win a e \<in> set (tw_registered_windows op) \<or> wi_end (win a e) + L \<le> max hw t" if "e \<in> set log" for e
      using tw_invD(10) [OF I that] by (auto simp: le_max_iff_disj)
    show "max hw t \<le> bg_current_watermark (nr_watermark_generator ?rt)"
      using tw_invD(14) [OF I] by (simp add: bounded_advance_watermark_def Let_def)
  qed (use tw_invD(1-4,8,9,11-13) [OF I] in simp_all)
  from fire_inv [OF assms(1,2) this, of t i] show ?thesis by (simp add: p)
qed

lemma on_event_watermark: "bg_current_watermark g \<le> bg_current_watermark (fst (bounded_on_event g t))"
  by (simp add: bounded_on_event_def Let_def)

lemma window_values_snoc:
  "window_values ag a (log @ [e]) w = window_values ag a log w @ (if win a e = w then ag_extract_batch ag e else [])"
  by (simp add: window_values_def)

text \<open>A late event leaves windows, timers and state alone.\<close>

lemma late_event_inv:
  assumes I: "tw_inv ag a L s op rt [] log cl hw" and late: "\<not> tw_accepts op rt e"
  shows "\<exists>op' rt' outs. tw_process ag op e now i rt = Some (op', rt', outs) \<and>
    tw_inv ag a L s op' rt' [] log cl hw \<and> emitted_events outs = []"
proof -
  obtain g em where g: "bounded_on_event (nr_watermark_generator rt) (ev_timestamp e) = (g, em)" by fastforce
  obtain op' outs where h: "tw_handle_late op e = (op', outs)" by fastforce
  have eq: "tw_process ag op e now i rt = Some (op', rt\<lparr>nr_watermark_generator := g\<rparr>, outs)"
    using late by (simp add: tw_process_def tw_accepts_def Let_def g h)
  have same: "tw_assigner op' = tw_assigner op" "tw_allowed_lateness_ms op' = tw_allowed_lateness_ms op"
    "tw_emit_strategy op' = tw_emit_strategy op" "tw_registered_windows op' = tw_registered_windows op" "emitted_events outs = []"
    using h by (auto simp: tw_handle_late_def Let_def split: if_splits option.splits)
  have "bg_current_watermark (nr_watermark_generator rt) \<le> bg_current_watermark g"
    using on_event_watermark [of "nr_watermark_generator rt" "ev_timestamp e"] by (simp add: g)
  then have "hw \<le> bg_current_watermark g" using tw_invD(14) [OF I] by linarith
  then have "tw_inv ag a L s op' (rt\<lparr>nr_watermark_generator := g\<rparr>) [] log cl hw"
    using tw_invD(1-13) [OF I] by (intro tw_invI) (simp_all add: same)
  then show ?thesis using eq same(5) by blast
qed

text \<open>An event that is not late has a window that no delivered watermark has closed.\<close>

lemma accepted_window_open:
  assumes I: "tw_inv ag a L s op rt [] log cl hw" and acc: "tw_accepts op rt e" and ok: "event_ok a L e"
  shows "hw < wi_end (win a e) + L"
    and "win a e \<notin> set (tw_registered_windows op) \<Longrightarrow> window_values ag a log (win a e) = []"
proof -
  define wm where "wm = bg_current_watermark (fst (bounded_on_event (nr_watermark_generator rt) (ev_timestamp e)))"
  have hw: "hw \<le> wm"
    using tw_invD(14) [OF I] on_event_watermark [of "nr_watermark_generator rt" "ev_timestamp e"] unfolding wm_def by linarith
  have "wrap64 (wi_end (win a e) + L) = wi_end (win a e) + L" "0 \<le> wi_end (win a e) + L"
    using ok by (auto simp: event_ok_def win_ok_def in_i64_def i64_simps intro!: wrap64_id)
  moreover have "\<not> (i64_min < wm \<and> wrap64 (wi_end (win a e) + L) \<le> wm)"
    using acc tw_invD(1,2) [OF I] by (simp add: tw_accepts_def Let_def wm_def [symmetric] tw_is_late_def win_def)
  ultimately show lt: "hw < wi_end (win a e) + L" using hw by (auto simp: i64_simps)
  show "window_values ag a log (win a e) = []" if "win a e \<notin> set (tw_registered_windows op)"
    using that lt tw_invD(10) [OF I] by (force simp: window_values_def)
qed

lemma accepted_process:
  assumes ok: "agg_ok ag" and s: "s \<in> {OnWatermark, OnWindowClose, Final}" and I: "tw_inv ag a L s op rt [] log cl hw"
    and acc: "tw_accepts op rt e" and e: "event_ok a L e"
  defines "w \<equiv> win a e" and "vs \<equiv> window_values ag a (log @ [e]) (win a e)"
  shows "\<exists>g st outs. tw_process ag op e now i rt =
      Some (fst (maybe_register_timer op w i (rt\<lparr>nr_watermark_generator := g, nr_state_store := st\<rparr>)),
            snd (maybe_register_timer op w i (rt\<lparr>nr_watermark_generator := g, nr_state_store := st\<rparr>)), outs) \<and>
    emitted_events outs = [] \<and> hw \<le> bg_current_watermark g \<and>
    map_of st = (map_of (nr_state_store rt))(tw_state_key w :=
      (if vs = [] then None else ag_ser ag (foldl (ag_add ag) (ag_create_accumulator ag) vs)))"
proof -
  obtain g em where g: "bounded_on_event (nr_watermark_generator rt) (ev_timestamp e) = (g, em)" by fastforce
  have wok: "win_ok L w" using e by (simp add: event_ok_def w_def)
  have old: "w \<notin> set (tw_registered_windows op) \<Longrightarrow> window_values ag a log w = []"
    using accepted_window_open(2) [OF I acc e] by (simp add: w_def)
  have vs: "vs = window_values ag a log w @ ag_extract_batch ag e" by (simp add: vs_def w_def window_values_snoc)
  obtain b where b: "ag_ser ag (foldl (ag_add ag) (ag_create_accumulator ag) vs) = Some b"
    using ok unfolding agg_ok_def by blast
  have ga: "foldl (ag_add ag) (get_accumulator ag w (nr_state_store rt)) (ag_extract_batch ag e) =
      foldl (ag_add ag) (ag_create_accumulator ag) vs"
    using old by (auto simp: get_accumulator_inv [OF ok I wok] vs)
  have st: "map_of (nr_state_store rt) (tw_state_key w) =
      (if window_values ag a log w = [] then None else ag_ser ag (foldl (ag_add ag) (ag_create_accumulator ag) (window_values ag a log w)))"
    using tw_invD(11) [OF I wok] old by auto
  define st' where "st' = (if ag_extract_batch ag e = [] then nr_state_store rt else AList.update (tw_state_key w) b (nr_state_store rt))"
  have mo: "map_of st' = (map_of (nr_state_store rt))(tw_state_key w :=
      (if vs = [] then None else ag_ser ag (foldl (ag_add ag) (ag_create_accumulator ag) vs)))"
    using st b by (cases "ag_extract_batch ag e = []") (auto simp: st'_def vs update_conv' fun_eq_iff)
  have up: "ag_extract_batch ag e = [] \<Longrightarrow> st' = nr_state_store rt"
    "ag_extract_batch ag e \<noteq> [] \<Longrightarrow> put_accumulator ag w
       (foldl (ag_add ag) (get_accumulator ag w (nr_state_store rt)) (ag_extract_batch ag e)) (nr_state_store rt) = Some st'"
    by (simp_all add: put_accumulator_def ga b st'_def)
  let ?rt = "rt\<lparr>nr_watermark_generator := g, nr_state_store := st'\<rparr>"
  obtain op1 rt1 where mr: "maybe_register_timer op w i ?rt = (op1, rt1)" by fastforce
  have es: "tw_emit_strategy op1 = s"
    using mr tw_invD(3) [OF I] by (auto simp: maybe_register_timer_def Let_def split: if_splits)
  have "(i64_min < bg_current_watermark g \<and> tw_is_late op (ev_timestamp e) (bg_current_watermark g)) = False"
    using acc by (simp add: tw_accepts_def g Let_def)
  moreover have "tumbling_assign (tw_assigner op) (ev_timestamp e) = w" using tw_invD(1) [OF I] by (simp add: w_def win_def)
  moreover have "maybe_register_periodic_timer op1 w now i rt1 = Some (op1, rt1)"
    "tw_emit_update ag op1 w now (nr_state_store rt1) = (op1, [])"
    using s es by (auto simp: maybe_register_periodic_timer_def tw_emit_update_def)
  ultimately have "tw_process ag op e now i rt = Some (op1, rt1, case em of Some wm \<Rightarrow> [OutWatermark wm] | None \<Rightarrow> [])"
    using mr up unfolding tw_process_def Let_def g prod.case
    by (cases "ag_extract_batch ag e = []") (simp_all only: if_False, simp_all)
  moreover have "emitted_events (case em of Some wm \<Rightarrow> [OutWatermark wm] | None \<Rightarrow> []) = []" by (simp split: option.split)
  moreover have "hw \<le> bg_current_watermark g"
    using tw_invD(14) [OF I] on_event_watermark [of "nr_watermark_generator rt" "ev_timestamp e"] by (simp add: g)
  ultimately show ?thesis using mo mr by (metis fst_conv snd_conv)
qed

lemma register_inv:
  assumes I: "tw_inv ag a L s op rt [] log cl hw" and e: "event_ok a L e"
    and opn: "hw < wi_end (win a e) + L" and fresh: "win a e \<notin> set (tw_registered_windows op) \<Longrightarrow> window_values ag a log (win a e) = []"
    and g: "hw \<le> bg_current_watermark g"
    and st: "map_of st = (map_of (nr_state_store rt))(tw_state_key (win a e) :=
      (if window_values ag a (log @ [e]) (win a e) = [] then None
       else ag_ser ag (foldl (ag_add ag) (ag_create_accumulator ag) (window_values ag a (log @ [e]) (win a e)))))"
    and mr: "maybe_register_timer op (win a e) i (rt\<lparr>nr_watermark_generator := g, nr_state_store := st\<rparr>) = (op', rt')"
  shows "tw_inv ag a L s op' rt' [] (log @ [e]) cl hw"
proof -
  let ?w = "win a e"
  let ?R = "tw_registered_windows op"
  have wok: "win_ok L ?w" using e by (simp add: event_ok_def)
  have wr: "wrap64 (wi_end ?w + L) = wi_end ?w + L"
    using wok by (auto simp: win_ok_def in_i64_def i64_simps intro!: wrap64_id)
  have R: "tw_registered_windows op' = (if ?w \<in> set ?R then ?R else ?w # ?R)"
    and same: "tw_assigner op' = a" "tw_allowed_lateness_ms op' = L" "tw_emit_strategy op' = s"
      "nr_watermark_generator rt' = g" "nr_state_store rt' = st"
    and ts: "map timer_key (ts_timers (nr_timer_service rt')) =
      (if ?w \<in> set ?R then [] else [window_key L ?w]) @ map timer_key (ts_timers (nr_timer_service rt))"
    using mr tw_invD(1-3) [OF I] wr
    by (auto simp: maybe_register_timer_def Let_def register_timer_def timer_key_def window_key_def split: if_splits)
  have R': "set (tw_registered_windows op') = insert ?w (set ?R)" by (auto simp: R)
  show ?thesis
  proof (rule tw_invI)
    show "distinct (tw_registered_windows op')" using tw_invD(4) [OF I] by (simp add: R)
    have "mset (map timer_key (ts_timers (nr_timer_service rt'))) =
        image_mset (window_key L) (mset (if ?w \<in> set ?R then [] else [?w])) + mset (map timer_key (ts_timers (nr_timer_service rt)))"
      unfolding ts by simp
    then show "image_mset timer_key (mset (ts_timers (nr_timer_service rt')) + mset []) = image_mset (window_key L) (mset (tw_registered_windows op'))"
      using tw_invD(5) [OF I] by (simp add: R)
    show "hw < tr_timestamp t" if "t \<in> set (ts_timers (nr_timer_service rt'))" for t
    proof -
      have "timer_key t \<in> set (map timer_key (ts_timers (nr_timer_service rt')))" using that by simp
      then consider "timer_key t = window_key L ?w" | t' where "t' \<in> set (ts_timers (nr_timer_service rt))" "timer_key t = timer_key t'"
        unfolding ts by (auto split: if_splits)
      then show ?thesis using opn tw_invD(6) [OF I] by cases (auto simp: timer_key_def window_key_def)
    qed
    show "win_ok L v" if "v \<in> set (tw_registered_windows op')" for v
      using that tw_invD(8) [OF I, of v] wok by (auto simp: R')
    show "win_ok L (win a x)" if "x \<in> set (log @ [e])" for x using that tw_invD(9) [OF I, of x] wok by auto
    show "win a x \<in> set (tw_registered_windows op') \<or> wi_end (win a x) + L \<le> hw" if "x \<in> set (log @ [e])" for x
      using that tw_invD(10) [OF I, of x] by (auto simp: R')
    show "map_of (nr_state_store rt') (tw_state_key v) =
        (if v \<in> set (tw_registered_windows op') \<and> window_values ag a (log @ [e]) v \<noteq> []
         then ag_ser ag (foldl (ag_add ag) (ag_create_accumulator ag) (window_values ag a (log @ [e]) v)) else None)" if v: "win_ok L v" for v
    proof (cases "v = ?w")
      case False
      moreover from this have "tw_state_key v \<noteq> tw_state_key ?w" using state_key_inject [of v ?w] v wok by (simp add: win_ok_def)
      ultimately show ?thesis using tw_invD(11) [OF I v] by (simp add: same st R' window_values_snoc)
    qed (simp add: same st R')
    show "(v, us) \<in> set cl \<longleftrightarrow> us = window_values ag a (log @ [e]) v \<and> us \<noteq> [] \<and> v \<notin> set (tw_registered_windows op')" for v us
      using tw_invD(13) [OF I, of v us] fresh by (cases "v = ?w") (auto simp: R' window_values_snoc)
  qed (use tw_invD(12) [OF I] g in \<open>simp_all add: same\<close>)
qed

lemma tw_step_inv:
  assumes "agg_ok ag" "s \<in> {OnWatermark, OnWindowClose, Final}" "tw_inv ag a L s op rt [] log cl hw" "step_ok a L x"
  shows "\<exists>op' rt' outs cl'. tw_step ag i x op rt = Some (op', rt', outs) \<and>
    tw_inv ag a L s op' rt' [] (log @ accepted_by x op rt) (cl @ cl') (high_watermark [x] hw) \<and>
    emitted_events outs = concat (map (closing ag) cl')"
proof (cases x)
  case (TwWatermark t)
  then show ?thesis using watermark_inv [OF assms(1-3), of i t] by simp
next
  case (TwEvent e now)
  then have e: "event_ok a L e" using assms(4) by simp
  show ?thesis
  proof (cases "tw_accepts op rt e")
    case False
    obtain op' rt' outs where "tw_process ag op e now i rt = Some (op', rt', outs)" "tw_inv ag a L s op' rt' [] log cl hw" "emitted_events outs = []"
      using late_event_inv [OF assms(3) False, of now i] by blast
    then show ?thesis
      using False TwEvent by (intro exI [of _ op'] exI [of _ rt'] exI [of _ outs] exI [of _ "[]"]) simp
  next
    case True
    obtain g st outs where p: "tw_process ag op e now i rt =
        Some (fst (maybe_register_timer op (win a e) i (rt\<lparr>nr_watermark_generator := g, nr_state_store := st\<rparr>)),
              snd (maybe_register_timer op (win a e) i (rt\<lparr>nr_watermark_generator := g, nr_state_store := st\<rparr>)), outs)"
      "emitted_events outs = []" "hw \<le> bg_current_watermark g"
      "map_of st = (map_of (nr_state_store rt))(tw_state_key (win a e) :=
        (if window_values ag a (log @ [e]) (win a e) = [] then None
         else ag_ser ag (foldl (ag_add ag) (ag_create_accumulator ag) (window_values ag a (log @ [e]) (win a e)))))"
      using accepted_process [OF assms(1-3) True e, of now i] by blast
    have inv: "tw_inv ag a L s (fst (maybe_register_timer op (win a e) i (rt\<lparr>nr_watermark_generator := g, nr_state_store := st\<rparr>)))
        (snd (maybe_register_timer op (win a e) i (rt\<lparr>nr_watermark_generator := g, nr_state_store := st\<rparr>))) [] (log @ [e]) (cl @ []) hw"
      unfolding append_Nil2 by (rule register_inv [OF assms(3) e accepted_window_open(1) [OF assms(3) True e] accepted_window_open(2) [OF assms(3) True e] p(3,4) prod.collapse [symmetric]])
    have log: "accepted_by x op rt = [e]" "high_watermark [x] hw = hw" using TwEvent True by simp_all
    show ?thesis
      unfolding log unfolding TwEvent tw_step.simps
      by (intro exI conjI, rule p(1), rule inv) (simp add: p(2))
  qed
qed

section \<open>Which events are late\<close>

text \<open>
  The node's generator tolerates no disorder, so its watermark is the largest timestamp of the events seen and
  of the watermarks delivered. An event is late when that reaches the end of its window plus the lateness.
\<close>

fun on_time :: "tumbling_assigner \<Rightarrow> i64 \<Rightarrow> 'd tw_input list \<Rightarrow> i64 \<Rightarrow> 'd event list" where
  "on_time a L [] m = []"
| "on_time a L (TwEvent e now # xs) m =
     (let m' = max m (ev_timestamp e)
      in (if m' < wi_end (win a e) + L then [e] else []) @ on_time a L xs m')"
| "on_time a L (TwWatermark t # xs) m = on_time a L xs (max m t)"

definition gen_ok :: "bounded_gen \<Rightarrow> i64 \<Rightarrow> bool" where
  "gen_ok g m \<longleftrightarrow> bg_max_out_of_orderness g = 0 \<and> bg_current_max_timestamp g \<le> m \<and> bg_current_watermark g = m \<and> i64_min \<le> m"

lemma gen_ok_event: "gen_ok g m \<Longrightarrow> in_i64 t \<Longrightarrow> gen_ok (fst (bounded_on_event g t)) (max m t)"
  by (auto simp: gen_ok_def bounded_on_event_def Let_def in_i64_def i64_simps)

lemma gen_ok_advance: "gen_ok g m \<Longrightarrow> in_i64 t \<Longrightarrow> gen_ok (fst (bounded_advance_watermark g t)) (max m t)"
  by (auto simp: gen_ok_def bounded_advance_watermark_def Let_def in_i64_def i64_simps)

lemma process_generator:
  "tw_process ag op e now i rt = Some (op', rt', outs) \<Longrightarrow>
   nr_watermark_generator rt' = fst (bounded_on_event (nr_watermark_generator rt) (ev_timestamp e))"
  by (auto simp: tw_process_def Let_def maybe_register_timer_def maybe_register_periodic_timer_def
    split: prod.splits if_splits option.splits emit_strategy.splits)

lemma on_timer_generator:
  "tw_on_timer ag op tm now i rt = Some (op', rt', outs) \<Longrightarrow> nr_watermark_generator rt' = nr_watermark_generator rt"
  by (auto simp: tw_on_timer_def Let_def handle_periodic_timer_def
    split: if_splits option.splits emit_strategy.splits)

lemma fire_generator:
  "tw_fire ag now i fs op rt = Some (op', rt', outs) \<Longrightarrow> nr_watermark_generator rt' = nr_watermark_generator rt"
  by (induction fs arbitrary: op rt outs) (auto simp: on_timer_generator split: option.splits)

lemma step_generator:
  assumes "tw_step ag i x op rt = Some (op', rt', outs)" "gen_ok (nr_watermark_generator rt) m"
    "tw_assigner op = a" "tw_allowed_lateness_ms op = L" "step_ok a L x"
  shows "\<exists>m'. gen_ok (nr_watermark_generator rt') m' \<and> (\<forall>xs. on_time a L (x # xs) m = accepted_by x op rt @ on_time a L xs m')"
proof (cases x)
  case (TwWatermark t)
  have "gen_ok (nr_watermark_generator rt') (max m t)"
    using assms gen_ok_advance [OF assms(2), of t] TwWatermark by (auto simp: case_prod_unfold Let_def dest!: fire_generator)
  then show ?thesis using TwWatermark by auto
next
  case (TwEvent e now)
  then have e: "event_ok a L e" using assms(5) by simp
  have g: "gen_ok (fst (bounded_on_event (nr_watermark_generator rt) (ev_timestamp e))) (max m (ev_timestamp e))"
    using gen_ok_event [OF assms(2), of "ev_timestamp e"] e by (simp add: event_ok_def)
  have "wrap64 (wi_end (win a e) + L) = wi_end (win a e) + L" "0 \<le> wi_end (win a e) + L"
    using e by (auto simp: event_ok_def win_ok_def in_i64_def i64_simps intro!: wrap64_id)
  then have "tw_accepts op rt e \<longleftrightarrow> max m (ev_timestamp e) < wi_end (win a e) + L"
    using g assms(3,4) by (auto simp: tw_accepts_def Let_def tw_is_late_def win_def gen_ok_def i64_simps)
  then show ?thesis
    using process_generator [of ag op e now i rt op' rt' outs] g assms(1) TwEvent by (auto simp: Let_def)
qed

lemma high_watermark_Cons: "high_watermark (x # xs) m = high_watermark xs (high_watermark [x] m)"
  by (cases x) simp_all

lemma tw_run_inv:
  assumes "agg_ok ag" "s \<in> {OnWatermark, OnWindowClose, Final}" "\<forall>x \<in> set xs. step_ok a L x"
    and "tw_inv ag a L s op rt [] log cl hw" "gen_ok (nr_watermark_generator rt) m"
  shows "\<exists>op' rt' outs cl'. tw_run ag i xs op rt = Some (op', rt', outs, on_time a L xs m) \<and>
    tw_inv ag a L s op' rt' [] (log @ on_time a L xs m) (cl @ cl') (high_watermark xs hw) \<and>
    emitted_events outs = concat (map (closing ag) cl')"
  using assms(3-5)
proof (induction xs arbitrary: op rt log cl hw m)
  case Nil
  then show ?case by (intro exI [of _ op] exI [of _ rt] exI [of _ "[]"]) simp
next
  case (Cons x xs)
  have x: "step_ok a L x" using Cons.prems(1) by simp
  obtain op1 rt1 outs1 cl1 where 1: "tw_step ag i x op rt = Some (op1, rt1, outs1)"
    "tw_inv ag a L s op1 rt1 [] (log @ accepted_by x op rt) (cl @ cl1) (high_watermark [x] hw)"
    "emitted_events outs1 = concat (map (closing ag) cl1)"
    using tw_step_inv [OF assms(1,2) Cons.prems(2) x, of i] by blast
  obtain m' where m': "gen_ok (nr_watermark_generator rt1) m'" "\<forall>xs. on_time a L (x # xs) m = accepted_by x op rt @ on_time a L xs m'"
    using step_generator [OF 1(1) Cons.prems(3) tw_invD(1,2) [OF Cons.prems(2)] x] by blast
  have xs: "\<forall>x \<in> set xs. step_ok a L x" using Cons.prems(1) by simp
  obtain op2 rt2 outs2 cl2 where 2: "tw_run ag i xs op1 rt1 = Some (op2, rt2, outs2, on_time a L xs m')"
    "tw_inv ag a L s op2 rt2 [] ((log @ accepted_by x op rt) @ on_time a L xs m') ((cl @ cl1) @ cl2) (high_watermark xs (high_watermark [x] hw))"
    "emitted_events outs2 = concat (map (closing ag) cl2)"
    using Cons.IH [OF xs 1(2) m'(1)] by blast
  have "tw_run ag i (x # xs) op rt = Some (op2, rt2, outs1 @ outs2, on_time a L (x # xs) m)"
    unfolding tw_run.simps using 1(1) 2(1) m'(2) by simp
  then show ?case
    using 2(2,3) 1(3) m'(2) high_watermark_Cons [of x xs hw]
    by (intro exI [of _ op2] exI [of _ rt2] exI [of _ "outs1 @ outs2"] exI [of _ "cl1 @ cl2"]) simp
qed

text \<open>When every output batch can be built, closing a window emits one event.\<close>

lemma closing_timestamps:
  "\<forall>w r. ag_try_new ag w r \<noteq> None \<Longrightarrow> map ev_timestamp (concat (map (closing ag) cl)) = map (wi_end \<circ> fst) cl"
  by (induction cl) (simp_all add: closing_def split: option.splits)

lemma closed_iff:
  assumes I: "tw_inv ag a L s op rt [] log cl hw"
  shows "(w, vs) \<in> set cl \<longleftrightarrow> vs = window_values ag a log w \<and> vs \<noteq> [] \<and> wi_end w + L \<le> hw"
proof -
  have "w \<notin> set (tw_registered_windows op)" if "wi_end w + L \<le> hw"
  proof
    assume "w \<in> set (tw_registered_windows op)"
    then have "window_key L w \<in># image_mset timer_key (mset (ts_timers (nr_timer_service rt)) + mset [])"
      unfolding tw_invD(5) [OF I] by simp
    then obtain t where "t \<in> set (ts_timers (nr_timer_service rt))" "timer_key t = window_key L w" by auto
    then show False using tw_invD(6) [OF I, of t] that by (simp add: timer_key_def window_key_def)
  qed
  moreover have "wi_end w + L \<le> hw" if ne: "window_values ag a log w \<noteq> []" and "w \<notin> set (tw_registered_windows op)"
  proof -
    obtain e where "e \<in> set log" "win a e = w" using ne by (auto simp: window_values_def)
    then show ?thesis using tw_invD(10) [OF I, of e] that(2) by auto
  qed
  ultimately show ?thesis using tw_invD(13) [OF I, of w vs] by blast
qed

text \<open>
  Every window of a tumbling operator that emits on close is closed exactly once, with the result of exactly
  the on-time values of the window, once a delivered watermark reaches its end plus the allowed lateness: the
  outputs of a run come from distinct windows, a window is among them if and only if it has on-time
  values and the highest watermark has reached it, and the run never panics. A closed window whose output batch cannot
  be built is dropped without output, as in the code; if every batch can be built, each closed window emits exactly one
  event, stamped with its end. Windows are assumed to start at or after the epoch and to end, lateness included,
  within the 64-bit range; state writes succeed. (C2)
\<close>

theorem tumbling_exactly_once:
  assumes "agg_ok ag" "millis_i64 lateness = Some L" "tw_with_id a lateness opid = Some op0" "s \<in> {OnWatermark, OnWindowClose, Final}"
    "\<forall>x \<in> set steps. step_ok a (L) x"
  shows "\<exists>op rt outs cl. tw_run ag i steps (tw_set_emit_strategy op0 s) (node_runtime_default []) =
      Some (op, rt, outs, on_time a (L) steps i64_min) \<and>
    emitted_events outs = concat (map (closing ag) cl) \<and> distinct (map fst cl) \<and>
    (\<forall>w vs. (w, vs) \<in> set cl \<longleftrightarrow> vs = window_values ag a (on_time a (L) steps i64_min) w \<and> vs \<noteq> [] \<and>
       wi_end w + L \<le> high_watermark steps i64_min) \<and>
    ((\<forall>w r. ag_try_new ag w r \<noteq> None) \<longrightarrow> map ev_timestamp (emitted_events outs) = map (wi_end \<circ> fst) cl)"
proof -
  have op0: "tw_assigner op0 = a" "tw_allowed_lateness_ms op0 = L" "tw_registered_windows op0 = []"
    using assms(2,3) by (auto simp: tw_with_id_def split: option.splits)
  have "tw_inv ag a (L) s (tw_set_emit_strategy op0 s) (node_runtime_default []) [] [] [] i64_min"
    by (rule tw_invI)
      (simp_all add: op0 tw_set_emit_strategy_def node_runtime_default_def timer_service_new_def window_values_def bounded_new_def)
  moreover have "gen_ok (nr_watermark_generator (node_runtime_default ([] :: store))) i64_min"
    by (simp add: gen_ok_def node_runtime_default_def bounded_new_def)
  ultimately obtain op rt outs cl where
    r: "tw_run ag i steps (tw_set_emit_strategy op0 s) (node_runtime_default []) =
        Some (op, rt, outs, on_time a (L) steps i64_min)"
    and I: "tw_inv ag a (L) s op rt [] (on_time a (L) steps i64_min) cl (high_watermark steps i64_min)"
    and "emitted_events outs = concat (map (closing ag) cl)"
    using tw_run_inv [OF assms(1,4,5), of _ _ "[]" "[]"] by (metis append_Nil)
  then show ?thesis
    using tw_invD(12) [OF I] closed_iff [OF I] closing_timestamps [of ag cl] by metis
qed

text \<open>The count aggregate, with a unary encoding of its accumulator.\<close>

definition count_aggregator :: "(int, unit, count_acc, nat) aggregator" where
  "count_aggregator =
     \<lparr>ag_create_accumulator = count_default, ag_extract_batch = (\<lambda>e. [()]), ag_add = count_add, ag_result = count_result,
      ag_is_empty = count_is_empty, ag_try_new = (\<lambda>w r. Some (int r)),
      ag_ser = (\<lambda>acc. Some (replicate (ca_count acc) 0)), ag_de = (\<lambda>b. Some \<lparr>ca_count = length b\<rparr>)\<rparr>"

lemma count_aggregator_ok: "agg_ok count_aggregator"
  by (simp add: agg_ok_def count_aggregator_def count.empty_iff)

definition sample_input :: "int tw_input list" where
  "sample_input =
     [TwEvent \<lparr>ev_timestamp = 100, ev_data = 7\<rparr> 0, TwEvent \<lparr>ev_timestamp = 500, ev_data = 8\<rparr> 0, TwWatermark 1000,
      TwEvent \<lparr>ev_timestamp = 1500, ev_data = 9\<rparr> 0, TwEvent \<lparr>ev_timestamp = 300, ev_data = 10\<rparr> 0, TwWatermark 2000]"

theorem tumbling_exactly_once_witness:
  "list_all (step_ok \<lparr>ta_size_ms = 1000, ta_offset_ms = 0\<rparr> 0) sample_input \<and>
   (\<exists>op rt outs cl. tw_run count_aggregator 0 sample_input
        (tw_set_emit_strategy (the (tw_with_id \<lparr>ta_size_ms = 1000, ta_offset_ms = 0\<rparr> 0 ''w'')) OnWindowClose) (node_runtime_default []) =
      Some (op, rt, outs, [\<lparr>ev_timestamp = 100, ev_data = 7\<rparr>, \<lparr>ev_timestamp = 500, ev_data = 8\<rparr>, \<lparr>ev_timestamp = 1500, ev_data = 9\<rparr>]) \<and>
    emitted_events outs = concat (map (closing count_aggregator) cl) \<and> distinct (map fst cl))"
proof -
  let ?a = "\<lparr>ta_size_ms = 1000, ta_offset_ms = 0\<rparr>"
  have m: "millis_i64 0 = Some 0" by (simp add: millis_i64_def i64_simps)
  have op: "tw_with_id ?a 0 ''w'' = Some (the (tw_with_id ?a 0 ''w''))" by (simp add: tw_with_id_def m)
  have ok: "\<forall>x \<in> set sample_input. step_ok ?a 0 x"
    by code_simp
  have log: "on_time ?a 0 sample_input i64_min =
      [\<lparr>ev_timestamp = 100, ev_data = 7\<rparr>, \<lparr>ev_timestamp = 500, ev_data = 8\<rparr>, \<lparr>ev_timestamp = 1500, ev_data = 9\<rparr>]"
    by code_simp
  have s: "OnWindowClose \<in> {OnWatermark, OnWindowClose, Final}" by simp
  show ?thesis
    by (rule conjI [OF ok [folded list_all_iff]], insert tumbling_exactly_once [OF count_aggregator_ok m op s ok, of 0, unfolded log], elim exE conjE)
      (intro exI conjI, assumption+)
qed

section \<open>Limits of the operator\<close>

text \<open>
  The final timer of a window that starts before the epoch has the key of a periodic timer, since the sign bit of
  its start is the marker. When intermediate results are suppressed its firing emits nothing and the window stays.
\<close>

lemma negative_start_not_emitted:
  assumes "wid_ok w" "wi_start w < 0" "suppresses_intermediate (tw_emit_strategy op)"
  shows "\<exists>op'. tw_on_timer ag op (to_key w, t) now i rt = Some (op', rt, []) \<and>
    tw_registered_windows op' = tw_registered_windows op"
proof -
  have "is_periodic_timer_key (to_key w)"
    using assms(1,2) by (simp add: periodic_key_iff)
  then show ?thesis using assms(3) by (simp add: tw_on_timer_def Let_def split: option.split)
qed

text \<open>A restored window counts as registered, so no event registers the timer that would close it.\<close>

lemma restored_window_has_no_timer:
  assumes "os_operator_id st = tw_operator_id op" "kc_de kc (os_data st) = Some (ws, ps)" "w \<in> set ws"
  shows "maybe_register_timer (fst (tw_restore kc op st)) w i rt = (fst (tw_restore kc op st), rt)"
  using assms by (simp add: tw_restore_def maybe_register_timer_def)

text \<open>The final emission of a changelog inserts the result again without retracting the one emitted last.\<close>

lemma changelog_close_does_not_retract:
  assumes "tw_emit_strategy op = Changelog" "wid_ok w" "0 \<le> wi_start w"
    "\<not> ag_is_empty ag (get_accumulator ag w (nr_state_store rt))"
    "ag_try_new ag w (ag_result ag (get_accumulator ag w (nr_state_store rt))) = Some data"
    "map_of (tw_last_emitted op) w = Some old"
  shows "\<exists>op' rt'. tw_on_timer ag op (to_key w, t) now i rt =
    Some (op', rt', [OutChangelog (changelog_insert \<lparr>ev_timestamp = wi_end w, ev_data = data\<rparr> now)])"
proof -
  have "\<not> is_periodic_timer_key (to_key w)"
    using assms(2,3) by (simp add: periodic_key_iff)
  then show ?thesis using assms by (simp add: tw_on_timer_def Let_def tw_forget_def)
qed

text \<open>A side output that was used keeps its name when the configuration changes.\<close>

lemma side_output_name_is_stale:
  assumes "\<not> drops_late_data (tw_emit_strategy op)" "tw_side_output_arc op = Some old"
  shows "snd (tw_handle_late (tw_set_late_data_config op (late_with_side_output new)) e) = [OutSideOutput old e]"
  using assms by (simp add: tw_handle_late_def tw_set_late_data_config_def late_with_side_output_def)

text \<open>Every late event is counted, as dropped or as sent to the side output.\<close>

lemma late_metrics_add_up:
  assumes "lm_late_events_total (tw_late_data_metrics op) =
      lm_late_events_dropped (tw_late_data_metrics op) + lm_late_events_side_output (tw_late_data_metrics op)"
    "tw_process ag op e now i rt = Some (op', rt', outs)"
  shows "lm_late_events_total (tw_late_data_metrics op') =
      lm_late_events_dropped (tw_late_data_metrics op') + lm_late_events_side_output (tw_late_data_metrics op')"
  using assms
  by (auto simp: tw_process_def tw_handle_late_def Let_def maybe_register_timer_def maybe_register_periodic_timer_def
    tw_emit_update_def record_dropped_def record_side_output_def
    split: prod.splits if_splits option.splits emit_strategy.splits)

end
