(* ===== verification/Sliding_Window.thy ===== *)
theory Sliding_Window
  imports Tumbling_Window
begin

text \<open>
  The sliding window operator of \<^verbatim>\<open>crates/laminar-core/src/operator/sliding_window.rs\<close>: an event updates every
  window that contains it and is still open. Late data, metrics, aggregators and timer keys are those of the
  tumbling operator. A panic, and an assignment that does not end, is \<^verbatim>\<open>None\<close>.
\<close>

section \<open>Operator\<close>

record 'd sliding_window =
  sw_assigner :: sliding_assigner
  sw_allowed_lateness_ms :: i64
  sw_registered_windows :: "window_id list"
  sw_periodic_timer_windows :: "window_id list"
  sw_emit_strategy :: emit_strategy
  sw_late_data_config :: late_data_config
  sw_late_data_metrics :: late_data_metrics
  sw_window_close_metrics :: window_close_metrics
  sw_operator_id :: string
  sw_last_emitted :: "(window_id, 'd event) hashmap"

definition sw_with_id :: "sliding_assigner \<Rightarrow> nat \<Rightarrow> string \<Rightarrow> 'd sliding_window option" where
  "sw_with_id assigner allowed_lateness operator_id =
     (case millis_i64 allowed_lateness of
        None \<Rightarrow> None
      | Some lateness \<Rightarrow>
          Some \<lparr>sw_assigner = assigner, sw_allowed_lateness_ms = lateness, sw_registered_windows = [],
                sw_periodic_timer_windows = [], sw_emit_strategy = OnWatermark, sw_late_data_config = late_drop,
                sw_late_data_metrics = late_metrics_new, sw_window_close_metrics = close_metrics_new,
                sw_operator_id = operator_id, sw_last_emitted = []\<rparr>)"

definition sw_new :: "nat \<Rightarrow> sliding_assigner \<Rightarrow> nat \<Rightarrow> 'd sliding_window option" where
  "sw_new operator_num assigner allowed_lateness =
     sw_with_id assigner allowed_lateness (''sliding_window_'' @ dec_nat operator_num)"

definition sw_set_emit_strategy :: "'d sliding_window \<Rightarrow> emit_strategy \<Rightarrow> 'd sliding_window" where
  "sw_set_emit_strategy op strategy = op\<lparr>sw_emit_strategy := strategy\<rparr>"

definition sw_set_late_data_config :: "'d sliding_window \<Rightarrow> late_data_config \<Rightarrow> 'd sliding_window" where
  "sw_set_late_data_config op config = op\<lparr>sw_late_data_config := config\<rparr>"

definition sw_reset_late_data_metrics :: "'d sliding_window \<Rightarrow> 'd sliding_window" where
  "sw_reset_late_data_metrics op = op\<lparr>sw_late_data_metrics := late_metrics_new\<rparr>"

definition sw_reset_window_close_metrics :: "'d sliding_window \<Rightarrow> 'd sliding_window" where
  "sw_reset_window_close_metrics op = op\<lparr>sw_window_close_metrics := close_metrics_new\<rparr>"

definition sw_active_windows_count :: "'d sliding_window \<Rightarrow> nat" where
  "sw_active_windows_count op = length (sw_registered_windows op)"

definition sw_state_key :: "window_id \<Rightarrow> bytes" where
  "sw_state_key w = [0x73, 0x6C, 0x77, 0x3A] @ to_key_inline w"

definition sw_get_accumulator :: "('d, 'i, 'a, 'r) aggregator \<Rightarrow> window_id \<Rightarrow> store \<Rightarrow> 'a" where
  "sw_get_accumulator ag w st =
     (case map_of st (sw_state_key w) of
        None \<Rightarrow> ag_create_accumulator ag
      | Some b \<Rightarrow> unwrap_or (ag_de ag b) (ag_create_accumulator ag))"

text \<open>A write fails only when the accumulator cannot be encoded: the node's store is the in-memory one, whose puts succeed.\<close>

definition sw_put_accumulator :: "('d, 'i, 'a, 'r) aggregator \<Rightarrow> window_id \<Rightarrow> 'a \<Rightarrow> store \<Rightarrow> store option" where
  "sw_put_accumulator ag w acc st =
     (case ag_ser ag acc of None \<Rightarrow> None | Some b \<Rightarrow> Some (AList.update (sw_state_key w) b st))"

definition sw_delete_accumulator :: "window_id \<Rightarrow> store \<Rightarrow> store" where
  "sw_delete_accumulator w st = AList.delete (sw_state_key w) st"

definition sw_closed :: "'d sliding_window \<Rightarrow> i64 \<Rightarrow> window_id \<Rightarrow> bool" where
  "sw_closed op watermark w = (let cleanup_time = wrap64 (wi_end w + sw_allowed_lateness_ms op) in watermark \<ge> cleanup_time)"

definition sw_is_late :: "'d sliding_window \<Rightarrow> i64 \<Rightarrow> i64 \<Rightarrow> bool option" where
  "sw_is_late op event_time watermark =
     map_option (list_all (sw_closed op watermark)) (sliding_assign_windows (sw_assigner op) event_time)"

definition sw_maybe_register_timer ::
  "'d sliding_window \<Rightarrow> window_id \<Rightarrow> nat \<Rightarrow> 's node_runtime \<Rightarrow> 'd sliding_window \<times> 's node_runtime" where
  "sw_maybe_register_timer op w op_index rt =
     (if w \<notin> set (sw_registered_windows op) then
        let trigger_time = wrap64 (wi_end w + sw_allowed_lateness_ms op)
        in (op\<lparr>sw_registered_windows := w # sw_registered_windows op\<rparr>,
            rt\<lparr>nr_timer_service :=
                 fst (register_timer (nr_timer_service rt) trigger_time (Some (to_key w)) (Some op_index))\<rparr>)
      else (op, rt))"

definition sw_maybe_register_periodic_timer ::
  "'d sliding_window \<Rightarrow> window_id \<Rightarrow> i64 \<Rightarrow> nat \<Rightarrow> 's node_runtime \<Rightarrow> ('d sliding_window \<times> 's node_runtime) option" where
  "sw_maybe_register_periodic_timer op w processing_time op_index rt =
     (case sw_emit_strategy op of
        emit_strategy.Periodic interval \<Rightarrow>
          if w \<notin> set (sw_periodic_timer_windows op) then
            (case millis_i64 interval of
               None \<Rightarrow> None
             | Some interval_ms \<Rightarrow>
                 Some (op\<lparr>sw_periodic_timer_windows := w # sw_periodic_timer_windows op\<rparr>,
                       rt\<lparr>nr_timer_service :=
                            fst (register_timer (nr_timer_service rt) (wrap64 (processing_time + interval_ms))
                                   (Some (periodic_timer_key w)) (Some op_index))\<rparr>))
          else Some (op, rt)
      | _ \<Rightarrow> Some (op, rt))"

definition sw_create_intermediate_result :: "('d, 'i, 'a, 'r) aggregator \<Rightarrow> window_id \<Rightarrow> store \<Rightarrow> 'd event option" where
  "sw_create_intermediate_result ag w st =
     (let acc = sw_get_accumulator ag w st
      in if ag_is_empty ag acc then None
         else map_option (\<lambda>batch. \<lparr>ev_timestamp = wi_end w, ev_data = batch\<rparr>) (ag_try_new ag w (ag_result ag acc)))"

definition sw_handle_periodic_timer ::
  "('d, 'i, 'a, 'r) aggregator \<Rightarrow> 'd sliding_window \<Rightarrow> window_id \<Rightarrow> i64 \<Rightarrow> nat \<Rightarrow> store node_runtime \<Rightarrow>
   ('d sliding_window \<times> store node_runtime \<times> 'd op_output list) option" where
  "sw_handle_periodic_timer ag op w processing_time op_index rt =
     (if w \<notin> set (sw_registered_windows op)
      then Some (op\<lparr>sw_periodic_timer_windows := removeAll w (sw_periodic_timer_windows op)\<rparr>, rt, [])
      else
        let output = (case sw_create_intermediate_result ag w (nr_state_store rt) of Some e \<Rightarrow> [OutEvent e] | None \<Rightarrow> [])
        in case sw_emit_strategy op of
             emit_strategy.Periodic interval \<Rightarrow>
               (case millis_i64 interval of
                  None \<Rightarrow> None
                | Some interval_ms \<Rightarrow>
                    let next_trigger = wrap64 (processing_time + interval_ms);
                        window_close_time = wrap64 (wi_end w + sw_allowed_lateness_ms op)
                    in Some (op,
                         if next_trigger < window_close_time
                         then rt\<lparr>nr_timer_service :=
                                fst (register_timer (nr_timer_service rt) next_trigger (Some (periodic_timer_key w))
                                       (Some op_index))\<rparr>
                         else rt,
                         output))
           | _ \<Rightarrow> Some (op, rt, output))"

definition sw_handle_late :: "'d sliding_window \<Rightarrow> 'd event \<Rightarrow> 'd sliding_window \<times> 'd op_output list" where
  "sw_handle_late op event =
     (if drops_late_data (sw_emit_strategy op)
      then (op\<lparr>sw_late_data_metrics := record_dropped (sw_late_data_metrics op)\<rparr>, [])
      else case ld_side_output (sw_late_data_config op) of
             Some side_output_name \<Rightarrow>
               (op\<lparr>sw_late_data_metrics := record_side_output (sw_late_data_metrics op)\<rparr>, [OutSideOutput side_output_name event])
           | None \<Rightarrow>
               (op\<lparr>sw_late_data_metrics := record_dropped (sw_late_data_metrics op)\<rparr>, [OutLateEvent event]))"

text \<open>The body of the loop over the windows of an event; the last component lists the windows updated.\<close>

definition sw_update_window ::
  "('d, 'i, 'a, 'r) aggregator \<Rightarrow> 'd event \<Rightarrow> i64 \<Rightarrow> i64 \<Rightarrow> nat \<Rightarrow> window_id \<Rightarrow>
   'd sliding_window \<times> store node_runtime \<times> window_id list \<Rightarrow> ('d sliding_window \<times> store node_runtime \<times> window_id list) option" where
  "sw_update_window ag event current_wm processing_time op_index w = (\<lambda>(op, rt, updated).
     if current_wm > i64_min \<and> sw_closed op current_wm w then Some (op, rt, updated)
     else
       let values = ag_extract_batch ag event;
           (st, updated1) =
             (if values \<noteq> [] then
                (case sw_put_accumulator ag w (foldl (ag_add ag) (sw_get_accumulator ag w (nr_state_store rt)) values)
                        (nr_state_store rt) of
                   None \<Rightarrow> (nr_state_store rt, updated)
                 | Some st' \<Rightarrow> (st', updated @ [w]))
              else (nr_state_store rt, updated));
           (op1, rt1) = sw_maybe_register_timer op w op_index (rt\<lparr>nr_state_store := st\<rparr>)
       in case (if \<not> suppresses_intermediate (sw_emit_strategy op1)
                then sw_maybe_register_periodic_timer op1 w processing_time op_index rt1 else Some (op1, rt1)) of
            None \<Rightarrow> None
          | Some (op2, rt2) \<Rightarrow> Some (op2, rt2, updated1))"

fun sw_update_windows ::
  "('d, 'i, 'a, 'r) aggregator \<Rightarrow> 'd event \<Rightarrow> i64 \<Rightarrow> i64 \<Rightarrow> nat \<Rightarrow> window_id list \<Rightarrow>
   'd sliding_window \<times> store node_runtime \<times> window_id list \<Rightarrow> ('d sliding_window \<times> store node_runtime \<times> window_id list) option" where
  "sw_update_windows ag event current_wm processing_time op_index [] s = Some s"
| "sw_update_windows ag event current_wm processing_time op_index (w # ws) s =
     (case sw_update_window ag event current_wm processing_time op_index w s of
        None \<Rightarrow> None
      | Some s' \<Rightarrow> sw_update_windows ag event current_wm processing_time op_index ws s')"

text \<open>The emission after the update of some windows.\<close>

fun sw_emit_changes ::
  "('d, 'i, 'a, 'r) aggregator \<Rightarrow> i64 \<Rightarrow> store \<Rightarrow> window_id list \<Rightarrow> 'd sliding_window \<Rightarrow> 'd sliding_window \<times> 'd op_output list" where
  "sw_emit_changes ag processing_time st [] op = (op, [])"
| "sw_emit_changes ag processing_time st (w # ws) op =
     (case sw_create_intermediate_result ag w st of
        None \<Rightarrow> sw_emit_changes ag processing_time st ws op
      | Some event \<Rightarrow>
          let retract = (case map_of (sw_last_emitted op) w of
                           Some old_event \<Rightarrow> [OutChangelog (changelog_delete old_event processing_time)]
                         | None \<Rightarrow> []);
              record1 = [OutChangelog (changelog_insert event processing_time)];
              op1 = op\<lparr>sw_last_emitted := AList.update w event (sw_last_emitted op)\<rparr>;
              (op2, outs) = sw_emit_changes ag processing_time st ws op1
          in (op2, retract @ record1 @ outs))"

definition sw_emit_updates ::
  "('d, 'i, 'a, 'r) aggregator \<Rightarrow> i64 \<Rightarrow> store \<Rightarrow> window_id list \<Rightarrow> 'd sliding_window \<Rightarrow> 'd sliding_window \<times> 'd op_output list" where
  "sw_emit_updates ag processing_time st updated op =
     (case sw_emit_strategy op of
        OnUpdate \<Rightarrow> (op, List.map_filter (\<lambda>w. map_option OutEvent (sw_create_intermediate_result ag w st)) updated)
      | Changelog \<Rightarrow> sw_emit_changes ag processing_time st updated op
      | _ \<Rightarrow> (op, []))"

definition sw_process ::
  "('d, 'i, 'a, 'r) aggregator \<Rightarrow> 'd sliding_window \<Rightarrow> 'd event \<Rightarrow> i64 \<Rightarrow> nat \<Rightarrow> store node_runtime \<Rightarrow>
   ('d sliding_window \<times> store node_runtime \<times> 'd op_output list) option" where
  "sw_process ag op event processing_time op_index rt =
     (let event_time = ev_timestamp event;
          (g, emitted_watermark) = bounded_on_event (nr_watermark_generator rt) event_time;
          rt1 = rt\<lparr>nr_watermark_generator := g\<rparr>;
          current_wm = bg_current_watermark g
      in case (if current_wm > i64_min then sw_is_late op event_time current_wm else Some False) of
           None \<Rightarrow> None
         | Some True \<Rightarrow> (let (op', outs) = sw_handle_late op event in Some (op', rt1, outs))
         | Some False \<Rightarrow>
             (case sliding_assign_windows (sw_assigner op) event_time of
                None \<Rightarrow> None
              | Some windows \<Rightarrow>
                  (case sw_update_windows ag event current_wm processing_time op_index windows (op, rt1, []) of
                     None \<Rightarrow> None
                   | Some (op1, rt2, updated_windows) \<Rightarrow>
                       let wm_out = (case emitted_watermark of Some wm \<Rightarrow> [OutWatermark wm] | None \<Rightarrow> []);
                           (op2, outs) = sw_emit_updates ag processing_time (nr_state_store rt2) updated_windows op1
                       in Some (op2, rt2, wm_out @ outs))))"

definition sw_forget :: "window_id \<Rightarrow> 'd sliding_window \<Rightarrow> 'd sliding_window" where
  "sw_forget w op =
     op\<lparr>sw_registered_windows := removeAll w (sw_registered_windows op),
        sw_periodic_timer_windows := removeAll w (sw_periodic_timer_windows op)\<rparr>"

definition sw_on_timer ::
  "('d, 'i, 'a, 'r) aggregator \<Rightarrow> 'd sliding_window \<Rightarrow> bytes \<times> i64 \<Rightarrow> i64 \<Rightarrow> nat \<Rightarrow> store node_runtime \<Rightarrow>
   ('d sliding_window \<times> store node_runtime \<times> 'd op_output list) option" where
  "sw_on_timer ag op tm processing_time op_index rt =
     (let key = fst tm in
      if is_periodic_timer_key key then
        (if suppresses_intermediate (sw_emit_strategy op) then
           Some ((case window_id_from_periodic_key key of
                    Some w \<Rightarrow> op\<lparr>sw_periodic_timer_windows := removeAll w (sw_periodic_timer_windows op)\<rparr>
                  | None \<Rightarrow> op), rt, [])
         else case window_id_from_periodic_key key of
                Some w \<Rightarrow> sw_handle_periodic_timer ag op w processing_time op_index rt
              | None \<Rightarrow> Some (op, rt, []))
      else case from_key key of
             None \<Rightarrow> Some (op, rt, [])
           | Some w \<Rightarrow>
               let acc = sw_get_accumulator ag w (nr_state_store rt);
                   rt1 = rt\<lparr>nr_state_store := sw_delete_accumulator w (nr_state_store rt)\<rparr>;
                   op1 = sw_forget w op
               in if ag_is_empty ag acc
                  then Some (op1\<lparr>sw_last_emitted := AList.delete w (sw_last_emitted op1)\<rparr>, rt1, [])
                  else case ag_try_new ag w (ag_result ag acc) of
                         None \<Rightarrow> Some (op1, rt1, [])
                       | Some data \<Rightarrow>
                           let event = \<lparr>ev_timestamp = wi_end w, ev_data = data\<rparr>;
                               op2 = op1\<lparr>sw_window_close_metrics :=
                                 record_close (sw_window_close_metrics op1) (wi_end w) processing_time\<rparr>
                           in case sw_emit_strategy op2 of
                                Changelog \<Rightarrow>
                                  Some (op2\<lparr>sw_last_emitted := AList.delete w (sw_last_emitted op2)\<rparr>, rt1,
                                    (case map_of (sw_last_emitted op2) w of
                                       Some old_event \<Rightarrow> [OutChangelog (changelog_delete old_event processing_time)]
                                     | None \<Rightarrow> []) @ [OutChangelog (changelog_insert event processing_time)])
                              | _ \<Rightarrow> Some (op2, rt1, [OutEvent event]))"

definition sw_checkpoint :: "windows_codec \<Rightarrow> 'd sliding_window \<Rightarrow> operator_state" where
  "sw_checkpoint kc op =
     \<lparr>os_operator_id = sw_operator_id op, os_version = 1,
      os_data = unwrap_or (kc_ser kc (sw_registered_windows op, sw_periodic_timer_windows op)) []\<rparr>"

definition sw_restore ::
  "windows_codec \<Rightarrow> 'd sliding_window \<Rightarrow> operator_state \<Rightarrow> 'd sliding_window \<times> operator_error option" where
  "sw_restore kc op state =
     (if os_operator_id state \<noteq> sw_operator_id op
      then (op, Some (StateAccessFailed (''Operator ID mismatch: expected '' @ sw_operator_id op @ '', got '' @ os_operator_id state)))
      else case kc_de kc (os_data state) of
             Some (windows, periodic_windows) \<Rightarrow>
               (op\<lparr>sw_registered_windows := remdups windows, sw_periodic_timer_windows := remdups periodic_windows\<rparr>, None)
           | None \<Rightarrow>
               (case kc_de_old kc (os_data state) of
                  Inl e \<Rightarrow> (op, Some (SerializationFailed e))
                | Inr windows \<Rightarrow>
                    (op\<lparr>sw_registered_windows := remdups windows, sw_periodic_timer_windows := []\<rparr>, None)))"

section \<open>Runs\<close>

fun sw_fire ::
  "('d, 'i, 'a, 'r) aggregator \<Rightarrow> i64 \<Rightarrow> nat \<Rightarrow> timer list \<Rightarrow> 'd sliding_window \<Rightarrow> store node_runtime \<Rightarrow>
   ('d sliding_window \<times> store node_runtime \<times> 'd op_output list) option" where
  "sw_fire ag now i [] op rt = Some (op, rt, [])"
| "sw_fire ag now i (reg # fired) op rt =
     (case sw_on_timer ag op (unwrap_or (tr_key reg) [], tr_timestamp reg) now i rt of
        None \<Rightarrow> None
      | Some (op1, rt1, outs1) \<Rightarrow>
          (case sw_fire ag now i fired op1 rt1 of
             None \<Rightarrow> None
           | Some (op2, rt2, outs2) \<Rightarrow> Some (op2, rt2, outs1 @ outs2)))"

fun sw_step ::
  "('d, 'i, 'a, 'r) aggregator \<Rightarrow> nat \<Rightarrow> 'd tw_input \<Rightarrow> 'd sliding_window \<Rightarrow> store node_runtime \<Rightarrow>
   ('d sliding_window \<times> store node_runtime \<times> 'd op_output list) option" where
  "sw_step ag i (TwEvent e now) op rt = sw_process ag op e now i rt"
| "sw_step ag i (TwWatermark t) op rt =
     (let (ts, fired) = poll_timers (nr_timer_service rt) t
      in sw_fire ag t i fired op
           (rt\<lparr>nr_watermark_generator := fst (bounded_advance_watermark (nr_watermark_generator rt) t),
               nr_timer_service := ts\<rparr>))"

fun sw_run ::
  "('d, 'i, 'a, 'r) aggregator \<Rightarrow> nat \<Rightarrow> 'd tw_input list \<Rightarrow> 'd sliding_window \<Rightarrow> store node_runtime \<Rightarrow>
   ('d sliding_window \<times> store node_runtime \<times> 'd op_output list) option" where
  "sw_run ag i [] op rt = Some (op, rt, [])"
| "sw_run ag i (x # xs) op rt =
     (case sw_step ag i x op rt of
        None \<Rightarrow> None
      | Some (op1, rt1, outs1) \<Rightarrow>
          (case sw_run ag i xs op1 rt1 of
             None \<Rightarrow> None
           | Some (op2, rt2, outs2) \<Rightarrow> Some (op2, rt2, outs1 @ outs2)))"

text \<open>The windows of a timestamp.\<close>

definition windows_at :: "sliding_assigner \<Rightarrow> i64 \<Rightarrow> window_id list" where
  "windows_at a t = unwrap_or (sliding_assign_windows a t) []"

text \<open>
  The contributions of the events of a run: an event counts for each of its windows that the node's watermark, the
  largest timestamp seen or delivered, has not closed.
\<close>

fun sw_on_time :: "sliding_assigner \<Rightarrow> i64 \<Rightarrow> 'd tw_input list \<Rightarrow> i64 \<Rightarrow> (window_id \<times> 'd event) list" where
  "sw_on_time a L [] m = []"
| "sw_on_time a L (TwEvent e now # xs) m =
     (let m' = max m (ev_timestamp e)
      in map (\<lambda>w. (w, e)) (filter (\<lambda>w. m' < wi_end w + L) (windows_at a (ev_timestamp e))) @ sw_on_time a L xs m')"
| "sw_on_time a L (TwWatermark t # xs) m = sw_on_time a L xs (max m t)"

definition contributions :: "('d, 'i, 'a, 'r) aggregator \<Rightarrow> (window_id \<times> 'd event) list \<Rightarrow> window_id \<Rightarrow> 'i list" where
  "contributions ag log w = concat (map (\<lambda>(_, e). ag_extract_batch ag e) (filter (\<lambda>(v, _). v = w) log))"

fun sw_step_ok :: "sliding_assigner \<Rightarrow> i64 \<Rightarrow> 'd tw_input \<Rightarrow> bool" where
  "sw_step_ok a L (TwEvent e now) \<longleftrightarrow>
     in_i64 (ev_timestamp e) \<and> sliding_assign_windows a (ev_timestamp e) \<noteq> None \<and> list_all (win_ok L) (windows_at a (ev_timestamp e))"
| "sw_step_ok a L (TwWatermark t) \<longleftrightarrow> in_i64 t"

text \<open>The events a changelog inserts and deletes.\<close>

definition inserted :: "'d op_output list \<Rightarrow> 'd event list" where
  "inserted outs = List.map_filter (\<lambda>x. case x of OutChangelog r \<Rightarrow> if cl_weight r = 1 then Some (cl_event r) else None | _ \<Rightarrow> None) outs"

definition deleted :: "'d op_output list \<Rightarrow> 'd event list" where
  "deleted outs = List.map_filter (\<lambda>x. case x of OutChangelog r \<Rightarrow> if cl_weight r = -1 then Some (cl_event r) else None | _ \<Rightarrow> None) outs"

lemma changes_simps [simp]:
  "inserted [] = []" "inserted (xs @ ys) = inserted xs @ inserted ys" "inserted [OutChangelog (changelog_insert e t)] = [e]"
  "inserted [OutChangelog (changelog_delete e t)] = []" "inserted [OutEvent e] = []" "inserted [OutWatermark t] = []"
  "inserted [OutLateEvent e] = []" "inserted [OutSideOutput n e] = []"
  "deleted [] = []" "deleted (xs @ ys) = deleted xs @ deleted ys" "deleted [OutChangelog (changelog_insert e t)] = []"
  "deleted [OutChangelog (changelog_delete e t)] = [e]" "deleted [OutEvent e] = []" "deleted [OutWatermark t] = []"
  "deleted [OutLateEvent e] = []" "deleted [OutSideOutput n e] = []"
  "inserted (OutChangelog (changelog_insert e t) # xs) = e # inserted xs" "deleted (OutChangelog (changelog_insert e t) # xs) = deleted xs"
  "emitted_events [OutChangelog r] = []"
  by (simp_all add: inserted_def deleted_def emitted_events_def List.map_filter_def changelog_insert_def changelog_delete_def)

lemma contributions_simps [simp]:
  "contributions ag [] w = []"
  "contributions ag (log @ log') w = contributions ag log w @ contributions ag log' w"
  "contributions ag [(v, e)] w = (if v = w then ag_extract_batch ag e else [])"
  by (simp_all add: contributions_def)

lemma contributions_mem: "contributions ag log w \<noteq> [] \<Longrightarrow> \<exists>e. (w, e) \<in> set log"
  by (auto simp: contributions_def)

lemma contributions_event:
  "contributions ag (map (\<lambda>w. (w, e)) ws) w \<noteq> [] \<longleftrightarrow> w \<in> set ws \<and> ag_extract_batch ag e \<noteq> []"
  by (auto simp: contributions_def filter_map comp_def)

section \<open>Invariant\<close>

definition sw_inv ::
  "('d, 'i, 'a, 'r) aggregator \<Rightarrow> sliding_assigner \<Rightarrow> i64 \<Rightarrow> emit_strategy \<Rightarrow> 'd sliding_window \<Rightarrow> store node_runtime \<Rightarrow>
   timer list \<Rightarrow> (window_id \<times> 'd event) list \<Rightarrow> (window_id \<times> 'i list) list \<Rightarrow> i64 \<Rightarrow> bool" where
  "sw_inv ag a L s op rt fs log cl hw \<longleftrightarrow>
     sw_assigner op = a \<and> sw_allowed_lateness_ms op = L \<and> sw_emit_strategy op = s \<and>
     distinct (sw_registered_windows op) \<and>
     image_mset timer_key (mset (ts_timers (nr_timer_service rt)) + mset fs) = image_mset (window_key L) (mset (sw_registered_windows op)) \<and>
     (\<forall>t \<in> set (ts_timers (nr_timer_service rt)). hw < tr_timestamp t) \<and> (\<forall>t \<in> set fs. tr_timestamp t \<le> hw) \<and>
     (\<forall>w \<in> set (sw_registered_windows op). win_ok L w) \<and>
     (\<forall>w. contributions ag log w \<noteq> [] \<longrightarrow> w \<in> set (sw_registered_windows op) \<or> wi_end w + L \<le> hw) \<and>
     (\<forall>w. win_ok L w \<longrightarrow> map_of (nr_state_store rt) (sw_state_key w) =
        (if w \<in> set (sw_registered_windows op) \<and> contributions ag log w \<noteq> []
         then ag_ser ag (foldl (ag_add ag) (ag_create_accumulator ag) (contributions ag log w)) else None)) \<and>
     distinct (map fst cl) \<and>
     (\<forall>w vs. (w, vs) \<in> set cl \<longleftrightarrow>
        vs = contributions ag log w \<and> vs \<noteq> [] \<and> w \<notin> set (sw_registered_windows op)) \<and>
     hw \<le> bg_current_watermark (nr_watermark_generator rt)"

lemma sw_invI:
  assumes "sw_assigner op = a" "sw_allowed_lateness_ms op = L" "sw_emit_strategy op = s" "distinct (sw_registered_windows op)"
    and "image_mset timer_key (mset (ts_timers (nr_timer_service rt)) + mset fs) = image_mset (window_key L) (mset (sw_registered_windows op))"
    and "\<And>t. t \<in> set (ts_timers (nr_timer_service rt)) \<Longrightarrow> hw < tr_timestamp t" "\<And>t. t \<in> set fs \<Longrightarrow> tr_timestamp t \<le> hw"
    and "\<And>w. w \<in> set (sw_registered_windows op) \<Longrightarrow> win_ok L w"
    and "\<And>w. contributions ag log w \<noteq> [] \<Longrightarrow> w \<in> set (sw_registered_windows op) \<or> wi_end w + L \<le> hw"
    and "\<And>w. win_ok L w \<Longrightarrow> map_of (nr_state_store rt) (sw_state_key w) =
        (if w \<in> set (sw_registered_windows op) \<and> contributions ag log w \<noteq> []
         then ag_ser ag (foldl (ag_add ag) (ag_create_accumulator ag) (contributions ag log w)) else None)"
    and "distinct (map fst cl)"
    and "\<And>w vs. (w, vs) \<in> set cl \<longleftrightarrow> vs = contributions ag log w \<and> vs \<noteq> [] \<and> w \<notin> set (sw_registered_windows op)"
    and "hw \<le> bg_current_watermark (nr_watermark_generator rt)"
  shows "sw_inv ag a L s op rt fs log cl hw"
  unfolding sw_inv_def by (intro conjI ballI allI impI; (rule assms)?; assumption?)

lemma sw_invD:
  assumes "sw_inv ag a L s op rt fs log cl hw"
  shows "sw_assigner op = a" "sw_allowed_lateness_ms op = L" "sw_emit_strategy op = s" "distinct (sw_registered_windows op)"
    and "image_mset timer_key (mset (ts_timers (nr_timer_service rt)) + mset fs) = image_mset (window_key L) (mset (sw_registered_windows op))"
    and "t \<in> set (ts_timers (nr_timer_service rt)) \<Longrightarrow> hw < tr_timestamp t" "t \<in> set fs \<Longrightarrow> tr_timestamp t \<le> hw"
    and "w \<in> set (sw_registered_windows op) \<Longrightarrow> win_ok L w"
    and "contributions ag log w \<noteq> [] \<Longrightarrow> w \<in> set (sw_registered_windows op) \<or> wi_end w + L \<le> hw"
    and "win_ok L w \<Longrightarrow> map_of (nr_state_store rt) (sw_state_key w) =
        (if w \<in> set (sw_registered_windows op) \<and> contributions ag log w \<noteq> []
         then ag_ser ag (foldl (ag_add ag) (ag_create_accumulator ag) (contributions ag log w)) else None)"
    and "distinct (map fst cl)"
    and "(w, vs) \<in> set cl \<longleftrightarrow> vs = contributions ag log w \<and> vs \<noteq> [] \<and> w \<notin> set (sw_registered_windows op)"
    and "hw \<le> bg_current_watermark (nr_watermark_generator rt)"
proof -
  note I = assms [unfolded sw_inv_def]
  show "sw_assigner op = a" "sw_allowed_lateness_ms op = L" "sw_emit_strategy op = s" "distinct (sw_registered_windows op)"
    "image_mset timer_key (mset (ts_timers (nr_timer_service rt)) + mset fs) = image_mset (window_key L) (mset (sw_registered_windows op))"
    "distinct (map fst cl)" "hw \<le> bg_current_watermark (nr_watermark_generator rt)"
    using I by - (elim conjE, assumption)+
  have Q: "\<forall>t \<in> set (ts_timers (nr_timer_service rt)). hw < tr_timestamp t" "\<forall>t \<in> set fs. tr_timestamp t \<le> hw"
    "\<forall>w \<in> set (sw_registered_windows op). win_ok L w"
    using I by - (elim conjE, assumption)+
  show "t \<in> set (ts_timers (nr_timer_service rt)) \<Longrightarrow> hw < tr_timestamp t" by (rule bspec [OF Q(1)])
  show "t \<in> set fs \<Longrightarrow> tr_timestamp t \<le> hw" by (rule bspec [OF Q(2)])
  show "w \<in> set (sw_registered_windows op) \<Longrightarrow> win_ok L w" by (rule bspec [OF Q(3)])
  have A: "\<forall>w. contributions ag log w \<noteq> [] \<longrightarrow> w \<in> set (sw_registered_windows op) \<or> wi_end w + L \<le> hw"
    "\<forall>w. win_ok L w \<longrightarrow> map_of (nr_state_store rt) (sw_state_key w) =
        (if w \<in> set (sw_registered_windows op) \<and> contributions ag log w \<noteq> []
         then ag_ser ag (foldl (ag_add ag) (ag_create_accumulator ag) (contributions ag log w)) else None)"
    using I by - (elim conjE, assumption)+
  show "contributions ag log w \<noteq> [] \<Longrightarrow> w \<in> set (sw_registered_windows op) \<or> wi_end w + L \<le> hw"
    by (rule mp [OF spec [OF A(1)]])
  show "win_ok L w \<Longrightarrow> map_of (nr_state_store rt) (sw_state_key w) =
        (if w \<in> set (sw_registered_windows op) \<and> contributions ag log w \<noteq> []
         then ag_ser ag (foldl (ag_add ag) (ag_create_accumulator ag) (contributions ag log w)) else None)"
    by (rule mp [OF spec [OF A(2)]])
  show "(w, vs) \<in> set cl \<longleftrightarrow> vs = contributions ag log w \<and> vs \<noteq> [] \<and> w \<notin> set (sw_registered_windows op)"
    using I by (elim conjE) (erule allE, erule allE, assumption)
qed

lemma sw_state_key_inject: "wid_ok v \<Longrightarrow> wid_ok w \<Longrightarrow> sw_state_key v = sw_state_key w \<longleftrightarrow> v = w"
  using to_key_inject [of v w] by (simp add: sw_state_key_def to_key_def)

lemma sw_get_accumulator_inv:
  assumes "agg_ok ag" "sw_inv ag a L s op rt fs log cl hw" "win_ok L w"
  shows "sw_get_accumulator ag w (nr_state_store rt) =
    foldl (ag_add ag) (ag_create_accumulator ag) (if w \<in> set (sw_registered_windows op) then contributions ag log w else [])"
proof -
  obtain b where "ag_ser ag (foldl (ag_add ag) (ag_create_accumulator ag) (contributions ag log w)) = Some b"
    "ag_de ag b = Some (foldl (ag_add ag) (ag_create_accumulator ag) (contributions ag log w))"
    using assms(1) unfolding agg_ok_def by blast
  then show ?thesis using sw_invD(10) [OF assms(2,3)] by (auto simp: sw_get_accumulator_def)
qed

text \<open>
  What a changelog shows. The events emitted last are the current results of the open windows, and every step
  inserts and deletes just what leads from one set of such events to the next and adds the windows it closes.
\<close>

definition window_event :: "('d, 'i, 'a, 'r) aggregator \<Rightarrow> window_id \<Rightarrow> 'i list \<Rightarrow> 'd event" where
  "window_event ag w vs =
     \<lparr>ev_timestamp = wi_end w, ev_data = the (ag_try_new ag w (ag_result ag (foldl (ag_add ag) (ag_create_accumulator ag) vs)))\<rparr>"

definition shown :: "'d sliding_window \<Rightarrow> 'd event multiset" where
  "shown op = mset (map snd (sw_last_emitted op))"

definition le_inv :: "('d, 'i, 'a, 'r) aggregator \<Rightarrow> 'd sliding_window \<Rightarrow> (window_id \<times> 'd event) list \<Rightarrow> bool" where
  "le_inv ag op log \<longleftrightarrow> distinct (map fst (sw_last_emitted op)) \<and>
     (\<forall>w. map_of (sw_last_emitted op) w =
       (if w \<in> set (sw_registered_windows op) \<and> contributions ag log w \<noteq> [] then Some (window_event ag w (contributions ag log w)) else None))"

definition emits ::
  "('d, 'i, 'a, 'r) aggregator \<Rightarrow> emit_strategy \<Rightarrow> 'd sliding_window \<Rightarrow> (window_id \<times> 'd event) list \<Rightarrow> 'd sliding_window \<Rightarrow>
   (window_id \<times> 'd event) list \<Rightarrow> 'd op_output list \<Rightarrow> (window_id \<times> 'i list) list \<Rightarrow> bool" where
  "emits ag s op log op' log' outs cl \<longleftrightarrow>
     (s \<noteq> Changelog \<longrightarrow> emitted_events outs = concat (map (closing ag) cl)) \<and>
     (s = Changelog \<longrightarrow> le_inv ag op log \<longrightarrow> le_inv ag op' log' \<and>
        mset (inserted outs) + shown op = mset (deleted outs) + shown op' + mset (concat (map (closing ag) cl)))"

definition sw_strategy :: "('d, 'i, 'a, 'r) aggregator \<Rightarrow> emit_strategy \<Rightarrow> bool" where
  "sw_strategy ag s \<longleftrightarrow> s \<in> {OnWatermark, OnWindowClose, Final, Changelog} \<and> (s = Changelog \<longrightarrow> (\<forall>w r. ag_try_new ag w r \<noteq> None))"

lemma emits_refl: "emits ag s op log op log [] []"
  by (simp add: emits_def)

lemma emits_trans:
  assumes "emits ag s op log op1 log1 outs1 cl1" "emits ag s op1 log1 op2 log2 outs2 cl2"
  shows "emits ag s op log op2 log2 (outs1 @ outs2) (cl1 @ cl2)"
proof (cases "s = Changelog")
  case True
  show ?thesis unfolding emits_def
  proof (intro conjI impI)
    assume le: "le_inv ag op log"
    have 1: "le_inv ag op1 log1" "mset (inserted outs1) + shown op = mset (deleted outs1) + shown op1 + mset (concat (map (closing ag) cl1))"
      using assms(1) le True by (simp_all add: emits_def)
    have 2: "le_inv ag op2 log2" "mset (inserted outs2) + shown op1 = mset (deleted outs2) + shown op2 + mset (concat (map (closing ag) cl2))"
      using assms(2) 1(1) True by (simp_all add: emits_def)
    show "le_inv ag op2 log2" by (rule 2(1))
    have "mset (inserted (outs1 @ outs2)) + shown op + shown op1 =
        (mset (inserted outs1) + shown op) + (mset (inserted outs2) + shown op1)" by simp
    also have "\<dots> = (mset (deleted (outs1 @ outs2)) + shown op2 + mset (concat (map (closing ag) (cl1 @ cl2)))) + shown op1"
      unfolding 1(2) 2(2) by (simp add: ac_simps)
    finally show "mset (inserted (outs1 @ outs2)) + shown op = mset (deleted (outs1 @ outs2)) + shown op2 + mset (concat (map (closing ag) (cl1 @ cl2)))"
      by simp
  qed (use True in simp)
qed (use assms in \<open>simp add: emits_def\<close>)

lemma mset_snd_update:
  assumes "distinct (map fst m)"
  shows "mset (map snd (AList.update k v m)) + (case map_of m k of Some old \<Rightarrow> {#old#} | None \<Rightarrow> {#}) = add_mset v (mset (map snd m))"
  using assms by (induction m) (auto split: option.splits simp: map_of_eq_None_iff dest: weak_map_of_SomeI)

lemma mset_snd_delete:
  assumes "distinct (map fst m)"
  shows "mset (map snd m) = mset (map snd (AList.delete k m)) + (case map_of m k of Some old \<Rightarrow> {#old#} | None \<Rightarrow> {#})"
  using assms
proof (induction m)
  case (Cons p m)
  obtain x y where p: "p = (x, y)" by fastforce
  show ?case
  proof (cases "x = k")
    case True
    then have "k \<notin> fst ` set m" using Cons.prems p by simp
    then have "AList.delete k m = m" by (rule delete_id)
    then show ?thesis using p True by simp
  next
    case False
    then show ?thesis using Cons p by simp
  qed
qed simp

text \<open>Closing a window: its accumulator, its timer and what was emitted for it are removed.\<close>

lemma close_inv:
  assumes I: "sw_inv ag a L s op rt (f # fs) log cl hw" and w: "w \<in> set (sw_registered_windows op)" "timer_key f = window_key L w"
    and op': "sw_assigner op' = a" "sw_allowed_lateness_ms op' = L" "sw_emit_strategy op' = s"
      "sw_registered_windows op' = removeAll w (sw_registered_windows op)"
    and rt': "nr_timer_service rt' = nr_timer_service rt" "nr_watermark_generator rt' = nr_watermark_generator rt"
      "nr_state_store rt' = sw_delete_accumulator w (nr_state_store rt)"
  shows "sw_inv ag a L s op' rt' fs log (cl @ (if contributions ag log w = [] then [] else [(w, contributions ag log w)])) hw"
proof -
  let ?R = "sw_registered_windows op"
  have wok: "win_ok L w" by (rule sw_invD(8) [OF I w(1)])
  have "tr_timestamp f = wi_end w + L" using w(2) by (simp add: timer_key_def window_key_def)
  then have due: "wi_end w + L \<le> hw" using sw_invD(7) [OF I, of f] by simp
  have ms: "mset ?R = add_mset w (mset (removeAll w ?R))"
    using w(1) sw_invD(4) [OF I] by (simp add: distinct_remove1_removeAll [symmetric])
  show ?thesis
  proof (rule sw_invI, unfold op' rt')
    show "distinct (removeAll w ?R)" using sw_invD(4) [OF I] by (simp add: distinct_removeAll)
    show "image_mset timer_key (mset (ts_timers (nr_timer_service rt)) + mset fs) = image_mset (window_key L) (mset (removeAll w ?R))"
      using sw_invD(5) [OF I] w(2) unfolding ms by simp
    show "hw < tr_timestamp t" if "t \<in> set (ts_timers (nr_timer_service rt))" for t by (rule sw_invD(6) [OF I that])
    show "tr_timestamp t \<le> hw" if "t \<in> set fs" for t using sw_invD(7) [OF I, of t] that by simp
    show "win_ok L v" if "v \<in> set (removeAll w ?R)" for v using sw_invD(8) [OF I, of v] that by simp
    show "v \<in> set (removeAll w ?R) \<or> wi_end v + L \<le> hw" if "contributions ag log v \<noteq> []" for v
      using sw_invD(9) [OF I that] due by auto
    show "map_of (sw_delete_accumulator w (nr_state_store rt)) (sw_state_key v) =
        (if v \<in> set (removeAll w ?R) \<and> contributions ag log v \<noteq> []
         then ag_ser ag (foldl (ag_add ag) (ag_create_accumulator ag) (contributions ag log v)) else None)" if "win_ok L v" for v
      using sw_invD(10) [OF I that] sw_state_key_inject [of v w] that wok
      by (auto simp: sw_delete_accumulator_def delete_conv' win_ok_def)
    show "distinct (map fst (cl @ (if contributions ag log w = [] then [] else [(w, contributions ag log w)])))"
      using sw_invD(11) [OF I] sw_invD(12) [OF I] w(1) by auto
    show "(v, us) \<in> set (cl @ (if contributions ag log w = [] then [] else [(w, contributions ag log w)])) \<longleftrightarrow>
        us = contributions ag log v \<and> us \<noteq> [] \<and> v \<notin> set (removeAll w ?R)" for v us
      using sw_invD(12) [OF I, of v us] w(1) by auto
    show "hw \<le> bg_current_watermark (nr_watermark_generator rt)" by (rule sw_invD(13) [OF I])
  qed simp_all
qed

lemma le_inv_close:
  assumes "le_inv ag op log" "sw_registered_windows op' = removeAll w (sw_registered_windows op)"
    "sw_last_emitted op' = AList.delete w (sw_last_emitted op)"
  shows "le_inv ag op' log"
  using assms by (auto simp: le_inv_def distinct_delete delete_conv')

lemma sw_on_timer_inv:
  assumes ok: "agg_ok ag" and s: "sw_strategy ag s" and I: "sw_inv ag a L s op rt (f # fs) log cl hw"
  shows "\<exists>op' rt' outs cl'. sw_on_timer ag op (unwrap_or (tr_key f) [], tr_timestamp f) now i rt = Some (op', rt', outs) \<and>
    sw_inv ag a L s op' rt' fs log (cl @ cl') hw \<and> emits ag s op log op' log outs cl'"
proof -
  have "timer_key f \<in># image_mset timer_key (mset (ts_timers (nr_timer_service rt)) + mset (f # fs))" by simp
  then have "timer_key f \<in># image_mset (window_key L) (mset (sw_registered_windows op))" unfolding sw_invD(5) [OF I] .
  then obtain w where w: "w \<in> set (sw_registered_windows op)" "timer_key f = window_key L w" by auto
  have wok: "win_ok L w" by (rule sw_invD(8) [OF I w(1)])
  have key: "unwrap_or (tr_key f) [] = to_key w" using w(2) by (simp add: timer_key_def window_key_def)
  define vs where "vs = contributions ag log w"
  have acc: "sw_get_accumulator ag w (nr_state_store rt) = foldl (ag_add ag) (ag_create_accumulator ag) vs"
    using sw_get_accumulator_inv [OF ok I wok] w(1) by (simp add: vs_def)
  have emp: "ag_is_empty ag (sw_get_accumulator ag w (nr_state_store rt)) \<longleftrightarrow> vs = []"
    using ok unfolding acc agg_ok_def by blast
  note J = close_inv [OF I w, folded vs_def]
  have np: "\<not> is_periodic_timer_key (to_key w)" by (rule not_periodic_key [OF wok])
  have fk: "from_key (to_key w) = Some w" using wok by (simp add: win_ok_def)
  note same = sw_invD(1-3) [OF I]
  let ?rt = "rt\<lparr>nr_state_store := sw_delete_accumulator w (nr_state_store rt)\<rparr>"
  let ?forget = "\<lambda>op. op\<lparr>sw_last_emitted := AList.delete w (sw_last_emitted op)\<rparr>"
  let ?r = "ag_try_new ag w (ag_result ag (foldl (ag_add ag) (ag_create_accumulator ag) vs))"
  consider (empty) "vs = []" | (fail) "vs \<noteq> []" "?r = None" | (emit) data where "vs \<noteq> []" "?r = Some data" by blast
  then show ?thesis
  proof cases
    case empty
    let ?op = "?forget (sw_forget w op)"
    have H: "sw_on_timer ag op (unwrap_or (tr_key f) [], tr_timestamp f) now i rt = Some (?op, ?rt, [])"
      using np fk emp empty by (simp add: sw_on_timer_def key Let_def)
    have K: "sw_inv ag a L s ?op ?rt fs log (cl @ []) hw"
      using J [of ?op ?rt] same empty by (simp add: sw_forget_def)
    have E: "emits ag s op log ?op log [] []"
    proof -
      have "shown ?op = shown op" if "le_inv ag op log"
        using that empty mset_snd_delete [of "sw_last_emitted op" w] by (simp add: shown_def sw_forget_def le_inv_def vs_def)
      then show ?thesis using le_inv_close [of ag op log ?op w] by (simp add: emits_def sw_forget_def)
    qed
    show ?thesis by (intro exI conjI, rule H, rule K, rule E)
  next
    case fail
    then have nc: "s \<noteq> Changelog" using s unfolding sw_strategy_def by blast
    have H: "sw_on_timer ag op (unwrap_or (tr_key f) [], tr_timestamp f) now i rt = Some (sw_forget w op, ?rt, [])"
      using np fk emp acc fail by (simp add: sw_on_timer_def key Let_def)
    have K: "sw_inv ag a L s (sw_forget w op) ?rt fs log (cl @ [(w, vs)]) hw"
      using J [of "sw_forget w op" ?rt] same fail by (simp add: sw_forget_def)
    have E: "emits ag s op log (sw_forget w op) log [] [(w, vs)]" using nc fail by (simp add: emits_def closing_def)
    show ?thesis by (intro exI conjI, rule H, rule K, rule E)
  next
    case emit
    let ?op = "(sw_forget w op)\<lparr>sw_window_close_metrics := record_close (sw_window_close_metrics (sw_forget w op)) (wi_end w) now\<rparr>"
    let ?e = "\<lparr>ev_timestamp = wi_end w, ev_data = data\<rparr>"
    show ?thesis
    proof (cases "s = Changelog")
      case True
      let ?outs = "(case map_of (sw_last_emitted ?op) w of Some old \<Rightarrow> [OutChangelog (changelog_delete old now)] | None \<Rightarrow> []) @
        [OutChangelog (changelog_insert ?e now)]"
      have H: "sw_on_timer ag op (unwrap_or (tr_key f) [], tr_timestamp f) now i rt = Some (?forget ?op, ?rt, ?outs)"
        using np fk emp acc emit True same(3) by (simp add: sw_on_timer_def key Let_def sw_forget_def)
      have K: "sw_inv ag a L s (?forget ?op) ?rt fs log (cl @ [(w, vs)]) hw"
        using J [of "?forget ?op" ?rt] same emit by (simp add: sw_forget_def)
      have E: "emits ag s op log (?forget ?op) log ?outs [(w, vs)]"
      proof -
        have "mset (inserted ?outs) + shown op = mset (deleted ?outs) + shown (?forget ?op) + mset (concat (map (closing ag) [(w, vs)]))"
          if "le_inv ag op log"
          using that emit mset_snd_delete [of "sw_last_emitted op" w]
          by (auto simp: shown_def sw_forget_def le_inv_def closing_def split: option.split)
        then show ?thesis using le_inv_close [of ag op log "?forget ?op" w] True by (simp add: emits_def sw_forget_def)
      qed
      show ?thesis by (intro exI conjI, rule H, rule K, rule E)
    next
      case False
      have H: "sw_on_timer ag op (unwrap_or (tr_key f) [], tr_timestamp f) now i rt = Some (?op, ?rt, [OutEvent ?e])"
        using np fk emp acc emit False same(3)
        by (simp add: sw_on_timer_def key Let_def sw_forget_def split: emit_strategy.split)
      have K: "sw_inv ag a L s ?op ?rt fs log (cl @ [(w, vs)]) hw"
        using J [of ?op ?rt] same emit by (simp add: sw_forget_def)
      have E: "emits ag s op log ?op log [OutEvent ?e] [(w, vs)]" using False emit by (simp add: emits_def closing_def)
      show ?thesis by (intro exI conjI, rule H, rule K, rule E)
    qed
  qed
qed

lemma sw_fire_inv:
  assumes "agg_ok ag" "sw_strategy ag s" "sw_inv ag a L s op rt fs log cl hw"
  shows "\<exists>op' rt' outs cl'. sw_fire ag now i fs op rt = Some (op', rt', outs) \<and>
    sw_inv ag a L s op' rt' [] log (cl @ cl') hw \<and> emits ag s op log op' log outs cl'"
  using assms(3)
proof (induction fs arbitrary: op rt cl)
  case Nil
  then show ?case using emits_refl [of ag s op log] by (intro exI [of _ op] exI [of _ rt] exI [of _ "[]"]) simp
next
  case (Cons f fs)
  obtain op1 rt1 outs1 cl1 where 1: "sw_on_timer ag op (unwrap_or (tr_key f) [], tr_timestamp f) now i rt = Some (op1, rt1, outs1)"
    "sw_inv ag a L s op1 rt1 fs log (cl @ cl1) hw" "emits ag s op log op1 log outs1 cl1"
    using sw_on_timer_inv [OF assms(1,2) Cons.prems] by blast
  obtain op2 rt2 outs2 cl2 where 2: "sw_fire ag now i fs op1 rt1 = Some (op2, rt2, outs2)"
    "sw_inv ag a L s op2 rt2 [] log ((cl @ cl1) @ cl2) hw" "emits ag s op1 log op2 log outs2 cl2"
    using Cons.IH [OF 1(2)] by blast
  have "sw_fire ag now i (f # fs) op rt = Some (op2, rt2, outs1 @ outs2)" by (simp add: 1(1) 2(1))
  moreover have "emits ag s op log op2 log (outs1 @ outs2) (cl1 @ cl2)" by (rule emits_trans [OF 1(3) 2(3)])
  ultimately show ?case using 2(2) by (metis append_assoc)
qed

lemma poll_timers_split:
  assumes "poll_timers svc t = (ts, fired)"
  shows "mset (ts_timers ts) + mset fired = mset (ts_timers svc)"
    and "set fired = {x \<in> set (ts_timers svc). tr_timestamp x \<le> t}"
    and "set (ts_timers ts) = {x \<in> set (ts_timers svc). t < tr_timestamp x}"
proof -
  show "mset (ts_timers ts) + mset fired = mset (ts_timers svc)"
    using poll_timers_mset(1) [OF assms] by (simp add: union_commute)
  have "mset fired = filter_mset (\<lambda>x. tr_timestamp x \<le> t) (mset (ts_timers svc))"
    "mset (ts_timers ts) = filter_mset (\<lambda>x. t < tr_timestamp x) (mset (ts_timers svc))"
    using poll_loop_spec [of t "[]" "ts_timers svc", OF prod.collapse [symmetric]] assms
    by (auto simp: poll_timers_def case_prod_unfold Let_def)
  from this [THEN arg_cong, of set_mset]
  show "set fired = {x \<in> set (ts_timers svc). tr_timestamp x \<le> t}"
    "set (ts_timers ts) = {x \<in> set (ts_timers svc). t < tr_timestamp x}" by simp_all
qed

lemma sw_watermark_inv:
  assumes "agg_ok ag" "sw_strategy ag s" and I: "sw_inv ag a L s op rt [] log cl hw"
  shows "\<exists>op' rt' outs cl'. sw_step ag i (TwWatermark t) op rt = Some (op', rt', outs) \<and>
    sw_inv ag a L s op' rt' [] log (cl @ cl') (max hw t) \<and> emits ag s op log op' log outs cl'"
proof -
  obtain ts fired where p: "poll_timers (nr_timer_service rt) t = (ts, fired)" by fastforce
  note sub = poll_timers_split [OF p]
  let ?rt = "rt\<lparr>nr_watermark_generator := fst (bounded_advance_watermark (nr_watermark_generator rt) t), nr_timer_service := ts\<rparr>"
  have "sw_inv ag a L s op ?rt fired log cl (max hw t)"
  proof (rule sw_invI)
    show "image_mset timer_key (mset (ts_timers (nr_timer_service ?rt)) + mset fired) =
        image_mset (window_key L) (mset (sw_registered_windows op))"
      using sw_invD(5) [OF I] sub(1) by simp
    show "max hw t < tr_timestamp x" if "x \<in> set (ts_timers (nr_timer_service ?rt))" for x
      using that sw_invD(6) [OF I, of x] by (simp add: sub)
    show "tr_timestamp x \<le> max hw t" if "x \<in> set fired" for x using that by (simp add: sub le_max_iff_disj)
    show "w \<in> set (sw_registered_windows op) \<or> wi_end w + L \<le> max hw t" if "contributions ag log w \<noteq> []" for w
      using sw_invD(9) [OF I that] by (auto simp: le_max_iff_disj)
    show "max hw t \<le> bg_current_watermark (nr_watermark_generator ?rt)"
      using sw_invD(13) [OF I] by (simp add: bounded_advance_watermark_def Let_def)
  qed (use sw_invD(1-4,8,10-12) [OF I] in simp_all)
  from sw_fire_inv [OF assms(1,2) this, of t i] show ?thesis by (simp add: p)
qed

section \<open>Events\<close>

lemma sw_inv_last_emitted [simp]:
  "sw_inv ag a L s (op\<lparr>sw_last_emitted := m\<rparr>) rt fs log cl hw = sw_inv ag a L s op rt fs log cl hw"
  by (simp add: sw_inv_def)

lemma win_ok_closed:
  assumes "win_ok L w" "sw_allowed_lateness_ms op = L"
  shows "wm > i64_min \<and> sw_closed op wm w \<longleftrightarrow> wi_end w + L \<le> wm" "wrap64 (wi_end w + L) = wi_end w + L"
proof -
  show "wrap64 (wi_end w + L) = wi_end w + L"
    using assms(1) by (auto simp: win_ok_def in_i64_def i64_simps intro!: wrap64_id)
  then show "wm > i64_min \<and> sw_closed op wm w \<longleftrightarrow> wi_end w + L \<le> wm"
    using assms by (auto simp: sw_closed_def win_ok_def i64_simps)
qed

text \<open>Registering an open window and adding the values of an event to its accumulator.\<close>

lemma sw_register_inv:
  assumes I: "sw_inv ag a L s op rt [] log cl hw" and wok: "win_ok L w" and opn: "hw < wi_end w + L"
    and st: "map_of st = (map_of (nr_state_store rt))(sw_state_key w :=
      (if contributions ag (log @ [(w, e)]) w = [] then None
       else ag_ser ag (foldl (ag_add ag) (ag_create_accumulator ag) (contributions ag (log @ [(w, e)]) w))))"
    and mr: "sw_maybe_register_timer op w i (rt\<lparr>nr_state_store := st\<rparr>) = (op', rt')"
  shows "sw_inv ag a L s op' rt' [] (log @ [(w, e)]) cl hw" "set (sw_registered_windows op') = insert w (set (sw_registered_windows op))"
    and "sw_last_emitted op' = sw_last_emitted op" "nr_watermark_generator rt' = nr_watermark_generator rt"
proof -
  let ?R = "sw_registered_windows op"
  have R: "sw_registered_windows op' = (if w \<in> set ?R then ?R else w # ?R)"
    and same: "sw_assigner op' = a" "sw_allowed_lateness_ms op' = L" "sw_emit_strategy op' = s"
      "nr_watermark_generator rt' = nr_watermark_generator rt" "nr_state_store rt' = st" "sw_last_emitted op' = sw_last_emitted op"
    and ts: "map timer_key (ts_timers (nr_timer_service rt')) =
      (if w \<in> set ?R then [] else [window_key L w]) @ map timer_key (ts_timers (nr_timer_service rt))"
    using mr sw_invD(1-3) [OF I] win_ok_closed(2) [OF wok sw_invD(2) [OF I]]
    by (auto simp: sw_maybe_register_timer_def Let_def register_timer_def timer_key_def window_key_def split: if_splits)
  show R': "set (sw_registered_windows op') = insert w (set ?R)" by (auto simp: R)
  show "sw_last_emitted op' = sw_last_emitted op" "nr_watermark_generator rt' = nr_watermark_generator rt" by (simp_all add: same)
  have fresh: "contributions ag log w = []" if "w \<notin> set ?R"
    using sw_invD(9) [OF I, of w] that opn by auto
  show "sw_inv ag a L s op' rt' [] (log @ [(w, e)]) cl hw"
  proof (rule sw_invI)
    show "distinct (sw_registered_windows op')" using sw_invD(4) [OF I] by (simp add: R)
    have "mset (map timer_key (ts_timers (nr_timer_service rt'))) =
        image_mset (window_key L) (mset (if w \<in> set ?R then [] else [w])) + mset (map timer_key (ts_timers (nr_timer_service rt)))"
      unfolding ts by simp
    then show "image_mset timer_key (mset (ts_timers (nr_timer_service rt')) + mset []) = image_mset (window_key L) (mset (sw_registered_windows op'))"
      using sw_invD(5) [OF I] by (simp add: R)
    show "hw < tr_timestamp t" if "t \<in> set (ts_timers (nr_timer_service rt'))" for t
    proof -
      have "timer_key t \<in> set (map timer_key (ts_timers (nr_timer_service rt')))" using that by simp
      then consider "timer_key t = window_key L w" | t' where "t' \<in> set (ts_timers (nr_timer_service rt))" "timer_key t = timer_key t'"
        unfolding ts by (auto split: if_splits)
      then show ?thesis using opn sw_invD(6) [OF I] by cases (auto simp: timer_key_def window_key_def)
    qed
    show "win_ok L v" if "v \<in> set (sw_registered_windows op')" for v
      using that sw_invD(8) [OF I, of v] wok by (auto simp: R')
    show "v \<in> set (sw_registered_windows op') \<or> wi_end v + L \<le> hw" if "contributions ag (log @ [(w, e)]) v \<noteq> []" for v
      using that sw_invD(9) [OF I, of v] by (auto simp: R' split: if_splits)
    show "map_of (nr_state_store rt') (sw_state_key v) =
        (if v \<in> set (sw_registered_windows op') \<and> contributions ag (log @ [(w, e)]) v \<noteq> []
         then ag_ser ag (foldl (ag_add ag) (ag_create_accumulator ag) (contributions ag (log @ [(w, e)]) v)) else None)" if v: "win_ok L v" for v
    proof (cases "v = w")
      case False
      moreover from this have "sw_state_key v \<noteq> sw_state_key w" using sw_state_key_inject [of v w] v wok by (simp add: win_ok_def)
      ultimately show ?thesis using sw_invD(10) [OF I v] by (simp add: same st R')
    qed (simp add: same st R')
    show "(v, us) \<in> set cl \<longleftrightarrow> us = contributions ag (log @ [(w, e)]) v \<and> us \<noteq> [] \<and> v \<notin> set (sw_registered_windows op')" for v us
      using sw_invD(12) [OF I, of v us] fresh by (cases "v = w") (auto simp: R')
  qed (use sw_invD(11,13) [OF I] in \<open>simp_all add: same\<close>)
qed

lemma sw_update_window_inv:
  assumes ok: "agg_ok ag" and s: "sw_strategy ag s" and I: "sw_inv ag a L s op rt [] log cl hw" and wok: "win_ok L w"
    and wm: "hw \<le> wm" and opn: "wm < wi_end w + L"
  shows "\<exists>op' rt'. sw_update_window ag e wm now i w (op, rt, upd) = Some (op', rt', upd @ (if ag_extract_batch ag e = [] then [] else [w])) \<and>
    sw_inv ag a L s op' rt' [] (log @ [(w, e)]) cl hw \<and> set (sw_registered_windows op') = insert w (set (sw_registered_windows op)) \<and>
    sw_last_emitted op' = sw_last_emitted op \<and> nr_watermark_generator rt' = nr_watermark_generator rt"
proof -
  let ?vs = "contributions ag (log @ [(w, e)]) w"
  have "hw < wi_end w + L" using wm opn by linarith
  then have old: "w \<notin> set (sw_registered_windows op) \<Longrightarrow> contributions ag log w = []" using sw_invD(9) [OF I, of w] by auto
  obtain b where b: "ag_ser ag (foldl (ag_add ag) (ag_create_accumulator ag) ?vs) = Some b"
    using ok unfolding agg_ok_def by blast
  have ga: "foldl (ag_add ag) (sw_get_accumulator ag w (nr_state_store rt)) (ag_extract_batch ag e) =
      foldl (ag_add ag) (ag_create_accumulator ag) ?vs"
    using old by (auto simp: sw_get_accumulator_inv [OF ok I wok])
  define st where "st = (if ag_extract_batch ag e = [] then nr_state_store rt else AList.update (sw_state_key w) b (nr_state_store rt))"
  have mo: "map_of st = (map_of (nr_state_store rt))(sw_state_key w :=
      (if ?vs = [] then None else ag_ser ag (foldl (ag_add ag) (ag_create_accumulator ag) ?vs)))"
    using sw_invD(10) [OF I wok] old b by (cases "ag_extract_batch ag e = []") (auto simp: st_def update_conv' fun_eq_iff)
  obtain op1 rt1 where mr: "sw_maybe_register_timer op w i (rt\<lparr>nr_state_store := st\<rparr>) = (op1, rt1)" by fastforce
  note K = sw_register_inv [OF I wok \<open>hw < wi_end w + L\<close> mo mr]
  have "sw_maybe_register_periodic_timer op1 w now i rt1 = Some (op1, rt1)"
    using s sw_invD(3) [OF K(1)] by (auto simp: sw_strategy_def sw_maybe_register_periodic_timer_def)
  moreover have "(wm > i64_min \<and> sw_closed op wm w) = False"
    using win_ok_closed(1) [OF wok sw_invD(2) [OF I], of wm] opn by simp
  moreover have "ag_extract_batch ag e = [] \<Longrightarrow> st = nr_state_store rt"
    "ag_extract_batch ag e \<noteq> [] \<Longrightarrow> sw_put_accumulator ag w
       (foldl (ag_add ag) (sw_get_accumulator ag w (nr_state_store rt)) (ag_extract_batch ag e)) (nr_state_store rt) = Some st"
    unfolding ga by (simp_all only: sw_put_accumulator_def b st_def if_True if_False option.case simp_thms)
  ultimately have "sw_update_window ag e wm now i w (op, rt, upd) = Some (op1, rt1, upd @ (if ag_extract_batch ag e = [] then [] else [w]))"
    using mr unfolding sw_update_window_def Let_def prod.case
    by (cases "ag_extract_batch ag e = []") (simp_all only: if_False, simp_all)
  then show ?thesis using K by blast
qed

lemma sw_update_windows_inv:
  assumes ok: "agg_ok ag" and s: "sw_strategy ag s" and I: "sw_inv ag a L s op rt [] log cl hw" and "list_all (win_ok L) ws" and wm: "hw \<le> wm"
  defines "F \<equiv> filter (\<lambda>w. wm < wi_end w + L)"
  shows "\<exists>op' rt'. sw_update_windows ag e wm now i ws (op, rt, upd) =
      Some (op', rt', upd @ (if ag_extract_batch ag e = [] then [] else F ws)) \<and>
    sw_inv ag a L s op' rt' [] (log @ map (\<lambda>w. (w, e)) (F ws)) cl hw \<and>
    set (sw_registered_windows op') = set (F ws) \<union> set (sw_registered_windows op) \<and>
    sw_last_emitted op' = sw_last_emitted op \<and> nr_watermark_generator rt' = nr_watermark_generator rt"
  using I assms(4)
proof (induction ws arbitrary: op rt log upd)
  case Nil
  then show ?case by (simp add: F_def)
next
  case (Cons w ws)
  have wok: "win_ok L w" "list_all (win_ok L) ws" using Cons.prems(2) by simp_all
  show ?case
  proof (cases "wm < wi_end w + L")
    case True
    obtain op1 rt1 where 1: "sw_update_window ag e wm now i w (op, rt, upd) = Some (op1, rt1, upd @ (if ag_extract_batch ag e = [] then [] else [w]))"
      "sw_inv ag a L s op1 rt1 [] (log @ [(w, e)]) cl hw" "set (sw_registered_windows op1) = insert w (set (sw_registered_windows op))"
      "sw_last_emitted op1 = sw_last_emitted op" "nr_watermark_generator rt1 = nr_watermark_generator rt"
      using sw_update_window_inv [OF ok s Cons.prems(1) wok(1) wm True] by blast
    have F: "F (w # ws) = w # F ws" using True by (simp add: F_def)
    show ?thesis
      using Cons.IH [OF 1(2) wok(2), of "upd @ (if ag_extract_batch ag e = [] then [] else [w])"] 1
      unfolding F by (cases "ag_extract_batch ag e = []") auto
  next
    case False
    have "sw_update_window ag e wm now i w (op, rt, upd) = Some (op, rt, upd)"
      using win_ok_closed(1) [OF wok(1) sw_invD(2) [OF Cons.prems(1)], of wm] False by (simp add: sw_update_window_def)
    moreover have "F (w # ws) = F ws" using False by (simp add: F_def)
    ultimately show ?thesis using Cons.IH [OF Cons.prems(1) wok(2), of upd] by (simp only: sw_update_windows.simps option.case)
  qed
qed

lemma sw_emit_changes_inv:
  assumes "\<And>w. w \<in> set ws \<Longrightarrow> sw_create_intermediate_result ag w st = Some (E w)" "distinct (map fst (sw_last_emitted op))"
  shows "\<exists>m outs. sw_emit_changes ag now st ws op = (op\<lparr>sw_last_emitted := m\<rparr>, outs) \<and> distinct (map fst m) \<and>
    (\<forall>w. map_of m w = (if w \<in> set ws then Some (E w) else map_of (sw_last_emitted op) w)) \<and>
    mset (inserted outs) + shown op = mset (deleted outs) + mset (map snd m)"
  using assms
proof (induction ws arbitrary: op)
  case Nil
  then show ?case by (intro exI [of _ "sw_last_emitted op"] exI [of _ "[]"]) (simp add: shown_def)
next
  case (Cons w ws)
  let ?op = "op\<lparr>sw_last_emitted := AList.update w (E w) (sw_last_emitted op)\<rparr>"
  let ?old = "map_of (sw_last_emitted op) w"
  let ?r = "case ?old of Some old \<Rightarrow> [OutChangelog (changelog_delete old now)] | None \<Rightarrow> []"
  obtain m outs where 1: "sw_emit_changes ag now st ws ?op = (?op\<lparr>sw_last_emitted := m\<rparr>, outs)" "distinct (map fst m)"
    "\<forall>v. map_of m v = (if v \<in> set ws then Some (E v) else map_of (sw_last_emitted ?op) v)"
    "mset (inserted outs) + shown ?op = mset (deleted outs) + mset (map snd m)"
    using Cons.IH [of ?op] Cons.prems by (auto simp: distinct_update)
  have eq: "sw_emit_changes ag now st (w # ws) op = (op\<lparr>sw_last_emitted := m\<rparr>, ?r @ [OutChangelog (changelog_insert (E w) now)] @ outs)"
    using Cons.prems(1) [of w] 1(1) by (simp add: Let_def)
  have r: "mset (inserted ?r) = {#}" "mset (deleted ?r) = (case ?old of Some old \<Rightarrow> {#old#} | None \<Rightarrow> {#})"
    by (simp_all split: option.split)
  have "add_mset (E w) (shown op) = shown ?op + mset (deleted ?r)"
    using mset_snd_update [OF Cons.prems(2), of w "E w"] by (simp add: shown_def r(2))
  then have "mset (inserted outs) + add_mset (E w) (shown op) = mset (deleted ?r) + (mset (inserted outs) + shown ?op)"
    by (simp add: ac_simps)
  then have bal: "mset (inserted outs) + add_mset (E w) (shown op) = mset (deleted ?r) + (mset (deleted outs) + mset (map snd m))"
    unfolding 1(4) .
  show ?case
  proof (intro exI conjI, rule eq, rule 1(2))
    show "\<forall>v. map_of m v = (if v \<in> set (w # ws) then Some (E v) else map_of (sw_last_emitted op) v)"
      using 1(3) by (auto simp: update_conv')
    show "mset (inserted (?r @ [OutChangelog (changelog_insert (E w) now)] @ outs)) + shown op =
        mset (deleted (?r @ [OutChangelog (changelog_insert (E w) now)] @ outs)) + mset (map snd m)"
      using bal r(1) by (simp add: ac_simps)
  qed
qed

text \<open>A late event, and one whose windows are all closed, leaves everything but metrics and watermark alone.\<close>

lemma sw_late_inv:
  assumes I: "sw_inv ag a L s op rt [] log cl hw" and g: "hw \<le> bg_current_watermark g"
    and h: "sw_handle_late op e = (op', outs)"
  shows "sw_inv ag a L s op' (rt\<lparr>nr_watermark_generator := g\<rparr>) [] log cl hw" "emits ag s op log op' log outs []"
proof -
  have same: "sw_assigner op' = sw_assigner op" "sw_allowed_lateness_ms op' = sw_allowed_lateness_ms op"
    "sw_emit_strategy op' = sw_emit_strategy op" "sw_registered_windows op' = sw_registered_windows op"
    "sw_last_emitted op' = sw_last_emitted op" "emitted_events outs = []" "inserted outs = []" "deleted outs = []"
    using h by (auto simp: sw_handle_late_def split: if_splits option.splits)
  show "sw_inv ag a L s op' (rt\<lparr>nr_watermark_generator := g\<rparr>) [] log cl hw"
    using sw_invD(1-12) [OF I] g by (intro sw_invI) (simp_all add: same)
  show "emits ag s op log op' log outs []" by (simp add: emits_def same le_inv_def shown_def)
qed

lemma sw_emit_changes_frame: "\<exists>m outs. sw_emit_changes ag now st ws op = (op\<lparr>sw_last_emitted := m\<rparr>, outs)"
proof (induction ws arbitrary: op)
  case Nil
  show ?case by (intro exI [of _ "sw_last_emitted op"]) simp
next
  case (Cons w ws)
  show ?case
  proof (cases "sw_create_intermediate_result ag w st")
    case None
    then show ?thesis using Cons [of op] by simp
  next
    case (Some x)
    then show ?thesis
      using Cons [of "op\<lparr>sw_last_emitted := AList.update w x (sw_last_emitted op)\<rparr>"] by (auto simp: Let_def)
  qed
qed

text \<open>The emission after the update of the windows \<^verbatim>\<open>F\<close> by an event.\<close>

lemma sw_emit_updates_inv:
  assumes ok: "agg_ok ag" and s: "sw_strategy ag s" and I: "sw_inv ag a L s op rt [] log cl hw" and F: "\<And>w. w \<in> set F \<Longrightarrow> hw < wi_end w + L"
    and I1: "sw_inv ag a L s op1 rt1 [] (log @ map (\<lambda>w. (w, e)) F) cl hw"
    and R: "set (sw_registered_windows op1) = set F \<union> set (sw_registered_windows op)" and le1: "sw_last_emitted op1 = sw_last_emitted op"
  shows "\<exists>m outs. sw_emit_updates ag now (nr_state_store rt1) (if ag_extract_batch ag e = [] then [] else F) op1 =
      (op1\<lparr>sw_last_emitted := m\<rparr>, outs) \<and>
    emits ag s op log (op1\<lparr>sw_last_emitted := m\<rparr>) (log @ map (\<lambda>w. (w, e)) F) outs []"
proof (cases "s = Changelog \<and> le_inv ag op log")
  case False
  show ?thesis
  proof (cases "s = Changelog")
    case True
    then have "\<not> le_inv ag op log" using False by simp
    then show ?thesis
      using sw_emit_changes_frame [of ag now "nr_state_store rt1" "if ag_extract_batch ag e = [] then [] else F" op1] True sw_invD(3) [OF I1]
      by (simp add: sw_emit_updates_def emits_def)
  next
    case nc: False
    have "sw_emit_updates ag now (nr_state_store rt1) (if ag_extract_batch ag e = [] then [] else F) op1 =
        (op1\<lparr>sw_last_emitted := sw_last_emitted op1\<rparr>, [])"
      using nc s sw_invD(3) [OF I1] by (auto simp: sw_strategy_def sw_emit_updates_def)
    moreover have "emits ag s op log (op1\<lparr>sw_last_emitted := sw_last_emitted op1\<rparr>) (log @ map (\<lambda>w. (w, e)) F) [] []"
      using nc by (simp add: emits_def)
    ultimately show ?thesis by blast
  qed
next
  case True
  let ?log = "log @ map (\<lambda>w. (w, e)) F"
  let ?ws = "if ag_extract_batch ag e = [] then [] else F"
  have le: "distinct (map fst (sw_last_emitted op1))"
    "\<And>w. map_of (sw_last_emitted op1) w = (if w \<in> set (sw_registered_windows op) \<and> contributions ag log w \<noteq> []
       then Some (window_event ag w (contributions ag log w)) else None)"
    using True le1 by (simp_all add: le_inv_def)
  have E: "sw_create_intermediate_result ag w (nr_state_store rt1) = Some (window_event ag w (contributions ag ?log w))" if "w \<in> set ?ws" for w
  proof -
    have w: "w \<in> set F" "ag_extract_batch ag e \<noteq> []" using that by (simp_all split: if_splits)
    then have reg: "w \<in> set (sw_registered_windows op1)" using R by simp
    have ne: "contributions ag ?log w \<noteq> []" using contributions_event [of ag e F w] w by simp
    have acc: "sw_get_accumulator ag w (nr_state_store rt1) = foldl (ag_add ag) (ag_create_accumulator ag) (contributions ag ?log w)"
      using sw_get_accumulator_inv [OF ok I1 sw_invD(8) [OF I1 reg]] reg by (simp only: if_True)
    have "\<not> ag_is_empty ag (foldl (ag_add ag) (ag_create_accumulator ag) (contributions ag ?log w))"
      using ok ne unfolding agg_ok_def by blast
    moreover obtain d where "ag_try_new ag w (ag_result ag (foldl (ag_add ag) (ag_create_accumulator ag) (contributions ag ?log w))) = Some d"
      using s True unfolding sw_strategy_def by blast
    ultimately show ?thesis unfolding sw_create_intermediate_result_def Let_def acc window_event_def by (simp only: if_False option.map option.sel)
  qed
  obtain m outs where m: "sw_emit_changes ag now (nr_state_store rt1) ?ws op1 = (op1\<lparr>sw_last_emitted := m\<rparr>, outs)" "distinct (map fst m)"
    "\<forall>w. map_of m w = (if w \<in> set ?ws then Some (window_event ag w (contributions ag ?log w)) else map_of (sw_last_emitted op1) w)"
    "mset (inserted outs) + shown op1 = mset (deleted outs) + mset (map snd m)"
    using sw_emit_changes_inv [where E = "\<lambda>w. window_event ag w (contributions ag ?log w)", OF E le(1)] by blast
  have "map_of m w = (if w \<in> set (sw_registered_windows op1) \<and> contributions ag ?log w \<noteq> []
      then Some (window_event ag w (contributions ag ?log w)) else None)" for w
  proof (cases "w \<in> set ?ws")
    case T: True
    then have "w \<in> set F" "ag_extract_batch ag e \<noteq> []" by (simp_all split: if_splits)
    then show ?thesis using m(3) T R contributions_event [of ag e F w] by simp
  next
    case F': False
    have "contributions ag (map (\<lambda>w. (w, e)) F) w = []" using contributions_event [of ag e F w] F' by (auto split: if_splits)
    then have c: "contributions ag ?log w = contributions ag log w" by simp
    have "contributions ag log w = []" if "w \<in> set F" "w \<notin> set (sw_registered_windows op)"
      using sw_invD(9) [OF I, of w] F [OF that(1)] that(2) by auto
    then show ?thesis using m(3) F' le(2) [of w] R unfolding c by auto
  qed
  then have "le_inv ag (op1\<lparr>sw_last_emitted := m\<rparr>) ?log" using m(2) by (simp add: le_inv_def)
  moreover have "mset (inserted outs) + shown op = mset (deleted outs) + shown (op1\<lparr>sw_last_emitted := m\<rparr>)"
    using m(4) by (simp add: shown_def le1)
  moreover have "sw_emit_updates ag now (nr_state_store rt1) ?ws op1 = (op1\<lparr>sw_last_emitted := m\<rparr>, outs)"
    using m(1) sw_invD(3) [OF I1] True by (simp add: sw_emit_updates_def)
  ultimately show ?thesis using True by (intro exI [of _ m] exI [of _ outs]) (simp add: emits_def)
qed

lemma sw_event_inv:
  assumes ok: "agg_ok ag" and s: "sw_strategy ag s" and I: "sw_inv ag a L s op rt [] log cl hw" and x: "sw_step_ok a L (TwEvent e now)"
    and g: "bounded_on_event (nr_watermark_generator rt) (ev_timestamp e) = (g, em)"
  defines "F \<equiv> filter (\<lambda>w. bg_current_watermark g < wi_end w + L) (windows_at a (ev_timestamp e))"
  shows "\<exists>op' rt' outs. sw_process ag op e now i rt = Some (op', rt', outs) \<and>
    sw_inv ag a L s op' rt' [] (log @ map (\<lambda>w. (w, e)) F) cl hw \<and> emits ag s op log op' (log @ map (\<lambda>w. (w, e)) F) outs [] \<and>
    nr_watermark_generator rt' = g"
proof -
  let ?wm = "bg_current_watermark g" and ?ws = "windows_at a (ev_timestamp e)" and ?rt = "rt\<lparr>nr_watermark_generator := g\<rparr>"
  have ws: "sliding_assign_windows (sw_assigner op) (ev_timestamp e) = Some ?ws" and wok: "list_all (win_ok L) ?ws"
    using x sw_invD(1) [OF I] by (auto simp: windows_at_def)
  have wm: "hw \<le> ?wm"
    using sw_invD(13) [OF I] on_event_watermark [of "nr_watermark_generator rt" "ev_timestamp e"] by (simp add: g)
  have late: "sw_is_late op (ev_timestamp e) ?wm = Some (list_all (sw_closed op ?wm) ?ws)" by (simp add: sw_is_late_def ws)
  show ?thesis
  proof (cases "?wm > i64_min \<and> list_all (sw_closed op ?wm) ?ws")
    case True
    obtain op' outs where h: "sw_handle_late op e = (op', outs)" by fastforce
    have "\<not> ?wm < wi_end w + L" if "w \<in> set ?ws" for w
    proof -
      have "win_ok L w" "sw_closed op ?wm w" using that wok True by (simp_all add: list_all_iff)
      then show ?thesis using win_ok_closed(1) [OF _ sw_invD(2) [OF I], of w ?wm] True by simp
    qed
    then have "F = []" by (simp add: F_def filter_empty_conv)
    moreover have "sw_process ag op e now i rt = Some (op', ?rt, outs)"
      using True late by (simp add: sw_process_def g h)
    ultimately show ?thesis using sw_late_inv [OF I wm h] by simp
  next
    case False
    then have nl: "(if ?wm > i64_min then sw_is_late op (ev_timestamp e) ?wm else Some False) = Some False"
      using late by simp
    have I0: "sw_inv ag a L s op ?rt [] log cl hw"
      using sw_invD(1-12) [OF I] wm by (intro sw_invI) simp_all
    obtain op1 rt1 where 1: "sw_update_windows ag e ?wm now i ?ws (op, ?rt, []) = Some (op1, rt1, if ag_extract_batch ag e = [] then [] else F)"
      "sw_inv ag a L s op1 rt1 [] (log @ map (\<lambda>w. (w, e)) F) cl hw"
      "set (sw_registered_windows op1) = set F \<union> set (sw_registered_windows op)"
      "sw_last_emitted op1 = sw_last_emitted op" "nr_watermark_generator rt1 = g"
      using sw_update_windows_inv [OF ok s I0 wok wm, of e now i "[]"] unfolding F_def [symmetric] by auto
    have opn: "hw < wi_end w + L" if "w \<in> set F" for w using that wm by (simp add: F_def)
    obtain m outs where 2: "sw_emit_updates ag now (nr_state_store rt1) (if ag_extract_batch ag e = [] then [] else F) op1 =
        (op1\<lparr>sw_last_emitted := m\<rparr>, outs)"
      "emits ag s op log (op1\<lparr>sw_last_emitted := m\<rparr>) (log @ map (\<lambda>w. (w, e)) F) outs []"
      using sw_emit_updates_inv [OF ok s I opn 1(2-4)] by blast
    let ?out = "case em of Some wm \<Rightarrow> [OutWatermark wm] | None \<Rightarrow> []"
    have P: "sw_process ag op e now i rt = Some (op1\<lparr>sw_last_emitted := m\<rparr>, rt1, ?out @ outs)"
      unfolding sw_process_def Let_def g prod.case nl option.case bool.case ws 1(1) 2(1) ..
    have "emits ag s op log op log ?out []" by (simp add: emits_def split: option.split)
    from emits_trans [OF this 2(2)] show ?thesis using P 1(2,5) by auto
  qed
qed

lemma sw_on_timer_generator:
  "sw_on_timer ag op tm now i rt = Some (op', rt', outs) \<Longrightarrow> nr_watermark_generator rt' = nr_watermark_generator rt"
  by (auto simp: sw_on_timer_def Let_def sw_handle_periodic_timer_def
    split: if_splits option.splits emit_strategy.splits)

lemma sw_fire_generator:
  "sw_fire ag now i fs op rt = Some (op', rt', outs) \<Longrightarrow> nr_watermark_generator rt' = nr_watermark_generator rt"
  by (induction fs arbitrary: op rt outs) (auto simp: sw_on_timer_generator split: option.splits)

lemma sw_step_inv:
  assumes ok: "agg_ok ag" "sw_strategy ag s" and I: "sw_inv ag a L s op rt [] log cl hw"
    and x: "sw_step_ok a L x" and g: "gen_ok (nr_watermark_generator rt) m"
  shows "\<exists>op' rt' outs cl' new m'. sw_step ag i x op rt = Some (op', rt', outs) \<and>
    sw_inv ag a L s op' rt' [] (log @ new) (cl @ cl') (high_watermark [x] hw) \<and> emits ag s op log op' (log @ new) outs cl' \<and>
    gen_ok (nr_watermark_generator rt') m' \<and> (\<forall>xs. sw_on_time a L (x # xs) m = new @ sw_on_time a L xs m')"
proof (cases x)
  case (TwWatermark t)
  obtain op' rt' outs cl' where 1: "sw_step ag i (TwWatermark t) op rt = Some (op', rt', outs)"
    "sw_inv ag a L s op' rt' [] log (cl @ cl') (max hw t)" "emits ag s op log op' log outs cl'"
    using sw_watermark_inv [OF ok I] by blast
  have "gen_ok (nr_watermark_generator rt') (max m t)"
    using gen_ok_advance [OF g, of t] 1(1) x TwWatermark by (auto simp: case_prod_unfold Let_def dest!: sw_fire_generator)
  then show ?thesis
    using 1 TwWatermark
    by (intro exI [of _ op'] exI [of _ rt'] exI [of _ outs] exI [of _ cl'] exI [of _ "[]"] exI [of _ "max m t"]) simp
next
  case (TwEvent e now)
  obtain g' em where g': "bounded_on_event (nr_watermark_generator rt) (ev_timestamp e) = (g', em)" by fastforce
  have gm: "gen_ok g' (max m (ev_timestamp e))" using gen_ok_event [OF g, of "ev_timestamp e"] x g' TwEvent by simp
  then have wm: "bg_current_watermark g' = max m (ev_timestamp e)" by (simp add: gen_ok_def)
  let ?new = "map (\<lambda>w. (w, e)) (filter (\<lambda>w. max m (ev_timestamp e) < wi_end w + L) (windows_at a (ev_timestamp e)))"
  obtain op' rt' outs where 1: "sw_process ag op e now i rt = Some (op', rt', outs)" "sw_inv ag a L s op' rt' [] (log @ ?new) cl hw"
    "emits ag s op log op' (log @ ?new) outs []" "nr_watermark_generator rt' = g'"
    using sw_event_inv [OF ok I x [unfolded TwEvent] g', of i] unfolding wm by blast
  then show ?thesis
    using gm TwEvent
    by (intro exI [of _ op'] exI [of _ rt'] exI [of _ outs] exI [of _ "[]"] exI [of _ ?new] exI [of _ "max m (ev_timestamp e)"]) (simp add: Let_def)
qed

lemma sw_run_inv:
  assumes ok: "agg_ok ag" "sw_strategy ag s" and "list_all (sw_step_ok a L) xs"
    and "sw_inv ag a L s op rt [] log cl hw" "gen_ok (nr_watermark_generator rt) m"
  shows "\<exists>op' rt' outs cl'. sw_run ag i xs op rt = Some (op', rt', outs) \<and>
    sw_inv ag a L s op' rt' [] (log @ sw_on_time a L xs m) (cl @ cl') (high_watermark xs hw) \<and>
    emits ag s op log op' (log @ sw_on_time a L xs m) outs cl'"
  using assms(3-5)
proof (induction xs arbitrary: op rt log cl hw m)
  case Nil
  then show ?case using emits_refl [of ag s op log] by (intro exI [of _ op] exI [of _ rt] exI [of _ "[]"]) simp
next
  case (Cons x xs)
  have x: "sw_step_ok a L x" "list_all (sw_step_ok a L) xs" using Cons.prems(1) by simp_all
  obtain op1 rt1 outs1 cl1 new m' where 1: "sw_step ag i x op rt = Some (op1, rt1, outs1)"
    "sw_inv ag a L s op1 rt1 [] (log @ new) (cl @ cl1) (high_watermark [x] hw)" "emits ag s op log op1 (log @ new) outs1 cl1"
    "gen_ok (nr_watermark_generator rt1) m'" "\<forall>xs. sw_on_time a L (x # xs) m = new @ sw_on_time a L xs m'"
    using sw_step_inv [OF ok Cons.prems(2) x(1) Cons.prems(3), of i] by blast
  obtain op2 rt2 outs2 cl2 where 2: "sw_run ag i xs op1 rt1 = Some (op2, rt2, outs2)"
    "sw_inv ag a L s op2 rt2 [] ((log @ new) @ sw_on_time a L xs m') ((cl @ cl1) @ cl2) (high_watermark xs (high_watermark [x] hw))"
    "emits ag s op1 (log @ new) op2 ((log @ new) @ sw_on_time a L xs m') outs2 cl2"
    using Cons.IH [OF x(2) 1(2,4)] by blast
  have "sw_run ag i (x # xs) op rt = Some (op2, rt2, outs1 @ outs2)" by (simp add: 1(1) 2(1))
  moreover have "emits ag s op log op2 (log @ sw_on_time a L (x # xs) m) (outs1 @ outs2) (cl1 @ cl2)"
    using emits_trans [OF 1(3) 2(3)] 1(5) by simp
  ultimately show ?case
    using 2(2) 1(5) high_watermark_Cons [of x xs hw]
    by (intro exI [of _ op2] exI [of _ rt2] exI [of _ "outs1 @ outs2"] exI [of _ "cl1 @ cl2"]) simp
qed

lemma sw_closed_iff:
  assumes I: "sw_inv ag a L s op rt [] log cl hw"
  shows "(w, vs) \<in> set cl \<longleftrightarrow> vs = contributions ag log w \<and> vs \<noteq> [] \<and> wi_end w + L \<le> hw"
proof -
  have "w \<notin> set (sw_registered_windows op)" if "wi_end w + L \<le> hw"
  proof
    assume "w \<in> set (sw_registered_windows op)"
    then have "window_key L w \<in># image_mset timer_key (mset (ts_timers (nr_timer_service rt)) + mset [])"
      unfolding sw_invD(5) [OF I] by simp
    then obtain t where "t \<in> set (ts_timers (nr_timer_service rt))" "timer_key t = window_key L w" by auto
    then show False using sw_invD(6) [OF I, of t] that by (simp add: timer_key_def window_key_def)
  qed
  then show ?thesis using sw_invD(12) [OF I, of w vs] sw_invD(9) [OF I, of w] by blast
qed

section \<open>Emission\<close>

text \<open>Inputs that a valid assigner can handle: no computation of an assignment overflows, and the windows can be keyed.\<close>

fun sw_input_ok :: "sliding_assigner \<Rightarrow> i64 \<Rightarrow> 'd tw_input \<Rightarrow> bool" where
  "sw_input_ok a L (TwEvent e now) \<longleftrightarrow> sliding_ok a (ev_timestamp e) \<and> list_all (win_ok L) (windows_at a (ev_timestamp e))"
| "sw_input_ok a L (TwWatermark t) \<longleftrightarrow> in_i64 t"

text \<open>The assignment of such an event ends.\<close>

lemma sw_input_step_ok: "sw_input_ok a L x \<Longrightarrow> sw_step_ok a L x"
proof (cases x)
  case (TwEvent e now)
  assume x: "sw_input_ok a L x"
  then have ok: "0 < sa_slide_ms a" "sa_slide_ms a \<le> sa_size_ms a" "assignable (sa_slide_ms a) (sa_offset_ms a) (ev_timestamp e)"
    "i64_min + sa_size_ms a + sa_slide_ms a \<le> ev_timestamp e" "ev_timestamp e + sa_size_ms a \<le> i64_max"
    using TwEvent by (simp_all add: sliding_ok_def)
  then have "in_i64 (ev_timestamp e)" by (simp add: in_i64_def)
  moreover have "sliding_assign_windows a (ev_timestamp e) \<noteq> None" using sliding_windows [OF ok] by auto
  ultimately show ?thesis using x TwEvent by simp
qed simp

lemma sw_run_from_new:
  assumes "agg_ok ag" "sw_strategy ag s" "millis_i64 lateness = Some L" "sw_with_id a lateness opid = Some op0" "list_all (sw_step_ok a L) xs"
  shows "\<exists>op rt outs cl. sw_run ag i xs (sw_set_emit_strategy op0 s) (node_runtime_default []) = Some (op, rt, outs) \<and>
    sw_inv ag a L s op rt [] (sw_on_time a L xs i64_min) cl (high_watermark xs i64_min) \<and>
    emits ag s (sw_set_emit_strategy op0 s) [] op (sw_on_time a L xs i64_min) outs cl \<and>
    le_inv ag (sw_set_emit_strategy op0 s) [] \<and> shown (sw_set_emit_strategy op0 s) = {#}"
proof -
  have op0: "sw_assigner op0 = a" "sw_allowed_lateness_ms op0 = L" "sw_registered_windows op0 = []" "sw_last_emitted op0 = []"
    using assms(3,4) by (auto simp: sw_with_id_def split: option.splits)
  have "sw_inv ag a L s (sw_set_emit_strategy op0 s) (node_runtime_default []) [] [] [] i64_min"
    by (rule sw_invI) (simp_all add: op0 sw_set_emit_strategy_def node_runtime_default_def timer_service_new_def bounded_new_def)
  moreover have "gen_ok (nr_watermark_generator (node_runtime_default ([] :: store))) i64_min"
    by (simp add: gen_ok_def node_runtime_default_def bounded_new_def)
  ultimately obtain op rt outs cl where
    "sw_run ag i xs (sw_set_emit_strategy op0 s) (node_runtime_default []) = Some (op, rt, outs)"
    "sw_inv ag a L s op rt [] (sw_on_time a L xs i64_min) cl (high_watermark xs i64_min)"
    "emits ag s (sw_set_emit_strategy op0 s) [] op (sw_on_time a L xs i64_min) outs cl"
    using sw_run_inv [OF assms(1,2,5), of _ _ "[]" "[]"] by (metis append_Nil)
  moreover have "le_inv ag (sw_set_emit_strategy op0 s) []" "shown (sw_set_emit_strategy op0 s) = {#}"
    by (simp_all add: le_inv_def shown_def sw_set_emit_strategy_def op0)
  ultimately show ?thesis by blast
qed

text \<open>
  Every window of a sliding operator that emits on close is closed exactly once, once a delivered watermark
  reaches its end plus the allowed lateness, with the result of exactly the values of the events that were in time
  for that window; an event late for one of its windows still counts for the others. The run never panics and
  every assignment ends. A closed window whose output batch cannot be built is dropped without output, as in the code;
  if every batch can be built, each closed window emits exactly one event, stamped with its end. The slide is assumed
  to be positive and at most the size, windows to start at or after the epoch and to end, lateness included, within
  the 64-bit range, and state writes to succeed. (C9)
\<close>

theorem sliding_exactly_once:
  assumes "agg_ok ag" "millis_i64 lateness = Some L" "sw_with_id a lateness opid = Some op0" "s \<in> {OnWatermark, OnWindowClose, Final}"
    "list_all (sw_input_ok a L) steps"
  shows "\<exists>op rt outs cl. sw_run ag i steps (sw_set_emit_strategy op0 s) (node_runtime_default []) = Some (op, rt, outs) \<and>
    emitted_events outs = concat (map (closing ag) cl) \<and> distinct (map fst cl) \<and>
    (\<forall>w vs. (w, vs) \<in> set cl \<longleftrightarrow> vs = contributions ag (sw_on_time a L steps i64_min) w \<and> vs \<noteq> [] \<and>
       wi_end w + L \<le> high_watermark steps i64_min) \<and>
    ((\<forall>w r. ag_try_new ag w r \<noteq> None) \<longrightarrow> map ev_timestamp (emitted_events outs) = map (wi_end \<circ> fst) cl)"
proof -
  have ok: "list_all (sw_step_ok a L) steps" using assms(5) by (auto simp: list_all_iff intro: sw_input_step_ok)
  have s: "sw_strategy ag s" "s \<noteq> Changelog" using assms(4) by (auto simp: sw_strategy_def)
  obtain op rt outs cl where r: "sw_run ag i steps (sw_set_emit_strategy op0 s) (node_runtime_default []) = Some (op, rt, outs)"
    and I: "sw_inv ag a L s op rt [] (sw_on_time a L steps i64_min) cl (high_watermark steps i64_min)"
    and e: "emits ag s (sw_set_emit_strategy op0 s) [] op (sw_on_time a L steps i64_min) outs cl"
    using sw_run_from_new [OF assms(1) s(1) assms(2,3) ok] by blast
  have "emitted_events outs = concat (map (closing ag) cl)" using e s(2) by (simp add: emits_def)
  then show ?thesis using r sw_invD(11) [OF I] sw_closed_iff [OF I] closing_timestamps [of ag cl] by metis
qed

definition sliding_input :: "int tw_input list" where
  "sliding_input =
     [TwEvent \<lparr>ev_timestamp = 1100, ev_data = 7\<rparr> 0, TwEvent \<lparr>ev_timestamp = 1600, ev_data = 8\<rparr> 0, TwWatermark 2000,
      TwEvent \<lparr>ev_timestamp = 1700, ev_data = 9\<rparr> 0, TwWatermark 2500]"

lemma sliding_input_ok:
  "list_all (sw_step_ok \<lparr>sa_size_ms = 1000, sa_slide_ms = 500, sa_windows_per_event = 2, sa_offset_ms = 0\<rparr> 0) sliding_input"
  "list_all (sw_input_ok \<lparr>sa_size_ms = 1000, sa_slide_ms = 500, sa_windows_per_event = 2, sa_offset_ms = 0\<rparr> 0) sliding_input"
  by code_simp+

lemma sliding_sample_op:
  "millis_i64 0 = Some 0"
  "sw_with_id a 0 n = Some (the (sw_with_id a 0 n))"
  by (simp_all add: sw_with_id_def millis_i64_def i64_simps)

theorem sliding_exactly_once_witness:
  "list_all (sw_input_ok \<lparr>sa_size_ms = 1000, sa_slide_ms = 500, sa_windows_per_event = 2, sa_offset_ms = 0\<rparr> 0) sliding_input \<and>
   (\<exists>op rt outs cl. sw_run count_aggregator 0 sliding_input
        (sw_set_emit_strategy (the (sw_with_id \<lparr>sa_size_ms = 1000, sa_slide_ms = 500, sa_windows_per_event = 2, sa_offset_ms = 0\<rparr> 0 ''w'')) OnWindowClose)
        (node_runtime_default []) = Some (op, rt, outs) \<and>
    emitted_events outs = concat (map (closing count_aggregator) cl) \<and> distinct (map fst cl))"
proof -
  have s: "OnWindowClose \<in> {OnWatermark, OnWindowClose, Final}" by simp
  show ?thesis
    by (rule conjI [OF sliding_input_ok(2)],
        insert sliding_exactly_once [OF count_aggregator_ok sliding_sample_op s sliding_input_ok(2), of 0 "''w''"], elim exE conjE)
      (intro exI conjI, assumption+)
qed

text \<open>
  The changelog of a sliding operator is balanced after every run: what was inserted is what was deleted, the
  current result of every open window and the final result of every closed one, each once. So the rows that a
  consumer of the changelog holds are one per window with values, and a closed window shows its final result.
  Output batches are assumed to be built without error, and windows to start at or after the epoch and to end,
  lateness included, within the 64-bit range. (C3)
\<close>

theorem sliding_changelog_balanced:
  assumes "agg_ok ag" "\<And>w r. ag_try_new ag w r \<noteq> None" "millis_i64 lateness = Some L" "sw_with_id a lateness opid = Some op0"
    "list_all (sw_step_ok a L) steps"
  shows "\<exists>op rt outs cl. sw_run ag i steps (sw_set_emit_strategy op0 Changelog) (node_runtime_default []) = Some (op, rt, outs) \<and>
    mset (inserted outs) = mset (deleted outs) + mset (map snd (sw_last_emitted op)) + mset (concat (map (closing ag) cl)) \<and>
    distinct (map fst (sw_last_emitted op)) \<and> distinct (map fst cl) \<and>
    (\<forall>w. let vs = contributions ag (sw_on_time a L steps i64_min) w; reached = wi_end w + L \<le> high_watermark steps i64_min
         in map_of (sw_last_emitted op) w = (if vs \<noteq> [] \<and> \<not> reached then Some (window_event ag w vs) else None) \<and>
            (\<forall>us. (w, us) \<in> set cl \<longleftrightarrow> us = vs \<and> vs \<noteq> [] \<and> reached))"
proof -
  let ?log = "sw_on_time a L steps i64_min" and ?op = "sw_set_emit_strategy op0 Changelog"
  have s: "sw_strategy ag Changelog" using assms(2) by (auto simp: sw_strategy_def simp del: not_None_eq)
  obtain op rt outs cl where r: "sw_run ag i steps ?op (node_runtime_default []) = Some (op, rt, outs)"
    and I: "sw_inv ag a L Changelog op rt [] ?log cl (high_watermark steps i64_min)"
    and e: "emits ag Changelog ?op [] op ?log outs cl" and le0: "le_inv ag ?op []" and sh: "shown ?op = {#}"
    using sw_run_from_new [OF assms(1) s assms(3,4,5)] by blast
  have le: "le_inv ag op ?log" and bal: "mset (inserted outs) = mset (deleted outs) + shown op + mset (concat (map (closing ag) cl))"
    using e le0 sh by (simp_all add: emits_def)
  have reg: "w \<in> set (sw_registered_windows op) \<longleftrightarrow> \<not> wi_end w + L \<le> high_watermark steps i64_min"
    if "contributions ag ?log w \<noteq> []" for w
    using sw_closed_iff [OF I, of w "contributions ag ?log w"] sw_invD(12) [OF I, of w "contributions ag ?log w"] that by blast
  show ?thesis
  proof (intro exI conjI allI, rule r)
    show "mset (inserted outs) = mset (deleted outs) + mset (map snd (sw_last_emitted op)) + mset (concat (map (closing ag) cl))"
      using bal unfolding shown_def .
    show "distinct (map fst (sw_last_emitted op))" using le by (simp add: le_inv_def)
    show "distinct (map fst cl)" by (rule sw_invD(11) [OF I])
    show "let vs = contributions ag ?log w; reached = wi_end w + L \<le> high_watermark steps i64_min
         in map_of (sw_last_emitted op) w = (if vs \<noteq> [] \<and> \<not> reached then Some (window_event ag w vs) else None) \<and>
            (\<forall>us. (w, us) \<in> set cl \<longleftrightarrow> us = vs \<and> vs \<noteq> [] \<and> reached)" for w
      unfolding Let_def
    proof (intro conjI allI)
      have "map_of (sw_last_emitted op) w = (if w \<in> set (sw_registered_windows op) \<and> contributions ag ?log w \<noteq> []
          then Some (window_event ag w (contributions ag ?log w)) else None)"
        using le unfolding le_inv_def by blast
      then show "map_of (sw_last_emitted op) w = (if contributions ag ?log w \<noteq> [] \<and> \<not> wi_end w + L \<le> high_watermark steps i64_min
          then Some (window_event ag w (contributions ag ?log w)) else None)"
        using reg [of w] by presburger
      show "(w, us) \<in> set cl \<longleftrightarrow> us = contributions ag ?log w \<and> contributions ag ?log w \<noteq> [] \<and> wi_end w + L \<le> high_watermark steps i64_min" for us
        using sw_closed_iff [OF I, of w us] by blast
    qed
  qed
qed

theorem sliding_changelog_balanced_witness:
  "list_all (sw_step_ok \<lparr>sa_size_ms = 1000, sa_slide_ms = 500, sa_windows_per_event = 2, sa_offset_ms = 0\<rparr> 0) sliding_input \<and>
   (\<exists>op rt outs cl. sw_run count_aggregator 0 sliding_input
        (sw_set_emit_strategy (the (sw_with_id \<lparr>sa_size_ms = 1000, sa_slide_ms = 500, sa_windows_per_event = 2, sa_offset_ms = 0\<rparr> 0 ''w'')) Changelog)
        (node_runtime_default []) = Some (op, rt, outs) \<and>
    mset (inserted outs) = mset (deleted outs) + mset (map snd (sw_last_emitted op)) + mset (concat (map (closing count_aggregator) cl)))"
proof -
  have t: "ag_try_new count_aggregator w r \<noteq> None" for w r by (simp add: count_aggregator_def)
  show ?thesis
    by (rule conjI [OF sliding_input_ok(1)],
        insert sliding_changelog_balanced [OF count_aggregator_ok t sliding_sample_op sliding_input_ok(1), of 0 "''w''"], elim exE conjE)
      (intro exI conjI, assumption+)
qed

section \<open>Limits of the operator\<close>

text \<open>As with tumbling windows, the final timer of a window that starts before the epoch is taken for a periodic one.\<close>

lemma sliding_negative_start_not_emitted:
  assumes "wid_ok w" "wi_start w < 0" "suppresses_intermediate (sw_emit_strategy op)"
  shows "\<exists>op'. sw_on_timer ag op (to_key w, t) now i rt = Some (op', rt, []) \<and>
    sw_registered_windows op' = sw_registered_windows op"
proof -
  have "is_periodic_timer_key (to_key w)" using assms(1,2) by (simp add: periodic_key_iff)
  then show ?thesis using assms(3) by (simp add: sw_on_timer_def Let_def split: option.split)
qed

text \<open>A restored window counts as registered, so no event registers the timer that would close it.\<close>

lemma sliding_restored_window_has_no_timer:
  assumes "os_operator_id st = sw_operator_id op" "kc_de kc (os_data st) = Some (ws, ps)" "w \<in> set ws"
  shows "sw_maybe_register_timer (fst (sw_restore kc op st)) w i rt = (fst (sw_restore kc op st), rt)"
  using assms by (simp add: sw_restore_def sw_maybe_register_timer_def)

text \<open>When the final batch cannot be built, the window closes but what was emitted for it is neither retracted nor forgotten.\<close>

lemma failed_batch_keeps_last_emitted:
  assumes "wid_ok w" "0 \<le> wi_start w" "\<not> ag_is_empty ag (sw_get_accumulator ag w (nr_state_store rt))"
    "ag_try_new ag w (ag_result ag (sw_get_accumulator ag w (nr_state_store rt))) = None"
  shows "\<exists>op' rt'. sw_on_timer ag op (to_key w, t) now i rt = Some (op', rt', []) \<and>
    w \<notin> set (sw_registered_windows op') \<and> sw_last_emitted op' = sw_last_emitted op"
proof -
  have "\<not> is_periodic_timer_key (to_key w)" using assms(1,2) by (simp add: periodic_key_iff)
  then show ?thesis using assms by (simp add: sw_on_timer_def Let_def sw_forget_def)
qed

end
