(* ===== verification/Little_Endian.thy ===== *)
theory Little_Endian
  imports Laminar_Prelude
begin

text \<open>The bytes of fixed-width integers, least significant byte first: \<^verbatim>\<open>to_le_bytes\<close> and \<^verbatim>\<open>from_le_bytes\<close>.\<close>

definition le64 :: "64 word \<Rightarrow> bytes" where
  "le64 w = map (\<lambda>i. ucast (drop_bit (8 * i) w)) [0..<8]"

definition of_le64 :: "bytes \<Rightarrow> 64 word" where
  "of_le64 bs = foldr (\<lambda>b acc. ucast b + 256 * acc) bs 0"

definition le16 :: "nat \<Rightarrow> bytes" where
  "le16 n = [of_nat n, of_nat (n div 256)]"

definition le32 :: "nat \<Rightarrow> bytes" where
  "le32 n = [of_nat n, of_nat (n div 256), of_nat (n div 65536), of_nat (n div 16777216)]"

definition of_le32 :: "bytes \<Rightarrow> nat" where
  "of_le32 bs = foldr (\<lambda>b acc. unat b + 256 * acc) bs 0"

lemma length_le64 [simp]: "length (le64 w) = 8"
  by (simp add: le64_def)

lemma of_le64_upt:
  "of_le64 (map (\<lambda>i. ucast (drop_bit (8 * i) w)) [k..<k + n]) = take_bit (8 * n) (drop_bit (8 * k) w)"
proof (induction n arbitrary: k)
  case 0
  then show ?case by (simp add: of_le64_def)
next
  case (Suc n)
  let ?v = "drop_bit (8 * k) w"
  have "[k..<k + Suc n] = k # [Suc k..<Suc k + n]" by (simp add: upt_conv_Cons)
  then have "of_le64 (map (\<lambda>i. ucast (drop_bit (8 * i) w)) [k..<k + Suc n]) =
      ucast (ucast ?v :: 8 word) + 256 * take_bit (8 * n) (drop_bit (8 * Suc k) w)"
    using Suc.IH [of "Suc k"] by (simp add: of_le64_def)
  also have "ucast (ucast ?v :: 8 word) = take_bit 8 ?v"
    by (rule bit_word_eqI) (auto simp: bit_simps)
  also have "256 * take_bit (8 * n) (drop_bit (8 * Suc k) w) = push_bit 8 (take_bit (8 * n) (drop_bit 8 ?v))"
    by (simp add: push_bit_eq_mult mult.commute)
  also have "take_bit 8 ?v + \<dots> = take_bit (8 * Suc n) ?v"
    using bits_ident [of 8 "take_bit (8 * Suc n) ?v"] by (simp add: drop_bit_take_bit add.commute)
  finally show ?case .
qed

lemma of_le64_le64 [simp]: "of_le64 (le64 w) = w"
  using of_le64_upt [of w 0 8] by (simp add: le64_def take_bit_word_eq_self)

lemma le64_inject [simp]: "le64 v = le64 w \<longleftrightarrow> v = w"
  by (metis of_le64_le64)

lemma length_le16 [simp]: "length (le16 n) = 2"
  by (simp add: le16_def)

lemma length_le32 [simp]: "length (le32 n) = 4"
  by (simp add: le32_def)

end
