(* ===== verification/Dyn_Aggregates.thy ===== *)
theory Dyn_Aggregates
  imports Little_Endian Window_Assign Window_Aggregates
begin

text \<open>
  The dynamic accumulators and the composite aggregator of \<^verbatim>\<open>crates/laminar-core/src/operator/window.rs\<close>. A trait
  object is a value of a datatype with one constructor per implementation in this file; the adapters that implement the
  two traits over DataFusion in \<^verbatim>\<open>crates/laminar-sql/src/datafusion/aggregate_bridge.rs\<close> are not modelled,
  so what follows is about composites of the factories of this file. Accumulators merge by decoding the bytes
  of the other one, as in the source. A floating-point number is its bit pattern; the arithmetic on it, the access
  to the columns of a record batch and \<^verbatim>\<open>RecordBatch::try_new\<close> (Arrow) are parameters.
\<close>

section \<open>Scalar results\<close>

type_synonym f64 = "64 word"

record float_ops =
  fo_add :: "f64 \<Rightarrow> f64 \<Rightarrow> f64"
  fo_min :: "f64 \<Rightarrow> f64 \<Rightarrow> f64"
  fo_max :: "f64 \<Rightarrow> f64 \<Rightarrow> f64"
  fo_div :: "f64 \<Rightarrow> f64 \<Rightarrow> f64"
  fo_of_i64 :: "i64 \<Rightarrow> f64"
  fo_of_u64 :: "64 word \<Rightarrow> f64"
  fo_to_i64 :: "f64 \<Rightarrow> i64"

datatype data_type = DtInt64 | DtFloat64 | DtUInt64 | DtNull

datatype scalar_result =
    ScalarInt64 i64
  | ScalarFloat64 f64
  | ScalarUInt64 "64 word"
  | OptionalInt64 "i64 option"
  | OptionalFloat64 "f64 option"
  | ScalarNull

fun to_i64_lossy :: "float_ops \<Rightarrow> scalar_result \<Rightarrow> i64" where
  "to_i64_lossy fo (ScalarInt64 v) = v"
| "to_i64_lossy fo (ScalarFloat64 v) = fo_to_i64 fo v"
| "to_i64_lossy fo (ScalarUInt64 v) = u64_to_i64 (unat v)"
| "to_i64_lossy fo (OptionalInt64 v) = unwrap_or v 0"
| "to_i64_lossy fo (OptionalFloat64 v) = unwrap_or (map_option (fo_to_i64 fo) v) 0"
| "to_i64_lossy fo ScalarNull = 0"

fun to_f64_lossy :: "float_ops \<Rightarrow> scalar_result \<Rightarrow> f64" where
  "to_f64_lossy fo (ScalarInt64 v) = fo_of_i64 fo v"
| "to_f64_lossy fo (ScalarFloat64 v) = v"
| "to_f64_lossy fo (ScalarUInt64 v) = fo_of_u64 fo v"
| "to_f64_lossy fo (OptionalInt64 v) = unwrap_or (map_option (fo_of_i64 fo) v) 0"
| "to_f64_lossy fo (OptionalFloat64 v) = unwrap_or v 0"
| "to_f64_lossy fo ScalarNull = 0"

fun scalar_is_null :: "scalar_result \<Rightarrow> bool" where
  "scalar_is_null ScalarNull = True"
| "scalar_is_null (OptionalInt64 v) = (v = None)"
| "scalar_is_null (OptionalFloat64 v) = (v = None)"
| "scalar_is_null _ = False"

fun scalar_data_type :: "scalar_result \<Rightarrow> data_type" where
  "scalar_data_type (ScalarInt64 v) = DtInt64"
| "scalar_data_type (OptionalInt64 v) = DtInt64"
| "scalar_data_type (ScalarFloat64 v) = DtFloat64"
| "scalar_data_type (OptionalFloat64 v) = DtFloat64"
| "scalar_data_type (ScalarUInt64 v) = DtUInt64"
| "scalar_data_type ScalarNull = DtNull"

record field =
  fd_name :: string
  fd_type :: data_type
  fd_nullable :: bool

text \<open>What the accumulators read of a record batch; a column is \<^verbatim>\<open>None\<close> if it is missing or of another type.\<close>

record 'd batch_access =
  bt_num_rows :: "'d \<Rightarrow> nat"
  bt_f64 :: "'d \<Rightarrow> nat \<Rightarrow> f64 option list option"
  bt_i64 :: "'d \<Rightarrow> nat \<Rightarrow> i64 option list option"

definition f64_values :: "'d batch_access \<Rightarrow> 'd \<Rightarrow> nat \<Rightarrow> f64 list" where
  "f64_values ba d c = (case bt_f64 ba d c of None \<Rightarrow> [] | Some vs \<Rightarrow> non_null vs)"

section \<open>Sum\<close>

record sum_f64_acc =
  sf_sum :: f64
  sf_count :: "64 word"

definition sum_f64_add_event :: "float_ops \<Rightarrow> 'd batch_access \<Rightarrow> sum_f64_acc \<Rightarrow> 'd event \<Rightarrow> sum_f64_acc" where
  "sum_f64_add_event fo ba a e =
     foldl (\<lambda>a v. a\<lparr>sf_sum := fo_add fo (sf_sum a) v, sf_count := sf_count a + 1\<rparr>) a (f64_values ba (ev_data e) 0)"

definition sum_f64_merge :: "float_ops \<Rightarrow> sum_f64_acc \<Rightarrow> bytes \<Rightarrow> sum_f64_acc" where
  "sum_f64_merge fo a data =
     (if length data \<ge> 16
      then a\<lparr>sf_sum := fo_add fo (sf_sum a) (of_le64 (take 8 data)),
             sf_count := sf_count a + of_le64 (take 8 (drop 8 data))\<rparr>
      else a)"

definition sum_f64_result :: "sum_f64_acc \<Rightarrow> scalar_result" where
  "sum_f64_result a = (if sf_count a = 0 then ScalarNull else ScalarFloat64 (sf_sum a))"

definition sum_f64_serialize :: "sum_f64_acc \<Rightarrow> bytes" where
  "sum_f64_serialize a = le64 (sf_sum a) @ le64 (sf_count a)"

record sum_f64_indexed =
  si_column_index :: nat
  si_sum :: f64
  si_count :: "64 word"

definition sum_f64_indexed_new :: "nat \<Rightarrow> sum_f64_indexed" where
  "sum_f64_indexed_new column_index = \<lparr>si_column_index = column_index, si_sum = 0, si_count = 0\<rparr>"

definition sum_f64_indexed_add_event ::
  "float_ops \<Rightarrow> 'd batch_access \<Rightarrow> sum_f64_indexed \<Rightarrow> 'd event \<Rightarrow> sum_f64_indexed" where
  "sum_f64_indexed_add_event fo ba a e =
     foldl (\<lambda>a v. a\<lparr>si_sum := fo_add fo (si_sum a) v, si_count := si_count a + 1\<rparr>) a
       (f64_values ba (ev_data e) (si_column_index a))"

definition sum_f64_indexed_merge :: "float_ops \<Rightarrow> sum_f64_indexed \<Rightarrow> bytes \<Rightarrow> sum_f64_indexed" where
  "sum_f64_indexed_merge fo a data =
     (if length data \<ge> 16
      then a\<lparr>si_sum := fo_add fo (si_sum a) (of_le64 (take 8 data)),
             si_count := si_count a + of_le64 (take 8 (drop 8 data))\<rparr>
      else a)"

definition sum_f64_indexed_result :: "sum_f64_indexed \<Rightarrow> scalar_result" where
  "sum_f64_indexed_result a = (if si_count a = 0 then ScalarNull else ScalarFloat64 (si_sum a))"

definition sum_f64_indexed_serialize :: "sum_f64_indexed \<Rightarrow> bytes" where
  "sum_f64_indexed_serialize a = le64 (si_sum a) @ le64 (si_count a)"

section \<open>Minimum and maximum\<close>

text \<open>The bytes of an optional value: a marker, then the value.\<close>

fun opt_le64 :: "f64 option \<Rightarrow> bytes" where
  "opt_le64 (Some v) = 1 # le64 v"
| "opt_le64 None = [0]"

record min_f64_indexed =
  mf_column_index :: nat
  mf_min :: "f64 option"

definition min_f64_indexed_new :: "nat \<Rightarrow> min_f64_indexed" where
  "min_f64_indexed_new column_index = \<lparr>mf_column_index = column_index, mf_min = None\<rparr>"

definition min_f64_update :: "float_ops \<Rightarrow> min_f64_indexed \<Rightarrow> f64 \<Rightarrow> min_f64_indexed" where
  "min_f64_update fo a v = a\<lparr>mf_min := Some (case mf_min a of None \<Rightarrow> v | Some m \<Rightarrow> fo_min fo m v)\<rparr>"

definition min_f64_indexed_add_event ::
  "float_ops \<Rightarrow> 'd batch_access \<Rightarrow> min_f64_indexed \<Rightarrow> 'd event \<Rightarrow> min_f64_indexed" where
  "min_f64_indexed_add_event fo ba a e = foldl (min_f64_update fo) a (f64_values ba (ev_data e) (mf_column_index a))"

definition min_f64_indexed_merge :: "float_ops \<Rightarrow> min_f64_indexed \<Rightarrow> bytes \<Rightarrow> min_f64_indexed" where
  "min_f64_indexed_merge fo a data =
     (if length data \<ge> 9 \<and> data ! 0 = 1 then min_f64_update fo a (of_le64 (take 8 (drop 1 data))) else a)"

definition min_f64_indexed_serialize :: "min_f64_indexed \<Rightarrow> bytes" where
  "min_f64_indexed_serialize a = opt_le64 (mf_min a)"

record max_f64_indexed =
  xf_column_index :: nat
  xf_max :: "f64 option"

definition max_f64_indexed_new :: "nat \<Rightarrow> max_f64_indexed" where
  "max_f64_indexed_new column_index = \<lparr>xf_column_index = column_index, xf_max = None\<rparr>"

definition max_f64_update :: "float_ops \<Rightarrow> max_f64_indexed \<Rightarrow> f64 \<Rightarrow> max_f64_indexed" where
  "max_f64_update fo a v = a\<lparr>xf_max := Some (case xf_max a of None \<Rightarrow> v | Some m \<Rightarrow> fo_max fo m v)\<rparr>"

definition max_f64_indexed_add_event ::
  "float_ops \<Rightarrow> 'd batch_access \<Rightarrow> max_f64_indexed \<Rightarrow> 'd event \<Rightarrow> max_f64_indexed" where
  "max_f64_indexed_add_event fo ba a e = foldl (max_f64_update fo) a (f64_values ba (ev_data e) (xf_column_index a))"

definition max_f64_indexed_merge :: "float_ops \<Rightarrow> max_f64_indexed \<Rightarrow> bytes \<Rightarrow> max_f64_indexed" where
  "max_f64_indexed_merge fo a data =
     (if length data \<ge> 9 \<and> data ! 0 = 1 then max_f64_update fo a (of_le64 (take 8 (drop 1 data))) else a)"

definition max_f64_indexed_serialize :: "max_f64_indexed \<Rightarrow> bytes" where
  "max_f64_indexed_serialize a = opt_le64 (xf_max a)"

section \<open>Average\<close>

record avg_f64_indexed =
  vf_column_index :: nat
  vf_sum :: f64
  vf_count :: "64 word"

definition avg_f64_indexed_new :: "nat \<Rightarrow> avg_f64_indexed" where
  "avg_f64_indexed_new column_index = \<lparr>vf_column_index = column_index, vf_sum = 0, vf_count = 0\<rparr>"

definition avg_f64_indexed_add_event ::
  "float_ops \<Rightarrow> 'd batch_access \<Rightarrow> avg_f64_indexed \<Rightarrow> 'd event \<Rightarrow> avg_f64_indexed" where
  "avg_f64_indexed_add_event fo ba a e =
     foldl (\<lambda>a v. a\<lparr>vf_sum := fo_add fo (vf_sum a) v, vf_count := vf_count a + 1\<rparr>) a
       (f64_values ba (ev_data e) (vf_column_index a))"

definition avg_f64_indexed_merge :: "float_ops \<Rightarrow> avg_f64_indexed \<Rightarrow> bytes \<Rightarrow> avg_f64_indexed" where
  "avg_f64_indexed_merge fo a data =
     (if length data \<ge> 16
      then a\<lparr>vf_sum := fo_add fo (vf_sum a) (of_le64 (take 8 data)),
             vf_count := vf_count a + of_le64 (take 8 (drop 8 data))\<rparr>
      else a)"

definition avg_f64_indexed_result :: "float_ops \<Rightarrow> avg_f64_indexed \<Rightarrow> scalar_result" where
  "avg_f64_indexed_result fo a =
     (if vf_count a = 0 then ScalarNull else ScalarFloat64 (fo_div fo (vf_sum a) (fo_of_u64 fo (vf_count a))))"

definition avg_f64_indexed_serialize :: "avg_f64_indexed \<Rightarrow> bytes" where
  "avg_f64_indexed_serialize a = le64 (vf_sum a) @ le64 (vf_count a)"

section \<open>Count\<close>

record count_dyn =
  cd_count :: "64 word"

definition count_dyn_add_event :: "'d batch_access \<Rightarrow> count_dyn \<Rightarrow> 'd event \<Rightarrow> count_dyn" where
  "count_dyn_add_event ba a e = a\<lparr>cd_count := cd_count a + of_nat (bt_num_rows ba (ev_data e))\<rparr>"

definition count_dyn_merge :: "count_dyn \<Rightarrow> bytes \<Rightarrow> count_dyn" where
  "count_dyn_merge a data =
     (if length data \<ge> 8 then a\<lparr>cd_count := cd_count a + of_le64 (take 8 data)\<rparr> else a)"

definition count_dyn_result :: "count_dyn \<Rightarrow> scalar_result" where
  "count_dyn_result a = ScalarInt64 (u64_to_i64 (unat (cd_count a)))"

section \<open>First and last value\<close>

text \<open>The rows in which both columns have a value; nothing if a column is missing or of another type.\<close>

definition value_rows :: "'d batch_access \<Rightarrow> 'd \<Rightarrow> nat \<Rightarrow> nat \<Rightarrow> (f64 \<times> i64) list" where
  "value_rows ba d vc tc =
     (case (bt_f64 ba d vc, bt_i64 ba d tc) of
        (Some vs, Some ts) \<Rightarrow>
          non_null (map (\<lambda>(v, t). case (v, t) of (Some x, Some y) \<Rightarrow> Some (x, y) | _ \<Rightarrow> None) (zip vs ts))
      | _ \<Rightarrow> [])"

fun opt_value_bytes :: "f64 option \<Rightarrow> i64 option \<Rightarrow> bytes" where
  "opt_value_bytes (Some v) (Some ts) = 1 # le64 v @ le64 (word_of_int ts)"
| "opt_value_bytes _ _ = [0]"

record first_f64_dyn =
  fd_value_column :: nat
  fd_timestamp_column :: nat
  fd_value :: "f64 option"
  fd_timestamp :: "i64 option"

definition first_f64_dyn_new :: "nat \<Rightarrow> nat \<Rightarrow> first_f64_dyn" where
  "first_f64_dyn_new vc tc = \<lparr>fd_value_column = vc, fd_timestamp_column = tc, fd_value = None, fd_timestamp = None\<rparr>"

definition first_f64_update :: "first_f64_dyn \<Rightarrow> f64 \<times> i64 \<Rightarrow> first_f64_dyn" where
  "first_f64_update a vt =
     (case fd_timestamp a of
        None \<Rightarrow> a\<lparr>fd_value := Some (fst vt), fd_timestamp := Some (snd vt)\<rparr>
      | Some existing_ts \<Rightarrow>
          if snd vt < existing_ts then a\<lparr>fd_value := Some (fst vt), fd_timestamp := Some (snd vt)\<rparr> else a)"

definition first_f64_dyn_add_event :: "'d batch_access \<Rightarrow> first_f64_dyn \<Rightarrow> 'd event \<Rightarrow> first_f64_dyn" where
  "first_f64_dyn_add_event ba a e =
     foldl first_f64_update a (value_rows ba (ev_data e) (fd_value_column a) (fd_timestamp_column a))"

definition first_f64_dyn_merge :: "first_f64_dyn \<Rightarrow> bytes \<Rightarrow> first_f64_dyn" where
  "first_f64_dyn_merge a data =
     (if length data \<ge> 17 \<and> data ! 0 = 1
      then first_f64_update a (of_le64 (take 8 (drop 1 data)), sint (of_le64 (take 8 (drop 9 data)))) else a)"

record last_f64_dyn =
  ld_value_column :: nat
  ld_timestamp_column :: nat
  ld_value :: "f64 option"
  ld_timestamp :: "i64 option"

definition last_f64_dyn_new :: "nat \<Rightarrow> nat \<Rightarrow> last_f64_dyn" where
  "last_f64_dyn_new vc tc = \<lparr>ld_value_column = vc, ld_timestamp_column = tc, ld_value = None, ld_timestamp = None\<rparr>"

definition last_f64_update :: "last_f64_dyn \<Rightarrow> f64 \<times> i64 \<Rightarrow> last_f64_dyn" where
  "last_f64_update a vt =
     (case ld_timestamp a of
        None \<Rightarrow> a\<lparr>ld_value := Some (fst vt), ld_timestamp := Some (snd vt)\<rparr>
      | Some existing_ts \<Rightarrow>
          if snd vt \<ge> existing_ts then a\<lparr>ld_value := Some (fst vt), ld_timestamp := Some (snd vt)\<rparr> else a)"

definition last_f64_dyn_add_event :: "'d batch_access \<Rightarrow> last_f64_dyn \<Rightarrow> 'd event \<Rightarrow> last_f64_dyn" where
  "last_f64_dyn_add_event ba a e =
     foldl last_f64_update a (value_rows ba (ev_data e) (ld_value_column a) (ld_timestamp_column a))"

definition last_f64_dyn_merge :: "last_f64_dyn \<Rightarrow> bytes \<Rightarrow> last_f64_dyn" where
  "last_f64_dyn_merge a data =
     (if length data \<ge> 17 \<and> data ! 0 = 1
      then last_f64_update a (of_le64 (take 8 (drop 1 data)), sint (of_le64 (take 8 (drop 9 data)))) else a)"

section \<open>Trait objects\<close>

datatype dyn_acc =
    SumF64 sum_f64_acc
  | SumF64Indexed sum_f64_indexed
  | MinF64Indexed min_f64_indexed
  | MaxF64Indexed max_f64_indexed
  | AvgF64Indexed avg_f64_indexed
  | CountDyn count_dyn
  | FirstF64Dyn first_f64_dyn
  | LastF64Dyn last_f64_dyn

fun dyn_add_event :: "float_ops \<Rightarrow> 'd batch_access \<Rightarrow> dyn_acc \<Rightarrow> 'd event \<Rightarrow> dyn_acc" where
  "dyn_add_event fo ba (SumF64 a) e = SumF64 (sum_f64_add_event fo ba a e)"
| "dyn_add_event fo ba (SumF64Indexed a) e = SumF64Indexed (sum_f64_indexed_add_event fo ba a e)"
| "dyn_add_event fo ba (MinF64Indexed a) e = MinF64Indexed (min_f64_indexed_add_event fo ba a e)"
| "dyn_add_event fo ba (MaxF64Indexed a) e = MaxF64Indexed (max_f64_indexed_add_event fo ba a e)"
| "dyn_add_event fo ba (AvgF64Indexed a) e = AvgF64Indexed (avg_f64_indexed_add_event fo ba a e)"
| "dyn_add_event fo ba (CountDyn a) e = CountDyn (count_dyn_add_event ba a e)"
| "dyn_add_event fo ba (FirstF64Dyn a) e = FirstF64Dyn (first_f64_dyn_add_event ba a e)"
| "dyn_add_event fo ba (LastF64Dyn a) e = LastF64Dyn (last_f64_dyn_add_event ba a e)"

fun dyn_serialize :: "dyn_acc \<Rightarrow> bytes" where
  "dyn_serialize (SumF64 a) = sum_f64_serialize a"
| "dyn_serialize (SumF64Indexed a) = sum_f64_indexed_serialize a"
| "dyn_serialize (MinF64Indexed a) = min_f64_indexed_serialize a"
| "dyn_serialize (MaxF64Indexed a) = max_f64_indexed_serialize a"
| "dyn_serialize (AvgF64Indexed a) = avg_f64_indexed_serialize a"
| "dyn_serialize (CountDyn a) = le64 (cd_count a)"
| "dyn_serialize (FirstF64Dyn a) = opt_value_bytes (fd_value a) (fd_timestamp a)"
| "dyn_serialize (LastF64Dyn a) = opt_value_bytes (ld_value a) (ld_timestamp a)"

fun dyn_merge_bytes :: "float_ops \<Rightarrow> dyn_acc \<Rightarrow> bytes \<Rightarrow> dyn_acc" where
  "dyn_merge_bytes fo (SumF64 a) data = SumF64 (sum_f64_merge fo a data)"
| "dyn_merge_bytes fo (SumF64Indexed a) data = SumF64Indexed (sum_f64_indexed_merge fo a data)"
| "dyn_merge_bytes fo (MinF64Indexed a) data = MinF64Indexed (min_f64_indexed_merge fo a data)"
| "dyn_merge_bytes fo (MaxF64Indexed a) data = MaxF64Indexed (max_f64_indexed_merge fo a data)"
| "dyn_merge_bytes fo (AvgF64Indexed a) data = AvgF64Indexed (avg_f64_indexed_merge fo a data)"
| "dyn_merge_bytes fo (CountDyn a) data = CountDyn (count_dyn_merge a data)"
| "dyn_merge_bytes fo (FirstF64Dyn a) data = FirstF64Dyn (first_f64_dyn_merge a data)"
| "dyn_merge_bytes fo (LastF64Dyn a) data = LastF64Dyn (last_f64_dyn_merge a data)"

definition merge_dyn :: "float_ops \<Rightarrow> dyn_acc \<Rightarrow> dyn_acc \<Rightarrow> dyn_acc" where
  "merge_dyn fo a other = dyn_merge_bytes fo a (dyn_serialize other)"

fun result_scalar :: "float_ops \<Rightarrow> dyn_acc \<Rightarrow> scalar_result" where
  "result_scalar fo (SumF64 a) = sum_f64_result a"
| "result_scalar fo (SumF64Indexed a) = sum_f64_indexed_result a"
| "result_scalar fo (MinF64Indexed a) = OptionalFloat64 (mf_min a)"
| "result_scalar fo (MaxF64Indexed a) = OptionalFloat64 (xf_max a)"
| "result_scalar fo (AvgF64Indexed a) = avg_f64_indexed_result fo a"
| "result_scalar fo (CountDyn a) = count_dyn_result a"
| "result_scalar fo (FirstF64Dyn a) = OptionalFloat64 (fd_value a)"
| "result_scalar fo (LastF64Dyn a) = OptionalFloat64 (ld_value a)"

fun dyn_is_empty :: "dyn_acc \<Rightarrow> bool" where
  "dyn_is_empty (SumF64 a) = (sf_count a = 0)"
| "dyn_is_empty (SumF64Indexed a) = (si_count a = 0)"
| "dyn_is_empty (MinF64Indexed a) = (mf_min a = None)"
| "dyn_is_empty (MaxF64Indexed a) = (xf_max a = None)"
| "dyn_is_empty (AvgF64Indexed a) = (vf_count a = 0)"
| "dyn_is_empty (CountDyn a) = (cd_count a = 0)"
| "dyn_is_empty (FirstF64Dyn a) = (fd_value a = None)"
| "dyn_is_empty (LastF64Dyn a) = (ld_value a = None)"

fun type_tag :: "dyn_acc \<Rightarrow> string" where
  "type_tag (SumF64 a) = ''sum_f64''"
| "type_tag (SumF64Indexed a) = ''sum_f64''"
| "type_tag (MinF64Indexed a) = ''min_f64''"
| "type_tag (MaxF64Indexed a) = ''max_f64''"
| "type_tag (AvgF64Indexed a) = ''avg_f64''"
| "type_tag (CountDyn a) = ''count''"
| "type_tag (FirstF64Dyn a) = ''first_value_f64''"
| "type_tag (LastF64Dyn a) = ''last_value_f64''"

fun acc_result_field :: "dyn_acc \<Rightarrow> field" where
  "acc_result_field (CountDyn a) = \<lparr>fd_name = ''count'', fd_type = DtInt64, fd_nullable = False\<rparr>"
| "acc_result_field a = \<lparr>fd_name = type_tag a, fd_type = DtFloat64, fd_nullable = True\<rparr>"

datatype dyn_factory =
    SumF64Factory nat string
  | MinF64Factory nat string
  | MaxF64Factory nat string
  | AvgF64Factory nat string
  | CountDynFactory string
  | FirstF64Factory nat nat string
  | LastF64Factory nat nat string

fun factory_create :: "dyn_factory \<Rightarrow> dyn_acc" where
  "factory_create (SumF64Factory c n) = SumF64Indexed (sum_f64_indexed_new c)"
| "factory_create (MinF64Factory c n) = MinF64Indexed (min_f64_indexed_new c)"
| "factory_create (MaxF64Factory c n) = MaxF64Indexed (max_f64_indexed_new c)"
| "factory_create (AvgF64Factory c n) = AvgF64Indexed (avg_f64_indexed_new c)"
| "factory_create (CountDynFactory n) = CountDyn \<lparr>cd_count = 0\<rparr>"
| "factory_create (FirstF64Factory v t n) = FirstF64Dyn (first_f64_dyn_new v t)"
| "factory_create (LastF64Factory v t n) = LastF64Dyn (last_f64_dyn_new v t)"

fun factory_result_field :: "dyn_factory \<Rightarrow> field" where
  "factory_result_field (SumF64Factory c n) = \<lparr>fd_name = n, fd_type = DtFloat64, fd_nullable = True\<rparr>"
| "factory_result_field (MinF64Factory c n) = \<lparr>fd_name = n, fd_type = DtFloat64, fd_nullable = True\<rparr>"
| "factory_result_field (MaxF64Factory c n) = \<lparr>fd_name = n, fd_type = DtFloat64, fd_nullable = True\<rparr>"
| "factory_result_field (AvgF64Factory c n) = \<lparr>fd_name = n, fd_type = DtFloat64, fd_nullable = True\<rparr>"
| "factory_result_field (CountDynFactory n) = \<lparr>fd_name = n, fd_type = DtInt64, fd_nullable = False\<rparr>"
| "factory_result_field (FirstF64Factory v t n) = \<lparr>fd_name = n, fd_type = DtFloat64, fd_nullable = True\<rparr>"
| "factory_result_field (LastF64Factory v t n) = \<lparr>fd_name = n, fd_type = DtFloat64, fd_nullable = True\<rparr>"

section \<open>Composite aggregation\<close>

record composite_aggregator =
  ca_factories :: "dyn_factory list"
  ca_cached_schema :: "field list"

definition composite_new :: "dyn_factory list \<Rightarrow> composite_aggregator" where
  "composite_new factories =
     \<lparr>ca_factories = factories,
      ca_cached_schema =
        [\<lparr>fd_name = ''window_start'', fd_type = DtInt64, fd_nullable = False\<rparr>,
         \<lparr>fd_name = ''window_end'', fd_type = DtInt64, fd_nullable = False\<rparr>] @ map factory_result_field factories\<rparr>"

definition composite_create_accumulator :: "composite_aggregator \<Rightarrow> dyn_acc list" where
  "composite_create_accumulator c = map factory_create (ca_factories c)"

definition composite_add_event :: "float_ops \<Rightarrow> 'd batch_access \<Rightarrow> dyn_acc list \<Rightarrow> 'd event \<Rightarrow> dyn_acc list" where
  "composite_add_event fo ba accs e = map (\<lambda>acc. dyn_add_event fo ba acc e) accs"

definition composite_merge :: "float_ops \<Rightarrow> dyn_acc list \<Rightarrow> dyn_acc list \<Rightarrow> string + dyn_acc list" where
  "composite_merge fo self other =
     (if length self \<noteq> length other then Inl ''cannot merge composite accumulators with different sizes''
      else Inr (map (\<lambda>(a, b). merge_dyn fo a b) (zip self other)))"

definition composite_results :: "float_ops \<Rightarrow> dyn_acc list \<Rightarrow> scalar_result list" where
  "composite_results fo accs = map (result_scalar fo) accs"

definition composite_is_empty :: "dyn_acc list \<Rightarrow> bool" where
  "composite_is_empty accs = list_all dyn_is_empty accs"

definition tag_bytes :: "string \<Rightarrow> bytes" where
  "tag_bytes s = map (\<lambda>c. of_char c) s"

definition serialize_one :: "dyn_acc \<Rightarrow> bytes" where
  "serialize_one acc =
     (let tag = tag_bytes (type_tag acc); data = dyn_serialize acc
      in le16 (length tag) @ tag @ le32 (length data) @ data)"

definition composite_serialize :: "dyn_acc list \<Rightarrow> bytes" where
  "composite_serialize accs = le32 (length accs) @ concat (map serialize_one accs)"

datatype array = Int64Array "i64 option list" | Float64Array "f64 option list" | UInt64Array "64 word option list"

fun scalar_array :: "scalar_result \<Rightarrow> array" where
  "scalar_array (ScalarInt64 v) = Int64Array [Some v]"
| "scalar_array (ScalarFloat64 v) = Float64Array [Some v]"
| "scalar_array (ScalarUInt64 v) = UInt64Array [Some v]"
| "scalar_array (OptionalInt64 v) = Int64Array [v]"
| "scalar_array (OptionalFloat64 v) = Float64Array [v]"
| "scalar_array ScalarNull = Int64Array [None]"

definition to_record_batch ::
  "(field list \<Rightarrow> array list \<Rightarrow> 'b option) \<Rightarrow> float_ops \<Rightarrow> dyn_acc list \<Rightarrow> window_id \<Rightarrow> field list \<Rightarrow> 'b option" where
  "to_record_batch try_new fo accs w schema =
     try_new schema
       ([Int64Array [Some (wi_start w)], Int64Array [Some (wi_end w)]] @ map scalar_array (composite_results fo accs))"

text \<open>
  \<^verbatim>\<open>RecordBatch::try_new\<close> succeeds exactly if there is one column per field, of the type of the field, without nulls
  where the field is not nullable, and all columns have the same length.
\<close>

fun array_type :: "array \<Rightarrow> data_type" where
  "array_type (Int64Array vs) = DtInt64"
| "array_type (Float64Array vs) = DtFloat64"
| "array_type (UInt64Array vs) = DtUInt64"

fun array_nulls :: "array \<Rightarrow> bool list" where
  "array_nulls (Int64Array vs) = map (\<lambda>v. v = None) vs"
| "array_nulls (Float64Array vs) = map (\<lambda>v. v = None) vs"
| "array_nulls (UInt64Array vs) = map (\<lambda>v. v = None) vs"

definition column_fits :: "field \<Rightarrow> array \<Rightarrow> bool" where
  "column_fits f c \<longleftrightarrow> array_type c = fd_type f \<and> (fd_nullable f \<or> True \<notin> set (array_nulls c))"

definition try_new_ok :: "(field list \<Rightarrow> array list \<Rightarrow> 'b option) \<Rightarrow> bool" where
  "try_new_ok try_new \<longleftrightarrow>
     (\<forall>fs cs. try_new fs cs \<noteq> None \<longleftrightarrow>
        list_all2 column_fits fs cs \<and> (\<exists>n. list_all (\<lambda>c. length (array_nulls c) = n) cs))"

text \<open>The composite accumulators a program can build from one aggregator.\<close>

inductive composite_reach ::
  "float_ops \<Rightarrow> 'd batch_access \<Rightarrow> composite_aggregator \<Rightarrow> dyn_acc list \<Rightarrow> bool" for fo ba c where
  create: "composite_reach fo ba c (composite_create_accumulator c)"
| add: "composite_reach fo ba c accs \<Longrightarrow> composite_reach fo ba c (composite_add_event fo ba accs e)"
| merge: "composite_reach fo ba c accs \<Longrightarrow> composite_reach fo ba c others \<Longrightarrow>
    composite_merge fo accs others = Inr accs' \<Longrightarrow> composite_reach fo ba c accs'"

text \<open>An accumulator of the kind its factory makes.\<close>

fun of_factory :: "dyn_factory \<Rightarrow> dyn_acc \<Rightarrow> bool" where
  "of_factory (SumF64Factory c n) (SumF64Indexed a) = (si_column_index a = c)"
| "of_factory (MinF64Factory c n) (MinF64Indexed a) = (mf_column_index a = c)"
| "of_factory (MaxF64Factory c n) (MaxF64Indexed a) = (xf_column_index a = c)"
| "of_factory (AvgF64Factory c n) (AvgF64Indexed a) = (vf_column_index a = c)"
| "of_factory (CountDynFactory n) (CountDyn a) = True"
| "of_factory (FirstF64Factory v t n) (FirstF64Dyn a) = (fd_value_column a = v \<and> fd_timestamp_column a = t)"
| "of_factory (LastF64Factory v t n) (LastF64Dyn a) = (ld_value_column a = v \<and> ld_timestamp_column a = t)"
| "of_factory _ _ = False"

section \<open>Decoding\<close>

lemma sint_timestamp [simp]: "in_i64 t \<Longrightarrow> sint (word_of_int t :: 64 word) = t"
  by (simp add: signed_of_int signed_take_bit_int_eq_self i64_simps)

text \<open>Merging reads back exactly the state of the other accumulator.\<close>

lemma sum_f64_merge_serialized:
  "sum_f64_merge fo a (sum_f64_serialize b) = a\<lparr>sf_sum := fo_add fo (sf_sum a) (sf_sum b), sf_count := sf_count a + sf_count b\<rparr>"
  by (simp add: sum_f64_merge_def sum_f64_serialize_def)

lemma sum_f64_indexed_merge_serialized:
  "sum_f64_indexed_merge fo a (sum_f64_indexed_serialize b) =
     a\<lparr>si_sum := fo_add fo (si_sum a) (si_sum b), si_count := si_count a + si_count b\<rparr>"
  by (simp add: sum_f64_indexed_merge_def sum_f64_indexed_serialize_def)

lemma avg_f64_indexed_merge_serialized:
  "avg_f64_indexed_merge fo a (avg_f64_indexed_serialize b) =
     a\<lparr>vf_sum := fo_add fo (vf_sum a) (vf_sum b), vf_count := vf_count a + vf_count b\<rparr>"
  by (simp add: avg_f64_indexed_merge_def avg_f64_indexed_serialize_def)

lemma min_f64_merge_serialized:
  "min_f64_indexed_merge fo a (min_f64_indexed_serialize b) =
     (case mf_min b of None \<Rightarrow> a | Some v \<Rightarrow> min_f64_update fo a v)"
  by (simp add: min_f64_indexed_merge_def min_f64_indexed_serialize_def split: option.split)

lemma max_f64_merge_serialized:
  "max_f64_indexed_merge fo a (max_f64_indexed_serialize b) =
     (case xf_max b of None \<Rightarrow> a | Some v \<Rightarrow> max_f64_update fo a v)"
  by (simp add: max_f64_indexed_merge_def max_f64_indexed_serialize_def split: option.split)

lemma count_dyn_merge_serialized: "count_dyn_merge a (le64 n) = a\<lparr>cd_count := cd_count a + n\<rparr>"
  by (simp add: count_dyn_merge_def)

lemma first_f64_merge_serialized:
  "in_i64 t \<Longrightarrow> first_f64_dyn_merge a (opt_value_bytes (Some v) (Some t)) = first_f64_update a (v, t)"
  "first_f64_dyn_merge a (opt_value_bytes None None) = a"
  by (simp_all add: first_f64_dyn_merge_def)

lemma last_f64_merge_serialized:
  "in_i64 t \<Longrightarrow> last_f64_dyn_merge a (opt_value_bytes (Some v) (Some t)) = last_f64_update a (v, t)"
  "last_f64_dyn_merge a (opt_value_bytes None None) = a"
  by (simp_all add: last_f64_dyn_merge_def)

lemmas merge_serialized =
  sum_f64_merge_serialized sum_f64_indexed_merge_serialized avg_f64_indexed_merge_serialized min_f64_merge_serialized
  max_f64_merge_serialized count_dyn_merge_serialized first_f64_merge_serialized last_f64_merge_serialized

section \<open>Kinds are kept\<close>

lemma sum_fold_column: "si_column_index (foldl (\<lambda>a v. a\<lparr>si_sum := f a v, si_count := g a\<rparr>) a vs) = si_column_index a"
  by (induction vs arbitrary: a) simp_all

lemma avg_fold_column: "vf_column_index (foldl (\<lambda>a v. a\<lparr>vf_sum := f a v, vf_count := g a\<rparr>) a vs) = vf_column_index a"
  by (induction vs arbitrary: a) simp_all

lemma min_fold_column: "mf_column_index (foldl (min_f64_update fo) a vs) = mf_column_index a"
  by (induction vs arbitrary: a) (simp_all add: min_f64_update_def)

lemma max_fold_column: "xf_column_index (foldl (max_f64_update fo) a vs) = xf_column_index a"
  by (induction vs arbitrary: a) (simp_all add: max_f64_update_def)

lemma first_update_column [simp]:
  "fd_value_column (first_f64_update a vt) = fd_value_column a"
  "fd_timestamp_column (first_f64_update a vt) = fd_timestamp_column a"
  by (simp_all add: first_f64_update_def split: option.split)

lemma last_update_column [simp]:
  "ld_value_column (last_f64_update a vt) = ld_value_column a"
  "ld_timestamp_column (last_f64_update a vt) = ld_timestamp_column a"
  by (simp_all add: last_f64_update_def split: option.split)

lemma first_fold_column:
  "fd_value_column (foldl first_f64_update a vs) = fd_value_column a"
  "fd_timestamp_column (foldl first_f64_update a vs) = fd_timestamp_column a"
  by (induction vs arbitrary: a) simp_all

lemma last_fold_column:
  "ld_value_column (foldl last_f64_update a vs) = ld_value_column a"
  "ld_timestamp_column (foldl last_f64_update a vs) = ld_timestamp_column a"
  by (induction vs arbitrary: a) simp_all

lemma of_factory_create: "of_factory f (factory_create f)"
  by (cases f) (simp_all add: sum_f64_indexed_new_def min_f64_indexed_new_def max_f64_indexed_new_def
    avg_f64_indexed_new_def first_f64_dyn_new_def last_f64_dyn_new_def)

lemma of_factoryE:
  assumes "of_factory f acc"
  obtains (sum) c n a where "f = SumF64Factory c n" "acc = SumF64Indexed a" "si_column_index a = c"
  | (min) c n a where "f = MinF64Factory c n" "acc = MinF64Indexed a" "mf_column_index a = c"
  | (max) c n a where "f = MaxF64Factory c n" "acc = MaxF64Indexed a" "xf_column_index a = c"
  | (avg) c n a where "f = AvgF64Factory c n" "acc = AvgF64Indexed a" "vf_column_index a = c"
  | (count) n a where "f = CountDynFactory n" "acc = CountDyn a"
  | (first) v t n a where "f = FirstF64Factory v t n" "acc = FirstF64Dyn a" "fd_value_column a = v" "fd_timestamp_column a = t"
  | (last) v t n a where "f = LastF64Factory v t n" "acc = LastF64Dyn a" "ld_value_column a = v" "ld_timestamp_column a = t"
  using assms by (cases f; cases acc) simp_all

lemma of_factory_add_event: "of_factory f acc \<Longrightarrow> of_factory f (dyn_add_event fo ba acc e)"
  by (elim of_factoryE)
    (simp_all add: sum_f64_indexed_add_event_def sum_fold_column min_f64_indexed_add_event_def min_fold_column
      max_f64_indexed_add_event_def max_fold_column avg_f64_indexed_add_event_def avg_fold_column
      first_f64_dyn_add_event_def first_fold_column last_f64_dyn_add_event_def last_fold_column)

lemma of_factory_merge_bytes: "of_factory f acc \<Longrightarrow> of_factory f (dyn_merge_bytes fo acc data)"
  by (elim of_factoryE)
    (simp_all add: sum_f64_indexed_merge_def min_f64_indexed_merge_def min_f64_update_def
      max_f64_indexed_merge_def max_f64_update_def avg_f64_indexed_merge_def first_f64_dyn_merge_def last_f64_dyn_merge_def)

lemma reach_of_factory:
  assumes "composite_reach fo ba c accs"
  shows "list_all2 of_factory (ca_factories c) accs"
  using assms
proof induction
  case create
  then show ?case by (simp add: composite_create_accumulator_def list_all2_conv_all_nth of_factory_create)
next
  case (add accs e)
  then show ?case by (simp add: composite_add_event_def list_all2_conv_all_nth of_factory_add_event)
next
  case (merge accs others accs')
  then show ?case
    by (auto simp: composite_merge_def merge_dyn_def list_all2_conv_all_nth of_factory_merge_bytes split: if_splits)
qed

lemma length_scalar_array [simp]: "length (array_nulls (scalar_array r)) = 1"
  by (cases r) simp_all

lemma result_type:
  assumes "of_factory f acc"
  shows "result_scalar fo acc = ScalarNull \<longleftrightarrow> type_tag acc \<in> {''sum_f64'', ''avg_f64''} \<and> dyn_is_empty acc"
    and "result_scalar fo acc \<noteq> ScalarNull \<Longrightarrow> scalar_data_type (result_scalar fo acc) = fd_type (factory_result_field f)"
    and "column_fits (factory_result_field f) (scalar_array (result_scalar fo acc)) \<longleftrightarrow> result_scalar fo acc \<noteq> ScalarNull"
  using assms
  by (elim of_factoryE;
      simp add: sum_f64_indexed_result_def avg_f64_indexed_result_def count_dyn_result_def column_fits_def split: if_splits)+

text \<open>
  (C21) For a composite of the factories defined in window.rs (count, and floating-point sum, minimum, maximum, average,
  first and last value; not the DataFusion adapters): the results have the types of the output schema, except that a sum or
  average without values is an untyped null. The output batch of a window is built if and only if no such sum and no such
  average is without values: one such aggregate makes the batch fail, and the results of the others are lost with it.
\<close>

theorem composite_batch_types:
  assumes "try_new_ok try_new" "composite_reach fo ba (composite_new fs) accs"
  shows "list_all2 (\<lambda>f r. r = ScalarNull \<or> scalar_data_type r = fd_type (factory_result_field f)) fs (composite_results fo accs) \<and>
    ((\<exists>b. to_record_batch try_new fo accs w (ca_cached_schema (composite_new fs)) = Some b) \<longleftrightarrow>
      list_all (\<lambda>acc. type_tag acc \<in> {''sum_f64'', ''avg_f64''} \<longrightarrow> \<not> dyn_is_empty acc) accs)"
proof
  have fa: "list_all2 of_factory fs accs" using reach_of_factory [OF assms(2)] by (simp add: composite_new_def)
  then show "list_all2 (\<lambda>f r. r = ScalarNull \<or> scalar_data_type r = fd_type (factory_result_field f)) fs (composite_results fo accs)"
    using result_type(2) by (fastforce simp: composite_results_def list_all2_conv_all_nth)
  let ?cols = "[Int64Array [Some (wi_start w)], Int64Array [Some (wi_end w)]] @ map scalar_array (composite_results fo accs)"
  have one: "list_all (\<lambda>c. length (array_nulls c) = 1) ?cols"
    by (auto simp: composite_results_def list_all_iff)
  have "(\<exists>b. to_record_batch try_new fo accs w (ca_cached_schema (composite_new fs)) = Some b) \<longleftrightarrow>
      list_all2 column_fits (ca_cached_schema (composite_new fs)) ?cols"
    using assms(1) one unfolding try_new_ok_def to_record_batch_def not_None_eq [symmetric] by blast
  also have "\<dots> \<longleftrightarrow> list_all2 (\<lambda>f acc. column_fits (factory_result_field f) (scalar_array (result_scalar fo acc))) fs accs"
    by (simp add: composite_new_def composite_results_def list_all2_map1 list_all2_map2) (simp add: column_fits_def)
  also have "\<dots> \<longleftrightarrow> (\<forall>i < length fs. result_scalar fo (accs ! i) \<noteq> ScalarNull)"
    using fa result_type(3) unfolding list_all2_conv_all_nth by blast
  also have "\<dots> \<longleftrightarrow> list_all (\<lambda>acc. type_tag acc \<in> {''sum_f64'', ''avg_f64''} \<longrightarrow> \<not> dyn_is_empty acc) accs"
    using fa result_type(1) unfolding list_all_length list_all2_conv_all_nth by metis
  finally show "(\<exists>b. to_record_batch try_new fo accs w (ca_cached_schema (composite_new fs)) = Some b) \<longleftrightarrow>
      list_all (\<lambda>acc. type_tag acc \<in> {''sum_f64'', ''avg_f64''} \<longrightarrow> \<not> dyn_is_empty acc) accs" .
qed

definition sample_float_ops :: float_ops where
  "sample_float_ops = \<lparr>fo_add = (+), fo_min = min, fo_max = max, fo_div = (div), fo_of_i64 = word_of_int, fo_of_u64 = id, fo_to_i64 = sint\<rparr>"

text \<open>Batches of rows \<^verbatim>\<open>(value, time)\<close>, with the values in column 0 and the times in column 1.\<close>

definition sample_batches :: "(f64 option \<times> i64 option) list batch_access" where
  "sample_batches =
     \<lparr>bt_num_rows = length, bt_f64 = (\<lambda>d c. if c = 0 then Some (map fst d) else None),
      bt_i64 = (\<lambda>d c. if c = 1 then Some (map (map_option wrap64 \<circ> snd) d) else None)\<rparr>"

definition sample_try_new :: "field list \<Rightarrow> array list \<Rightarrow> (field list \<times> array list) option" where
  "sample_try_new fs cs =
     (if list_all2 column_fits fs cs \<and> list_all (\<lambda>c. length (array_nulls c) = length (array_nulls (hd cs))) cs then Some (fs, cs) else None)"

lemma sample_try_new_ok: "try_new_ok sample_try_new"
proof -
  have "list_all (\<lambda>c. length (array_nulls c) = length (array_nulls (hd cs))) cs \<longleftrightarrow>
      (\<exists>n. list_all (\<lambda>c. length (array_nulls c) = n) cs)" for cs
    by (cases cs) (auto simp: list_all_iff)
  then show ?thesis by (simp add: try_new_ok_def sample_try_new_def)
qed

theorem composite_batch_types_witness:
  "to_record_batch sample_try_new sample_float_ops
     (composite_create_accumulator (composite_new [CountDynFactory ''n'', SumF64Factory 0 ''s'']))
     \<lparr>wi_start = 0, wi_end = 10\<rparr> (ca_cached_schema (composite_new [CountDynFactory ''n'', SumF64Factory 0 ''s''])) = None"
  using composite_batch_types [OF sample_try_new_ok
      composite_reach.create [of sample_float_ops sample_batches "composite_new [CountDynFactory ''n'', SumF64Factory 0 ''s'']"],
      of "\<lparr>wi_start = 0, wi_end = 10\<rparr>"]
  by (simp add: composite_create_accumulator_def composite_new_def sum_f64_indexed_new_def del: split_paired_All split_paired_Ex)

section \<open>Merging\<close>

text \<open>The factories whose accumulators do no floating-point arithmetic.\<close>

fun exact_factory :: "dyn_factory \<Rightarrow> bool" where
  "exact_factory (CountDynFactory n) = True"
| "exact_factory (FirstF64Factory v t n) = True"
| "exact_factory (LastF64Factory v t n) = True"
| "exact_factory _ = False"

definition composite_run :: "float_ops \<Rightarrow> 'd batch_access \<Rightarrow> composite_aggregator \<Rightarrow> 'd event list \<Rightarrow> dyn_acc list" where
  "composite_run fo ba c es = foldl (composite_add_event fo ba) (composite_create_accumulator c) es"

definition i64_columns :: "'d batch_access \<Rightarrow> bool" where
  "i64_columns ba \<longleftrightarrow> (\<forall>d c vs t. bt_i64 ba d c = Some vs \<longrightarrow> Some t \<in> set vs \<longrightarrow> in_i64 t)"

lemma composite_run_map:
  "composite_run fo ba c es = map (\<lambda>f. foldl (dyn_add_event fo ba) (factory_create f) es) (ca_factories c)"
proof -
  have "foldl (composite_add_event fo ba) (map g fs) es = map (\<lambda>f. foldl (dyn_add_event fo ba) (g f) es) fs" for g fs
    by (induction es arbitrary: g) (simp_all add: composite_add_event_def comp_def)
  then show ?thesis by (simp add: composite_run_def composite_create_accumulator_def)
qed

lemma value_rows_in_i64: "i64_columns ba \<Longrightarrow> (v, t) \<in> set (value_rows ba d vc tc) \<Longrightarrow> in_i64 t"
  unfolding i64_columns_def
  by (auto simp: value_rows_def non_null_def List.map_filter_def split: option.splits dest!: set_zip_rightD dest: sym)

lemma count_run: "foldl (dyn_add_event fo ba) (CountDyn a) es =
    CountDyn (a\<lparr>cd_count := cd_count a + (\<Sum>e\<leftarrow>es. of_nat (bt_num_rows ba (ev_data e)))\<rparr>)"
  by (induction es arbitrary: a) (simp_all add: count_dyn_add_event_def add.assoc)

lemma first_run: "foldl (dyn_add_event fo ba) (FirstF64Dyn a) es =
    FirstF64Dyn (foldl first_f64_update a (concat (map (\<lambda>e. value_rows ba (ev_data e) (fd_value_column a) (fd_timestamp_column a)) es)))"
  by (induction es arbitrary: a) (simp_all add: first_f64_dyn_add_event_def first_fold_column)

lemma last_run: "foldl (dyn_add_event fo ba) (LastF64Dyn a) es =
    LastF64Dyn (foldl last_f64_update a (concat (map (\<lambda>e. value_rows ba (ev_data e) (ld_value_column a) (ld_timestamp_column a)) es)))"
  by (induction es arbitrary: a) (simp_all add: last_f64_dyn_add_event_def last_fold_column)

text \<open>The state after some rows from an empty accumulator decides their effect on any other.\<close>

lemma first_fold_new:
  fixes ys vc tc
  defines "b \<equiv> foldl first_f64_update (first_f64_dyn_new vc tc) ys"
  shows "fd_value b = None \<longleftrightarrow> fd_timestamp b = None"
    and "fd_timestamp b = Some t \<Longrightarrow> (the (fd_value b), t) \<in> set ys"
    and "foldl first_f64_update a ys = (case fd_timestamp b of None \<Rightarrow> a | Some t \<Rightarrow> first_f64_update a (the (fd_value b), t))"
  unfolding b_def
  by (induction ys arbitrary: t rule: rev_induct; force simp: first_f64_update_def first_f64_dyn_new_def split: option.splits if_splits)+

lemma last_fold_new:
  fixes ys vc tc
  defines "b \<equiv> foldl last_f64_update (last_f64_dyn_new vc tc) ys"
  shows "ld_value b = None \<longleftrightarrow> ld_timestamp b = None"
    and "ld_timestamp b = Some t \<Longrightarrow> (the (ld_value b), t) \<in> set ys"
    and "foldl last_f64_update a ys = (case ld_timestamp b of None \<Rightarrow> a | Some t \<Rightarrow> last_f64_update a (the (ld_value b), t))"
  unfolding b_def
  by (induction ys arbitrary: t rule: rev_induct; force simp: last_f64_update_def last_f64_dyn_new_def split: option.splits if_splits)+

lemma first_merge_run:
  assumes "\<And>v t. (v, t) \<in> set ys \<Longrightarrow> in_i64 t"
  shows "first_f64_dyn_merge a (opt_value_bytes (fd_value (foldl first_f64_update (first_f64_dyn_new vc tc) ys))
      (fd_timestamp (foldl first_f64_update (first_f64_dyn_new vc tc) ys))) = foldl first_f64_update a ys"
proof (cases "fd_timestamp (foldl first_f64_update (first_f64_dyn_new vc tc) ys)")
  case None
  then show ?thesis
    using first_fold_new(1) [where vc = vc and tc = tc and ys = ys]
    unfolding first_fold_new(3) [where vc = vc and tc = tc and ys = ys and a = a] by (simp add: first_f64_dyn_merge_def)
next
  case (Some t)
  then obtain v where "fd_value (foldl first_f64_update (first_f64_dyn_new vc tc) ys) = Some v" "(v, t) \<in> set ys"
    using first_fold_new(1,2) [where vc = vc and tc = tc and ys = ys] by force
  then show ?thesis
    using Some assms unfolding first_fold_new(3) [where vc = vc and tc = tc and ys = ys and a = a]
    by (simp add: first_f64_merge_serialized(1) del: opt_value_bytes.simps)
qed

lemma last_merge_run:
  assumes "\<And>v t. (v, t) \<in> set ys \<Longrightarrow> in_i64 t"
  shows "last_f64_dyn_merge a (opt_value_bytes (ld_value (foldl last_f64_update (last_f64_dyn_new vc tc) ys))
      (ld_timestamp (foldl last_f64_update (last_f64_dyn_new vc tc) ys))) = foldl last_f64_update a ys"
proof (cases "ld_timestamp (foldl last_f64_update (last_f64_dyn_new vc tc) ys)")
  case None
  then show ?thesis
    using last_fold_new(1) [where vc = vc and tc = tc and ys = ys]
    unfolding last_fold_new(3) [where vc = vc and tc = tc and ys = ys and a = a] by (simp add: last_f64_dyn_merge_def)
next
  case (Some t)
  then obtain v where "ld_value (foldl last_f64_update (last_f64_dyn_new vc tc) ys) = Some v" "(v, t) \<in> set ys"
    using last_fold_new(1,2) [where vc = vc and tc = tc and ys = ys] by force
  then show ?thesis
    using Some assms unfolding last_fold_new(3) [where vc = vc and tc = tc and ys = ys and a = a]
    by (simp add: last_f64_merge_serialized(1) del: opt_value_bytes.simps)
qed

lemma merge_run:
  assumes "i64_columns ba" "exact_factory f"
  shows "merge_dyn fo (foldl (dyn_add_event fo ba) (factory_create f) xs) (foldl (dyn_add_event fo ba) (factory_create f) ys) =
    foldl (dyn_add_event fo ba) (factory_create f) (xs @ ys)"
proof (cases f)
  case (CountDynFactory n)
  then show ?thesis by (simp add: merge_dyn_def count_run count_dyn_merge_serialized del: foldl_append)
next
  case (FirstF64Factory vc tc n)
  then show ?thesis
    using value_rows_in_i64 [OF assms(1)]
    by (simp add: merge_dyn_def first_run first_fold_column first_merge_run del: foldl_append) (subst first_merge_run; force simp: first_f64_dyn_new_def)
next
  case (LastF64Factory vc tc n)
  then show ?thesis
    using value_rows_in_i64 [OF assms(1)]
    by (simp add: merge_dyn_def last_run last_fold_column last_merge_run del: foldl_append) (subst last_merge_run; force simp: last_f64_dyn_new_def)
qed (use assms(2) in simp_all)

text \<open>
  (C20) Merging decodes the bytes of the other accumulator without loss: for counts and first and last values, merging the
  composite accumulators of two sequences of events gives the accumulator of the sequences one after the other, and
  accumulators of different sizes are refused with an error. 
\<close>

theorem composite_merge_exact:
  assumes "i64_columns ba" "list_all exact_factory fs"
  shows "composite_merge fo (composite_run fo ba (composite_new fs) xs) (composite_run fo ba (composite_new fs) ys) =
      Inr (composite_run fo ba (composite_new fs) (xs @ ys)) \<and>
    (length accs \<noteq> length fs \<longrightarrow> (\<exists>e. composite_merge fo (composite_run fo ba (composite_new fs) xs) accs = Inl e))"
  using assms
  by (auto simp: composite_merge_def composite_run_map composite_new_def merge_run list_all_iff zip_map1 zip_map2
    zip_same_conv_map simp del: foldl_append)

theorem composite_merge_exact_witness:
  "composite_merge sample_float_ops
     (composite_run sample_float_ops sample_batches (composite_new [CountDynFactory ''n'', LastF64Factory 0 1 ''l''])
        [\<lparr>ev_timestamp = 1, ev_data = [(Some 7, Some 1)]\<rparr>])
     (composite_run sample_float_ops sample_batches (composite_new [CountDynFactory ''n'', LastF64Factory 0 1 ''l''])
        [\<lparr>ev_timestamp = 2, ev_data = [(Some 9, Some 5), (None, Some 6)]\<rparr>]) =
   Inr (composite_run sample_float_ops sample_batches (composite_new [CountDynFactory ''n'', LastF64Factory 0 1 ''l''])
        [\<lparr>ev_timestamp = 1, ev_data = [(Some 7, Some 1)]\<rparr>, \<lparr>ev_timestamp = 2, ev_data = [(Some 9, Some 5), (None, Some 6)]\<rparr>])"
proof -
  have "in_i64 t" if "Some t = map_option wrap64 b" for t b using that by (cases b) simp_all
  then have "i64_columns sample_batches" by (auto simp: i64_columns_def sample_batches_def split: if_splits)
  from composite_merge_exact [OF this, of "[CountDynFactory ''n'', LastF64Factory 0 1 ''l'']" sample_float_ops
      "[\<lparr>ev_timestamp = 1, ev_data = [(Some 7, Some 1)]\<rparr>]"
      "[\<lparr>ev_timestamp = 2, ev_data = [(Some 9, Some 5), (None, Some 6)]\<rparr>]"]
  show ?thesis by simp
qed

end
