(* ===== verification/Mmap_Store.thy ===== *)
theory Mmap_Store
  imports State_Store Little_Endian "HOL-Library.Countable"
begin

text \<open>
  The memory-mapped state store of \<^verbatim>\<open>crates/laminar-core/src/state/mmap.rs\<close>: an index of keys over a region of bytes
  that only grows at its end, with compaction, and the index file from which a persistent store is reopened. The
  mapped file is the list of its bytes. Whether the file system grants a new length is the parameter \<^verbatim>\<open>grants\<close>; the
  encoding of the index (rkyv) is a parameter. Sizes are below \<^verbatim>\<open>2 ^ 52\<close>, where the growth factor 1.5 and the
  fragmentation ratio are computed without rounding.
\<close>

section \<open>Storage\<close>

datatype storage = Arena bytes nat | Mmap bytes nat nat

record value_entry =
  ve_offset :: nat
  ve_len :: nat

definition mmap_header_size :: nat where
  "mmap_header_size = 32"

definition growth :: "nat \<Rightarrow> nat" where
  "growth n = n * 3 div 2"

fun storage_get :: "storage \<Rightarrow> nat \<Rightarrow> nat \<Rightarrow> bytes option" where
  "storage_get (Arena data write_pos) offset len =
     (if offset + len \<le> length data then Some (take len (drop offset data)) else None)"
| "storage_get (Mmap mmap write_pos capacity) offset len =
     (if mmap_header_size + offset + len \<le> length mmap
      then Some (take len (drop (mmap_header_size + offset) mmap)) else None)"

text \<open>\<^verbatim>\<open>buf[at..at + data.len()].copy_from_slice(data)\<close>, and a buffer resized with zeros.\<close>

definition overwrite :: "bytes \<Rightarrow> nat \<Rightarrow> bytes \<Rightarrow> bytes" where
  "overwrite buf at data = take at buf @ data @ drop (at + length data) buf"

definition resized :: "bytes \<Rightarrow> nat \<Rightarrow> bytes" where
  "resized buf n = take n buf @ replicate (n - length buf) 0"

fun storage_write :: "(nat \<Rightarrow> bool) \<Rightarrow> storage \<Rightarrow> bytes \<Rightarrow> state_error + nat \<times> storage" where
  "storage_write grants (Arena buffer write_pos) data =
     (let offset = write_pos;
          e = offset + length data;
          buffer1 = (if e > length buffer then resized buffer (growth e) else buffer)
      in Inr (offset, Arena (overwrite buffer1 offset data) e))"
| "storage_write grants (Mmap mmap write_pos capacity) data =
     (let offset = write_pos;
          e = offset + length data;
          required = mmap_header_size + e
      in if required > capacity then
           (let new_capacity = growth required
            in if \<not> grants new_capacity then Inl (StIo ''set_len'')
               else Inr (offset, Mmap (overwrite (resized mmap new_capacity) (mmap_header_size + offset) data) e new_capacity))
         else Inr (offset, Mmap (overwrite mmap (mmap_header_size + offset) data) e capacity))"

fun used_bytes :: "storage \<Rightarrow> nat" where
  "used_bytes (Arena data write_pos) = write_pos"
| "used_bytes (Mmap mmap write_pos capacity) = write_pos"

fun storage_reset :: "storage \<Rightarrow> storage" where
  "storage_reset (Arena data write_pos) = Arena data 0"
| "storage_reset (Mmap mmap write_pos capacity) = Mmap mmap 0 capacity"

fun is_persistent :: "storage \<Rightarrow> bool" where
  "is_persistent (Arena data write_pos) = False"
| "is_persistent (Mmap mmap write_pos capacity) = True"

section \<open>Store\<close>

type_synonym value_index = "(bytes \<times> value_entry) list"

record mmap_store =
  ms_index :: value_index
  ms_storage :: storage
  ms_size_bytes :: nat
  ms_next_version :: nat
  ms_deletes_since_compact :: nat

definition ms_in_memory :: "nat \<Rightarrow> mmap_store" where
  "ms_in_memory capacity =
     \<lparr>ms_index = [], ms_storage = Arena (replicate capacity 0) 0, ms_size_bytes = 0, ms_next_version = 1,
      ms_deletes_since_compact = 0\<rparr>"

definition ms_get :: "mmap_store \<Rightarrow> bytes \<Rightarrow> bytes option" where
  "ms_get st key =
     (case map_of (ms_index st) key of
        None \<Rightarrow> None
      | Some e \<Rightarrow> storage_get (ms_storage st) (ve_offset e) (ve_len e))"

text \<open>The entries of some part of the index that the storage can read.\<close>

definition ms_read :: "mmap_store \<Rightarrow> value_index \<Rightarrow> (bytes \<times> bytes) list" where
  "ms_read st ix =
     List.map_filter (\<lambda>(k, e). map_option (Pair k) (storage_get (ms_storage st) (ve_offset e) (ve_len e))) ix"

text \<open>One rewritten entry of \<^verbatim>\<open>compact\<close> and \<^verbatim>\<open>restore\<close>; the loop stops at the first failed write.\<close>

fun rewrite_loop :: "(nat \<Rightarrow> bool) \<Rightarrow> (bytes \<times> bytes) list \<Rightarrow> mmap_store \<Rightarrow> mmap_store \<times> state_error option" where
  "rewrite_loop grants [] st = (st, None)"
| "rewrite_loop grants ((key, val) # rest) st =
     (case storage_write grants (ms_storage st) val of
        Inl e \<Rightarrow> (st, Some e)
      | Inr (offset, storage') \<Rightarrow>
          rewrite_loop grants rest
            (st\<lparr>ms_storage := storage',
               ms_index := bt_insert key \<lparr>ve_offset = offset, ve_len = length val\<rparr> (ms_index st),
               ms_next_version := ms_next_version st + 1,
               ms_size_bytes := ms_size_bytes st + (length key + length val)\<rparr>))"

definition compact :: "(nat \<Rightarrow> bool) \<Rightarrow> mmap_store \<Rightarrow> mmap_store \<times> state_error option" where
  "compact grants st =
     (let live_data = ms_read st (ms_index st);
          st1 = st\<lparr>ms_storage := storage_reset (ms_storage st), ms_index := [], ms_size_bytes := 0\<rparr>;
          (st2, e) = rewrite_loop grants live_data st1
      in case e of
           Some err \<Rightarrow> (st2, Some err)
         | None \<Rightarrow> (st2\<lparr>ms_deletes_since_compact := 0\<rparr>, None))"

definition live_bytes :: "value_index \<Rightarrow> nat" where
  "live_bytes ix = (\<Sum>(k, e)\<leftarrow>ix. ve_len e)"

text \<open>\<^verbatim>\<open>fragmentation() > 0.5\<close>\<close>

definition fragmented :: "mmap_store \<Rightarrow> bool" where
  "fragmented st \<longleftrightarrow>
     (let used = used_bytes (ms_storage st) in if used = 0 then False else 2 * live_bytes (ms_index st) < used)"

definition ms_put :: "(nat \<Rightarrow> bool) \<Rightarrow> mmap_store \<Rightarrow> bytes \<Rightarrow> bytes \<Rightarrow> mmap_store \<times> state_error option" where
  "ms_put grants st key val =
     (case storage_write grants (ms_storage st) val of
        Inl e \<Rightarrow> (st, Some e)
      | Inr (offset, storage') \<Rightarrow>
          let entry = \<lparr>ve_offset = offset, ve_len = length val\<rparr>;
              st1 = st\<lparr>ms_storage := storage'\<rparr>;
              st2 = (case map_of (ms_index st1) key of
                       Some existing \<Rightarrow>
                         st1\<lparr>ms_size_bytes := ms_size_bytes st1 - ve_len existing + length val,
                             ms_index := bt_insert key entry (ms_index st1)\<rparr>
                     | None \<Rightarrow>
                         st1\<lparr>ms_size_bytes := ms_size_bytes st1 + (length key + length val),
                             ms_index := bt_insert key entry (ms_index st1)\<rparr>)
          in (if ms_deletes_since_compact st2 > 0 \<and> ms_deletes_since_compact st2 > length (ms_index st2) div 4 \<and> fragmented st2
              then fst (compact grants st2) else st2, None))"

definition ms_delete :: "mmap_store \<Rightarrow> bytes \<Rightarrow> mmap_store" where
  "ms_delete st key =
     (case map_of (ms_index st) key of
        Some e \<Rightarrow>
          st\<lparr>ms_index := bt_remove key (ms_index st), ms_size_bytes := ms_size_bytes st - (length key + ve_len e),
             ms_deletes_since_compact := ms_deletes_since_compact st + 1\<rparr>
      | None \<Rightarrow> st)"

definition ms_prefix_scan :: "mmap_store \<Rightarrow> bytes \<Rightarrow> (bytes \<times> bytes) list option" where
  "ms_prefix_scan st pre =
     (if pre = [] then Some (ms_read st (ms_index st))
      else case prefix_successor pre of
             Some e \<Rightarrow> map_option (ms_read st) (bt_range pre e (ms_index st))
           | None \<Rightarrow> Some (ms_read st (bt_from pre (ms_index st))))"

definition ms_range_scan :: "mmap_store \<Rightarrow> bytes \<Rightarrow> bytes \<Rightarrow> (bytes \<times> bytes) list option" where
  "ms_range_scan st lo hi = map_option (ms_read st) (bt_range lo hi (ms_index st))"

definition ms_contains :: "mmap_store \<Rightarrow> bytes \<Rightarrow> bool" where
  "ms_contains st key \<longleftrightarrow> map_of (ms_index st) key \<noteq> None"

definition ms_snapshot :: "mmap_store \<Rightarrow> nat \<Rightarrow> state_snapshot option" where
  "ms_snapshot st now = Some (snapshot_new now (ms_read st (ms_index st)))"

definition ms_restore :: "(nat \<Rightarrow> bool) \<Rightarrow> mmap_store \<Rightarrow> state_snapshot \<Rightarrow> mmap_store option" where
  "ms_restore grants st snapshot =
     (let st1 = \<lparr>ms_index = [], ms_storage = storage_reset (ms_storage st), ms_size_bytes = 0, ms_next_version = 1,
                 ms_deletes_since_compact = 0\<rparr>;
          (st2, e) = rewrite_loop grants (ss_data snapshot) st1
      in case e of Some _ \<Rightarrow> None | None \<Rightarrow> Some st2)"

definition ms_clear :: "mmap_store \<Rightarrow> mmap_store" where
  "ms_clear st =
     st\<lparr>ms_index := [], ms_storage := storage_reset (ms_storage st), ms_size_bytes := 0, ms_deletes_since_compact := 0\<rparr>"

definition mmap_ops :: "(nat \<Rightarrow> bool) \<Rightarrow> mmap_store store_ops" where
  "mmap_ops grants =
     \<lparr>so_get = ms_get, so_put = ms_put grants, so_delete = ms_delete, so_prefix_scan = ms_prefix_scan,
      so_range_scan = ms_range_scan, so_contains = ms_contains, so_size_bytes = ms_size_bytes,
      so_len = (\<lambda>st. length (ms_index st)), so_snapshot = ms_snapshot, so_restore = ms_restore grants, so_clear = ms_clear\<rparr>"

section \<open>Files\<close>

definition mmap_magic :: "64 word" where
  "mmap_magic = 0x004C414D494E4152"

definition mmap_version :: nat where
  "mmap_version = 1"

text \<open>Writing the header needs 28 bytes; a shorter mapping panics.\<close>

definition init_mmap_header :: "bytes \<Rightarrow> bytes option" where
  "init_mmap_header mmap =
     (if length mmap < 28 then None
      else Some (overwrite (overwrite (overwrite (overwrite mmap 0 (le64 mmap_magic)) 8 (le32 mmap_version)) 12 (le64 0)) 20 (le64 0)))"

definition load_from_mmap :: "bytes \<Rightarrow> state_error + value_index \<times> nat \<times> nat" where
  "load_from_mmap mmap =
     (if length mmap < 12 then Inl (StCorruption ''State file too short'')
      else if of_le64 (take 8 mmap) \<noteq> mmap_magic then Inl (StCorruption ''Invalid magic number in state file'')
      else if of_le32 (take 4 (drop 8 mmap)) \<noteq> mmap_version then Inl (StCorruption ''Unsupported state file version'')
      else Inl (StCorruption ''mmap file exists but no .idx index file found''))"

record index_codec =
  xc_ser :: "value_index \<Rightarrow> string + bytes"
  xc_de :: "bytes \<Rightarrow> string + value_index"

text \<open>The contents of the index file, or nothing for a store in memory.\<close>

definition save_index :: "index_codec \<Rightarrow> mmap_store \<Rightarrow> state_error + bytes option" where
  "save_index xc st =
     (if \<not> is_persistent (ms_storage st) then Inr None
      else case xc_ser xc (ms_index st) of
             Inl e \<Rightarrow> Inl (StSerialization e)
           | Inr b \<Rightarrow>
               Inr (Some (le64 mmap_magic @ le32 mmap_version @ [0, 0, 0, 0] @ le64 (of_nat (used_bytes (ms_storage st))) @
                 le64 (of_nat (ms_next_version st)) @ b)))"

definition load_index :: "index_codec \<Rightarrow> bytes option \<Rightarrow> state_error + value_index \<times> nat \<times> nat" where
  "load_index xc idx_file =
     (case idx_file of
        None \<Rightarrow> Inl (StIo ''Index file not found'')
      | Some buffer \<Rightarrow>
          if length buffer < 32 then Inl (StCorruption ''Index file too short'')
          else if of_le64 (take 8 buffer) \<noteq> mmap_magic then Inl (StCorruption ''Invalid index magic'')
          else if of_le32 (take 4 (drop 8 buffer)) \<noteq> mmap_version then Inl (StCorruption ''Invalid index version'')
          else case xc_de xc (drop 32 buffer) of
                 Inl e \<Rightarrow> Inl (StDeserialization e)
               | Inr index \<Rightarrow> Inr (index, unat (of_le64 (take 8 (drop 16 buffer))), unat (of_le64 (take 8 (drop 24 buffer)))))"

text \<open>Opening the store on the contents of the state file and the index file; the outer \<^verbatim>\<open>None\<close> is a panic.\<close>

definition ms_persistent ::
  "index_codec \<Rightarrow> bytes option \<Rightarrow> bytes option \<Rightarrow> nat \<Rightarrow> (state_error + mmap_store) option" where
  "ms_persistent xc state_file idx_file initial_capacity =
     (let mmap = (case state_file of
                    Some contents \<Rightarrow> contents
                  | None \<Rightarrow> replicate (max initial_capacity (mmap_header_size + 1024)) 0);
          open_with = (\<lambda>mmap (index, write_pos, next_version).
             \<lparr>ms_index = index, ms_storage = Mmap mmap write_pos (length mmap),
              ms_size_bytes = (\<Sum>(k, e)\<leftarrow>index. length k + ve_len e), ms_next_version = next_version,
              ms_deletes_since_compact = 0\<rparr>)
      in if state_file \<noteq> None \<and> length mmap \<ge> mmap_header_size then
           (case load_index xc idx_file of
              Inr loaded \<Rightarrow> Some (Inr (open_with mmap loaded))
            | Inl _ \<Rightarrow> Some (case load_from_mmap mmap of Inl e \<Rightarrow> Inl e | Inr loaded \<Rightarrow> Inr (open_with mmap loaded)))
         else map_option (\<lambda>mmap. Inr (open_with mmap ([], 0, 1))) (init_mmap_header mmap))"

text \<open>The contents of the two files after a flush.\<close>

fun mapped_file :: "storage \<Rightarrow> bytes option" where
  "mapped_file (Arena data write_pos) = None"
| "mapped_file (Mmap mmap write_pos capacity) = Some mmap"

definition ms_flush :: "index_codec \<Rightarrow> mmap_store \<Rightarrow> state_error + bytes option \<times> bytes option" where
  "ms_flush xc st =
     (case save_index xc st of
        Inl e \<Rightarrow> Inl e
      | Inr idx \<Rightarrow> Inr (mapped_file (ms_storage st), idx))"

section \<open>Writing\<close>

text \<open>The data region of a storage; behind the write position it is free.\<close>

fun region :: "storage \<Rightarrow> bytes" where
  "region (Arena data write_pos) = data"
| "region (Mmap mmap write_pos capacity) = drop mmap_header_size mmap"

fun storage_ok :: "storage \<Rightarrow> bool" where
  "storage_ok (Arena data write_pos) = (write_pos \<le> length data)"
| "storage_ok (Mmap mmap write_pos capacity) = (capacity = length mmap \<and> mmap_header_size + write_pos \<le> capacity)"

text \<open>Room for some more bytes without growing the file.\<close>

fun room :: "storage \<Rightarrow> nat \<Rightarrow> bool" where
  "room (Arena data write_pos) n = True"
| "room (Mmap mmap write_pos capacity) n = (mmap_header_size + write_pos + n \<le> capacity)"

lemma storage_get_region:
  "storage_ok s \<Longrightarrow> off + n \<le> used_bytes s \<Longrightarrow> storage_get s off n = Some (take n (drop off (region s)))"
  by (cases s) (simp_all add: add.commute)

lemma used_le_region: "storage_ok s \<Longrightarrow> used_bytes s \<le> length (region s)"
  by (cases s) simp_all

lemma take_overwrite: "k \<le> at \<Longrightarrow> at \<le> length buf \<Longrightarrow> take k (overwrite buf at data) = take k buf"
  by (simp add: overwrite_def)

lemma drop_overwrite: "at \<le> length buf \<Longrightarrow> take (length data) (drop at (overwrite buf at data)) = data"
  by (simp add: overwrite_def)

lemma length_overwrite: "at + length data \<le> length buf \<Longrightarrow> length (overwrite buf at data) = length buf"
  by (simp add: overwrite_def)

lemma resized_grow: "length buf \<le> n \<Longrightarrow> resized buf n = buf @ replicate (n - length buf) 0"
  by (simp add: resized_def)

lemma growth_ge: "n \<le> growth n"
  by (simp add: growth_def)

lemma write_arena:
  fixes data :: bytes
  assumes "w \<le> length buf"
  defines "e \<equiv> w + length data"
  defines "buf' \<equiv> overwrite (if e > length buf then resized buf (growth e) else buf) w data"
  shows "e \<le> length buf'" "take w buf' = take w buf" "take (length data) (drop w buf') = data"
proof -
  let ?b = "if e > length buf then resized buf (growth e) else buf"
  have b: "e \<le> length ?b" "take w ?b = take w buf"
    using growth_ge [of e] assms(1) by (auto simp: resized_grow e_def)
  then show "e \<le> length buf'" "take w buf' = take w buf" "take (length data) (drop w buf') = data"
    by (simp_all add: buf'_def e_def length_overwrite take_overwrite drop_overwrite)
qed

lemma storage_write_ok:
  assumes "storage_ok s" "storage_write grants s data = Inr (off, s')"
  shows "off = used_bytes s" "used_bytes s' = used_bytes s + length data" "storage_ok s'"
    and "take (used_bytes s) (region s') = take (used_bytes s) (region s)"
    and "take (length data) (drop (used_bytes s) (region s')) = data"
    and "room s (length data + n) \<Longrightarrow> room s' n"
    and "is_persistent s' = is_persistent s"
proof -
  have "off = used_bytes s \<and> used_bytes s' = used_bytes s + length data \<and> storage_ok s' \<and>
    take (used_bytes s) (region s') = take (used_bytes s) (region s) \<and>
    take (length data) (drop (used_bytes s) (region s')) = data \<and> (room s (length data + n) \<longrightarrow> room s' n) \<and>
    is_persistent s' = is_persistent s"
  proof (cases s)
    case (Arena buf w)
    then show ?thesis using assms write_arena [of w buf data] by (auto simp: Let_def)
  next
    case (Mmap m w cap)
    let ?req = "mmap_header_size + (w + length data)"
    define m1 where "m1 = (if ?req > cap then resized m (growth ?req) else m)"
    have m: "cap = length m" "mmap_header_size + w \<le> cap" using assms(1) Mmap by simp_all
    have m1: "?req \<le> length m1" "mmap_header_size + w \<le> length m1" "take (mmap_header_size + w) m1 = take (mmap_header_size + w) m"
      "length m1 = (if ?req > cap then growth ?req else cap)"
      using m growth_ge [of ?req] by (auto simp: m1_def resized_grow)
    have s': "s' = Mmap (overwrite m1 (mmap_header_size + w) data) (w + length data) (length m1)" "off = w"
      using assms(2) Mmap m1(4) by (auto simp: Let_def m1_def split: if_splits)
    have "take w (drop mmap_header_size (overwrite m1 (mmap_header_size + w) data)) = take w (drop mmap_header_size m)"
      using take_overwrite [of "mmap_header_size + w" "mmap_header_size + w" m1 data] m1(2,3)
      by (simp add: take_drop add.commute [of w])
    moreover have "take (length data) (drop (mmap_header_size + w) (overwrite m1 (mmap_header_size + w) data)) = data"
      by (rule drop_overwrite [OF m1(2)])
    ultimately show ?thesis
      using Mmap s' m1(1,4) m by (auto simp: length_overwrite add.commute add.left_commute add.assoc)
  qed
  then show "off = used_bytes s" "used_bytes s' = used_bytes s + length data" "storage_ok s'"
    "take (used_bytes s) (region s') = take (used_bytes s) (region s)"
    "take (length data) (drop (used_bytes s) (region s')) = data"
    "room s (length data + n) \<Longrightarrow> room s' n" "is_persistent s' = is_persistent s"
    by simp_all
qed

lemma storage_write_succeeds:
  "room s (length data) \<or> grants = (\<lambda>_. True) \<Longrightarrow> \<exists>off s'. storage_write grants s data = Inr (off, s')"
  by (cases s) (auto simp: Let_def)

section \<open>Entries\<close>

definition ms_value :: "storage \<Rightarrow> value_entry \<Rightarrow> bytes" where
  "ms_value s e = take (ve_len e) (drop (ve_offset e) (region s))"

definition ms_entries :: "mmap_store \<Rightarrow> (bytes \<times> bytes) list" where
  "ms_entries st = map (\<lambda>(k, e). (k, ms_value (ms_storage st) e)) (ms_index st)"

text \<open>
  The index is in order, every entry lies in the used part, the values together are no longer than it, and the size
  is that of the entries.
\<close>

definition ms_ok :: "mmap_store \<Rightarrow> bool" where
  "ms_ok st \<longleftrightarrow> bt_ok (ms_index st) \<and> storage_ok (ms_storage st) \<and>
     (\<forall>(k, e) \<in> set (ms_index st). ve_offset e + ve_len e \<le> used_bytes (ms_storage st)) \<and>
     live_bytes (ms_index st) \<le> used_bytes (ms_storage st) \<and> ms_size_bytes st = entries_size (ms_entries st)"

lemma map_fst_ms_entries: "map fst (ms_entries st) = map fst (ms_index st)"
  by (simp add: ms_entries_def case_prod_unfold)

lemma bt_ok_ms_entries: "bt_ok (ms_index st) \<Longrightarrow> bt_ok (ms_entries st)"
  by (simp add: bt_ok_def map_fst_ms_entries)

lemma map_of_ms_entries: "map_of (ms_entries st) k = map_option (ms_value (ms_storage st)) (map_of (ms_index st) k)"
  by (simp add: ms_entries_def map_of_map)

lemma length_ms_value:
  "storage_ok s \<Longrightarrow> ve_offset e + ve_len e \<le> used_bytes s \<Longrightarrow> length (ms_value s e) = ve_len e"
  using used_le_region [of s] by (simp add: ms_value_def)

lemma ms_read_index:
  assumes "ms_ok st" "set ix \<subseteq> set (ms_index st)"
  shows "ms_read st ix = map (\<lambda>(k, e). (k, ms_value (ms_storage st) e)) ix"
proof -
  have "storage_get (ms_storage st) (ve_offset e) (ve_len e) = Some (ms_value (ms_storage st) e)" if "(k, e) \<in> set ix" for k e
    using that assms storage_get_region [of "ms_storage st" "ve_offset e" "ve_len e"] by (fastforce simp: ms_ok_def ms_value_def)
  then show ?thesis
  proof (induction ix)
    case (Cons x ix)
    obtain k e where x: "x = (k, e)" by (cases x)
    have "storage_get (ms_storage st) (ve_offset e) (ve_len e) = Some (ms_value (ms_storage st) e)"
      by (rule Cons.prems [of k]) (simp add: x)
    moreover have "ms_read st ix = map (\<lambda>(k, e). (k, ms_value (ms_storage st) e)) ix"
      by (rule Cons.IH, rule Cons.prems, rule list.set_intros(2))
    ultimately show ?case by (simp add: x ms_read_def map_filter_simps)
  qed (simp add: ms_read_def map_filter_simps)
qed

lemma ms_read_filter: "ms_ok st \<Longrightarrow> ms_read st (filter (\<lambda>e. P (fst e)) (ms_index st)) = filter (\<lambda>e. P (fst e)) (ms_entries st)"
  by (simp add: ms_read_index ms_entries_def filter_map comp_def case_prod_unfold)

lemma live_bytes_insert: "live_bytes (bt_insert k e m) \<le> live_bytes m + ve_len e"
  by (induction k e m rule: bt_insert.induct) (auto simp: live_bytes_def)

lemma live_bytes_remove: "live_bytes (bt_remove k m) \<le> live_bytes m"
  by (induction m) (auto simp: live_bytes_def bt_remove_def)

text \<open>Writing a value and pointing its key at it.\<close>

lemma add_entry_ok:
  assumes st: "ms_ok st" and w: "storage_write grants (ms_storage st) val = Inr (off, s')"
    and st': "ms_storage st' = s'" "ms_index st' = bt_insert key \<lparr>ve_offset = off, ve_len = length val\<rparr> (ms_index st)"
      "ms_size_bytes st' = (case map_of (ms_index st) key of
         Some ex \<Rightarrow> ms_size_bytes st - ve_len ex + length val | None \<Rightarrow> ms_size_bytes st + (length key + length val))"
  shows "ms_ok st'" "ms_entries st' = bt_insert key val (ms_entries st)"
proof -
  let ?s = "ms_storage st"
  have ok: "bt_ok (ms_index st)" "storage_ok ?s" "\<And>k e. (k, e) \<in> set (ms_index st) \<Longrightarrow> ve_offset e + ve_len e \<le> used_bytes ?s"
    "live_bytes (ms_index st) \<le> used_bytes ?s" "ms_size_bytes st = entries_size (ms_entries st)"
    using st by (auto simp: ms_ok_def)
  note wr = storage_write_ok [OF ok(2) w]
  have same: "ms_value s' e = ms_value ?s e" if "(k, e) \<in> set (ms_index st)" for k e
  proof -
    have "take (ve_len e) (drop (ve_offset e) r) = drop (ve_offset e) (take (ve_offset e + ve_len e) (take (used_bytes ?s) r))" for r :: bytes
      using ok(3) [OF that] by (simp add: take_drop min_absorb1 add.commute)
    then show ?thesis unfolding ms_value_def using wr(4) by metis
  qed
  have new: "ms_value s' \<lparr>ve_offset = off, ve_len = length val\<rparr> = val"
    using wr(1,5) by (simp add: ms_value_def)
  have idx: "bt_ok (ms_index st')" by (simp add: st' bt_ok_insert ok(1))
  show all: "ms_entries st' = bt_insert key val (ms_entries st)"
  proof (rule bt_eqI)
    show "bt_ok (ms_entries st')" "bt_ok (bt_insert key val (ms_entries st))"
      using idx ok(1) by (simp_all add: bt_ok_ms_entries bt_ok_insert)
    show "map_of (ms_entries st') = map_of (bt_insert key val (ms_entries st))"
      using same new map_of_SomeD [of "ms_index st"]
      by (auto simp: fun_eq_iff map_of_ms_entries st' map_of_bt_insert split: option.split intro!: option.map_cong)
  qed
  have len: "length (ms_value ?s ex) = ve_len ex" if "map_of (ms_index st) key = Some ex" for ex
    using length_ms_value [OF ok(2)] ok(3) map_of_SomeD [OF that] by blast
  have "ms_size_bytes st' = entries_size (ms_entries st')"
    using entries_size_insert_cases [OF bt_ok_ms_entries [OF ok(1)], where k = key and v = val] len
    by (auto simp: all st'(3) ok(5) map_of_ms_entries split: option.split)
  moreover have "(\<forall>(k, e) \<in> set (ms_index st'). ve_offset e + ve_len e \<le> used_bytes s')"
    using ok(3) wr(1,2) by (force simp: st' set_bt_insert [OF ok(1)])
  moreover have "live_bytes (ms_index st') \<le> used_bytes s'"
    using ok(4) wr(2) live_bytes_insert [of key "\<lparr>ve_offset = off, ve_len = length val\<rparr>" "ms_index st"] by (simp add: st')
  ultimately show "ms_ok st'" using idx wr(3) by (simp add: ms_ok_def st'(1))
qed

lemma rewrite_loop_ok:
  assumes "ms_ok st" "distinct (map fst data)" "fst ` set data \<inter> fst ` set (ms_index st) = {}"
    and "rewrite_loop grants data st = (st', None)"
  shows "ms_ok st' \<and> ms_entries st' = foldl (\<lambda>m (k, v). bt_insert k v m) (ms_entries st) data \<and>
    is_persistent (ms_storage st') = is_persistent (ms_storage st)"
  using assms
proof (induction grants data st rule: rewrite_loop.induct)
  case (2 grants key val rest st)
  obtain off s' where w: "storage_write grants (ms_storage st) val = Inr (off, s')"
    using 2(5) by (auto split: sum.splits)
  define st1 where "st1 = st\<lparr>ms_storage := s', ms_index := bt_insert key \<lparr>ve_offset = off, ve_len = length val\<rparr> (ms_index st),
               ms_next_version := ms_next_version st + 1, ms_size_bytes := ms_size_bytes st + (length key + length val)\<rparr>"
  have fresh: "map_of (ms_index st) key = None" using 2(4) by (auto simp: map_of_eq_None_iff)
  have st1: "ms_ok st1" "ms_entries st1 = bt_insert key val (ms_entries st)"
    using add_entry_ok [OF 2(2) w, of st1 key] fresh by (simp_all add: st1_def)
  have "fst ` set (ms_index st1) = insert key (fst ` set (ms_index st))"
    using fresh 2(2) by (auto simp: st1_def set_bt_insert ms_ok_def map_of_eq_None_iff image_iff)
  then have dj: "fst ` set rest \<inter> fst ` set (ms_index st1) = {}" using 2(3,4) by auto
  have r: "rewrite_loop grants rest st1 = (st', None)" using 2(5) by (simp add: w st1_def)
  have "is_persistent (ms_storage st1) = is_persistent (ms_storage st)"
    using storage_write_ok(7) [OF _ w] 2(2) by (simp add: st1_def ms_ok_def)
  moreover have "ms_ok st' \<and> ms_entries st' = foldl (\<lambda>m (k, v). bt_insert k v m) (ms_entries st1) rest \<and>
    is_persistent (ms_storage st') = is_persistent (ms_storage st1)"
    using 2(1) [OF w refl] st1(1) 2(3) dj r unfolding st1_def by simp
  ultimately show ?case by (simp add: st1(2))
qed simp

lemma rewrite_loop_succeeds:
  "storage_ok (ms_storage st) \<Longrightarrow> room (ms_storage st) (\<Sum>(k, v)\<leftarrow>data. length v) \<or> grants = (\<lambda>_. True) \<Longrightarrow>
    \<exists>st'. rewrite_loop grants data st = (st', None)"
proof (induction grants data st rule: rewrite_loop.induct)
  case (2 grants key val rest st)
  have "room (ms_storage st) (length val) \<or> grants = (\<lambda>_. True)" using 2(3) by (cases "ms_storage st") auto
  then obtain off s' where w: "storage_write grants (ms_storage st) val = Inr (off, s')"
    using storage_write_succeeds by blast
  from 2(1) [OF w refl] show ?case
    using 2(3) storage_write_ok(3,6) [OF 2(2) w] by (auto simp: w)
qed simp

lemma reset_ok:
  assumes "storage_ok s"
  shows "storage_ok (storage_reset s)" "used_bytes (storage_reset s) = 0" "n \<le> used_bytes s \<Longrightarrow> room (storage_reset s) n"
    "is_persistent (storage_reset s) = is_persistent s"
  using assms by (cases s; simp)+

lemma empty_ok: "storage_ok s \<Longrightarrow> used_bytes s = 0 \<Longrightarrow>
    ms_ok \<lparr>ms_index = [], ms_storage = s, ms_size_bytes = 0, ms_next_version = v, ms_deletes_since_compact = d\<rparr>"
  by (simp add: ms_ok_def bt_ok_def live_bytes_def ms_entries_def entries_size_def)

lemma ms_okD:
  assumes "ms_ok st"
  shows "bt_ok (ms_index st)" "storage_ok (ms_storage st)" "live_bytes (ms_index st) \<le> used_bytes (ms_storage st)"
    "ms_size_bytes st = entries_size (ms_entries st)"
    "(k, e) \<in> set (ms_index st) \<Longrightarrow> ve_offset e + ve_len e \<le> used_bytes (ms_storage st)"
  using assms by (auto simp: ms_ok_def)

lemma live_bytes_entries: "ms_ok st \<Longrightarrow> (\<Sum>(k, v)\<leftarrow>ms_entries st. length v) = live_bytes (ms_index st)"
  using length_ms_value [OF ms_okD(2)] ms_okD(5)
  by (auto simp: ms_entries_def live_bytes_def case_prod_unfold intro!: arg_cong [where f = sum_list] map_cong)

text \<open>Compaction never fails, since the live values fit into the used part, and keeps the entries.\<close>

lemma compact_ok:
  assumes "ms_ok st"
  shows "\<exists>st'. compact grants st = (st', None) \<and> ms_ok st' \<and> ms_entries st' = ms_entries st \<and>
    is_persistent (ms_storage st') = is_persistent (ms_storage st)"
proof -
  let ?st1 = "st\<lparr>ms_storage := storage_reset (ms_storage st), ms_index := [], ms_size_bytes := 0\<rparr>"
  have live: "ms_read st (ms_index st) = ms_entries st"
    using ms_read_index [OF assms order_refl] by (simp add: ms_entries_def)
  have st1: "ms_ok ?st1" "ms_entries ?st1 = []"
    using reset_ok [OF ms_okD(2) [OF assms]] by (simp_all add: ms_ok_def bt_ok_def live_bytes_def ms_entries_def entries_size_def)
  have "room (ms_storage ?st1) (\<Sum>(k, v)\<leftarrow>ms_entries st. length v)"
    using reset_ok(3) [OF ms_okD(2) [OF assms]] ms_okD(3) [OF assms] live_bytes_entries [OF assms] by simp
  then obtain st2 where r: "rewrite_loop grants (ms_entries st) ?st1 = (st2, None)"
    using rewrite_loop_succeeds [OF ms_okD(2) [OF st1(1)]] by blast
  have "distinct (map fst (ms_entries st))" by (rule bt_ok_distinct [OF bt_ok_ms_entries [OF ms_okD(1) [OF assms]]])
  from rewrite_loop_ok [OF st1(1) this _ r]
  have "ms_ok st2" "ms_entries st2 = restored (ms_entries st)" "is_persistent (ms_storage st2) = is_persistent (ms_storage st)"
    using st1(2) reset_ok(4) [OF ms_okD(2) [OF assms]] by (simp_all add: restored_def)
  moreover from this(2) have "ms_entries st2 = ms_entries st"
    by (simp add: restored_sorted bt_ok_ms_entries ms_okD(1) [OF assms])
  moreover have "compact grants st = (st2\<lparr>ms_deletes_since_compact := 0\<rparr>, None)" by (simp add: compact_def live r)
  moreover have "ms_ok (st2\<lparr>ms_deletes_since_compact := 0\<rparr>) = ms_ok st2"
    "ms_entries (st2\<lparr>ms_deletes_since_compact := 0\<rparr>) = ms_entries st2"
    by (simp_all add: ms_ok_def ms_entries_def)
  ultimately show ?thesis by simp
qed

lemma ms_put_ok:
  assumes "ms_ok st" "ms_put grants st key val = (st', None)"
  shows "ms_ok st'" "ms_entries st' = bt_insert key val (ms_entries st)"
proof -
  obtain off s' where w: "storage_write grants (ms_storage st) val = Inr (off, s')"
    using assms(2) by (auto simp: ms_put_def split: sum.splits)
  define st2 where "st2 = (case map_of (ms_index st) key of
       Some existing \<Rightarrow> st\<lparr>ms_storage := s', ms_size_bytes := ms_size_bytes st - ve_len existing + length val,
         ms_index := bt_insert key \<lparr>ve_offset = off, ve_len = length val\<rparr> (ms_index st)\<rparr>
     | None \<Rightarrow> st\<lparr>ms_storage := s', ms_size_bytes := ms_size_bytes st + (length key + length val),
         ms_index := bt_insert key \<lparr>ve_offset = off, ve_len = length val\<rparr> (ms_index st)\<rparr>)"
  have "ms_ok st2 \<and> ms_entries st2 = bt_insert key val (ms_entries st)"
    using add_entry_ok [OF assms(1) w, of st2 key] by (auto simp: st2_def split: option.splits)
  moreover have "st' = st2 \<or> st' = fst (compact grants st2)"
    using assms(2) unfolding st2_def by (auto simp: ms_put_def w Let_def split: option.splits if_splits)
  ultimately show "ms_ok st'" "ms_entries st' = bt_insert key val (ms_entries st)"
    using compact_ok [of st2 grants] by auto
qed

lemma ms_put_error: "ms_put grants st key val = (st', Some e) \<Longrightarrow> st' = st"
  by (auto simp: ms_put_def Let_def split: sum.splits)

lemma ms_put_reliable: "snd (ms_put (\<lambda>_. True) st key val) = None"
  using storage_write_succeeds [of "ms_storage st" val "\<lambda>_. True"] by (auto simp: ms_put_def Let_def)

lemma ms_delete_ok:
  assumes "ms_ok st"
  shows "ms_ok (ms_delete st key)" "ms_entries (ms_delete st key) = bt_remove key (ms_entries st)"
proof -
  show all: "ms_entries (ms_delete st key) = bt_remove key (ms_entries st)"
    using bt_remove_absent [of "ms_index st" key]
    by (auto simp: ms_delete_def ms_entries_def bt_remove_def filter_map comp_def case_prod_unfold split: option.split)
  show "ms_ok (ms_delete st key)"
  proof (cases "map_of (ms_index st) key")
    case None
    then show ?thesis using assms by (simp add: ms_delete_def)
  next
    case (Some e)
    have "map_of (ms_entries st) key = Some (ms_value (ms_storage st) e)" by (simp add: map_of_ms_entries Some)
    moreover have "length (ms_value (ms_storage st) e) = ve_len e"
      by (rule length_ms_value [OF ms_okD(2) [OF assms] ms_okD(5) [OF assms map_of_SomeD [OF Some]]])
    ultimately have "entries_size (ms_entries (ms_delete st key)) = ms_size_bytes (ms_delete st key)"
      unfolding all using entries_size_remove [OF bt_ok_ms_entries [OF ms_okD(1) [OF assms]], of key] Some ms_okD(4) [OF assms]
      by (simp add: ms_delete_def)
    then show ?thesis
      using assms Some live_bytes_remove [of key "ms_index st"]
      by (auto simp: ms_ok_def ms_delete_def bt_ok_filter bt_remove_def)
  qed
qed

lemma ms_restore_ok:
  assumes "ms_ok st" "distinct (map fst (ss_data snap))" "ms_restore grants st snap = Some st'"
  shows "ms_ok st'" "ms_entries st' = restored (ss_data snap)"
proof -
  let ?st1 = "\<lparr>ms_index = [], ms_storage = storage_reset (ms_storage st), ms_size_bytes = 0, ms_next_version = 1, ms_deletes_since_compact = 0\<rparr>"
  have r: "rewrite_loop grants (ss_data snap) ?st1 = (st', None)"
    using assms(3) by (auto simp: ms_restore_def split: prod.splits option.splits)
  have "ms_ok ?st1" using reset_ok [OF ms_okD(2) [OF assms(1)]] by (simp add: empty_ok)
  from rewrite_loop_ok [OF this assms(2) _ r]
  show "ms_ok st'" "ms_entries st' = restored (ss_data snap)" by (simp_all add: restored_def ms_entries_def)
qed

lemma ms_restore_reliable: "ms_ok st \<Longrightarrow> ms_restore (\<lambda>_. True) st snap \<noteq> None"
  using rewrite_loop_succeeds [of "\<lparr>ms_index = [], ms_storage = storage_reset (ms_storage st), ms_size_bytes = 0,
      ms_next_version = 1, ms_deletes_since_compact = 0\<rparr>" "ss_data snap" "\<lambda>_. True"] reset_ok(1) [OF ms_okD(2)]
  by (auto simp: ms_restore_def)

section \<open>Contract\<close>

interpretation mmap: state_store "mmap_ops grants" ms_ok ms_entries for grants
proof (unfold_locales, goal_cases)
  case (2 st k)
  then show ?case
    using storage_get_region [OF ms_okD(2)] ms_okD(5)
    by (auto simp: mmap_ops_def ms_get_def map_of_ms_entries ms_value_def split: option.split dest!: map_of_SomeD)
next
  case (6 st p)
  then show ?case
    using successor_behind [of p] ms_read_filter [OF 6] ms_read_filter [OF 6, of "\<lambda>_. True"]
    by (auto simp: mmap_ops_def ms_prefix_scan_def bt_range_def bt_from_def prefix_range split: option.splits intro!: filter_cong)
next
  case (7 st lo hi)
  then show ?case using ms_read_filter [OF 7, of "\<lambda>k. lo \<le> k \<and> k < hi"] by (simp add: mmap_ops_def ms_range_scan_def bt_range_def)
next
  case (10 st)
  then show ?case by (simp add: mmap_ops_def ms_entries_def)
next
  case (11 st now)
  then show ?case using ms_read_filter [OF 11, of "\<lambda>_. True"] by (simp add: mmap_ops_def ms_snapshot_def)
next
  case (12 st snap st')
  then show ?case by (simp add: mmap_ops_def ms_restore_ok)
next
  case (13 st)
  then show ?case
    using reset_ok [OF ms_okD(2)]
    by (simp add: mmap_ops_def ms_clear_def ms_ok_def bt_ok_def live_bytes_def ms_entries_def entries_size_def)
qed (auto simp: mmap_ops_def bt_ok_ms_entries ms_okD(1,4) ms_put_ok ms_delete_ok ms_contains_def map_of_ms_entries
  dest: ms_put_error)

interpretation reliable_mmap: reliable_store "mmap_ops (\<lambda>_. True)" ms_ok ms_entries
  by unfold_locales (simp_all add: mmap_ops_def ms_put_reliable ms_restore_reliable)

lemma ms_in_memory_ok: "ms_ok (ms_in_memory capacity)" "ms_entries (ms_in_memory capacity) = []"
  by (simp_all add: ms_in_memory_def empty_ok ms_entries_def)

lemma ms_persistent_new_ok:
  assumes "ms_persistent xc None idx capacity = Some (Inr st)"
  shows "ms_ok st" "ms_entries st = []"
proof -
  have "length (overwrite buf at data) = length buf" if "at + length data \<le> length buf" for buf data :: bytes and at
    using that by (rule length_overwrite)
  then have "st = \<lparr>ms_index = [], ms_storage = ms_storage st, ms_size_bytes = 0, ms_next_version = 1, ms_deletes_since_compact = 0\<rparr>"
    "storage_ok (ms_storage st)" "used_bytes (ms_storage st) = 0"
    using assms by (auto simp: ms_persistent_def Let_def init_mmap_header_def mmap_header_size_def)
  then show "ms_ok st" using empty_ok by metis
  show "ms_entries st = []"
    using assms by (auto simp: ms_persistent_def Let_def init_mmap_header_def mmap_header_size_def ms_entries_def)
qed

text \<open>
  The three state stores cannot be told apart: for every sequence of writes, deletions, lookups, scans, snapshots,
  restores of duplicate-free snapshots and clears, the in-memory store, the hash-map store and the memory-mapped store, in memory
  or on a new file that can grow as requested, return the same results, namely those of the sorted list of entries. (C5)
\<close>

theorem state_stores_agree:
  assumes "list_all op_ok xs" "ms_persistent xc None idx capacity' = Some (Inr st)"
  shows "store_run in_memory_ops xs im_new = store_run spec_ops xs [] \<and>
    store_run ahash_ops xs ah_new = store_run spec_ops xs [] \<and>
    store_run (mmap_ops (\<lambda>_. True)) xs (ms_in_memory capacity) = store_run spec_ops xs [] \<and>
    store_run (mmap_ops (\<lambda>_. True)) xs st = store_run spec_ops xs []"
  using in_memory.run_refines [OF _ assms(1), of im_new] ahash.run_refines [OF _ assms(1), of ah_new]
    reliable_mmap.run_refines [OF ms_in_memory_ok(1) assms(1), of capacity]
    reliable_mmap.run_refines [OF ms_persistent_new_ok(1) [OF assms(2)] assms(1)]
  by (simp add: im_ok_def im_new_def ah_ok_def ah_new_def ah_all_def bt_ok_def entries_size_def ms_in_memory_ok(2)
    ms_persistent_new_ok(2) [OF assms(2)])

theorem state_stores_agree_witness:
  "store_run (mmap_ops (\<lambda>_. True)) [SoPut [1] [2], SoPut [3] [4], SoDelete [1], SoPrefixScan [3], SoSize] (ms_in_memory 0) =
     [ObUnit, ObUnit, ObUnit, ObEntries [([3], [4])], ObNat 2]"
proof -
  have ok: "list_all op_ok [SoPut [1] [2], SoPut [3] [4], SoDelete [1], SoPrefixScan [3], SoSize]" by simp
  obtain st where st: "ms_persistent xc None None 0 = Some (Inr st)" for xc
    by (simp add: ms_persistent_def init_mmap_header_def Let_def mmap_header_size_def)
  have "store_run spec_ops [SoPut [1] [2], SoPut [3] [4], SoDelete [1], SoPrefixScan [3], SoSize] [] =
      [ObUnit, ObUnit, ObUnit, ObEntries [([3], [4])], ObNat 2]"
    by (simp add: spec_ops_def bt_remove_def entries_size_def)
  then show ?thesis using state_stores_agree [OF ok st, of 0] by (simp only:)
qed

section \<open>Reopening\<close>

text \<open>
  What the index encoding promises: an index that was encoded decodes to itself, provided its offsets and lengths fit in
  32 bits, the width at which rkyv's default configuration archives a \<^verbatim>\<open>usize\<close>.
\<close>

definition fits_u32 :: "value_index \<Rightarrow> bool" where
  "fits_u32 ix \<longleftrightarrow> list_all (\<lambda>(k, e). ve_offset e < 2 ^ 32 \<and> ve_len e < 2 ^ 32) ix"

definition index_codec_ok :: "index_codec \<Rightarrow> bool" where
  "index_codec_ok xc \<longleftrightarrow> (\<forall>ix b. fits_u32 ix \<and> xc_ser xc ix = Inr b \<longrightarrow> xc_de xc b = Inr ix)"

lemma ms_ok_fits_u32:
  assumes "ms_ok st" "used_bytes (ms_storage st) < 2 ^ 32"
  shows "fits_u32 (ms_index st)"
  using ms_okD(5) [OF assms(1)] assms(2) by (fastforce simp: fits_u32_def list_all_iff)

lemma load_saved_index:
  assumes "index_codec_ok xc" "save_index xc st = Inr (Some idx)" "ms_ok st" "used_bytes (ms_storage st) < 2 ^ 32" "ms_next_version st < 2 ^ 64"
  shows "load_index xc (Some idx) = Inr (ms_index st, used_bytes (ms_storage st), ms_next_version st)"
proof -
  obtain b where b: "xc_ser xc (ms_index st) = Inr b" using assms(2) by (auto simp: save_index_def split: if_splits sum.splits)
  then have d: "xc_de xc b = Inr (ms_index st)"
    using assms(1) ms_ok_fits_u32 [OF assms(3,4)] unfolding index_codec_ok_def by blast
  have idx: "idx = le64 mmap_magic @ le32 mmap_version @ [0, 0, 0, 0] @ le64 (of_nat (used_bytes (ms_storage st))) @
      le64 (of_nat (ms_next_version st)) @ b"
    using assms(2) b by (auto simp: save_index_def split: if_splits)
  have "of_le32 (le32 mmap_version) = mmap_version" by (simp add: of_le32_def le32_def mmap_version_def)
  then show ?thesis
    using assms(4,5) d by (simp add: load_index_def idx unat_of_nat)
qed

text \<open>Only the part of the file up to the saved write position matters.\<close>

lemma reopen_entries:
  assumes "index_codec_ok xc" and st: "ms_ok st" "ms_storage st = Mmap m w cap" and idx: "save_index xc st = Inr (Some idx)"
    and "w < 2 ^ 32" "ms_next_version st < 2 ^ 64"
    and m': "mmap_header_size + w \<le> length m'" "take (mmap_header_size + w) m' = take (mmap_header_size + w) m"
  shows "\<exists>st'. ms_persistent xc (Some m') (Some idx) c = Some (Inr st') \<and> ms_ok st' \<and> ms_entries st' = ms_entries st"
proof -
  define st' where "st' = \<lparr>ms_index = ms_index st, ms_storage = Mmap m' w (length m'),
      ms_size_bytes = (\<Sum>(k, e)\<leftarrow>ms_index st. length k + ve_len e), ms_next_version = ms_next_version st, ms_deletes_since_compact = 0\<rparr>"
  have "load_index xc (Some idx) = Inr (ms_index st, w, ms_next_version st)"
    using load_saved_index [OF assms(1) idx st(1)] assms(3,5,6) by simp
  then have "ms_persistent xc (Some m') (Some idx) c = Some (Inr st')"
    using m'(1) by (simp add: ms_persistent_def st'_def)
  moreover have vals: "ms_value (Mmap m' w (length m')) e = ms_value (Mmap m w cap) e" if "(k, e) \<in> set (ms_index st)" for k e
  proof -
    have "ve_offset e + ve_len e \<le> w" using ms_okD(5) [OF st(1) that] st(2) by simp
    then have "take (ve_len e) (drop (ve_offset e) (drop mmap_header_size r)) =
        drop (mmap_header_size + ve_offset e) (take (mmap_header_size + ve_offset e + ve_len e) (take (mmap_header_size + w) r))" for r :: bytes
      by (simp add: take_drop min_absorb1 add.commute add.left_commute)
    then show ?thesis unfolding ms_value_def region.simps using m'(2) by metis
  qed
  then have all: "ms_entries st' = ms_entries st"
    using st(2) by (auto simp: ms_entries_def st'_def)
  moreover have "(\<Sum>(k, e)\<leftarrow>ms_index st. length k + ve_len e) = entries_size (ms_entries st)"
    using length_ms_value [OF ms_okD(2) [OF st(1)]] ms_okD(5) [OF st(1)]
    by (auto simp: entries_size_def ms_entries_def case_prod_unfold intro!: arg_cong [where f = sum_list] map_cong)
  then have "ms_ok st'" using st all m'(1) by (simp add: ms_ok_def) (simp add: st'_def)
  ultimately show ?thesis by blast
qed

text \<open>Without deletions there is no compaction, and writes leave the used part alone.\<close>

lemma mmap_write_prefix:
  assumes "storage_ok (Mmap m w cap)" "storage_write grants (Mmap m w cap) data = Inr (off, s')"
  shows "\<exists>m' cap'. s' = Mmap m' (w + length data) cap' \<and> take (mmap_header_size + w) m' = take (mmap_header_size + w) m"
proof -
  let ?n = "growth (mmap_header_size + (w + length data))"
  have "length m \<le> ?n" if "mmap_header_size + (w + length data) > cap"
    using that growth_ge [of "mmap_header_size + (w + length data)"] assms(1) by simp
  then show ?thesis
    using assms by (auto simp: Let_def take_overwrite resized_grow split: if_splits)
qed

lemma put_keeps_file:
  assumes "ms_ok st" "ms_deletes_since_compact st = 0" "ms_storage st = Mmap m w cap" "W \<le> w"
  shows "\<exists>m' w' cap'. ms_storage (fst (ms_put grants st k v)) = Mmap m' w' cap' \<and> w \<le> w' \<and>
    take (mmap_header_size + W) m' = take (mmap_header_size + W) m \<and>
    ms_ok (fst (ms_put grants st k v)) \<and> ms_deletes_since_compact (fst (ms_put grants st k v)) = 0"
proof (cases "storage_write grants (ms_storage st) v")
  case (Inl e)
  then have "fst (ms_put grants st k v) = st" by (simp add: ms_put_def)
  then show ?thesis using assms by simp
next
  case (Inr r)
  then obtain off s' where w: "storage_write grants (ms_storage st) v = Inr (off, s')" by (cases r) simp
  have "snd (ms_put grants st k v) = None" by (simp add: ms_put_def w Let_def)
  then have ok: "ms_ok (fst (ms_put grants st k v))" using ms_put_ok(1) [OF assms(1)] by (metis prod.collapse)
  obtain m' cap' where m': "s' = Mmap m' (w + length v) cap'" "take (mmap_header_size + w) m' = take (mmap_header_size + w) m"
    using mmap_write_prefix [of m w cap grants v off s'] w ms_okD(2) [OF assms(1)] unfolding assms(3) by blast
  have "take (mmap_header_size + W) m' = take (mmap_header_size + W) m"
    using m'(2) assms(4) by (metis min.absorb1 nat_add_left_cancel_le take_take)
  moreover have "ms_storage (fst (ms_put grants st k v)) = s'" "ms_deletes_since_compact (fst (ms_put grants st k v)) = 0"
    using assms(2) by (auto simp: ms_put_def w Let_def split: option.split)
  ultimately show ?thesis using m' ok by simp
qed

lemma puts_keep_file:
  assumes "ms_ok st" "ms_deletes_since_compact st = 0" "ms_storage st = Mmap m w cap" "W \<le> w"
  shows "\<exists>m' w' cap'. ms_storage (foldl (\<lambda>st (k, v). fst (ms_put grants st k v)) st puts) = Mmap m' w' cap' \<and> W \<le> w' \<and>
    mmap_header_size + w' \<le> length m' \<and> take (mmap_header_size + W) m' = take (mmap_header_size + W) m"
  using assms
proof (induction puts arbitrary: st m w cap)
  case Nil
  then show ?case using ms_okD(2) [of st] by simp
next
  case (Cons p puts)
  obtain k v where p: "p = (k, v)" by (cases p)
  obtain m1 w1 cap1 where 1: "ms_storage (fst (ms_put grants st k v)) = Mmap m1 w1 cap1" "w \<le> w1"
    "take (mmap_header_size + W) m1 = take (mmap_header_size + W) m" "ms_ok (fst (ms_put grants st k v))"
    "ms_deletes_since_compact (fst (ms_put grants st k v)) = 0"
    using put_keeps_file [OF Cons.prems, of grants k v] by blast
  have "W \<le> w1" using 1(2) Cons.prems(4) by simp
  from Cons.IH [OF 1(4,5,1) this] show ?case using 1(3) by (simp add: p)
qed

text \<open>
  After a flush, a persistent store reopens with exactly the flushed entries, also after a crash behind any number of
  further writes that reached the state file but not the index file, as long as nothing was deleted since the last
  compaction and less than 4 GiB were used at the flush, so that the offsets of the index fit the 32 bits of its encoding. (C22)
\<close>

theorem mmap_reopens_flushed:
  assumes "index_codec_ok xc" "ms_ok st" "ms_flush xc st = Inr (Some f, Some idx)"
    "used_bytes (ms_storage st) < 2 ^ 32" "ms_next_version st < 2 ^ 64" "ms_deletes_since_compact st = 0"
    "mapped_file (ms_storage (foldl (\<lambda>st (k, v). fst (ms_put grants st k v)) st puts)) = Some f'"
  shows "\<exists>st'. ms_persistent xc (Some f') (Some idx) c = Some (Inr st') \<and> ms_ok st' \<and> ms_entries st' = ms_entries st"
proof -
  obtain m w cap where s: "ms_storage st = Mmap m w cap"
    using assms(3) by (cases "ms_storage st") (auto simp: ms_flush_def split: sum.splits)
  have idx: "save_index xc st = Inr (Some idx)" using assms(3) by (auto simp: ms_flush_def split: sum.splits)
  obtain w' where "w \<le> w'" "mmap_header_size + w' \<le> length f'" "take (mmap_header_size + w) f' = take (mmap_header_size + w) m"
    using puts_keep_file [OF assms(2,6) s order_refl, of grants puts] assms(7) by auto
  then show ?thesis using reopen_entries [OF assms(1,2) s idx, of f' c] assms(4,5) s by simp
qed

text \<open>An encoding of indexes: the number of a list of numbers, in unary.\<close>

definition unary_codec :: index_codec where
  "unary_codec =
     \<lparr>xc_ser = (\<lambda>ix. Inr (replicate (to_nat (map (\<lambda>(k, e). (map unat k, ve_offset e, ve_len e)) ix)) 0)),
      xc_de = (\<lambda>b. Inr (map (\<lambda>(k, off, len). (map of_nat k, \<lparr>ve_offset = off, ve_len = len\<rparr>)) (from_nat (length b))))\<rparr>"

lemma unary_codec_ok: "index_codec_ok unary_codec"
proof -
  have "map (\<lambda>(k, off, len). (map of_nat k, \<lparr>ve_offset = off, ve_len = len\<rparr>)) (map (\<lambda>(k, e). (map unat k, ve_offset e, ve_len e)) ix) = ix"
    for ix :: value_index by (auto simp: comp_def case_prod_unfold intro!: map_idI)
  then show ?thesis by (simp add: index_codec_ok_def unary_codec_def)
qed

definition sample_store :: mmap_store where
  "sample_store = fst (ms_put (\<lambda>_. True)
     \<lparr>ms_index = [], ms_storage = Mmap (replicate 1056 0) 0 1056, ms_size_bytes = 0, ms_next_version = 1, ms_deletes_since_compact = 0\<rparr> [1] [7])"

theorem mmap_reopens_flushed_witness:
  "\<exists>f idx f' st'. ms_flush unary_codec sample_store = Inr (Some f, Some idx) \<and>
     mapped_file (ms_storage (fst (ms_put (\<lambda>_. True) sample_store [2] [9]))) = Some f' \<and>
     ms_persistent unary_codec (Some f') (Some idx) 0 = Some (Inr st') \<and> ms_entries st' = [([1], [7])]"
proof -
  let ?st0 = "\<lparr>ms_index = [], ms_storage = Mmap (replicate 1056 0) 0 1056, ms_size_bytes = 0, ms_next_version = 1, ms_deletes_since_compact = 0\<rparr>"
  have 0: "ms_ok ?st0" by (rule empty_ok) (simp_all add: mmap_header_size_def)
  have p: "ms_put (\<lambda>_. True) ?st0 [1] [7] = (sample_store, None)"
    by (simp add: sample_store_def prod_eq_iff ms_put_reliable)
  have st: "ms_ok sample_store" "ms_entries sample_store = [([1], [7])]"
    using ms_put_ok [OF 0 p] by (simp_all add: ms_entries_def)
  have s: "ms_storage sample_store = Mmap (overwrite (replicate 1056 0) 32 [7]) 1 1056" "ms_next_version sample_store = 1"
    "ms_deletes_since_compact sample_store = 0"
    by (simp_all add: sample_store_def ms_put_def Let_def mmap_header_size_def)
  obtain f idx where f: "ms_flush unary_codec sample_store = Inr (Some f, Some idx)"
    by (simp add: ms_flush_def save_index_def s unary_codec_def)
  obtain f' where f': "mapped_file (ms_storage (foldl (\<lambda>st (k, v). fst (ms_put (\<lambda>_. True) st k v)) sample_store [([2], [9])])) = Some f'"
    using put_keeps_file [OF st(1) s(3) s(1) order_refl, of "\<lambda>_. True" "[2]" "[9]"] by auto
  from mmap_reopens_flushed [OF unary_codec_ok st(1) f _ _ s(3) f', of 0] show ?thesis using f f' st(2) s by auto
qed

text \<open>
  A compaction moves values under the saved index. A store that is flushed, compacted by a later write and then lost
  before the next flush reopens with values that were never stored.
\<close>

definition compacted_store :: "mmap_store \<times> mmap_store" where
  "compacted_store =
     (let st0 = \<lparr>ms_index = [], ms_storage = Mmap (replicate 40 0) 0 40, ms_size_bytes = 0, ms_next_version = 1, ms_deletes_since_compact = 0\<rparr>;
          flushed = fst (ms_put (\<lambda>_. True) (fst (ms_put (\<lambda>_. True) st0 [1] [1, 1, 1, 1])) [2] [2])
      in (flushed, fst (ms_put (\<lambda>_. True) (ms_delete flushed [1]) [3] [3])))"

lemma stale_index_after_compaction:
  "ms_get (fst compacted_store) [1] = Some [1, 1, 1, 1] \<and>
   ms_get ((fst compacted_store)\<lparr>ms_storage := Mmap (the (mapped_file (ms_storage (snd compacted_store)))) 5 40\<rparr>) [1] = Some [2, 3, 1, 1]"
  by code_simp

text \<open>A state file that exists but is shorter than a header makes opening panic.\<close>

lemma short_state_file_panics: "ms_persistent xc (Some (replicate 27 0)) idx c = None"
  by (simp add: ms_persistent_def init_mmap_header_def mmap_header_size_def Let_def)

end
