(* ===== verification/Spec2Isabelle.thy ===== *)
theory Spec2Isabelle
  imports Watermark_Generators Timer_Service Watermark_Tracker Partitioned_Watermark
    Tracker_Refinement Core_Watermark Keyed_Watermark Alignment_Groups Checkpoint_Barrier Dag_Executor
    Multicast_Buffer Wal_Recovery Sliding_Window Dyn_Aggregates Mmap_Store
begin

text \<open>
  A verification of LaminarDB, an embedded streaming database in Rust. Paths below are relative to \<^verbatim>\<open>src/crates\<close>.

  The program. Events with timestamps flow from sources through a graph of operators to sinks. Watermarks say how
  far event time has advanced; they decide which events are late and when windows close. Barriers flow with the events
  and cut the stream into consistent checkpoints. State lives in state stores, and is made durable by checkpoints and
  write-ahead logs from which a restart recovers. The development models the core of this, \<^verbatim>\<open>laminar-core\<close> and
  \<^verbatim>\<open>laminar-storage\<close>, from the source, and proves what each part promises and that the parts fit together.

  How code is modelled. A struct is a record, an enum a datatype, an operation a function that returns the changed
  state. \<^verbatim>\<open>i64\<close> is an integer with wrap-around or saturation written out as in the release profile; \<^verbatim>\<open>u64\<close> and \<^verbatim>\<open>usize\<close>
  counters are natural numbers, and words where their bits or overflow matter; bytes are 8-bit words. A \<^verbatim>\<open>HashMap\<close> is an
  association list in an unspecified order, a \<^verbatim>\<open>BTreeMap\<close> the list of its entries in key order, a \<^verbatim>\<open>BinaryHeap\<close> a list
  with the order of its elements. Errors are values; a panic is \<^verbatim>\<open>None\<close>. Clocks are arguments. Atomic operations are
  steps of a relation in which the threads interleave. Code outside the repository (rkyv, crc32c, serde, Arrow, the file
  system) is a parameter, with what the code relies on as a named hypothesis, and each property with such a hypothesis
  has a witness with a concrete instance. The interleaving is sequentially consistent: the
  weaker memory orderings that the atomics request are not modelled.

  \<^bold>\<open>Time\<close>
  \<^item> \<^verbatim>\<open>Watermark_Generators\<close>: \<^verbatim>\<open>Watermark\<close> of \<^verbatim>\<open>laminar-core/src/time/mod.rs\<close> and the generators of
    \<^verbatim>\<open>time/watermark.rs\<close> behind one locale, \<^verbatim>\<open>watermark_generator\<close>. Emitted watermarks increase strictly, metered or not, except those of the periodic and the source-provided generator, for
    which no such claim is made; the bounded generator's watermark is the maximum of what it has seen minus the bound.
  \<^item> \<^verbatim>\<open>Timer_Service\<close>: timers of \<^verbatim>\<open>time/mod.rs\<close>. A poll fires exactly the due timers in order, and every timer fires at
    most once.
  \<^item> \<^verbatim>\<open>Watermark_Tracker\<close>, \<^verbatim>\<open>Partitioned_Watermark\<close>, \<^verbatim>\<open>Core_Watermark\<close>, \<^verbatim>\<open>Tracker_Refinement\<close>: the trackers of
    \<^verbatim>\<open>time/watermark.rs\<close> and \<^verbatim>\<open>time/partitioned_watermark.rs\<close> behind the locale of trackers. No emitted watermark is
    ahead of an active input, as long as no partition is removed; the partitioned tracker with one partition per source
    simulates the plain one for watermarks below the largest 64-bit value.
  \<^item> \<^verbatim>\<open>Keyed_Watermark\<close>: \<^verbatim>\<open>time/keyed_watermark.rs\<close>. An accepted batch leaves the key states that its events leave one by
    one at the same instant, and the key limit holds. \<^verbatim>\<open>Alignment_Groups\<close>: \<^verbatim>\<open>time/alignment_group.rs\<close>. In pause mode
    no step pauses the last active source; a removal can still leave only paused ones, and the next due check then resumes
    at least one.

  \<^bold>\<open>Checkpoint barriers and the operator graph\<close>
  \<^item> \<^verbatim>\<open>Checkpoint_Barrier\<close>: \<^verbatim>\<open>checkpoint/barrier.rs\<close>. The packed command is a step relation over the atomic word; the claimed
    commands are a subsequence of the triggered ones.
  \<^item> \<^verbatim>\<open>Operator_Types\<close>: events, outputs, emission strategies and change records of \<^verbatim>\<open>operator/mod.rs\<close> and
    \<^verbatim>\<open>operator/window.rs\<close>.
  \<^item> \<^verbatim>\<open>Dag_Topology\<close>, \<^verbatim>\<open>Dag_Ordering\<close>: \<^verbatim>\<open>dag/topology.rs\<close>. Finalization ends; it succeeds exactly on graphs that are
    not empty, acyclic and within the fan-out limit, whose sources have an output, whose sinks have an input and whose other
    nodes have one of the two, and orders them topologically.
  \<^item> \<^verbatim>\<open>Dag_Watermark\<close>: \<^verbatim>\<open>dag/watermark.rs\<close>. A node's watermark is the minimum over the sources it depends on.
  \<^item> \<^verbatim>\<open>Dag_Checkpoint\<close>: \<^verbatim>\<open>dag/checkpoint.rs\<close> and \<^verbatim>\<open>dag/recovery\<close>. Barrier alignment takes a consistent cut, a
    finalised checkpoint records the last state of every node, and snapshots convert without loss, if operator identifiers
    are distinct.
  \<^item> \<^verbatim>\<open>Dag_Executor\<close>: \<^verbatim>\<open>dag/routing.rs\<close> and \<^verbatim>\<open>dag/executor.rs\<close>. An output event is queued once per outgoing edge, the queues
    are drained, and recovery gives operators their checkpointed state back if their restore inverts their checkpoint.
  \<^item> \<^verbatim>\<open>Multicast_Buffer\<close>: \<^verbatim>\<open>dag/multicast.rs\<close> under interleaving of producer and consumers. Every consumer reads every
    published value once and in order.

  \<^bold>\<open>Windows\<close>
  \<^item> \<^verbatim>\<open>Window_Assign\<close>: window identifiers and the tumbling and sliding assigners of \<^verbatim>\<open>operator/window.rs\<close> and
    \<^verbatim>\<open>operator/sliding_window.rs\<close> behind the locale \<^verbatim>\<open>window_assigner\<close>. Tumbling windows partition time; the sliding
    loop ends with exactly the windows that contain the timestamp.
  \<^item> \<^verbatim>\<open>Window_Aggregates\<close>: the static aggregates behind the locale \<^verbatim>\<open>accumulator\<close>; each computes its function (sums, and the sums
    behind averages, wrap to 64 bits), and merging chunks is folding the whole. \<^verbatim>\<open>Dyn_Aggregates\<close>: the dynamic and composite aggregates with their byte
    formats (\<^verbatim>\<open>Little_Endian\<close>), without the DataFusion adapters of \<^verbatim>\<open>laminar-sql\<close>; results have the types of the
    schema up to untyped nulls; merging loses nothing for counts, first and last values.
  \<^item> \<^verbatim>\<open>Tumbling_Window\<close>: the tumbling window operator in the runtime of the executor. For the strategies that emit on
    close, each window with on-time values that starts at or after the epoch is closed exactly once with the result of
    exactly those values, and emits one event if its output batch can be built; with a strategy that suppresses intermediate results, the timer of a window before the epoch
    emits nothing.
  \<^item> \<^verbatim>\<open>Sliding_Window\<close>: the sliding window operator of \<^verbatim>\<open>operator/sliding_window.rs\<close> in the same runtime and under the
    same assumptions. Each window is closed exactly once with the values of the events in time for that window; the
    changelog inserts and deletes so that one row per window with values remains.

  \<^bold>\<open>State and durability\<close>
  \<^item> \<^verbatim>\<open>State_Store\<close>, \<^verbatim>\<open>Mmap_Store\<close>: the stores of \<^verbatim>\<open>state\<close> behind the locale \<^verbatim>\<open>state_store\<close>. All refine the sorted list
    of entries; a flushed mapped store reopens with the flushed entries if nothing was deleted since the last compaction and
    less than 4 GiB are used.
  \<^item> \<^verbatim>\<open>Wal_Record\<close>, \<^verbatim>\<open>Per_Core_Wal\<close>, \<^verbatim>\<open>Wal_Durability\<close>, \<^verbatim>\<open>Write_Ahead_Log\<close>: the logs of \<^verbatim>\<open>laminar-storage\<close>,
    \<^verbatim>\<open>per_core_wal\<close> and \<^verbatim>\<open>wal.rs\<close>. After a crash exactly a prefix of the appended entries that contains the synced ones
    is read, provided that every entry is within the 256 MiB the reader accepts.
  \<^item> \<^verbatim>\<open>Incremental_Checkpoint\<close>, \<^verbatim>\<open>Wal_Recovery\<close>: \<^verbatim>\<open>incremental/manager.rs\<close>, \<^verbatim>\<open>incremental/recovery.rs\<close> and the
    coordinator and recovery of \<^verbatim>\<open>per_core_wal\<close>. Retention keeps the newest checkpoints; a repaired segment is exactly the
    valid records that were read, and recovery restores the effect of the log.

  \<^bold>\<open>Bounds\<close>
  Loops are total functions, by structural recursion or a measure, except two partial functions: the loop of the sliding
  assigner, proved to return for timestamps whose windows stay in the 64-bit range, and Kahn's loop of the graph
  ordering, proved to return for every graph the operations build. No definition uses fuel. Statements about timestamps
  assume 64-bit values and name the bound where a sum must not overflow. Lengths and versions written to files as 64-bit
  numbers are assumed to fit.

  \<^bold>\<open>Not modelled\<close>
  Two kinds of code are left out. The first cannot be translated without the meaning of code that is not in the
  repository: query execution in \<^verbatim>\<open>laminar-sql\<close> and \<^verbatim>\<open>laminar-db\<close> (DataFusion plans over Arrow batches), the
  connectors that drive Kafka, PostgreSQL, MySQL and Delta Lake clients, discovery over the network, the HTTP server and
  the procedural macros. The second is plain Rust that could be translated in the same style and has not been: in
  \<^verbatim>\<open>laminar-core\<close> the session window operator, the remaining operators (top-k, sorting, lag and lead,
  changelog, table cache), the lock-free queues and channels, subscriptions, lookup predicates, partition assignment and
  guards, the view registry and the graph builder; in \<^verbatim>\<open>laminar-storage\<close> the changelog, source offsets, checkpoint layout
  and manifests; in the other crates the parsers, rewriters, configuration and format code. Nothing is claimed about
  either kind.
\<close>

end
